(* ===== verification/GcuPrelude.thy ===== *)
theory GcuPrelude
  imports Complex_Main "HOL-Library.Word"
begin

text \<open>
  The prelude of the development: the values that stand for errors of the runtime and for
  C++ exceptions, the state-and-exception actions in which the stateful components are
  written together with a small Hoare calculus for them, the ordered \<^verbatim>\<open>std::set\<close> with a
  custom comparator, and the facts on lists that the components share.
\<close>

unbundle bit_operations_syntax

named_theorems hoare_rules \<open>rules of the Hoare calculus, one per combinator\<close>
named_theorems act_simps \<open>unfolding equations of the action combinators\<close>

section \<open>Errors and exceptions\<close>

text \<open>
  \<^verbatim>\<open>topsError_t\<close> as far as the sources name its values; every other code is
  \<open>topsErrorOther n\<close>.
\<close>

datatype tops_error =
    topsSuccess
  | topsErrorMemoryAllocation
  | topsErrorNotReady
  | topsErrorNoDevice
  | topsErrorInsufficientDriver
  | topsErrorInitializationError
  | topsErrorUnknown
  | topsErrorInvalidValue
  | topsErrorPeerAccessAlreadyEnabled
  | topsErrorPeerAccessNotEnabled
  | topsErrorOther nat

text \<open>
  What a C++ call can end with instead of a value. \<open>InternalAssert\<close> is a failed
  \<^verbatim>\<open>TORCH_INTERNAL_ASSERT\<close> or \<^verbatim>\<open>AT_ASSERT\<close>, \<open>TorchCheck\<close> a failed \<^verbatim>\<open>TORCH_CHECK\<close>,
  \<open>GcuError\<close> a failed \<^verbatim>\<open>C10_GCU_CHECK\<close>, \<open>StdException\<close> an exception of the standard
  library (\<^verbatim>\<open>std::stoi\<close>, \<^verbatim>\<open>vector::at\<close>), \<open>Terminate\<close> an exception that leaves a
  \<^verbatim>\<open>noexcept\<close> function and so ends the process, and \<open>UndefinedBehaviour\<close> stands for the
  dereference of a null or deleted pointer and for an out-of-range \<^verbatim>\<open>operator[]\<close>.
  \<open>OutOfFuel\<close> is no behaviour of the code: a loop that is modelled with fuel ends with it,
  and the lemmas on these loops show that it does not occur.
\<close>

datatype exc =
    InternalAssert
  | TorchCheck string
  | OutOfMemoryError
  | GcuError tops_error
  | StdException string
  | Terminate
  | UndefinedBehaviour
  | OutOfFuel

section \<open>Actions: state passing with exceptions\<close>

text \<open>
  An action takes the state and returns a value or an exception together with the state at
  that point: an exception does not undo what was written before it was thrown.
\<close>

type_synonym ('s, 'a) act = "'s \<Rightarrow> (exc + 'a) \<times> 's"

definition ret :: "'a \<Rightarrow> ('s, 'a) act" where
  "ret x = (\<lambda>s. (Inr x, s))"

definition throw :: "exc \<Rightarrow> ('s, 'a) act" where
  "throw e = (\<lambda>s. (Inl e, s))"

definition bnd :: "('s, 'a) act \<Rightarrow> ('a \<Rightarrow> ('s, 'b) act) \<Rightarrow> ('s, 'b) act" where
  "bnd m f = (\<lambda>s. case m s of (Inl e, s') \<Rightarrow> (Inl e, s') | (Inr x, s') \<Rightarrow> f x s')"

definition seq :: "('s, 'a) act \<Rightarrow> ('s, 'b) act \<Rightarrow> ('s, 'b) act" where
  "seq m n = bnd m (\<lambda>_. n)"

definition gets :: "('s \<Rightarrow> 'a) \<Rightarrow> ('s, 'a) act" where
  "gets f = (\<lambda>s. (Inr (f s), s))"

definition upd :: "('s \<Rightarrow> 's) \<Rightarrow> ('s, unit) act" where
  "upd f = (\<lambda>s. (Inr (), f s))"

definition require :: "exc \<Rightarrow> bool \<Rightarrow> ('s, unit) act" where
  "require e b = (if b then ret () else throw e)"

definition whenM :: "bool \<Rightarrow> ('s, unit) act \<Rightarrow> ('s, unit) act" where
  "whenM b m = (if b then m else ret ())"

fun for_each :: "('b \<Rightarrow> ('s, unit) act) \<Rightarrow> 'b list \<Rightarrow> ('s, unit) act" where
  "for_each f [] = ret ()"
| "for_each f (x # xs) = seq (f x) (for_each f xs)"

text \<open>
  \<open>finallyM m f\<close> runs \<open>f\<close> after \<open>m\<close> whether \<open>m\<close> throws or not, as a destructor does;
  \<open>try_catch m h\<close> is \<^verbatim>\<open>try { m } catch (e) { h }\<close>.
\<close>

definition finallyM :: "('s, 'a) act \<Rightarrow> ('s, unit) act \<Rightarrow> ('s, 'a) act" where
  "finallyM m f = (\<lambda>s. case m s of (r, s') \<Rightarrow>
     (case f s' of (Inl e, s'') \<Rightarrow> (Inl e, s'') | (Inr _, s'') \<Rightarrow> (r, s'')))"

definition try_catch :: "('s, 'a) act \<Rightarrow> (exc \<Rightarrow> ('s, 'a) act) \<Rightarrow> ('s, 'a) act" where
  "try_catch m h = (\<lambda>s. case m s of (Inl e, s') \<Rightarrow> h e s' | (Inr x, s') \<Rightarrow> (Inr x, s'))"

text \<open>\<^verbatim>\<open>C10_GCU_CHECK(expr)\<close>.\<close>

definition gcu_check :: "tops_error \<Rightarrow> ('s, unit) act" where
  "gcu_check err = (if err = topsSuccess then ret () else throw (GcuError err))"

lemma ret_apply [act_simps]: "ret x s = (Inr x, s)"
  and throw_apply [act_simps]: "throw e s = (Inl e, s)"
  and gets_apply [act_simps]: "gets f s = (Inr (f s), s)"
  and upd_apply [act_simps]: "upd g s = (Inr (), g s)"
  by (simp_all add: ret_def throw_def gets_def upd_def)

lemma bnd_apply [act_simps]:
  "bnd m f s = (case m s of (Inl e, s') \<Rightarrow> (Inl e, s') | (Inr x, s') \<Rightarrow> f x s')"
  by (simp add: bnd_def)

lemma seq_apply [act_simps]:
  "seq m n s = (case m s of (Inl e, s') \<Rightarrow> (Inl e, s') | (Inr x, s') \<Rightarrow> n s')"
  by (simp add: seq_def bnd_def)

lemma require_apply [act_simps]: "require e b s = (if b then (Inr (), s) else (Inl e, s))"
  and whenM_apply [act_simps]: "whenM b m s = (if b then m s else (Inr (), s))"
  and gcu_check_apply [act_simps]:
    "gcu_check err s = (if err = topsSuccess then (Inr (), s) else (Inl (GcuError err), s))"
  by (simp_all add: require_def whenM_def gcu_check_def ret_def throw_def)

lemma finally_apply [act_simps]: "finallyM m f s = (case m s of (r, s') \<Rightarrow>
     (case f s' of (Inl e, s'') \<Rightarrow> (Inl e, s'') | (Inr _, s'') \<Rightarrow> (r, s'')))"
  and try_catch_apply [act_simps]:
    "try_catch m h s = (case m s of (Inl e, s') \<Rightarrow> h e s' | (Inr x, s') \<Rightarrow> (Inr x, s'))"
  by (simp_all add: finallyM_def try_catch_def)

section \<open>A Hoare calculus for actions\<close>

text \<open>
  \<open>hoare P m Q E\<close>: from a state that satisfies \<open>P\<close> the action returns a value and a state
  that satisfy \<open>Q\<close>, or throws an exception and leaves a state that satisfy \<open>E\<close>. Actions
  are total functions, so this is total correctness.
\<close>

definition hoare ::
  "('s \<Rightarrow> bool) \<Rightarrow> ('s, 'a) act \<Rightarrow> ('a \<Rightarrow> 's \<Rightarrow> bool) \<Rightarrow> (exc \<Rightarrow> 's \<Rightarrow> bool) \<Rightarrow> bool" where
  "hoare P m Q E \<longleftrightarrow>
     (\<forall>s. P s \<longrightarrow> (case m s of (Inr x, s') \<Rightarrow> Q x s' | (Inl e, s') \<Rightarrow> E e s'))"

lemma hoareI:
  assumes "\<And>s x s'. P s \<Longrightarrow> m s = (Inr x, s') \<Longrightarrow> Q x s'"
    and "\<And>s e s'. P s \<Longrightarrow> m s = (Inl e, s') \<Longrightarrow> E e s'"
  shows "hoare P m Q E"
  using assms by (auto simp: hoare_def split: prod.splits sum.splits)

lemma hoareD_Inr: "hoare P m Q E \<Longrightarrow> P s \<Longrightarrow> m s = (Inr x, s') \<Longrightarrow> Q x s'"
  by (auto simp: hoare_def)

lemma hoareD_Inl: "hoare P m Q E \<Longrightarrow> P s \<Longrightarrow> m s = (Inl e, s') \<Longrightarrow> E e s'"
  by (auto simp: hoare_def)

lemma hoare_returns:
  assumes "hoare P m Q (\<lambda>_ _. False)" and "P s"
  obtains x s' where "m s = (Inr x, s')" and "Q x s'"
proof (cases "m s")
  case (Pair r s')
  with assms that show thesis by (cases r) (auto dest: hoareD_Inr hoareD_Inl)
qed

lemma for_each_append: "for_each f (xs @ ys) = seq (for_each f xs) (for_each f ys)"
  by (induction xs) (auto simp: fun_eq_iff act_simps split: prod.splits sum.splits)

lemma hoare_conseq:
  assumes "hoare P m Q E" and "\<And>s. P' s \<Longrightarrow> P s"
    and "\<And>x s. Q x s \<Longrightarrow> Q' x s" and "\<And>e s. E e s \<Longrightarrow> E' e s"
  shows "hoare P' m Q' E'"
  using assms by (fastforce simp: hoare_def split: prod.splits sum.splits)

lemma hoare_pre: "hoare P m Q E \<Longrightarrow> (\<And>s. P' s \<Longrightarrow> P s) \<Longrightarrow> hoare P' m Q E"
  by (rule hoare_conseq)

lemma hoare_pure_pre: "(b \<Longrightarrow> hoare P m Q E) \<Longrightarrow> hoare (\<lambda>s. b \<and> P s) m Q E"
  by (auto simp: hoare_def)

lemma hoare_ret [hoare_rules]: "hoare (Q x) (ret x) Q E"
  by (simp add: hoare_def ret_def)

lemma hoare_throw [hoare_rules]: "hoare (E e) (throw e) Q E"
  by (simp add: hoare_def throw_def)

lemma hoare_gets [hoare_rules]: "hoare (\<lambda>s. Q (f s) s) (gets f) Q E"
  by (simp add: hoare_def gets_def)

lemma hoare_upd [hoare_rules]: "hoare (\<lambda>s. Q () (f s)) (upd f) Q E"
  by (simp add: hoare_def upd_def)

lemma hoare_upd_inv: "(\<And>s. P s \<Longrightarrow> R (f s)) \<Longrightarrow> hoare P (upd f) (\<lambda>_. R) E"
  by (simp add: hoare_def upd_def)

lemma hoare_ret_inv: "(\<And>s. P s \<Longrightarrow> Q x s) \<Longrightarrow> hoare P (ret x) Q E"
  by (simp add: hoare_def ret_def)

lemma hoare_bnd:
  "hoare P m R E \<Longrightarrow> (\<And>x. hoare (R x) (f x) Q E) \<Longrightarrow> hoare P (bnd m f) Q E"
  by (fastforce simp: hoare_def bnd_def split: prod.splits sum.splits)

lemma hoare_seq:
  "hoare P m (\<lambda>_. R) E \<Longrightarrow> hoare R n Q E \<Longrightarrow> hoare P (seq m n) Q E"
  unfolding seq_def by (rule hoare_bnd)

lemma hoare_require [hoare_rules]:
  "hoare (\<lambda>s. (b \<longrightarrow> Q () s) \<and> (\<not> b \<longrightarrow> E e s)) (require e b) Q E"
  by (simp add: hoare_def act_simps)

lemma hoare_whenM:
  "(b \<Longrightarrow> hoare P m (\<lambda>_. Q) E) \<Longrightarrow> (\<And>s. \<not> b \<Longrightarrow> P s \<Longrightarrow> Q s) \<Longrightarrow>
   hoare P (whenM b m) (\<lambda>_. Q) E"
  by (auto simp: hoare_def act_simps)

lemma hoare_gcu_check [hoare_rules]:
  "hoare (\<lambda>s. (err = topsSuccess \<longrightarrow> Q () s) \<and> (err \<noteq> topsSuccess \<longrightarrow> E (GcuError err) s))
     (gcu_check err) Q E"
  by (simp add: hoare_def act_simps)

lemma hoare_finally:
  "hoare P m Q E \<Longrightarrow> (\<And>x. hoare (Q x) f (\<lambda>_. Q x) E) \<Longrightarrow> (\<And>e. hoare (E e) f (\<lambda>_. E e) E) \<Longrightarrow>
   hoare P (finallyM m f) Q E"
  unfolding hoare_def finallyM_def by (auto split: prod.splits sum.splits) fastforce+

lemma hoare_try_catch:
  "hoare P m Q E \<Longrightarrow> (\<And>e. hoare (E e) (h e) Q E') \<Longrightarrow> hoare P (try_catch m h) Q E'"
  unfolding hoare_def try_catch_def by (fastforce split: prod.splits sum.splits)

text \<open>
  A property of the state that an action keeps whatever its outcome, and the rules by which
  composed actions inherit it.
\<close>

definition keeps_pred :: "('s \<Rightarrow> bool) \<Rightarrow> ('s, 'a) act \<Rightarrow> bool" where
  "keeps_pred P m \<longleftrightarrow> (\<forall>s. P s \<longrightarrow> P (snd (m s)))"

named_theorems keeps_intros \<open>composed actions keep what their parts keep\<close>

lemma keeps_predD: "keeps_pred P m \<Longrightarrow> P s \<Longrightarrow> m s = (r, s') \<Longrightarrow> P s'"
  unfolding keeps_pred_def by (metis snd_conv)

lemma keeps_ret [keeps_intros]: "keeps_pred P (ret x)"
  and keeps_throw [keeps_intros]: "keeps_pred P (throw e)"
  and keeps_gets [keeps_intros]: "keeps_pred P (gets g)"
  and keeps_require [keeps_intros]: "keeps_pred P (require e b)"
  and keeps_gcu_check [keeps_intros]: "keeps_pred P (gcu_check err)"
  by (simp_all add: keeps_pred_def act_simps)

lemma keeps_upd [keeps_intros]: "(\<And>s. P s \<Longrightarrow> P (f s)) \<Longrightarrow> keeps_pred P (upd f)"
  by (simp add: keeps_pred_def act_simps)

lemma keeps_bnd [keeps_intros]:
  "keeps_pred P m \<Longrightarrow> (\<And>x. keeps_pred P (f x)) \<Longrightarrow> keeps_pred P (bnd m f)"
  unfolding keeps_pred_def bnd_def by (auto split: prod.splits sum.splits)

lemma keeps_seq [keeps_intros]: "keeps_pred P m \<Longrightarrow> keeps_pred P n \<Longrightarrow> keeps_pred P (seq m n)"
  unfolding seq_def by (rule keeps_bnd)

lemma keeps_whenM [keeps_intros]: "keeps_pred P m \<Longrightarrow> keeps_pred P (whenM b m)"
  by (simp add: keeps_pred_def act_simps)

lemma keeps_finally [keeps_intros]:
  "keeps_pred P m \<Longrightarrow> keeps_pred P f \<Longrightarrow> keeps_pred P (finallyM m f)"
  unfolding keeps_pred_def finallyM_def by (auto split: prod.splits sum.splits)

lemma keeps_try_catch [keeps_intros]:
  "keeps_pred P m \<Longrightarrow> (\<And>e. keeps_pred P (h e)) \<Longrightarrow> keeps_pred P (try_catch m h)"
  unfolding keeps_pred_def try_catch_def by (auto split: prod.splits sum.splits)

lemma keeps_for_each [keeps_intros]:
  "(\<And>x. keeps_pred P (f x)) \<Longrightarrow> keeps_pred P (for_each f xs)"
  by (induction xs) (simp_all add: keeps_ret keeps_seq)

lemma keeps_if [keeps_intros]:
  "(b \<Longrightarrow> keeps_pred P m) \<Longrightarrow> (\<not> b \<Longrightarrow> keeps_pred P n) \<Longrightarrow> keeps_pred P (if b then m else n)"
  by simp

lemma keeps_case_option [keeps_intros]:
  "keeps_pred P m \<Longrightarrow> (\<And>x. keeps_pred P (f x)) \<Longrightarrow> keeps_pred P (case y of None \<Rightarrow> m | Some x \<Rightarrow> f x)"
  by (cases y) simp_all

lemma keeps_case_sum [keeps_intros]:
  "(\<And>e. keeps_pred P (f e)) \<Longrightarrow> (\<And>x. keeps_pred P (g x)) \<Longrightarrow>
   keeps_pred P (case y of Inl e \<Rightarrow> f e | Inr x \<Rightarrow> g x)"
  by (cases y) simp_all

lemma keeps_case_prod [keeps_intros]:
  "(\<And>a b. keeps_pred P (f a b)) \<Longrightarrow> keeps_pred P (case y of (a, b) \<Rightarrow> f a b)"
  by (cases y) simp

lemma keeps_let [keeps_intros]: "(\<And>x. keeps_pred P (f x)) \<Longrightarrow> keeps_pred P (Let y f)"
  by (simp add: Let_def)

text \<open>
  The same from one state: \<open>wp m Q X s\<close>. Its equations run an action symbolically; for an
  action with a contract, \<open>wp_mono\<close> continues from the contract.
\<close>

named_theorems wp_simps \<open>equations of the weakest precondition\<close>

definition wp :: "('s, 'a) act \<Rightarrow> ('a \<Rightarrow> 's \<Rightarrow> bool) \<Rightarrow> (exc \<Rightarrow> 's \<Rightarrow> bool) \<Rightarrow> 's \<Rightarrow> bool" where
  "wp m Q X s \<longleftrightarrow> (case m s of (Inr x, s') \<Rightarrow> Q x s' | (Inl e, s') \<Rightarrow> X e s')"

lemma hoare_wp: "hoare P m Q X \<longleftrightarrow> (\<forall>s. P s \<longrightarrow> wp m Q X s)"
  by (simp add: hoare_def wp_def)

lemma wp_value: "m s = (Inr x, s') \<Longrightarrow> wp m Q X s \<longleftrightarrow> Q x s'"
  by (simp add: wp_def)

lemma wp_mono:
  assumes "wp m Q X s" and "\<And>x s'. Q x s' \<Longrightarrow> Q' x s'" and "\<And>e s'. X e s' \<Longrightarrow> X' e s'"
  shows "wp m Q' X' s"
  using assms by (auto simp: wp_def split: prod.splits sum.splits)

lemma wp_conj: "wp m Q X s \<Longrightarrow> wp m R X s \<Longrightarrow> wp m (\<lambda>x s'. Q x s' \<and> R x s') X s"
  by (auto simp: wp_def split: prod.splits sum.splits)

lemma wp_bnd [wp_simps]: "wp (bnd m f) Q X = wp m (\<lambda>x. wp (f x) Q X) X"
  and wp_seq [wp_simps]: "wp (seq m n) Q X = wp m (\<lambda>_. wp n Q X) X"
  and wp_ret [wp_simps]: "wp (ret x) Q' X' = Q' x"
  and wp_throw [wp_simps]: "wp (throw e) Q' X' = X' e"
  and wp_gets [wp_simps]: "wp (gets g) Q'' X'' = (\<lambda>s. Q'' (g s) s)"
  and wp_upd [wp_simps]: "wp (upd u) Qu Xu = (\<lambda>s. Qu () (u s))"
  and wp_require [wp_simps]: "wp (require e b) Qu Xu = (\<lambda>s. if b then Qu () s else Xu e s)"
  and wp_whenM [wp_simps]: "wp (whenM b mu) Qu Xu = (\<lambda>s. if b then wp mu Qu Xu s else Qu () s)"
  and wp_gcu_check [wp_simps]:
    "wp (gcu_check err) Qu Xu = (\<lambda>s. if err = topsSuccess then Qu () s else Xu (GcuError err) s)"
  by (auto simp: wp_def act_simps fun_eq_iff split: prod.splits sum.splits)

lemma wp_finally [wp_simps]:
  "wp (finallyM m f) Q X = wp m (\<lambda>x. wp f (\<lambda>_. Q x) X) (\<lambda>e. wp f (\<lambda>_. X e) X)"
  by (auto simp: wp_def act_simps fun_eq_iff split: prod.splits sum.splits)

lemma wp_for_each:
  assumes "I xs s"
    and "\<And>x ys s. I (x # ys) s \<Longrightarrow> wp (f x) (\<lambda>_. I ys) X s"
  shows "wp (for_each f xs) (\<lambda>_. I []) X s"
  using assms(1)
proof (induction xs arbitrary: s)
  case (Cons x xs)
  have "wp (f x) (\<lambda>_. wp (for_each f xs) (\<lambda>_. I []) X) X s"
    by (rule wp_mono [OF assms(2) [OF Cons.prems]]) (use Cons.IH in auto)
  then show ?case by (simp add: wp_simps)
qed (simp add: wp_simps)

text \<open>A loop over a list keeps an invariant that each of its steps keeps.\<close>

lemma hoare_for_each:
  "(\<And>x. x \<in> set xs \<Longrightarrow> hoare I (f x) (\<lambda>_. I) E) \<Longrightarrow> hoare I (for_each f xs) (\<lambda>_. I) E"
proof (induction xs)
  case Nil
  then show ?case by (simp add: hoare_def act_simps)
next
  case (Cons x xs)
  then show ?case by (auto intro: hoare_seq)
qed

section \<open>Ordered sets with a comparator\<close>

text \<open>
  \<^verbatim>\<open>std::set<T*, Comparison>\<close> as the list of its elements in iteration order. The elements
  are pointers and the comparator looks at what they point to, so the operations take the
  comparator \<open>lt\<close> on keys and the function \<open>k\<close> that reads an element's key. \<open>set_insert\<close>
  also returns whether the element was inserted (it is not if an equivalent one is present),
  \<open>set_erase\<close> the number of elements erased, and \<open>lower_bound\<close> the elements from the first
  one on that is not less than the key (the iterator the call returns; \<open>[]\<close> is
  \<^verbatim>\<open>end()\<close>).
\<close>

fun set_insert :: "('k \<Rightarrow> 'k \<Rightarrow> bool) \<Rightarrow> ('a \<Rightarrow> 'k) \<Rightarrow> 'a \<Rightarrow> 'a list \<Rightarrow> 'a list \<times> bool" where
  "set_insert lt k x [] = ([x], True)"
| "set_insert lt k x (y # ys) =
     (if lt (k x) (k y) then (x # y # ys, True)
      else if lt (k y) (k x) then (let (zs, b) = set_insert lt k x ys in (y # zs, b))
      else (y # ys, False))"

fun set_erase :: "('k \<Rightarrow> 'k \<Rightarrow> bool) \<Rightarrow> ('a \<Rightarrow> 'k) \<Rightarrow> 'a \<Rightarrow> 'a list \<Rightarrow> 'a list \<times> nat" where
  "set_erase lt k x [] = ([], 0)"
| "set_erase lt k x (y # ys) =
     (if \<not> lt (k x) (k y) \<and> \<not> lt (k y) (k x) then (ys, 1)
      else (let (zs, n) = set_erase lt k x ys in (y # zs, n)))"

definition lower_bound :: "('k \<Rightarrow> 'k \<Rightarrow> bool) \<Rightarrow> ('a \<Rightarrow> 'k) \<Rightarrow> 'k \<Rightarrow> 'a list \<Rightarrow> 'a list" where
  "lower_bound lt k key xs = dropWhile (\<lambda>y. lt (k y) key) xs"

lemma set_insert_subset: "set (fst (set_insert lt k x xs)) \<subseteq> insert x (set xs)"
  by (induction xs) (auto split: prod.splits)

text \<open>
  What the standard demands of a comparator (strict weak ordering), and what the set
  operations then promise for an ordered element list.
\<close>

locale comparator =
  fixes lt :: "'k \<Rightarrow> 'k \<Rightarrow> bool"
  assumes irrefl: "\<not> lt a a"
    and trans: "lt a b \<Longrightarrow> lt b c \<Longrightarrow> lt a c"
    and incomp_trans: "\<not> lt a b \<Longrightarrow> \<not> lt b c \<Longrightarrow> \<not> lt a c"
begin

lemma asym: "lt a b \<Longrightarrow> \<not> lt b a"
  using irrefl trans by blast

lemma set_insert_True:
  "snd (set_insert lt k x xs) \<Longrightarrow> set (fst (set_insert lt k x xs)) = insert x (set xs)"
  by (induction xs) (auto split: prod.splits if_splits)

lemma set_insert_False: "\<not> snd (set_insert lt k x xs) \<Longrightarrow> fst (set_insert lt k x xs) = xs"
  by (induction xs) (auto split: prod.splits if_splits)

lemma set_insert_sorted:
  "sorted_wrt lt (map k xs) \<Longrightarrow> sorted_wrt lt (map k (fst (set_insert lt k x xs)))"
proof (induction xs)
  case Nil
  then show ?case by simp
next
  case (Cons y ys)
  show ?case
  proof (cases "lt (k x) (k y)")
    case True
    with Cons.prems show ?thesis by (auto intro: trans)
  next
    case False
    have "set (fst (set_insert lt k x ys)) \<subseteq> insert x (set ys)"
      by (rule set_insert_subset)
    with False Cons show ?thesis by (auto split: prod.splits)
  qed
qed

text \<open>Insertion succeeds exactly when no element is equivalent.\<close>

lemma set_insert_iff:
  "sorted_wrt lt (map k xs) \<Longrightarrow>
   snd (set_insert lt k x xs) \<longleftrightarrow> (\<forall>y\<in>set xs. lt (k x) (k y) \<or> lt (k y) (k x))"
  by (induction xs) (auto split: prod.splits intro: trans)

lemma sorted_distinct: "sorted_wrt lt (map k xs) \<Longrightarrow> distinct (map k xs)"
  by (induction xs) (auto simp: irrefl)

text \<open>Erasing an element that is present removes that element and nothing else.\<close>

lemma set_erase_member:
  "sorted_wrt lt (map k xs) \<Longrightarrow> x \<in> set xs \<Longrightarrow> set_erase lt k x xs = (remove1 x xs, 1)"
  by (induction xs) (auto simp: irrefl dest: asym)

lemma set_erase_absent:
  "\<forall>y\<in>set xs. lt (k x) (k y) \<or> lt (k y) (k x) \<Longrightarrow> set_erase lt k x xs = (xs, 0)"
  by (induction xs) auto

lemma sorted_remove1:
  "sorted_wrt lt (map k xs) \<Longrightarrow> sorted_wrt lt (map k (remove1 x xs))"
proof (induction xs)
  case (Cons y ys)
  moreover have "set (remove1 x ys) \<subseteq> set ys" by (rule set_remove1_subset)
  ultimately show ?case by auto
qed simp

text \<open>The iterator of \<open>lower_bound\<close> ranges over exactly the elements not less than the key.\<close>

lemma lower_bound_filter:
  "sorted_wrt lt (map k xs) \<Longrightarrow> lower_bound lt k key xs = filter (\<lambda>y. \<not> lt (k y) key) xs"
proof (induction xs)
  case (Cons y ys)
  show ?case
  proof (cases "lt (k y) key")
    case True
    with Cons show ?thesis by (simp add: lower_bound_def)
  next
    case False
    have "\<not> lt (k z) key" if "z \<in> set ys" for z
    proof
      assume "lt (k z) key"
      moreover have "lt (k y) (k z)" using Cons.prems that by simp
      ultimately show False using False trans by blast
    qed
    then have "filter (\<lambda>y. \<not> lt (k y) key) ys = ys" by (simp add: filter_id_conv)
    with False show ?thesis by (simp add: lower_bound_def)
  qed
qed (simp add: lower_bound_def)

lemma lower_bound_hd_least:
  assumes "sorted_wrt lt (map k xs)" and "lower_bound lt k key xs = y # ys"
    and "z \<in> set xs" and "\<not> lt (k z) key"
  shows "z = y \<or> lt (k y) (k z)"
proof -
  have f: "filter (\<lambda>y. \<not> lt (k y) key) xs = y # ys"
    using assms(1,2) by (simp add: lower_bound_filter)
  have "sorted_wrt lt (map k (filter (\<lambda>y. \<not> lt (k y) key) xs))"
    using assms(1) by (induction xs) auto
  moreover have "z \<in> set (y # ys)" using assms(3,4) unfolding f [symmetric] by simp
  ultimately show ?thesis unfolding f by auto
qed

end

lemma lower_bound_subset: "set (lower_bound lt k key xs) \<subseteq> set xs"
  unfolding lower_bound_def by (metis set_dropWhileD subsetI)

section \<open>Binary logarithm and powers of two\<close>

text \<open>\<open>lg n\<close> is the position of the highest set bit.\<close>

fun lg :: "nat \<Rightarrow> nat" where
  "lg n = (if n < 2 then 0 else Suc (lg (n div 2)))"

declare lg.simps [simp del]

lemma lg_bounds: "0 < n \<Longrightarrow> 2 ^ lg n \<le> n \<and> n < 2 ^ Suc (lg n)"
proof (induction n rule: lg.induct)
  case (1 n)
  show ?case
  proof (cases "n < 2")
    case True
    with "1.prems" show ?thesis by (simp add: lg.simps)
  next
    case False
    with "1.IH" have "2 ^ lg (n div 2) \<le> n div 2 \<and> n div 2 < 2 ^ Suc (lg (n div 2))" by simp
    moreover have "n = 2 * (n div 2) + n mod 2" "n mod 2 < 2" by simp_all
    ultimately have "2 * 2 ^ lg (n div 2) \<le> n \<and> n < 2 * 2 ^ Suc (lg (n div 2))" by linarith
    with False show ?thesis by (simp add: lg.simps [of n])
  qed
qed

lemma lg_unique: "2 ^ m \<le> n \<Longrightarrow> n < 2 ^ Suc m \<Longrightarrow> lg n = m"
proof -
  assume *: "2 ^ m \<le> n" "n < 2 ^ Suc m"
  then have "0 < n" by (metis gr0I leD zero_less_numeral zero_less_power)
  note b = lg_bounds [OF this]
  have "(2::nat) ^ m < 2 ^ Suc (lg n)" using * b by linarith
  moreover have "(2::nat) ^ lg n < 2 ^ Suc m" using * b by linarith
  ultimately have "m < Suc (lg n)" "lg n < Suc m" using power_less_imp_less_exp
    by (metis Suc_1 lessI)+
  then show ?thesis by simp
qed

lemma lg_power [simp]: "lg (2 ^ m) = m"
  by (rule lg_unique) simp_all

lemma lg_mono: "m \<le> n \<Longrightarrow> lg m \<le> lg n"
proof (cases "m = 0")
  case True
  then show ?thesis by (simp add: lg.simps)
next
  case False
  assume "m \<le> n"
  with False lg_bounds [of m] lg_bounds [of n] have "(2::nat) ^ lg m < 2 ^ Suc (lg n)" by linarith
  then have "lg m < Suc (lg n)" using power_less_imp_less_exp by (metis Suc_1 lessI)
  then show ?thesis by simp
qed

lemma lg_less: "0 < n \<Longrightarrow> n < 2 ^ m \<Longrightarrow> lg n < m"
proof -
  assume "0 < n" "n < 2 ^ m"
  with lg_bounds [of n] have "(2::nat) ^ lg n < 2 ^ m" by linarith
  then show ?thesis by simp
qed

text \<open>
  The bit helpers of \<^verbatim>\<open>c10/util/llvmMathExtras.h\<close>. That header is not part of the
  repository, so its functions are a parameter of the definitions that use them, and
  \<open>llvm_spec\<close> is what their documentation says of them.
\<close>

record llvm_math =
  countLeadingZeros :: "64 word \<Rightarrow> nat"
  isPowerOf2_64 :: "64 word \<Rightarrow> bool"
  PowerOf2Floor :: "64 word \<Rightarrow> 64 word"
  PowerOf2Ceil :: "64 word \<Rightarrow> 64 word"

definition llvm_spec :: "llvm_math \<Rightarrow> bool" where
  "llvm_spec M \<longleftrightarrow>
     (\<forall>x. x \<noteq> 0 \<longrightarrow> countLeadingZeros M x = 63 - lg (unat x)) \<and>
     (\<forall>x. isPowerOf2_64 M x \<longleftrightarrow> (\<exists>n. unat x = 2 ^ n)) \<and>
     (\<forall>x. x \<noteq> 0 \<longrightarrow> unat (PowerOf2Floor M x) = 2 ^ lg (unat x)) \<and>
     (\<forall>x n. unat x \<le> 2 ^ n \<longrightarrow> (\<forall>m. unat x \<le> 2 ^ m \<longrightarrow> n \<le> m) \<longrightarrow> n < 64 \<longrightarrow> x \<noteq> 0 \<longrightarrow>
        unat (PowerOf2Ceil M x) = 2 ^ n)"

text \<open>An instance, for evaluation: the helpers written with the logarithm above.\<close>

definition llvm_ref :: llvm_math where
  "llvm_ref =
     \<lparr> countLeadingZeros = (\<lambda>x. 63 - lg (unat x)),
       isPowerOf2_64 = (\<lambda>x. x \<noteq> 0 \<and> unat x = 2 ^ lg (unat x)),
       PowerOf2Floor = (\<lambda>x. if x = 0 then 0 else word_of_nat (2 ^ lg (unat x))),
       PowerOf2Ceil = (\<lambda>x. if x = 0 then 0 else if unat x = 1 then 1
                           else word_of_nat (2 ^ Suc (lg (unat x - 1)))) \<rparr>"

lemma lg_unat64: "x \<noteq> (0 :: 64 word) \<Longrightarrow> lg (unat x) < 64"
proof -
  assume "x \<noteq> 0"
  then have "0 < unat x" by (simp add: unat_gt_0)
  moreover have "unat x < 2 ^ 64" using unsigned_less [of x] by simp
  ultimately show ?thesis by (rule lg_less)
qed

lemma unat_pow64: "n < 64 \<Longrightarrow> unat (word_of_nat (2 ^ n) :: 64 word) = 2 ^ n"
proof -
  assume "n < 64"
  then have "(2::nat) ^ n < 2 ^ 64" by (rule power_strict_increasing) simp
  then show ?thesis by (simp only: unat_of_nat) simp
qed

lemma llvm_ref_ceil:
  assumes "unat x \<le> 2 ^ n" "\<forall>m. unat x \<le> 2 ^ m \<longrightarrow> n \<le> m" "n < 64" "x \<noteq> (0 :: 64 word)"
  shows "unat (PowerOf2Ceil llvm_ref x) = 2 ^ n"
proof (cases "unat x = 1")
  case True
  with assms(2) have "n = 0" by (metis le_0_eq order_refl power_0)
  with True assms(4) show ?thesis by (simp add: llvm_ref_def)
next
  case False
  moreover have "0 < unat x" using assms(4) by (simp add: unat_gt_0)
  ultimately have pos: "0 < unat x - 1" by simp
  note b = lg_bounds [OF pos]
  have "unat x \<le> 2 ^ Suc (lg (unat x - 1))" using b by linarith
  with assms(2) have le: "n \<le> Suc (lg (unat x - 1))" by blast
  have "2 ^ lg (unat x - 1) < (2::nat) ^ n" using b assms(1) pos by linarith
  then have "lg (unat x - 1) < n" by simp
  with le have n: "n = Suc (lg (unat x - 1))" by simp
  with assms(3) have "unat (word_of_nat (2 ^ Suc (lg (unat x - 1))) :: 64 word) = 2 ^ n"
    by (simp only: unat_pow64)
  with False assms(4) show ?thesis by (simp add: llvm_ref_def)
qed

lemma llvm_spec_ref: "llvm_spec llvm_ref"
proof -
  have 2: "isPowerOf2_64 llvm_ref x \<longleftrightarrow> (\<exists>n. unat x = 2 ^ n)" for x
    by (auto simp: llvm_ref_def)
  have 3: "unat (PowerOf2Floor llvm_ref x) = 2 ^ lg (unat x)" if "x \<noteq> 0" for x
    using that lg_unat64 [OF that] by (simp add: llvm_ref_def unat_pow64 del: of_nat_power)
  show ?thesis
    unfolding llvm_spec_def using 2 3 llvm_ref_ceil by (simp add: llvm_ref_def)
qed

text \<open>The form in which the components use the documented behaviour.\<close>

lemma llvm_specD:
  assumes "llvm_spec M"
  shows clz: "x \<noteq> 0 \<Longrightarrow> countLeadingZeros M x = 63 - lg (unat x)"
    and isPowerOf2: "isPowerOf2_64 M x \<longleftrightarrow> (\<exists>n. unat x = 2 ^ n)"
    and PowerOf2Floor: "x \<noteq> 0 \<Longrightarrow> unat (PowerOf2Floor M x) = 2 ^ lg (unat x)"
  using assms by (simp_all add: llvm_spec_def)

lemma isPowerOf2_lg:
  assumes "llvm_spec M" and "isPowerOf2_64 M x"
  shows "unat x = 2 ^ lg (unat x)" and "lg (unat x) < 64"
proof -
  from assms obtain n where n: "unat x = 2 ^ n" by (auto simp: isPowerOf2)
  then show "unat x = 2 ^ lg (unat x)" by simp
  from n have "x \<noteq> 0" by auto
  then show "lg (unat x) < 64" by (rule lg_unat64)
qed

section \<open>Rounding on 64-bit words\<close>

text \<open>Clearing the low bits of a word rounds it down to a multiple of a power of two.\<close>

lemma unat_clear_low:
  assumes "k < 64"
  shows "unat ((x :: 64 word) AND NOT (word_of_nat (2 ^ k) - 1)) = 2 ^ k * (unat x div 2 ^ k)"
proof -
  have "word_of_nat (2 ^ k) - 1 = (mask k :: 64 word)" by (simp add: mask_eq_exp_minus_1)
  then have "x AND NOT (word_of_nat (2 ^ k) - 1) = push_bit k (drop_bit k x)"
    by (simp add: bit_eq_iff bit_simps) (auto simp: bit_simps)
  moreover have "unat (push_bit k (drop_bit k x)) = 2 ^ k * (unat x div 2 ^ k)"
  proof -
    have "unat (drop_bit k x) = drop_bit k (take_bit LENGTH(64) (unat x))"
      by (rule unsigned_drop_bit_eq)
    moreover have "take_bit LENGTH(64) (unat x) = unat x"
      using unsigned_less [of x, where 'a = nat] by (simp add: take_bit_nat_eq_self)
    ultimately have "unat (drop_bit k x) = unat x div 2 ^ k"
      by (simp only: drop_bit_eq_div)
    moreover have "2 ^ k * (unat x div 2 ^ k) < 2 ^ 64"
    proof -
      have "2 ^ k * (unat x div 2 ^ k) \<le> unat x" by simp
      moreover have "unat x < 2 ^ 64" using unsigned_less [of x, where 'a = nat] by simp
      ultimately show ?thesis by linarith
    qed
    moreover have "unat (push_bit k (drop_bit k x)) = take_bit LENGTH(64) (push_bit k (unat (drop_bit k x)))"
      by (rule unsigned_push_bit_eq)
    ultimately show ?thesis
      by (simp only: push_bit_eq_mult mult.commute [of _ "2 ^ k"]) (simp add: take_bit_nat_eq_self)
  qed
  ultimately show ?thesis by simp
qed

lemma unat_add64: "unat a + unat b < 2 ^ 64 \<Longrightarrow> unat (a + b :: 64 word) = unat a + unat b"
  by (simp add: unat_word_ariths)

lemma unat_mult64: "unat a * unat b < 2 ^ 64 \<Longrightarrow> unat (a * b :: 64 word) = unat a * unat b"
  by (simp add: unat_word_ariths)

text \<open>Rounding up to a multiple, as the sources write it, on natural numbers.\<close>

lemma round_up_ge: "0 < d \<Longrightarrow> (n :: nat) \<le> d * ((n + d - 1) div d)"
proof -
  assume "0 < d"
  then have "(n + d - 1) mod d < d" by simp
  moreover have "n + d - 1 = d * ((n + d - 1) div d) + (n + d - 1) mod d" by simp
  ultimately show ?thesis using \<open>0 < d\<close> by linarith
qed

lemma round_up_less: "0 < d \<Longrightarrow> d * ((n + d - 1) div d) < (n :: nat) + d"
proof -
  assume "0 < d"
  then have "d * ((n + d - 1) div d) \<le> n + d - 1" by simp
  with \<open>0 < d\<close> show ?thesis by linarith
qed

end
