(* ===== verification/AllocConfig.thy ===== *)
theory AllocConfig
  imports GcuPrelude
begin

text \<open>
  \<^verbatim>\<open>gcu_allocator_config.{h,cpp}\<close>: the parser of \<^verbatim>\<open>PYTORCH_GCU_ALLOC_CONF\<close>. The
  configuration object is the state of the actions below; a parse function that throws
  leaves the fields it has already written. \<^verbatim>\<open>std::stod\<close> is a parameter (\<open>stod\<close>): the
  threshold is a rational number here, and the values it parses to that are no numbers are
  refused by the same two checks as the numbers outside \<open>(0, 1)\<close>.
\<close>

section \<open>The configuration object\<close>

record alloc_config =
  m_max_split_size :: "64 word"
  m_roundup_power2_divisions :: "64 word list"
  m_garbage_collection_threshold :: rat
  m_pinned_num_register_threads :: "64 word"
  m_expandable_segments :: bool
  m_release_lock_on_topsmalloc :: bool
  m_pinned_use_gcu_host_register :: bool
  m_last_allocator_settings :: string

definition kLargeBuffer :: "64 word" where
  "kLargeBuffer = 20971520"

definition kRoundUpPowerOfTwoIntervals :: nat where
  "kRoundUpPowerOfTwoIntervals = 16"

definition GCUAllocatorConfig :: alloc_config where
  "GCUAllocatorConfig =
     \<lparr> m_max_split_size = -1,
       m_roundup_power2_divisions = replicate kRoundUpPowerOfTwoIntervals 0,
       m_garbage_collection_threshold = 0,
       m_pinned_num_register_threads = 1,
       m_expandable_segments = False,
       m_release_lock_on_topsmalloc = False,
       m_pinned_use_gcu_host_register = False,
       m_last_allocator_settings = [] \<rparr>"

text \<open>The accessors. \<open>expandable_segments\<close> is constantly false on this platform.\<close>

definition max_split_size :: "alloc_config \<Rightarrow> 64 word" where
  "max_split_size c = m_max_split_size c"

definition garbage_collection_threshold :: "alloc_config \<Rightarrow> rat" where
  "garbage_collection_threshold c = m_garbage_collection_threshold c"

definition expandable_segments :: "alloc_config \<Rightarrow> bool" where
  "expandable_segments c = False"

definition release_lock_on_topsmalloc :: "alloc_config \<Rightarrow> bool" where
  "release_lock_on_topsmalloc c = m_release_lock_on_topsmalloc c"

definition pinned_max_register_threads :: "64 word" where
  "pinned_max_register_threads = 128"

text \<open>
  The number of divisions for a size: one entry per power of two from 1 MiB to 64 GiB. The
  index arithmetic is on \<^verbatim>\<open>int\<close>; the vector access is unchecked.
\<close>

definition roundup_power2_divisions ::
  "llvm_math \<Rightarrow> alloc_config \<Rightarrow> 64 word \<Rightarrow> exc + 64 word" where
  "roundup_power2_divisions M c size0 =
     (let log_size = 63 - int (countLeadingZeros M size0);
          interval_start = 63 - int (countLeadingZeros M 1048576);
          interval_end = 63 - int (countLeadingZeros M 68719476736)
      in if interval_end - interval_start \<noteq> int kRoundUpPowerOfTwoIntervals
         then Inl (TorchCheck ''kRoundUpPowerOfTwoIntervals mismatch'')
         else
           (let index = log_size - interval_start;
                index = max 0 index;
                index = min index (int kRoundUpPowerOfTwoIntervals - 1)
            in if nat index < length (m_roundup_power2_divisions c)
               then Inr (m_roundup_power2_divisions c ! nat index)
               else Inl UndefinedBehaviour))"

section \<open>Lexing\<close>

definition is_separator :: "char \<Rightarrow> bool" where
  "is_separator ch \<longleftrightarrow>
     ch = CHR '','' \<or> ch = CHR '':'' \<or> ch = CHR ''['' \<or> ch = CHR '']''"

text \<open>The loop of \<open>lexArgs\<close>: the characters left, the buffer, the tokens emitted so far.\<close>

fun lex_loop :: "string \<Rightarrow> string \<Rightarrow> string list \<Rightarrow> string list" where
  "lex_loop [] buf config = (if buf \<noteq> [] then config @ [buf] else config)"
| "lex_loop (ch # env) buf config =
     (if is_separator ch then
        lex_loop env [] ((if buf \<noteq> [] then config @ [buf] else config) @ [[ch]])
      else if ch \<noteq> CHR '' '' then lex_loop env (buf @ [ch]) config
      else lex_loop env buf config)"

definition lexArgs :: "string \<Rightarrow> string list" where
  "lexArgs env = lex_loop env [] []"

section \<open>Numbers\<close>

text \<open>
  \<^verbatim>\<open>std::stoi\<close> and \<^verbatim>\<open>std::stoul\<close> (base 10): leading white space, an optional sign, the
  longest run of digits; what follows is ignored. No digit: \<^verbatim>\<open>std::invalid_argument\<close>; a
  value that does not fit: \<^verbatim>\<open>std::out_of_range\<close>. \<^verbatim>\<open>stoul\<close> accepts a minus sign and
  negates in \<^verbatim>\<open>unsigned long\<close>.
\<close>

definition is_space :: "char \<Rightarrow> bool" where
  "is_space ch \<longleftrightarrow> of_char ch \<in> {9, 10, 11, 12, 13, 32 :: nat}"

definition is_digit :: "char \<Rightarrow> bool" where
  "is_digit ch \<longleftrightarrow> 48 \<le> (of_char ch :: nat) \<and> (of_char ch :: nat) \<le> 57"

definition digits_value :: "string \<Rightarrow> int" where
  "digits_value = foldl (\<lambda>v ch. v * 10 + (of_char ch - 48)) 0"

definition strto :: "string \<Rightarrow> exc + (bool \<times> int)" where
  "strto s =
     (let s = dropWhile is_space s;
          neg = (s \<noteq> [] \<and> hd s = CHR ''-'');
          s = (if s \<noteq> [] \<and> (hd s = CHR ''-'' \<or> hd s = CHR ''+'') then tl s else s);
          ds = takeWhile is_digit s
      in if ds = [] then Inl (StdException ''invalid_argument'')
         else Inr (neg, digits_value ds))"

definition stoi :: "string \<Rightarrow> exc + int" where
  "stoi s =
     (case strto s of Inl e \<Rightarrow> Inl e
      | Inr (neg, v) \<Rightarrow>
          (let r = (if neg then - v else v)
           in if r < - (2 ^ 31) \<or> 2 ^ 31 \<le> r then Inl (StdException ''out_of_range'')
              else Inr r))"

definition stoul :: "string \<Rightarrow> exc + 64 word" where
  "stoul s =
     (case strto s of Inl e \<Rightarrow> Inl e
      | Inr (neg, v) \<Rightarrow>
          if 2 ^ 64 \<le> v then Inl (StdException ''out_of_range'')
          else Inr (if neg then - word_of_int v else word_of_int v))"

definition lift_exc :: "exc + 'a \<Rightarrow> ('s, 'a) act" where
  "lift_exc r = (case r of Inl e \<Rightarrow> throw e | Inr x \<Rightarrow> ret x)"

section \<open>Parsing\<close>

type_synonym 'a cfg_act = "(alloc_config, 'a) act"

definition consumeToken :: "string list \<Rightarrow> nat \<Rightarrow> char \<Rightarrow> unit cfg_act" where
  "consumeToken config i ch =
     require (TorchCheck ''Error parsing CachingAllocator settings'')
       (i < length config \<and> config ! i = [ch])"

definition parseMaxSplitSize :: "string list \<Rightarrow> nat \<Rightarrow> nat cfg_act" where
  "parseMaxSplitSize config i =
     seq (consumeToken config (i + 1) CHR '':'')
      (if i + 2 < length config then
         bnd (lift_exc (stoi (config ! (i + 2)))) (\<lambda>v.
           let val1 = (word_of_int v :: 64 word) in
           seq (require (TorchCheck ''max_split_size_mb too small'')
                 (kLargeBuffer div (1024 * 1024) < val1))
           (let val1 = max val1 (kLargeBuffer div (1024 * 1024));
                val1 = min val1 ((-1) div (1024 * 1024))
            in seq (upd (\<lambda>c. c\<lparr>m_max_split_size := val1 * 1024 * 1024\<rparr>)) (ret (i + 2))))
       else throw (TorchCheck ''Error, expecting max_split_size_mb value''))"

definition parseGarbageCollectionThreshold ::
  "(string \<Rightarrow> exc + rat) \<Rightarrow> string list \<Rightarrow> nat \<Rightarrow> nat cfg_act" where
  "parseGarbageCollectionThreshold stod config i =
     seq (consumeToken config (i + 1) CHR '':'')
      (if i + 2 < length config then
         bnd (lift_exc (stod (config ! (i + 2)))) (\<lambda>val1.
           seq (require (TorchCheck ''garbage_collect_threshold too small'') (0 < val1))
           (seq (require (TorchCheck ''garbage_collect_threshold too big'') (val1 < 1))
            (seq (upd (\<lambda>c. c\<lparr>m_garbage_collection_threshold := val1\<rparr>)) (ret (i + 2)))))
       else throw (TorchCheck ''Error, expecting garbage_collection_threshold value''))"

text \<open>\<^verbatim>\<open>std::fill\<close> over the index range from \<open>a\<close> to before \<open>b\<close>.\<close>

definition fill :: "nat \<Rightarrow> nat \<Rightarrow> 'a \<Rightarrow> 'a list \<Rightarrow> 'a list" where
  "fill a b v xs = take a xs @ replicate (b - a) v @ drop b xs"

abbreviation set_divisions :: "(64 word list \<Rightarrow> 64 word list) \<Rightarrow> unit cfg_act" where
  "set_divisions f \<equiv>
     upd (\<lambda>c. c\<lparr>m_roundup_power2_divisions := f (m_roundup_power2_divisions c)\<rparr>)"

text \<open>One entry \<open>val1:val2\<close> of the list form; returns the new \<open>first_value\<close> and \<open>last_index\<close>.\<close>

definition parse_division_entry ::
  "llvm_math \<Rightarrow> string \<Rightarrow> 64 word \<Rightarrow> bool \<Rightarrow> nat \<Rightarrow> (bool \<times> nat) cfg_act" where
  "parse_division_entry M val1 val2 first_value last_index =
     (if val1 = ''>'' then
        seq (set_divisions (\<lambda>ds. fill last_index (length ds) val2 ds))
          (ret (first_value, last_index))
      else
        bnd (lift_exc (stoul val1)) (\<lambda>val1_long.
        seq (require (TorchCheck ''the intervals have to be power of 2'')
               (isPowerOf2_64 M val1_long))
        (bnd (gets (\<lambda>c. min (63 - countLeadingZeros M val1_long)
                             (length (m_roundup_power2_divisions c) - 1))) (\<lambda>index.
         seq (whenM first_value (set_divisions (fill 0 index val2)))
         (seq (set_divisions
                (\<lambda>ds. if index < length ds then ds[index := val2] else ds))
            (ret (False, index)))))))"

text \<open>
  The list form \<open>[val1:val2,...]\<close>: the loop of the source with its index; the access
  \<^verbatim>\<open>config[i + 1]\<close> at the end of an entry is unchecked.
\<close>

function parse_division_list ::
  "llvm_math \<Rightarrow> string list \<Rightarrow> nat \<Rightarrow> bool \<Rightarrow> nat \<Rightarrow> nat cfg_act" where
  "parse_division_list M config i first_value last_index =
     (if i + 1 < length config \<and> config ! (i + 1) \<noteq> '']'' then
        seq (consumeToken config (i + 2) CHR '':'')
        (if i + 3 < length config then
           bnd (lift_exc (stoi (config ! (i + 3)))) (\<lambda>v.
           let val2 = (word_of_int v :: 64 word) in
           seq (require (TorchCheck ''the divisions has to be power of 2'')
                  (isPowerOf2_64 M val2))
           (bnd (parse_division_entry M (config ! (i + 1)) val2 first_value last_index)
             (\<lambda>(first_value, last_index).
              if length config \<le> i + 4 then throw UndefinedBehaviour
              else if config ! (i + 4) \<noteq> '']'' then
                seq (consumeToken config (i + 4) CHR '','')
                  (parse_division_list M config (i + 4) first_value last_index)
              else parse_division_list M config (i + 3) first_value last_index)))
         else throw (TorchCheck ''Error parsing roundup_power2_divisions value''))
      else ret (i + 1))"
  by pat_completeness auto
termination
  by (relation "measure (\<lambda>(M, config, i, f, l). length config - i)") auto

declare parse_division_list.simps [simp del]

definition parseRoundUpPower2Divisions ::
  "llvm_math \<Rightarrow> string list \<Rightarrow> nat \<Rightarrow> nat cfg_act" where
  "parseRoundUpPower2Divisions M config i =
     seq (consumeToken config (i + 1) CHR '':'')
      (if i + 2 < length config then
         (if config ! (i + 2) = ''['' then parse_division_list M config (i + 2) True 0
          else
            bnd (lift_exc (stoi (config ! (i + 2)))) (\<lambda>v.
            let val1 = (word_of_int v :: 64 word) in
            seq (require (TorchCheck ''the divisions has to be power of 2'')
                   (isPowerOf2_64 M val1))
            (seq (set_divisions (\<lambda>ds. fill 0 (length ds) val1 ds)) (ret (i + 2)))))
       else throw (TorchCheck ''Error, expecting roundup_power2_divisions value''))"

text \<open>
  \<open>backend\<close> is \<^verbatim>\<open>get()->name()\<close>, the allocator chosen when the library was loaded. The
  result carries \<^verbatim>\<open>used_topsMallocAsync\<close>.
\<close>

definition parseAllocatorConfig ::
  "string \<Rightarrow> string list \<Rightarrow> nat \<Rightarrow> (nat \<times> bool) cfg_act" where
  "parseAllocatorConfig backend config i =
     seq (consumeToken config (i + 1) CHR '':'')
      (if i + 2 < length config then
         seq (require (TorchCheck ''Unknown allocator backend'')
                (config ! (i + 2) = ''native'' \<or> config ! (i + 2) = ''topsMallocAsync''))
         (seq (require InternalAssert (config ! (i + 2) = backend))
           (ret (i + 2, config ! (i + 2) = ''topsMallocAsync'')))
       else throw (TorchCheck ''Error parsing backend value''))"

definition parse_bool_option ::
  "(bool \<Rightarrow> alloc_config \<Rightarrow> alloc_config) \<Rightarrow> string list \<Rightarrow> nat \<Rightarrow> nat cfg_act" where
  "parse_bool_option set_field config i =
     seq (consumeToken config (i + 1) CHR '':'')
     (seq (require (TorchCheck ''Expected a single True/False argument'')
             (i + 2 < length config \<and>
              (config ! (i + 2) = ''True'' \<or> config ! (i + 2) = ''False'')))
      (seq (upd (set_field (config ! (i + 2) = ''True''))) (ret (i + 2))))"

definition parsePinnedUseGcuHostRegister :: "string list \<Rightarrow> nat \<Rightarrow> nat cfg_act" where
  "parsePinnedUseGcuHostRegister config i =
     seq (consumeToken config (i + 1) CHR '':'')
      (if i + 2 < length config then
         seq (require (TorchCheck ''Expected a single True/False argument'')
                (config ! (i + 2) = ''True'' \<or> config ! (i + 2) = ''False''))
         (seq (upd (\<lambda>c. c\<lparr>m_pinned_use_gcu_host_register := config ! (i + 2) = ''True''\<rparr>))
           (ret (i + 2)))
       else throw (TorchCheck ''Error, expecting pinned_use_gcu_host_register value''))"

definition parsePinnedNumRegisterThreads ::
  "llvm_math \<Rightarrow> string list \<Rightarrow> nat \<Rightarrow> nat cfg_act" where
  "parsePinnedNumRegisterThreads M config i =
     seq (consumeToken config (i + 1) CHR '':'')
      (if i + 2 < length config then
         bnd (lift_exc (stoi (config ! (i + 2)))) (\<lambda>v.
         let val2 = (word_of_int v :: 64 word) in
         seq (require (TorchCheck ''Number of register threads has to be power of 2'')
                (isPowerOf2_64 M val2))
         (seq (require (TorchCheck ''Number of register threads too big'')
                (val2 \<le> pinned_max_register_threads))
          (seq (upd (\<lambda>c. c\<lparr>m_pinned_num_register_threads := val2\<rparr>)) (ret (i + 2)))))
       else throw (TorchCheck ''Error, expecting pinned_num_register_threads value''))"

text \<open>
  One option of \<open>parseArgs\<close>: dispatch on the token at \<open>i\<close>; the result is the index of the
  option's last token. The two flags only decide whether a warning is logged at the end.
\<close>

definition parse_option ::
  "llvm_math \<Rightarrow> (string \<Rightarrow> exc + rat) \<Rightarrow> string \<Rightarrow> string list \<Rightarrow> nat \<Rightarrow> nat cfg_act" where
  "parse_option M stod backend config i =
     (let tok = config ! i in
      if tok = ''max_split_size_mb'' then parseMaxSplitSize config i
      else if tok = ''garbage_collection_threshold'' then
        parseGarbageCollectionThreshold stod config i
      else if tok = ''roundup_power2_divisions'' then parseRoundUpPower2Divisions M config i
      else if tok = ''backend'' then bnd (parseAllocatorConfig backend config i) (\<lambda>(j, _). ret j)
      else if tok = ''expandable_segments'' then
        parse_bool_option (\<lambda>b c. c\<lparr>m_expandable_segments := b\<rparr>) config i
      else if tok = ''release_lock_on_topsmalloc'' then
        parse_bool_option (\<lambda>b c. c\<lparr>m_release_lock_on_topsmalloc := b\<rparr>) config i
      else if tok = ''pinned_use_gcu_host_register'' then
        parsePinnedUseGcuHostRegister config i
      else if tok = ''pinned_num_register_threads'' then
        parsePinnedNumRegisterThreads M config i
      else throw (TorchCheck ''Unrecognized CachingAllocator option''))"

text \<open>
  The loop of \<open>parseArgs\<close>, with fuel; \<open>Suc (length config)\<close> is enough
  (\<open>parse_loop_enough_fuel\<close> below).
\<close>

fun parse_loop ::
  "nat \<Rightarrow> llvm_math \<Rightarrow> (string \<Rightarrow> exc + rat) \<Rightarrow> string \<Rightarrow> string list \<Rightarrow> nat \<Rightarrow> unit cfg_act" where
  "parse_loop 0 M stod backend config i = throw OutOfFuel"
| "parse_loop (Suc fuel) M stod backend config i =
     (if i < length config then
        bnd (parse_option M stod backend config i) (\<lambda>j.
          if j + 1 < length config then
            seq (consumeToken config (j + 1) CHR '','')
              (parse_loop fuel M stod backend config (j + 2))
          else parse_loop fuel M stod backend config (j + 1))
      else ret ())"

definition parseArgs ::
  "llvm_math \<Rightarrow> (string \<Rightarrow> exc + rat) \<Rightarrow> string \<Rightarrow> string option \<Rightarrow> unit cfg_act" where
  "parseArgs M stod backend env =
     seq (upd (\<lambda>c. c\<lparr> m_max_split_size := -1,
                      m_roundup_power2_divisions := replicate kRoundUpPowerOfTwoIntervals 0,
                      m_garbage_collection_threshold := 0 \<rparr>))
     (case env of None \<Rightarrow> ret ()
      | Some env \<Rightarrow>
          seq (upd (\<lambda>c. c\<lparr>m_last_allocator_settings := env\<rparr>))
          (let config = lexArgs env
           in parse_loop (Suc (length config)) M stod backend config 0))"

text \<open>\<open>instance()\<close>: the singleton is constructed from the environment variable.\<close>

definition config_instance ::
  "llvm_math \<Rightarrow> (string \<Rightarrow> exc + rat) \<Rightarrow> string \<Rightarrow> string option \<Rightarrow> (exc + unit) \<times> alloc_config" where
  "config_instance M stod backend env = parseArgs M stod backend env GCUAllocatorConfig"

section \<open>Lexing: the tokens are the text\<close>

lemma lex_loop_append: "lex_loop env buf config = config @ lex_loop env buf []"
proof (induction env arbitrary: buf config)
  case Nil
  then show ?case by simp
next
  case (Cons ch env)
  show ?case
    by (simp add: Cons.IH [of "[]" "config @ _"] Cons.IH [of "[]" "_ @ _"] Cons.IH [of _ config]
          Cons.IH [of "[]" "[_]"])
qed

lemma concat_lex_loop: "concat (lex_loop env buf []) = buf @ filter (\<lambda>ch. ch \<noteq> CHR '' '') env"
proof (induction env arbitrary: buf)
  case Nil
  then show ?case by simp
next
  case (Cons ch env)
  then show ?case
    by (subst lex_loop.simps, subst lex_loop_append) (auto simp: is_separator_def)
qed

definition is_token :: "string \<Rightarrow> bool" where
  "is_token t \<longleftrightarrow>
     (\<exists>ch. t = [ch] \<and> is_separator ch) \<or>
     t \<noteq> [] \<and> (\<forall>ch\<in>set t. \<not> is_separator ch \<and> ch \<noteq> CHR '' '')"

lemma lex_loop_tokens:
  "(\<forall>ch\<in>set buf. \<not> is_separator ch \<and> ch \<noteq> CHR '' '') \<Longrightarrow>
   \<forall>t\<in>set (lex_loop env buf []). is_token t"
proof (induction env arbitrary: buf)
  case Nil
  then show ?case by (simp add: is_token_def)
next
  case (Cons ch env)
  show ?case
  proof (cases "is_separator ch")
    case True
    have "lex_loop (ch # env) buf [] =
            (if buf \<noteq> [] then [buf] else []) @ [[ch]] @ lex_loop env [] []"
      using True by (subst lex_loop.simps, subst lex_loop_append) simp
    moreover have "\<forall>t\<in>set (lex_loop env [] []). is_token t" by (rule Cons.IH) simp
    ultimately show ?thesis using True Cons.prems by (auto simp: is_token_def)
  next
    case False
    with Cons.prems have "\<forall>t\<in>set (lex_loop env (buf @ [ch]) []). is_token t" if "ch \<noteq> CHR '' ''"
      using that by (intro Cons.IH) auto
    with False Cons show ?thesis by simp
  qed
qed

section \<open>Every configuration that parsing leaves is valid\<close>

definition division_ok :: "llvm_math \<Rightarrow> 64 word \<Rightarrow> bool" where
  "division_ok M d \<longleftrightarrow> d = 0 \<or> isPowerOf2_64 M d \<and> unat d < 2 ^ 31"

definition cfg_ok :: "llvm_math \<Rightarrow> alloc_config \<Rightarrow> bool" where
  "cfg_ok M c \<longleftrightarrow>
     length (m_roundup_power2_divisions c) = kRoundUpPowerOfTwoIntervals \<and>
     (\<forall>d\<in>set (m_roundup_power2_divisions c). division_ok M d) \<and>
     0 \<le> m_garbage_collection_threshold c \<and> m_garbage_collection_threshold c < 1 \<and>
     kLargeBuffer < m_max_split_size c \<and>
     (m_max_split_size c = -1 \<or> 1048576 dvd unat (m_max_split_size c)) \<and>
     isPowerOf2_64 M (m_pinned_num_register_threads c) \<and>
     m_pinned_num_register_threads c \<le> pinned_max_register_threads"

lemma stoi_range: "stoi s = Inr v \<Longrightarrow> - (2 ^ 31) \<le> v \<and> v < 2 ^ 31"
  by (auto simp: stoi_def Let_def split: sum.splits prod.splits if_splits)

lemma pow2_odd_ge: "(2::nat) ^ n < 2 ^ 64 \<Longrightarrow> 2 ^ 63 < (2::nat) ^ n \<Longrightarrow> False"
proof -
  assume "(2::nat) ^ n < 2 ^ 64" "2 ^ 63 < (2::nat) ^ n"
  then have "n < 64" "63 < n" using power_less_imp_less_exp by (metis Suc_1 lessI)+
  then show False by simp
qed

text \<open>A parsed number that passes the power-of-two check is a positive \<^verbatim>\<open>int\<close>.\<close>

lemma stoi_pow2:
  assumes "llvm_spec M" "stoi s = Inr v" "isPowerOf2_64 M (word_of_int v)"
  shows "unat (word_of_int v :: 64 word) < 2 ^ 31" and "0 < v"
proof -
  note r = stoi_range [OF assms(2)]
  show pos: "0 < v"
  proof (rule ccontr)
    assume "\<not> 0 < v"
    obtain n where n: "unat (word_of_int v :: 64 word) = 2 ^ n"
      using assms by (auto simp: isPowerOf2)
    have u: "uint (word_of_int v :: 64 word) = v mod 2 ^ 64" by (simp add: uint_word_of_int)
    show False
    proof (cases "v = 0")
      case True
      with n show False by simp
    next
      case False
      with \<open>\<not> 0 < v\<close> r have "(v + 2 ^ 64) mod 2 ^ 64 = v + 2 ^ 64"
        by (intro mod_pos_pos_trivial) simp_all
      then have "v mod 2 ^ 64 = v + 2 ^ 64" by simp
      with u n r have "int (2 ^ n) = v + 2 ^ 64" by (metis int_nat_eq unat_eq_nat_uint uint_nonnegative)
      with r \<open>\<not> 0 < v\<close> False have "int (2 ^ n) < int (2 ^ 64)" "int (2 ^ 63) < int (2 ^ n)"
        by simp_all
      then have "(2::nat) ^ n < 2 ^ 64" "2 ^ 63 < (2::nat) ^ n" by (simp_all only: of_nat_less_iff)
      then show False by (rule pow2_odd_ge)
    qed
  qed
  from pos r have "v mod 2 ^ 64 = v" by simp
  then have "uint (word_of_int v :: 64 word) = v" by (simp add: uint_word_of_int)
  with r pos show "unat (word_of_int v :: 64 word) < 2 ^ 31" by (simp add: unat_eq_nat_uint)
qed

lemma division_ok_stoi:
  "llvm_spec M \<Longrightarrow> stoi s = Inr v \<Longrightarrow> isPowerOf2_64 M (word_of_int v) \<Longrightarrow>
   division_ok M (word_of_int v)"
  using stoi_pow2 by (simp add: division_ok_def)

lemma length_fill: "a \<le> b \<Longrightarrow> b \<le> length xs \<Longrightarrow> length (fill a b v xs) = length xs"
  by (simp add: fill_def)

lemma set_fill: "set (fill a b v xs) \<subseteq> insert v (set xs)"
  by (auto simp: fill_def dest: in_set_takeD in_set_dropD)

lemma cfg_ok_divisions:
  "cfg_ok M c \<Longrightarrow> length ds = kRoundUpPowerOfTwoIntervals \<Longrightarrow> (\<forall>d\<in>set ds. division_ok M d) \<Longrightarrow>
   cfg_ok M (c\<lparr>m_roundup_power2_divisions := ds\<rparr>)"
  by (simp add: cfg_ok_def)

lemma hoare_lift_exc [hoare_rules]:
  "hoare (\<lambda>s. (\<forall>e. r = Inl e \<longrightarrow> E e s) \<and> (\<forall>x. r = Inr x \<longrightarrow> Q x s)) (lift_exc r) Q E"
  by (auto simp: hoare_def lift_exc_def act_simps split: sum.splits)

text \<open>
  \<open>keeps M i m\<close>: the parse action \<open>m\<close> for the option at index \<open>i\<close> keeps the configuration
  valid whether it returns or throws, returns an index beyond \<open>i\<close>, and does not run out of
  fuel.
\<close>

definition keeps :: "llvm_math \<Rightarrow> nat \<Rightarrow> nat cfg_act \<Rightarrow> bool" where
  "keeps M i m \<longleftrightarrow>
     hoare (cfg_ok M) m (\<lambda>j c. cfg_ok M c \<and> i < j) (\<lambda>e c. cfg_ok M c \<and> e \<noteq> OutOfFuel)"

lemmas parser_simps = consumeToken_def act_simps lift_exc_def Let_def

lemmas parser_splits = if_splits sum.splits prod.splits option.splits

lemma strto_no_fuel: "strto s = Inl e \<Longrightarrow> e \<noteq> OutOfFuel"
  by (auto simp: strto_def Let_def split: if_splits)

lemma stoi_no_fuel: "stoi s = Inl e \<Longrightarrow> e \<noteq> OutOfFuel"
  by (auto simp: stoi_def Let_def dest: strto_no_fuel split: parser_splits)

lemma stoul_no_fuel: "stoul s = Inl e \<Longrightarrow> e \<noteq> OutOfFuel"
  by (auto simp: stoul_def Let_def dest: strto_no_fuel split: parser_splits)

text \<open>The value of \<open>max_split_size_mb\<close>, clamped and scaled, in the simplifier's normal form.\<close>

lemma max_split_value:
  fixes w :: "64 word"
  assumes "20 < w"
  shows "20971520 < 1048576 * min w 17592186044415"
    and "1048576 dvd unat (1048576 * min w 17592186044415)"
proof -
  let ?v = "min w 17592186044415"
  have v1: "20 < unat ?v" using assms
    by (auto simp: min_def word_less_nat_alt)
  have v2: "unat ?v \<le> 17592186044415"
    by (auto simp: min_def word_le_nat_alt)
  have u: "unat (1048576 * ?v) = 1048576 * unat ?v"
    using v2 by (subst unat_mult64) simp_all
  show "20971520 < 1048576 * ?v"
    unfolding word_less_nat_alt u using v1 by simp
  show "1048576 dvd unat (1048576 * ?v)" unfolding u by simp
qed

lemma parseMaxSplitSize_keeps: "keeps M i (parseMaxSplitSize config i)"
  unfolding keeps_def parseMaxSplitSize_def
  by (rule hoareI)
    (auto simp: parser_simps cfg_ok_def kLargeBuffer_def max_split_value
      dest: stoi_no_fuel split: parser_splits)

lemma parseGarbageCollectionThreshold_keeps:
  "(\<And>s. stod s \<noteq> Inl OutOfFuel) \<Longrightarrow> keeps M i (parseGarbageCollectionThreshold stod config i)"
  unfolding keeps_def parseGarbageCollectionThreshold_def
  by (rule hoareI) (auto simp: parser_simps cfg_ok_def split: parser_splits)

lemma parseAllocatorConfig_keeps:
  "keeps M i (bnd (parseAllocatorConfig backend config i) (\<lambda>(j, _). ret j))"
  unfolding keeps_def parseAllocatorConfig_def
  by (rule hoareI) (auto simp: parser_simps split: parser_splits)

lemma parse_bool_option_keeps:
  "(\<And>b c. cfg_ok M c \<Longrightarrow> cfg_ok M (f b c)) \<Longrightarrow> keeps M i (parse_bool_option f config i)"
  unfolding keeps_def parse_bool_option_def
  by (rule hoareI) (auto simp: parser_simps split: parser_splits)

lemma parsePinnedUseGcuHostRegister_keeps: "keeps M i (parsePinnedUseGcuHostRegister config i)"
  unfolding keeps_def parsePinnedUseGcuHostRegister_def
  by (rule hoareI) (auto simp: parser_simps cfg_ok_def split: parser_splits)

lemma parsePinnedNumRegisterThreads_keeps: "keeps M i (parsePinnedNumRegisterThreads M config i)"
  unfolding keeps_def parsePinnedNumRegisterThreads_def
  by (rule hoareI)
    (auto simp: parser_simps cfg_ok_def dest: stoi_no_fuel split: parser_splits)

subsection \<open>The divisions\<close>

lemma set_divisions_fill:
  "cfg_ok M c \<Longrightarrow> division_ok M v \<Longrightarrow> a \<le> b \<Longrightarrow> b \<le> length (m_roundup_power2_divisions c) \<Longrightarrow>
   cfg_ok M (c\<lparr>m_roundup_power2_divisions := fill a b v (m_roundup_power2_divisions c)\<rparr>)"
  using set_fill [of a b v "m_roundup_power2_divisions c"]
  by (intro cfg_ok_divisions) (auto simp: length_fill cfg_ok_def)

lemma set_divisions_update:
  "cfg_ok M c \<Longrightarrow> division_ok M v \<Longrightarrow>
   cfg_ok M (c\<lparr>m_roundup_power2_divisions := (m_roundup_power2_divisions c)[i := v]\<rparr>)"
  using set_update_subset_insert [of "m_roundup_power2_divisions c" i v]
  by (intro cfg_ok_divisions) (auto simp: cfg_ok_def)

lemma parse_division_entry_keeps:
  assumes "division_ok M val2" and "last_index \<le> kRoundUpPowerOfTwoIntervals"
  shows "hoare (cfg_ok M) (parse_division_entry M val1 val2 first_value last_index)
    (\<lambda>(f, l) c. cfg_ok M c \<and> l \<le> kRoundUpPowerOfTwoIntervals)
    (\<lambda>e c. cfg_ok M c \<and> e \<noteq> OutOfFuel)"
proof -
  have len: "cfg_ok M c \<Longrightarrow> length (m_roundup_power2_divisions c) = kRoundUpPowerOfTwoIntervals" for c
    by (simp add: cfg_ok_def)
  show ?thesis
    unfolding parse_division_entry_def
    by (rule hoareI)
      (auto simp: parser_simps len kRoundUpPowerOfTwoIntervals_def length_fill
          assms(2) [unfolded kRoundUpPowerOfTwoIntervals_def]
        intro!: set_divisions_fill assms set_divisions_update
          set_divisions_update [of _ "c\<lparr>m_roundup_power2_divisions := ds\<rparr>" for c ds, simplified]
        dest: stoul_no_fuel split: parser_splits)
qed

lemma hoare_consumeToken:
  "(\<And>s. P s \<Longrightarrow> E (TorchCheck ''Error parsing CachingAllocator settings'') s) \<Longrightarrow>
   hoare P (consumeToken config i ch) (\<lambda>_. P) E"
  by (auto simp: hoare_def consumeToken_def act_simps)

lemma keeps_mono: "keeps M j m \<Longrightarrow> i \<le> j \<Longrightarrow> keeps M i m"
  unfolding keeps_def by (erule hoare_conseq) auto

lemma parse_division_list_keeps:
  "llvm_spec M \<Longrightarrow> last_index \<le> kRoundUpPowerOfTwoIntervals \<Longrightarrow>
   keeps M i (parse_division_list M config i first_value last_index)"
proof (induction M config i first_value last_index rule: parse_division_list.induct)
  case (1 M config i first_value last_index)
  let ?E = "\<lambda>e c. cfg_ok M c \<and> e \<noteq> OutOfFuel"
  let ?Q = "\<lambda>j c. cfg_ok M c \<and> i < j"
  show ?case
  proof (cases "i + 1 < length config \<and> config ! (i + 1) \<noteq> '']''")
    case False
    then show ?thesis
      unfolding keeps_def
      by (subst parse_division_list.simps) (auto simp: hoare_def act_simps)
  next
    case guard: True
    have rest: "hoare (\<lambda>c. cfg_ok M c \<and> l \<le> kRoundUpPowerOfTwoIntervals)
        (if length config \<le> i + 4 then throw UndefinedBehaviour
         else if config ! (i + 4) \<noteq> '']''
           then seq (consumeToken config (i + 4) CHR '','') (parse_division_list M config (i + 4) f l)
         else parse_division_list M config (i + 3) f l) ?Q ?E"
      if "i + 3 < length config" for f l
    proof -
      have "keeps M i (parse_division_list M config (i + 3) f l)"
        if "l \<le> kRoundUpPowerOfTwoIntervals" "\<not> length config \<le> i + 4" "config ! (i + 4) = '']''"
        using "1.IH"(2) [OF guard \<open>i + 3 < length config\<close> refl] that "1.prems"(1)
        by (intro keeps_mono [of M _ _ i]) auto
      moreover have "keeps M i (parse_division_list M config (i + 4) f l)"
        if "l \<le> kRoundUpPowerOfTwoIntervals" "\<not> length config \<le> i + 4" "config ! (i + 4) \<noteq> '']''"
        using "1.IH"(1) [OF guard \<open>i + 3 < length config\<close> refl] that "1.prems"(1)
        by (intro keeps_mono [of M _ _ i]) auto
      ultimately show ?thesis
        by (auto simp: keeps_def hoare_def act_simps consumeToken_def split: if_splits)
    qed
    have entry: "hoare (\<lambda>c. cfg_ok M c \<and> division_ok M v)
      (parse_division_entry M (config ! (i + 1)) v first_value last_index)
      (\<lambda>(f, l) c. cfg_ok M c \<and> l \<le> kRoundUpPowerOfTwoIntervals) ?E" for v
      using parse_division_entry_keeps [OF _ "1.prems"(2)] by (auto simp: hoare_def)
    show ?thesis
      unfolding keeps_def
      apply (subst parse_division_list.simps)
      apply (simp only: guard if_True Let_def simp_thms)
      apply (rule hoare_seq, rule hoare_consumeToken, simp)
      apply (simp only: split: if_split, safe)
       apply (rule hoare_bnd [where R = "\<lambda>v c. cfg_ok M c \<and> stoi (config ! (i + 3)) = Inr v"])
        apply (rule hoare_pre, rule hoare_lift_exc) 
        apply (auto dest: stoi_no_fuel)[1]
       apply (rule hoare_seq [where R = "\<lambda>c. cfg_ok M c \<and> division_ok M (word_of_int v)" for v])
        apply (rule hoare_pre, rule hoare_require) 
        apply (auto dest: division_ok_stoi [OF "1.prems"(1)])[1]
       apply (rule hoare_bnd, rule entry)
       apply (auto intro: rest)[1]
      apply (auto simp: hoare_def act_simps)
      done
  qed
qed
lemma parseRoundUpPower2Divisions_keeps:
  assumes M: "llvm_spec M"
  shows "keeps M i (parseRoundUpPower2Divisions M config i)"
proof -
  have list: "keeps M i (parse_division_list M config (Suc (Suc i)) True 0)"
    by (rule keeps_mono [OF parse_division_list_keeps [OF M]]) simp_all
  have single: "keeps M i (bnd (lift_exc (stoi t)) (\<lambda>v.
      seq (require (TorchCheck x) (isPowerOf2_64 M (word_of_int v)))
        (seq (set_divisions (\<lambda>ds. fill 0 (length ds) (word_of_int v) ds)) (ret (Suc (Suc i))))))" for t x
    unfolding keeps_def
    by (rule hoareI)
      (auto simp: parser_simps intro!: set_divisions_fill division_ok_stoi [OF M]
        dest: stoi_no_fuel split: parser_splits)
  show ?thesis
    using list single unfolding keeps_def parseRoundUpPower2Divisions_def
    by (auto simp: hoare_def seq_apply consumeToken_def require_apply throw_apply Let_def)
qed

lemma parse_option_keeps:
  assumes M: "llvm_spec M" and stod: "\<And>s. stod s \<noteq> Inl OutOfFuel"
  shows "keeps M i (parse_option M stod backend config i)"
proof -
  have unknown: "keeps M i (throw (TorchCheck x))" for x
    by (simp add: keeps_def hoare_def act_simps)
  have flags: "keeps M i (parse_bool_option (\<lambda>b. m_release_lock_on_topsmalloc_update (\<lambda>_. b)) config i)"
    "keeps M i (parse_bool_option (\<lambda>b. m_expandable_segments_update (\<lambda>_. b)) config i)"
    by (rule parse_bool_option_keeps; simp add: cfg_ok_def)+
  show ?thesis
    unfolding parse_option_def Let_def
    by (simp add: unknown flags parseMaxSplitSize_keeps parseGarbageCollectionThreshold_keeps stod
        parseRoundUpPower2Divisions_keeps M parseAllocatorConfig_keeps
        parsePinnedUseGcuHostRegister_keeps parsePinnedNumRegisterThreads_keeps)
qed

text \<open>
  Each option moves the index forward, so the loop of \<open>parseArgs\<close> ends: fuel beyond the
  number of tokens left is never used up.
\<close>

lemma parse_loop_enough_fuel:
  assumes M: "llvm_spec M" and stod: "\<And>s. stod s \<noteq> Inl OutOfFuel"
  shows "length config - i < fuel \<Longrightarrow>
    hoare (cfg_ok M) (parse_loop fuel M stod backend config i) (\<lambda>_. cfg_ok M)
      (\<lambda>e c. cfg_ok M c \<and> e \<noteq> OutOfFuel)"
proof (induction fuel arbitrary: i)
  case 0
  then show ?case by simp
next
  case (Suc fuel)
  let ?E = "\<lambda>e c. cfg_ok M c \<and> e \<noteq> OutOfFuel"
  show ?case
  proof (cases "i < length config")
    case False
    then show ?thesis by (simp add: hoare_def act_simps)
  next
    case True
    have IH: "hoare (cfg_ok M) (parse_loop fuel M stod backend config k) (\<lambda>_. cfg_ok M) ?E"
      if "i < k" for k
      using that True Suc.prems by (intro Suc.IH) linarith
    have rest: "hoare (\<lambda>c. cfg_ok M c \<and> i < j)
        (if j + 1 < length config
         then seq (consumeToken config (j + 1) CHR '','') (parse_loop fuel M stod backend config (j + 2))
         else parse_loop fuel M stod backend config (j + 1)) (\<lambda>_. cfg_ok M) ?E" for j
      using IH [of "j + 1"] IH [of "j + 2"]
      by (auto simp: hoare_def seq_apply consumeToken_def require_apply)
    show ?thesis
      using True by (simp only: parse_loop.simps if_True)
        (rule hoare_bnd [OF parse_option_keeps [OF M stod, unfolded keeps_def] rest])
  qed
qed

lemma parseArgs_valid:
  assumes M: "llvm_spec M" and stod: "\<And>s. stod s \<noteq> Inl OutOfFuel"
  shows "hoare (cfg_ok M) (parseArgs M stod backend env) (\<lambda>_. cfg_ok M)
    (\<lambda>e c. cfg_ok M c \<and> e \<noteq> OutOfFuel)"
proof -
  have defaults: "cfg_ok M c \<Longrightarrow>
    cfg_ok M (c\<lparr> m_max_split_size := -1,
      m_roundup_power2_divisions := replicate kRoundUpPowerOfTwoIntervals 0,
      m_garbage_collection_threshold := 0 \<rparr>)" for c
    by (simp add: cfg_ok_def division_ok_def kLargeBuffer_def)
  have settings: "cfg_ok M c \<Longrightarrow> cfg_ok M (c\<lparr>m_last_allocator_settings := x\<rparr>)" for c x
    by (simp add: cfg_ok_def)
  have loop: "hoare (cfg_ok M) (parse_loop (Suc (length config)) M stod backend config 0)
    (\<lambda>_. cfg_ok M) (\<lambda>e c. cfg_ok M c \<and> e \<noteq> OutOfFuel)" for config
    by (rule parse_loop_enough_fuel [OF M stod]) simp
  have given: "hoare (cfg_ok M)
      (seq (upd (\<lambda>c. c\<lparr>m_last_allocator_settings := x\<rparr>))
        (parse_loop (Suc (length config)) M stod backend config 0))
      (\<lambda>_. cfg_ok M) (\<lambda>e c. cfg_ok M c \<and> e \<noteq> OutOfFuel)" for x config
    by (rule hoare_seq [OF hoare_upd_inv loop]) (rule settings)
  show ?thesis
    unfolding parseArgs_def Let_def
  proof (rule hoare_seq [OF hoare_upd_inv])
    fix c assume "cfg_ok M c"
    then show "cfg_ok M (c\<lparr> m_max_split_size := -1,
      m_roundup_power2_divisions := replicate kRoundUpPowerOfTwoIntervals 0,
      m_garbage_collection_threshold := 0 \<rparr>)" by (rule defaults)
  qed (cases env; simp only: option.case given hoare_ret_inv)
qed

lemma cfg_ok_default: "llvm_spec M \<Longrightarrow> cfg_ok M GCUAllocatorConfig"
  by (simp add: cfg_ok_def GCUAllocatorConfig_def division_ok_def kLargeBuffer_def
      pinned_max_register_threads_def isPowerOf2 word_le_nat_alt)
    (rule exI [of _ 0], simp)

text \<open>With a valid configuration the table lookup stays inside the table.\<close>

lemma roundup_power2_divisions_ok:
  assumes M: "llvm_spec M" and c: "cfg_ok M c" and n: "n \<noteq> 0"
  obtains d where "roundup_power2_divisions M c n = Inr d" and "division_ok M d"
    and "d = m_roundup_power2_divisions c ! min (lg (unat n) - 20) 15"
proof -
  have clz1: "countLeadingZeros M 1048576 = 43"
    using clz [OF M, of 1048576] lg_power [of 20] by simp
  have clz2: "countLeadingZeros M 68719476736 = 27"
    using clz [OF M, of 68719476736] lg_power [of 36] by simp
  have "lg (unat n) < 64" using n by (rule lg_unat64)
  then have log: "63 - int (countLeadingZeros M n) = int (lg (unat n))"
    using clz [OF M n] by simp
  have len: "length (m_roundup_power2_divisions c) = 16"
    using c by (simp add: cfg_ok_def kRoundUpPowerOfTwoIntervals_def)
  have ix: "nat (min (max 0 (int (lg (unat n)) - 20)) 15) = min (lg (unat n) - 20) 15" by linarith
  let ?d = "m_roundup_power2_divisions c ! min (lg (unat n) - 20) 15"
  have eq: "roundup_power2_divisions M c n = Inr ?d"
    by (simp add: roundup_power2_divisions_def Let_def log clz1 clz2 len ix
        kRoundUpPowerOfTwoIntervals_def)
  have "?d \<in> set (m_roundup_power2_divisions c)" using len by (intro nth_mem) simp
  with c have "division_ok M ?d" by (simp add: cfg_ok_def)
  with eq show thesis by (rule that) simp
qed

section \<open>Properties\<close>



text \<open>Lexing loses nothing but spaces: the tokens of a setting string are separators or
  non-empty words without separators and spaces, and put together they are the string without
  its spaces.
\<close>

theorem lexArgs_tokens:
  "concat (lexArgs env) = filter (\<lambda>ch. ch \<noteq> CHR '' '') env \<and> list_all is_token (lexArgs env)"
  unfolding lexArgs_def list_all_iff using lex_loop_tokens [of "[]" env]
  by (simp add: concat_lex_loop)

end
