(* ===== verification/AllocSizes.thy ===== *)
theory AllocSizes
  imports AllocConfig
begin

text \<open>
  The size arithmetic of \<^verbatim>\<open>DeviceCachingAllocator\<close> in \<^verbatim>\<open>gcu_caching_allocator.cpp\<close>, on
  64-bit words as in the source: how a request is rounded (\<open>round_size\<close>,
  \<open>roundup_power2_next_division\<close>) and how much is requested from the device for it
  (\<open>get_allocation_size\<close>). Below 1 EiB (the bound that \<^verbatim>\<open>allocate\<close> checks) they are shown
  equal to a specification on natural numbers; above it they wrap around.
\<close>

definition kMinBlockSize :: "64 word" where "kMinBlockSize = 512"
definition kSmallSize :: "64 word" where "kSmallSize = 1048576"
definition kSmallBuffer :: "64 word" where "kSmallBuffer = 2097152"
definition kMinLargeAlloc :: "64 word" where "kMinLargeAlloc = 10485760"
definition kRoundLarge :: "64 word" where "kRoundLarge = 2097152"

lemmas k_defs = kMinBlockSize_def kSmallSize_def kSmallBuffer_def kMinLargeAlloc_def
  kRoundLarge_def kLargeBuffer_def

definition roundup_power2_next_division :: "llvm_math \<Rightarrow> 64 word \<Rightarrow> 64 word \<Rightarrow> 64 word" where
  "roundup_power2_next_division M size0 divisions =
     (if size0 \<le> 4 \<or> divisions \<le> 1 then size0
      else if isPowerOf2_64 M size0 then size0
      else
        (let power2_floor = PowerOf2Floor M size0;
             power2_divison = drop_bit (63 - countLeadingZeros M divisions) power2_floor
         in if power2_divison = 0 then push_bit 1 power2_floor
            else
              (let round_size_floor = size0 AND NOT (power2_divison - 1)
               in if round_size_floor = size0 then size0
                  else round_size_floor + power2_divison)))"

definition round_size :: "llvm_math \<Rightarrow> alloc_config \<Rightarrow> 64 word \<Rightarrow> exc + 64 word" where
  "round_size M c size0 =
     (if size0 < kMinBlockSize then Inr kMinBlockSize
      else
        (case roundup_power2_divisions M c size0 of Inl e \<Rightarrow> Inl e
         | Inr divisions \<Rightarrow>
             if 0 < divisions \<and> kMinBlockSize * divisions < size0
             then Inr (roundup_power2_next_division M size0 divisions)
             else Inr (kMinBlockSize * ((size0 + kMinBlockSize - 1) div kMinBlockSize))))"

definition get_allocation_size :: "64 word \<Rightarrow> 64 word" where
  "get_allocation_size size0 =
     (if size0 \<le> kSmallSize then kSmallBuffer
      else if size0 < kMinLargeAlloc then kLargeBuffer
      else kRoundLarge * ((size0 + kRoundLarge - 1) div kRoundLarge))"

section \<open>Specification on natural numbers\<close>

text \<open>
  With \<open>d\<close> divisions configured for the power-of-two interval of \<open>n\<close>, sizes are rounded up
  to the next multiple of the granule: a \<open>d\<close>-th of the power of two below \<open>n\<close>, or 512 when
  no division applies. One division means no rounding at all.
\<close>

definition granule :: "nat \<Rightarrow> nat \<Rightarrow> nat" where
  "granule d n = (if 0 < d \<and> 512 * d < n then (if d = 1 then 1 else 2 ^ lg n div d) else 512)"

definition round_up :: "nat \<Rightarrow> nat \<Rightarrow> nat" where
  "round_up g n = g * ((n + g - 1) div g)"

definition round_spec :: "(nat \<Rightarrow> nat) \<Rightarrow> nat \<Rightarrow> nat" where
  "round_spec d n = max 512 (round_up (granule (d (lg n)) n) n)"

text \<open>The divisions of the configuration, by the logarithm of the size.\<close>

definition cfg_divisions :: "alloc_config \<Rightarrow> nat \<Rightarrow> nat" where
  "cfg_divisions c k = unat (m_roundup_power2_divisions c ! min (k - 20) 15)"

lemma round_up_bounds:
  assumes "0 < g"
  shows "n \<le> round_up g n" and "round_up g n < n + g" and "g dvd round_up g n"
  using round_up_ge [OF assms] round_up_less [OF assms] by (simp_all add: round_up_def)

text \<open>\<open>round_up g n\<close> is the least multiple of \<open>g\<close> that is not below \<open>n\<close>.\<close>

lemma round_up_least: "0 < g \<Longrightarrow> n \<le> m \<Longrightarrow> g dvd m \<Longrightarrow> round_up g n \<le> m"
proof -
  assume g: "0 < g" "n \<le> m" "g dvd m"
  then obtain q where q: "m = g * q" by auto
  have "round_up g n < g * q + g" using round_up_bounds(2) [OF g(1), of n] g(2) q by linarith
  then have "g * ((n + g - 1) div g) < g * Suc q" by (simp add: round_up_def)
  then have "(n + g - 1) div g \<le> q" by (metis less_Suc_eq_le mult_less_cancel1)
  then show ?thesis using q by (simp add: round_up_def)
qed

lemma round_up_mono: "0 < g \<Longrightarrow> m \<le> n \<Longrightarrow> round_up g m \<le> round_up g n"
  by (metis round_up_bounds(1,3) round_up_least le_trans)

lemma round_up_dvd: "0 < g \<Longrightarrow> g dvd n \<Longrightarrow> round_up g n = n"
  by (simp add: dual_order.antisym round_up_bounds(1) round_up_least)

lemma round_up_not_dvd: "0 < g \<Longrightarrow> n mod g \<noteq> 0 \<Longrightarrow> round_up g n = g * (n div g) + g"
proof -
  assume g: "0 < g" "n mod g \<noteq> 0"
  have "n mod g < g" using g(1) by simp
  moreover have "n = g * (n div g) + n mod g" by simp
  ultimately have "g * Suc (n div g) \<le> n + g - 1" "n + g - 1 < g * Suc (Suc (n div g))"
    using g(2) unfolding mult_Suc_right by linarith+
  then have "(n + g - 1) div g = Suc (n div g)" by (intro div_nat_eqI) (simp_all add: mult.commute)
  then show ?thesis by (simp add: round_up_def)
qed

section \<open>The granule\<close>

lemma granule_pow2:
  assumes "d = 0 \<or> d = 2 ^ j"
  shows "\<exists>k. granule d n = 2 ^ k \<and> (d \<noteq> 1 \<longrightarrow> 9 \<le> k) \<and> (512 \<le> n \<longrightarrow> k \<le> lg n)"
proof (cases "0 < d \<and> 512 * d < n \<and> d \<noteq> 1")
  case False
  have "512 \<le> n \<Longrightarrow> 9 \<le> lg n" using lg_mono [of 512 n] lg_power [of 9] by simp
  moreover have "granule d n = (if d = 1 \<and> 512 < n then 2 ^ 0 else 2 ^ 9)"
    using False by (auto simp: granule_def)
  ultimately show ?thesis
    by (intro exI [of _ "if d = 1 \<and> 512 < n then 0 else 9"]) auto
next
  case True
  with assms have d: "d = 2 ^ j" by auto
  have "(2::nat) ^ (9 + j) \<le> n" using True d by (simp add: power_add)
  then have le: "9 + j \<le> lg n" using lg_mono [of "2 ^ (9 + j)" n] by simp
  have "(2::nat) ^ lg n div 2 ^ j = 2 ^ (lg n - j)"
    using le by (metis add_leE power_diff zero_neq_numeral)
  with True d have "granule d n = 2 ^ (lg n - j)" by (simp add: granule_def)
  then show ?thesis using le by (intro exI [of _ "lg n - j"]) auto
qed

lemma granule_pos: "d = 0 \<or> d = 2 ^ j \<Longrightarrow> 0 < granule d n"
  using granule_pow2 [of d j n] by auto

text \<open>A power of two above the granule is a multiple of it, so rounding stays in the interval.\<close>

lemma round_up_granule_le:
  assumes "d = 0 \<or> d = 2 ^ j" and "512 \<le> n"
  shows "round_up (granule d n) n \<le> 2 ^ Suc (lg n)"
proof -
  obtain k where k: "granule d n = 2 ^ k" "k \<le> lg n"
    using granule_pow2 [OF assms(1), of n] assms(2) by blast
  have "granule d n dvd 2 ^ Suc (lg n)" unfolding k(1) using k(2) by (intro le_imp_power_dvd) simp
  moreover have "n \<le> 2 ^ Suc (lg n)" using lg_bounds [of n] assms(2) by simp
  ultimately show ?thesis using granule_pos [OF assms(1)] by (intro round_up_least) simp_all
qed

section \<open>The word routines meet the specification\<close>

lemma next_division_unat:
  assumes M: "llvm_spec M" and d: "isPowerOf2_64 M d" "unat d < 2 ^ 31"
    and s: "kMinBlockSize * d < s" "unat s < 2 ^ 60"
  shows "unat (roundup_power2_next_division M s d) = round_up (granule (unat d) (unat s)) (unat s)"
proof -
  obtain j where j: "unat d = 2 ^ j" using M d(1) by (auto simp: isPowerOf2)
  have "unat (kMinBlockSize * d) = 512 * unat d"
    using d(2) by (subst unat_mult64) (simp_all add: kMinBlockSize_def)
  with s(1) have big: "512 * unat d < unat s" by (simp add: word_less_nat_alt)
  have d0: "d \<noteq> 0" using j by auto
  then have "0 < unat d" by (simp add: unat_gt_0)
  with big have s512: "512 < unat s" by linarith
  then have s0: "s \<noteq> 0" by auto
  show ?thesis
  proof (cases "unat d = 1")
    case True
    then have "d \<le> 1" by (simp add: word_le_nat_alt)
    with True big show ?thesis
      by (simp add: roundup_power2_next_division_def granule_def round_up_def)
  next
    case d1: False
    with \<open>0 < unat d\<close> have d2: "\<not> d \<le> 1" by (simp add: word_le_nat_alt)
    have s4: "\<not> s \<le> 4" using s512 by (simp add: word_le_nat_alt)
    have g: "granule (unat d) (unat s) = 2 ^ (lg (unat s) - j)" and jk: "j \<le> lg (unat s)"
    proof -
      have "(2::nat) ^ (9 + j) \<le> unat s" using big j by (simp add: power_add)
      then have le: "9 + j \<le> lg (unat s)" using lg_mono [of "2 ^ (9 + j)" "unat s"] by simp
      then show "j \<le> lg (unat s)" by simp
      have "(2::nat) ^ lg (unat s) div 2 ^ j = 2 ^ (lg (unat s) - j)"
        using le by (metis add_leE power_diff zero_neq_numeral)
      then show "granule (unat d) (unat s) = 2 ^ (lg (unat s) - j)"
        using big d1 j \<open>0 < unat d\<close> by (simp add: granule_def)
    qed
    let ?k = "lg (unat s) - j"
    have k64: "lg (unat s) < 64" "?k < 64" using lg_unat64 [OF s0] by simp_all
    show ?thesis
    proof (cases "isPowerOf2_64 M s")
      case True
      then have "unat s = 2 ^ lg (unat s)" using M by (intro isPowerOf2_lg(1))
      then have "2 ^ ?k dvd unat s" by (metis diff_le_self le_imp_power_dvd)
      then have "round_up (2 ^ ?k) (unat s) = unat s" by (simp add: round_up_dvd)
      with True s4 d2 g show ?thesis by (simp add: roundup_power2_next_division_def)
    next
      case False
      have lgd: "63 - countLeadingZeros M d = j"
        using clz [OF M d0] lg_unat64 [OF d0] j by simp
      have "unat (drop_bit j (PowerOf2Floor M s)) = 2 ^ ?k"
      proof -
        have "unat (drop_bit j (PowerOf2Floor M s)) = unat (PowerOf2Floor M s) div 2 ^ j"
          by (simp only: unat_drop_bit_eq) (simp only: drop_bit_eq_div)
        also have "\<dots> = 2 ^ ?k"
          using PowerOf2Floor [OF M s0] jk by (simp add: power_diff)
        finally show ?thesis .
      qed
      then have dv: "drop_bit j (PowerOf2Floor M s) = word_of_nat (2 ^ ?k)"
        using unat_pow64 [OF k64(2)] by (metis word_unat_eq_iff)
      have dv0: "drop_bit j (PowerOf2Floor M s) \<noteq> 0"
        using \<open>unat (drop_bit j (PowerOf2Floor M s)) = 2 ^ ?k\<close> by auto
      let ?f = "s AND NOT (word_of_nat (2 ^ ?k) - 1)"
      have uf: "unat ?f = 2 ^ ?k * (unat s div 2 ^ ?k)" by (rule unat_clear_low [OF k64(2)])
      have res: "roundup_power2_next_division M s d =
          (if ?f = s then s else ?f + word_of_nat (2 ^ ?k))"
        using False s4 d2 dv0
        by (simp add: roundup_power2_next_division_def Let_def lgd dv del: of_nat_power)
      show ?thesis
      proof (cases "?f = s")
        case True
        then have "2 ^ ?k dvd unat s" using uf by (metis dvd_triv_left)
        then show ?thesis using True res g by (simp add: round_up_dvd)
      next
        case neq: False
        then have "unat ?f \<noteq> unat s" by (simp only: word_unat_eq_iff not_False_eq_True)
        then have "unat s mod 2 ^ ?k \<noteq> 0"
          using uf by (metis add.right_neutral mult_div_mod_eq)
        then have up: "round_up (2 ^ ?k) (unat s) = 2 ^ ?k * (unat s div 2 ^ ?k) + 2 ^ ?k"
          by (intro round_up_not_dvd) simp_all
        have "(2::nat) ^ ?k \<le> 2 ^ lg (unat s)" by (rule power_increasing) simp_all
        then have "(2::nat) ^ ?k \<le> unat s" using lg_bounds [of "unat s"] s512 by linarith
        moreover have "2 ^ ?k * (unat s div 2 ^ ?k) \<le> unat s" by (rule times_div_less_eq_dividend)
        ultimately have "2 ^ ?k * (unat s div 2 ^ ?k) + 2 ^ ?k \<le> 2 * unat s" by linarith
        also have "\<dots> < 2 ^ 64" using s(2) by simp
        finally have "unat ?f + unat (word_of_nat (2 ^ ?k) :: 64 word) < 2 ^ 64"
          unfolding uf unat_pow64 [OF k64(2)] .
        then have "unat (?f + word_of_nat (2 ^ ?k)) = 2 ^ ?k * (unat s div 2 ^ ?k) + 2 ^ ?k"
          using uf unat_pow64 [OF k64(2)] by (simp only: unat_add64)
        then show ?thesis using neq res g up by simp
      qed
    qed
  qed
qed

lemma division_ok_cases:
  "llvm_spec M \<Longrightarrow> division_ok M d \<Longrightarrow> \<exists>j. unat d = 0 \<or> unat d = 2 ^ j"
  by (auto simp: division_ok_def isPowerOf2)

definition divisions_pow2 :: "(nat \<Rightarrow> nat) \<Rightarrow> bool" where
  "divisions_pow2 d \<longleftrightarrow> (\<forall>k. \<exists>j. d k = 0 \<or> d k = 2 ^ j)"

lemma cfg_divisions_pow2:
  assumes "llvm_spec M" and "cfg_ok M c"
  shows "divisions_pow2 (cfg_divisions c)"
  unfolding divisions_pow2_def
proof
  fix k
  have "min (k - 20) 15 < length (m_roundup_power2_divisions c)"
    using assms(2) by (simp add: cfg_ok_def kRoundUpPowerOfTwoIntervals_def)
  then have "division_ok M (m_roundup_power2_divisions c ! min (k - 20) 15)"
    using assms(2) by (simp add: cfg_ok_def)
  with assms(1) show "\<exists>j. cfg_divisions c k = 0 \<or> cfg_divisions c k = 2 ^ j"
    unfolding cfg_divisions_def by (rule division_ok_cases)
qed

text \<open>Below 1 EiB \<open>round_size\<close> computes the specification, and does not throw.\<close>

lemma round_size_spec:
  assumes M: "llvm_spec M" and c: "cfg_ok M c" and s: "unat s < 2 ^ 60"
  shows "\<exists>r. round_size M c s = Inr r \<and> unat r = round_spec (cfg_divisions c) (unat s)"
proof (cases "s < kMinBlockSize")
  case True
  then have "unat s < 512" by (simp add: kMinBlockSize_def word_less_nat_alt)
  then have "granule d (unat s) = 512" for d by (auto simp: granule_def)
  moreover have "round_up 512 (unat s) \<le> 512" using \<open>unat s < 512\<close> by (intro round_up_least) simp_all
  ultimately show ?thesis using True by (simp add: round_size_def round_spec_def kMinBlockSize_def)
next
  case False
  then have s512: "512 \<le> unat s" by (simp add: kMinBlockSize_def word_less_nat_alt)
  then have s0: "s \<noteq> 0" by auto
  obtain d where d: "roundup_power2_divisions M c s = Inr d" "division_ok M d"
      "d = m_roundup_power2_divisions c ! min (lg (unat s) - 20) 15"
    using roundup_power2_divisions_ok [OF M c s0] .
  then have cd: "cfg_divisions c (lg (unat s)) = unat d" by (simp add: cfg_divisions_def)
  obtain j where j: "unat d = 0 \<or> unat d = 2 ^ j" using division_ok_cases [OF M d(2)] by blast
  let ?g = "granule (unat d) (unat s)"
  have "512 \<le> round_up ?g (unat s)"
    using round_up_bounds(1) [OF granule_pos [OF j], of "unat s" "unat s"] s512 by linarith
  then have spec: "round_spec (cfg_divisions c) (unat s) = round_up ?g (unat s)"
    by (simp add: round_spec_def cd)
  have d31: "unat d < 2 ^ 31" using d(2) by (auto simp: division_ok_def)
  have md: "unat (kMinBlockSize * d) = 512 * unat d"
    using d31 by (subst unat_mult64) (simp_all add: kMinBlockSize_def)
  show ?thesis
  proof (cases "0 < d \<and> kMinBlockSize * d < s")
    case True
    then have "isPowerOf2_64 M d" using d(2) by (auto simp: division_ok_def)
    then show ?thesis
      using next_division_unat [OF M _ d31 _ s] True False d(1) spec by (simp add: round_size_def)
  next
    case no: False
    then have "?g = 512" using md by (auto simp: granule_def word_less_nat_alt unat_gt_0)
    moreover have "unat (kMinBlockSize * ((s + kMinBlockSize - 1) div kMinBlockSize)) = round_up 512 (unat s)"
    proof -
      have "unat (s + kMinBlockSize - 1) = unat s + 511"
        using s unat_add64 [of 511 s] by (simp add: kMinBlockSize_def)
      then have q: "unat ((s + kMinBlockSize - 1) div kMinBlockSize) = (unat s + 511) div 512"
        by (simp add: unat_div kMinBlockSize_def)
      then have "unat (kMinBlockSize * ((s + kMinBlockSize - 1) div kMinBlockSize)) = 512 * ((unat s + 511) div 512)"
        using s by (subst unat_mult64) (simp_all add: kMinBlockSize_def)
      then show ?thesis by (simp add: round_up_def)
    qed
    ultimately show ?thesis using no False d(1) spec by (auto simp: round_size_def)
  qed
qed

section \<open>What callers rely on\<close>

lemma round_spec_ge: "divisions_pow2 d \<Longrightarrow> n \<le> round_spec d n \<and> 512 \<le> round_spec d n"
proof -
  assume "divisions_pow2 d"
  then obtain j where "d (lg n) = 0 \<or> d (lg n) = 2 ^ j" unfolding divisions_pow2_def by blast
  from round_up_bounds(1) [OF granule_pos [OF this], of n n] show ?thesis
    by (simp add: round_spec_def max.coboundedI2)
qed

lemma round_spec_interval:
  assumes "divisions_pow2 d" and "512 \<le> n"
  shows "round_spec d n \<le> 2 ^ Suc (lg n)"
proof -
  obtain j where j: "d (lg n) = 0 \<or> d (lg n) = 2 ^ j" using assms(1) unfolding divisions_pow2_def by blast
  have "(512::nat) \<le> 2 ^ Suc (lg n)" using lg_bounds [of n] assms(2) by linarith
  with round_up_granule_le [OF j assms(2)] show ?thesis by (simp add: round_spec_def)
qed

lemma round_spec_small: "n \<le> 512 \<Longrightarrow> round_spec d n = 512"
proof -
  assume n: "n \<le> 512"
  then have "granule (d (lg n)) n = 512" by (auto simp: granule_def)
  moreover have "round_up 512 n \<le> 512" using n by (intro round_up_least) simp_all
  ultimately show ?thesis by (simp add: round_spec_def)
qed

text \<open>Rounding is monotone, across intervals and across the division threshold.\<close>

lemma round_spec_mono:
  assumes d: "divisions_pow2 d" and "m \<le> n"
  shows "round_spec d m \<le> round_spec d n"
proof (cases "m \<le> 512")
  case True
  then show ?thesis using round_spec_ge [OF d] by (simp add: round_spec_small)
next
  case False
  have dn: "n \<le> round_spec d n" using round_spec_ge [OF d] by blast
  show ?thesis
  proof (cases "lg m = lg n")
    case False
    with \<open>m \<le> n\<close> have "Suc (lg m) \<le> lg n" using lg_mono [of m n] by linarith
    then have "(2::nat) ^ Suc (lg m) \<le> 2 ^ lg n" by (intro power_increasing) simp_all
    moreover have "2 ^ lg n \<le> n" using lg_bounds [of n] \<open>m \<le> n\<close> \<open>\<not> m \<le> 512\<close> by simp
    ultimately show ?thesis using round_spec_interval [OF d, of m] \<open>\<not> m \<le> 512\<close> dn by linarith
  next
    case same: True
    obtain j where j: "d (lg n) = 0 \<or> d (lg n) = 2 ^ j" using d unfolding divisions_pow2_def by blast
    let ?d = "d (lg n)"
    show ?thesis
    proof (cases "0 < ?d \<and> 512 * ?d < n \<and> \<not> 512 * ?d < m")
      case True
      then have "granule ?d m = 512" by (auto simp: granule_def)
      moreover have "round_up 512 m \<le> 512 * ?d" using True by (intro round_up_least) simp_all
      ultimately show ?thesis using True dn same by (simp add: round_spec_def)
    next
      case False
      then have "granule ?d m = granule ?d n" using same \<open>m \<le> n\<close> by (auto simp: granule_def)
      then have "round_up (granule ?d m) m \<le> round_up (granule ?d n) n"
        using round_up_mono [OF granule_pos [OF j] \<open>m \<le> n\<close>] by simp
      then show ?thesis unfolding round_spec_def same by (rule max.mono [OF order_refl])
    qed
  qed
qed

text \<open>Rounding a rounded size changes nothing.\<close>

lemma round_spec_pow2:
  assumes d: "divisions_pow2 d" and "9 \<le> k"
  shows "round_spec d (2 ^ k) = 2 ^ k"
proof -
  have k: "(512::nat) \<le> 2 ^ k" using power_increasing [of 9 k "2::nat"] assms(2) by simp
  obtain j where j: "d k = 0 \<or> d k = 2 ^ j" using d unfolding divisions_pow2_def by blast
  then obtain i where "granule (d k) (2 ^ k) = 2 ^ i" "i \<le> k"
    using granule_pow2 [OF j, of "2 ^ k"] k by auto
  then have "granule (d k) (2 ^ k) dvd 2 ^ k" by (simp add: le_imp_power_dvd)
  with granule_pos [OF j] k show ?thesis by (simp add: round_spec_def round_up_dvd)
qed

lemma round_spec_idem:
  assumes d: "divisions_pow2 d"
  shows "round_spec d (round_spec d n) = round_spec d n"
proof (cases "n \<le> 512")
  case True
  then show ?thesis by (simp add: round_spec_small)
next
  case False
  let ?r = "round_spec d n"
  obtain j where j: "d (lg n) = 0 \<or> d (lg n) = 2 ^ j" using d unfolding divisions_pow2_def by blast
  let ?g = "granule (d (lg n)) n"
  have nr: "n \<le> ?r" using round_spec_ge [OF d] by blast
  have r: "?r = round_up ?g n"
    using False round_up_bounds(1) [OF granule_pos [OF j], of n n] by (simp add: round_spec_def)
  have "?r \<le> 2 ^ Suc (lg n)" using round_spec_interval [OF d] False by simp
  then consider "?r = 2 ^ Suc (lg n)" | "?r < 2 ^ Suc (lg n)" by linarith
  then show ?thesis
  proof cases
    case 1
    have "9 \<le> Suc (lg n)" using lg_mono [of 512 n] lg_power [of 9] False by simp
    with 1 show ?thesis using round_spec_pow2 [OF d] by metis
  next
    case 2
    then have lr: "lg ?r = lg n" using nr lg_bounds [of n] False by (intro lg_unique) linarith+
    have "granule (d (lg n)) ?r = ?g"
    proof (cases "0 < d (lg n) \<and> \<not> 512 * d (lg n) < n")
      case True
      then have "?g = 512" by (auto simp: granule_def)
      then have "?r \<le> 512 * d (lg n)" unfolding r using True by (intro round_up_least) simp_all
      with \<open>?g = 512\<close> show ?thesis by (auto simp: granule_def)
    next
      case False
      then show ?thesis using nr lr by (auto simp: granule_def)
    qed
    moreover have "round_up ?g ?r = ?r"
      unfolding r using granule_pos [OF j] by (intro round_up_dvd round_up_bounds(3)) simp_all
    ultimately show ?thesis using lr nr False by (simp add: round_spec_def [of d ?r])
  qed
qed

text \<open>
  All sizes are multiples of 512 bytes unless one division is configured for the interval of
  the size.
\<close>

lemma round_spec_aligned:
  assumes d: "divisions_pow2 d" and "d (lg n) \<noteq> 1"
  shows "512 dvd round_spec d n"
proof (cases "n \<le> 512")
  case True
  then show ?thesis by (simp add: round_spec_small)
next
  case False
  obtain j where j: "d (lg n) = 0 \<or> d (lg n) = 2 ^ j" using d unfolding divisions_pow2_def by blast
  then obtain k where k: "granule (d (lg n)) n = 2 ^ k" "9 \<le> k"
    using granule_pow2 [OF j, of n] assms(2) by blast
  have "(2::nat) ^ 9 dvd 2 ^ k" using k(2) by (rule le_imp_power_dvd)
  then have "512 dvd granule (d (lg n)) n" using k(1) by simp
  then have "512 dvd round_up (granule (d (lg n)) n) n"
    using round_up_bounds(3) [OF granule_pos [OF j], of n n] by (rule dvd_trans)
  then show ?thesis by (simp add: round_spec_def max_def)
qed

section \<open>Sizes requested from the device\<close>

definition alloc_spec :: "nat \<Rightarrow> nat" where
  "alloc_spec n = (if n \<le> 1048576 then 2097152 else if n < 10485760 then 20971520
                   else round_up 2097152 n)"

lemma get_allocation_size_spec:
  assumes "unat s < 2 ^ 62"
  shows "unat (get_allocation_size s) = alloc_spec (unat s)"
proof -
  have "unat (2097151 + s) = 2097151 + unat s" using assms unat_add64 [of 2097151 s] by simp
  then have q: "unat ((2097151 + s) div 2097152) = (2097151 + unat s) div 2097152"
    by (simp add: unat_div)
  then have "unat (2097152 * ((2097151 + s) div 2097152)) = 2097152 * ((2097151 + unat s) div 2097152)"
    using assms by (subst unat_mult64) simp_all
  then show ?thesis
    by (simp add: get_allocation_size_def alloc_spec_def k_defs word_le_nat_alt word_less_nat_alt
        round_up_def)
qed

lemma alloc_spec_bounds:
  "n \<le> alloc_spec n \<and> 2097152 dvd alloc_spec n \<and> alloc_spec n < n + 20971520"
  using round_up_bounds [of 2097152 n] by (simp add: alloc_spec_def)

section \<open>Properties\<close>

text \<open>C13: below 1 EiB the 64-bit \<open>round_size\<close> does not wrap and computes the specification: the
  least multiple of the granule (a division of the power of two below, or 512 bytes) that is not
  below the request, and at least 512; the lookup of the divisions never leaves the table.
\<close>

theorem round_size_correct:
  assumes "llvm_spec M" and "cfg_ok M c" and "unat s < 2 ^ 60"
  shows "\<exists>r. round_size M c s = Inr r \<and> unat r = round_spec (cfg_divisions c) (unat s) \<and>
    unat s \<le> unat r \<and> 512 \<le> unat r \<and> (512 \<le> unat s \<longrightarrow> unat r \<le> 2 ^ Suc (lg (unat s)))"
proof -
  obtain r where r: "round_size M c s = Inr r" "unat r = round_spec (cfg_divisions c) (unat s)"
    using round_size_spec [OF assms] by blast
  note d = cfg_divisions_pow2 [OF assms(1,2)]
  show ?thesis using r round_spec_ge [OF d, of "unat s"] round_spec_interval [OF d, of "unat s"]
    by auto
qed

theorem round_size_correct_witness:
  "\<exists>r. round_size llvm_ref GCUAllocatorConfig 1000 = Inr r \<and>
    unat r = round_spec (cfg_divisions GCUAllocatorConfig) 1000 \<and>
    1000 \<le> unat r \<and> unat r \<le> 2 ^ Suc (lg 1000)"
  using round_size_correct [OF llvm_spec_ref cfg_ok_default [OF llvm_spec_ref], of 1000] by auto

text \<open>Rounding is monotone and idempotent for every valid configuration: a larger request is
  never rounded to less, and a rounded size is left alone.
\<close>

theorem round_size_mono_idem:
  assumes "llvm_spec M" and "cfg_ok M c" and "unat s \<le> unat t" and "unat t < 2 ^ 58"
  shows "\<exists>r q. round_size M c s = Inr r \<and> round_size M c t = Inr q \<and> unat r \<le> unat q \<and>
    round_size M c r = Inr r"
proof -
  note d = cfg_divisions_pow2 [OF assms(1,2)]
  obtain r where r: "round_size M c s = Inr r" "unat r = round_spec (cfg_divisions c) (unat s)"
    using round_size_spec [OF assms(1,2), of s] assms(3,4) by auto
  obtain q where q: "round_size M c t = Inr q" "unat q = round_spec (cfg_divisions c) (unat t)"
    using round_size_spec [OF assms(1,2), of t] assms(4) by auto
  have "unat r < 2 ^ 60"
  proof (cases "512 \<le> unat s")
    case True
    then have "2 ^ lg (unat s) \<le> unat s" using lg_bounds [of "unat s"] by simp
    then have "2 ^ Suc (lg (unat s)) < (2::nat) ^ 60" using assms(3,4) by simp
    with round_spec_interval [OF d True] r(2) show ?thesis by linarith
  next
    case False
    then show ?thesis using r(2) by (simp add: round_spec_small)
  qed
  then obtain r' where r': "round_size M c r = Inr r'" "unat r' = round_spec (cfg_divisions c) (unat r)"
    using round_size_spec [OF assms(1,2), of r] by auto
  have "r' = r" using r'(2) r(2) round_spec_idem [OF d] by (simp add: word_unat_eq_iff)
  with r q r' round_spec_mono [OF d assms(3)] show ?thesis by auto
qed

theorem round_size_mono_idem_witness:
  "\<exists>r q. round_size llvm_ref GCUAllocatorConfig 1000 = Inr r \<and>
    round_size llvm_ref GCUAllocatorConfig 5000 = Inr q \<and> unat r \<le> unat q \<and>
    round_size llvm_ref GCUAllocatorConfig r = Inr r"
  by (rule round_size_mono_idem) (simp_all add: llvm_spec_ref cfg_ok_default)

text \<open>C14: what is requested from the device for a rounded size covers it, is a whole number of
  2 MiB and exceeds it by less than 20 MiB; sizes up to 1 MiB share 2 MiB segments and sizes
  below 10 MiB share 20 MiB segments.
\<close>

theorem get_allocation_size_correct:
  assumes "unat s < 2 ^ 62"
  shows "unat s \<le> unat (get_allocation_size s) \<and> 2097152 dvd unat (get_allocation_size s) \<and>
    unat (get_allocation_size s) < unat s + 20971520 \<and>
    (unat s \<le> 1048576 \<longrightarrow> get_allocation_size s = kSmallBuffer) \<and>
    (1048576 < unat s \<and> unat s < 10485760 \<longrightarrow> get_allocation_size s = kLargeBuffer)"
  using get_allocation_size_spec [OF assms] alloc_spec_bounds [of "unat s"]
  by (auto simp: get_allocation_size_def k_defs word_le_nat_alt word_less_nat_alt)

theorem get_allocation_size_correct_witness:
  "3000000 \<le> unat (get_allocation_size 3000000) \<and>
    2097152 dvd unat (get_allocation_size 3000000) \<and> get_allocation_size 3000000 = kLargeBuffer"
  using get_allocation_size_correct [of 3000000] by auto

text \<open>Sizes are multiples of 512 bytes only if no interval is configured with one division:
  with one division a size is returned as it is, 3000001 bytes for example.
\<close>

theorem round_size_one_division_unaligned:
  "round_size llvm_ref (GCUAllocatorConfig\<lparr>m_roundup_power2_divisions := replicate 16 1\<rparr>) 3000001
     = Inr 3000001 \<and> \<not> 512 dvd unat (3000001 :: 64 word)"
proof -
  let ?c = "GCUAllocatorConfig\<lparr>m_roundup_power2_divisions := replicate 16 1\<rparr>"
  have "isPowerOf2_64 llvm_ref 1"
    unfolding isPowerOf2 [OF llvm_spec_ref] by (rule exI [of _ 0]) simp
  then have "division_ok llvm_ref 1" by (simp add: division_ok_def)
  then have ok: "cfg_ok llvm_ref ?c"
    using cfg_ok_default [OF llvm_spec_ref] by (simp add: cfg_ok_def kRoundUpPowerOfTwoIntervals_def)
  obtain d where d: "roundup_power2_divisions llvm_ref ?c 3000001 = Inr d"
    "d = m_roundup_power2_divisions ?c ! min (lg (unat (3000001 :: 64 word)) - 20) 15"
    using roundup_power2_divisions_ok [OF llvm_spec_ref ok, of 3000001] by auto
  have "min (lg (unat (3000001 :: 64 word)) - 20) 15 < 16" by simp
  then have "d = 1" using d(2) by simp
  with d(1) show ?thesis
    by (simp add: round_size_def kMinBlockSize_def roundup_power2_next_division_def)
qed

end
