(* ===== verification/AllocStats.thy ===== *)
theory AllocStats
  imports AllocSizes
begin

text \<open>
  The statistics of an allocator (\<^verbatim>\<open>Stat\<close>, \<^verbatim>\<open>StatArray\<close>, \<^verbatim>\<open>DeviceStats\<close> of
  \<^verbatim>\<open>gcu_caching_allocator.h\<close>) with their update functions, and the ring buffer of trace
  entries. The counters are \<^verbatim>\<open>int64_t\<close> in the source and integers here. The check of
  \<open>decrease_stat\<close> that a counter does not become negative is compiled only into debug
  builds and is not part of the definition; that it cannot fail is a theorem on the allocator.
\<close>

section \<open>Counters\<close>

record stat =
  current :: int
  peak :: int
  allocated_total :: int
  freed_total :: int

definition Stat :: stat where
  "Stat = \<lparr> current = 0, peak = 0, allocated_total = 0, freed_total = 0 \<rparr>"

datatype stat_type = AGGREGATE | SMALL_POOL | LARGE_POOL

type_synonym stat_array = "stat_type \<Rightarrow> stat"
type_synonym stat_types = "stat_type \<Rightarrow> bool"

definition StatType_values :: "stat_type list" where
  "StatType_values = [AGGREGATE, SMALL_POOL, LARGE_POOL]"

record device_stats =
  allocation :: stat_array
  segment :: stat_array
  active :: stat_array
  inactive_split :: stat_array
  allocated_bytes :: stat_array
  reserved_bytes :: stat_array
  active_bytes :: stat_array
  inactive_split_bytes :: stat_array
  requested_bytes :: stat_array
  num_alloc_retries :: int
  num_ooms :: int
  oversize_allocations :: stat
  oversize_segments :: stat
  num_sync_all_streams :: int
  num_device_alloc :: int
  num_device_free :: int
  stats_max_split_size :: int

definition DeviceStats :: "int \<Rightarrow> device_stats" where
  "DeviceStats max_split =
     \<lparr> allocation = (\<lambda>_. Stat), segment = (\<lambda>_. Stat), active = (\<lambda>_. Stat),
       inactive_split = (\<lambda>_. Stat), allocated_bytes = (\<lambda>_. Stat), reserved_bytes = (\<lambda>_. Stat),
       active_bytes = (\<lambda>_. Stat), inactive_split_bytes = (\<lambda>_. Stat), requested_bytes = (\<lambda>_. Stat),
       num_alloc_retries = 0, num_ooms = 0, oversize_allocations = Stat,
       oversize_segments = Stat, num_sync_all_streams = 0, num_device_alloc = 0,
       num_device_free = 0, stats_max_split_size = max_split \<rparr>"

definition increase_stat :: "int \<Rightarrow> stat \<Rightarrow> stat" where
  "increase_stat amount st =
     (let c = current st + amount
      in st\<lparr>current := c, peak := max c (peak st), allocated_total := allocated_total st + amount\<rparr>)"

definition decrease_stat :: "int \<Rightarrow> stat \<Rightarrow> stat" where
  "decrease_stat amount st = st\<lparr>current := current st - amount, freed_total := freed_total st + amount\<rparr>"

definition reset_accumulated_stat :: "stat \<Rightarrow> stat" where
  "reset_accumulated_stat st = st\<lparr>allocated_total := 0, freed_total := 0\<rparr>"

definition reset_peak_stat :: "stat \<Rightarrow> stat" where
  "reset_peak_stat st = st\<lparr>peak := current st\<rparr>"

text \<open>
  \<open>for_each_selected_stat_type\<close> applies its callback to the selected types in the order of
  the enumeration; every callback in the source updates entries of some of the arrays, so it
  is a function on the statistics here.
\<close>

definition for_each_selected_stat_type ::
  "stat_types \<Rightarrow> (stat_type \<Rightarrow> device_stats \<Rightarrow> device_stats) \<Rightarrow> device_stats \<Rightarrow> device_stats" where
  "for_each_selected_stat_type types f st = fold f (filter types StatType_values) st"

definition stat_at :: "(stat \<Rightarrow> stat) \<Rightarrow> stat_type \<Rightarrow> stat_array \<Rightarrow> stat_array" where
  "stat_at f t a = a(t := f (a t))"

definition decrease_stat_array :: "int \<Rightarrow> stat_types \<Rightarrow> stat_array \<Rightarrow> stat_array" where
  "decrease_stat_array amount types a =
     fold (\<lambda>t. stat_at (decrease_stat amount) t) (filter types StatType_values) a"

definition reset_each :: "(stat \<Rightarrow> stat) \<Rightarrow> device_stats \<Rightarrow> device_stats" where
  "reset_each r st =
     fold (\<lambda>t st. st\<lparr>
         allocation := stat_at r t (allocation st),
         segment := stat_at r t (segment st),
         active := stat_at r t (active st),
         inactive_split := stat_at r t (inactive_split st),
         allocated_bytes := stat_at r t (allocated_bytes st),
         reserved_bytes := stat_at r t (reserved_bytes st),
         active_bytes := stat_at r t (active_bytes st),
         inactive_split_bytes := stat_at r t (inactive_split_bytes st),
         requested_bytes := stat_at r t (requested_bytes st)\<rparr>) StatType_values st"

definition resetAccumulatedStats_stats :: "device_stats \<Rightarrow> device_stats" where
  "resetAccumulatedStats_stats st =
     (let st = reset_each reset_accumulated_stat st
      in st\<lparr> num_alloc_retries := 0, num_ooms := 0, num_sync_all_streams := 0,
             num_device_alloc := 0, num_device_free := 0,
             oversize_allocations := reset_accumulated_stat (oversize_allocations st),
             oversize_segments := reset_accumulated_stat (oversize_segments st) \<rparr>)"

definition resetPeakStats_stats :: "device_stats \<Rightarrow> device_stats" where
  "resetPeakStats_stats st =
     (let st = reset_each reset_peak_stat st
      in st\<lparr> oversize_allocations := reset_peak_stat (oversize_allocations st),
             oversize_segments := reset_peak_stat (oversize_segments st) \<rparr>)"

text \<open>
  What a counter means: the peak is never below the current value, and since the last reset
  the current value has changed by what was allocated less what was freed.
\<close>

definition stat_ok :: "stat \<Rightarrow> bool" where
  "stat_ok st \<longleftrightarrow> current st \<le> peak st"

lemma stat_ok_updates:
  "stat_ok st \<Longrightarrow> stat_ok (increase_stat a st)"
  "stat_ok st \<Longrightarrow> 0 \<le> a \<Longrightarrow> stat_ok (decrease_stat a st)"
  "stat_ok st \<Longrightarrow> stat_ok (reset_accumulated_stat st)"
  "stat_ok (reset_peak_stat st)"
  by (simp_all add: stat_ok_def increase_stat_def decrease_stat_def reset_accumulated_stat_def
      reset_peak_stat_def Let_def)

lemma current_updates [simp]:
  "current (increase_stat a st) = current st + a"
  "current (decrease_stat a st) = current st - a"
  "current (reset_accumulated_stat st) = current st"
  "current (reset_peak_stat st) = current st"
  by (simp_all add: increase_stat_def decrease_stat_def reset_accumulated_stat_def
      reset_peak_stat_def Let_def)

lemma peak_updates [simp]:
  "peak (increase_stat a st) = max (current st + a) (peak st)"
  "peak (decrease_stat a st) = peak st"
  by (simp_all add: increase_stat_def decrease_stat_def Let_def)

text \<open>Selecting the aggregate and one of the two pool types.\<close>

definition stat_types_of :: "bool \<Rightarrow> stat_types" where
  "stat_types_of small =
     (\<lambda>_. False)(AGGREGATE := True, (if small then SMALL_POOL else LARGE_POOL) := True)"

lemma stat_types_of_filter:
  "filter (stat_types_of small) StatType_values =
     [AGGREGATE, if small then SMALL_POOL else LARGE_POOL]"
  by (cases small) (simp_all add: stat_types_of_def StatType_values_def)

lemma stat_at_apply: "stat_at f t a u = (if u = t then f (a t) else a u)"
  by (simp add: stat_at_def)

lemma for_each_selected:
  "for_each_selected_stat_type (stat_types_of small) f st =
     f (if small then SMALL_POOL else LARGE_POOL) (f AGGREGATE st)"
  by (simp add: for_each_selected_stat_type_def stat_types_of_filter)

lemma decrease_stat_array_apply:
  "decrease_stat_array n (stat_types_of small) a u =
     (if stat_types_of small u then decrease_stat n (a u) else a u)"
  by (cases small; cases u)
    (simp_all add: decrease_stat_array_def stat_types_of_def StatType_values_def stat_at_def)

section \<open>The trace\<close>

datatype trace_action =
    ALLOC | FREE_REQUESTED | FREE_COMPLETED | SEGMENT_ALLOC | SEGMENT_FREE | SEGMENT_MAP
  | SEGMENT_UNMAP | SNAPSHOT | OOM

text \<open>The time stamp and the gathered context of an entry are left out.\<close>

record trace_entry =
  action_kind :: trace_action
  te_device :: int
  te_addr :: int
  te_size :: int
  te_stream :: nat

record trace_state =
  record_history :: bool
  alloc_trace_next :: nat
  alloc_trace_max_entries :: nat
  alloc_trace :: "trace_entry list"
  trace_trackers :: "trace_entry list list"

text \<open>
  A tracker is the list of the entries it was called with, oldest first. A write outside the
  vector (\<open>alloc_trace_next\<close> out of range) is undefined behaviour in the source.
\<close>

definition trace_init :: trace_state where
  "trace_init = \<lparr> record_history = False, alloc_trace_next = 0, alloc_trace_max_entries = 1,
     alloc_trace = [], trace_trackers = [] \<rparr>"

definition push_entry :: "trace_entry \<Rightarrow> trace_state \<Rightarrow> exc + trace_state" where
  "push_entry te t =
     (if length (alloc_trace t) < alloc_trace_max_entries t
      then Inr (t\<lparr>alloc_trace := alloc_trace t @ [te]\<rparr>)
      else if alloc_trace_next t < length (alloc_trace t) then
        (let n = Suc (alloc_trace_next t)
         in Inr (t\<lparr> alloc_trace := (alloc_trace t)[alloc_trace_next t := te],
                    alloc_trace_next := (if n = alloc_trace_max_entries t then 0 else n) \<rparr>))
      else Inl UndefinedBehaviour)"

definition record_entry :: "trace_entry \<Rightarrow> trace_state \<Rightarrow> exc + trace_state" where
  "record_entry te t =
     (if \<not> record_history t \<and> trace_trackers t = [] then Inr t
      else
        (let t = t\<lparr>trace_trackers := map (\<lambda>seen. seen @ [te]) (trace_trackers t)\<rparr>
         in if record_history t then push_entry te t else Inr t))"

definition recordHistory_trace ::
  "bool \<Rightarrow> bool \<Rightarrow> bool \<Rightarrow> nat \<Rightarrow> trace_state \<Rightarrow> exc + trace_state" where
  "recordHistory_trace never has_recorder enabled max_entries t =
     (if never \<or> has_recorder then
        (let t = t\<lparr>record_history := enabled, alloc_trace_max_entries := max 1 max_entries\<rparr>
         in Inr (if enabled then t else t\<lparr>alloc_trace_next := 0, alloc_trace := []\<rparr>))
      else Inl (TorchCheck ''recordHistory''))"

definition trace :: "trace_state \<Rightarrow> trace_entry list" where
  "trace t = drop (alloc_trace_next t) (alloc_trace t) @ take (alloc_trace_next t) (alloc_trace t)"

text \<open>
  The buffer is well formed when it has wrapped around only if it is full. \<open>recordHistory\<close>
  does not keep this: enabling the history again with another size leaves the entries and
  the position.
\<close>

definition trace_ok :: "trace_state \<Rightarrow> bool" where
  "trace_ok t \<longleftrightarrow> length (alloc_trace t) \<le> alloc_trace_max_entries t \<and>
     0 < alloc_trace_max_entries t \<and>
     (if length (alloc_trace t) < alloc_trace_max_entries t then alloc_trace_next t = 0
      else alloc_trace_next t < alloc_trace_max_entries t)"

text \<open>The last \<open>n\<close> elements of a list.\<close>

definition last_n :: "nat \<Rightarrow> 'a list \<Rightarrow> 'a list" where
  "last_n n xs = drop (length xs - n) xs"

lemma push_entry_trace:
  assumes "trace_ok t"
  shows "\<exists>t'. push_entry te t = Inr t' \<and> trace_ok t' \<and>
    alloc_trace_max_entries t' = alloc_trace_max_entries t \<and>
    record_history t' = record_history t \<and> trace_trackers t' = trace_trackers t \<and>
    trace t' = last_n (alloc_trace_max_entries t) (trace t @ [te])"
proof (cases "length (alloc_trace t) < alloc_trace_max_entries t")
  case True
  with assms show ?thesis
    by (auto simp: push_entry_def trace_ok_def trace_def last_n_def)
next
  case False
  let ?n = "alloc_trace_next t" and ?xs = "alloc_trace t"
  have n: "?n < length ?xs" "length ?xs = alloc_trace_max_entries t"
    using assms False by (auto simp: trace_ok_def)
  have split: "?xs[?n := te] = take ?n ?xs @ te # drop (Suc ?n) ?xs"
    using n(1) by (simp add: upd_conv_take_nth_drop)
  show ?thesis
  proof (cases "Suc ?n = length ?xs")
    case True
    then have "trace t @ [te] = ?xs ! ?n # take ?n ?xs @ [te]"
      using n by (simp add: trace_def Cons_nth_drop_Suc [symmetric])
    then show ?thesis
      using True n False split
      by (auto simp: push_entry_def trace_ok_def trace_def last_n_def Let_def)
  next
    case no: False
    have "drop ?n ?xs = ?xs ! ?n # drop (Suc ?n) ?xs" using n(1) by (simp add: Cons_nth_drop_Suc)
    then have "last_n (length ?xs) (trace t @ [te]) = drop (Suc ?n) ?xs @ take ?n ?xs @ [te]"
      using n by (simp add: trace_def last_n_def)
    moreover have "drop (Suc ?n) (?xs[?n := te]) @ take (Suc ?n) (?xs[?n := te]) =
        drop (Suc ?n) ?xs @ take ?n ?xs @ [te]"
      using n(1) by (simp add: take_Suc_conv_app_nth)
    ultimately show ?thesis
      using no n False by (auto simp: push_entry_def trace_ok_def trace_def Let_def)
  qed
qed

section \<open>Properties\<close>

text \<open>C18: the trace is a ring buffer: after a recorded entry, \<open>trace\<close> returns the last
  \<open>alloc_trace_max_entries\<close> entries, oldest first, and the write position stays in range.
\<close>

theorem record_entry_keeps_last:
  assumes "trace_ok t" and "record_history t"
  shows "\<exists>t'. record_entry te t = Inr t' \<and> trace_ok t' \<and>
    trace t' = last_n (alloc_trace_max_entries t) (trace t @ [te])"
proof -
  let ?t = "t\<lparr>trace_trackers := map (\<lambda>seen. seen @ [te]) (trace_trackers t)\<rparr>"
  have "trace_ok ?t" using assms(1) by (simp add: trace_ok_def)
  then obtain t' where "push_entry te ?t = Inr t'" "trace_ok t'"
      "trace t' = last_n (alloc_trace_max_entries ?t) (trace ?t @ [te])"
    using push_entry_trace by blast
  then show ?thesis using assms(2) by (simp add: record_entry_def trace_def Let_def)
qed

theorem record_entry_keeps_last_witness:
  "\<exists>t'. record_entry \<lparr>action_kind = ALLOC, te_device = 0, te_addr = 4096, te_size = 512, te_stream = 0\<rparr>
      (trace_init\<lparr>record_history := True\<rparr>) = Inr t' \<and> trace_ok t' \<and>
    trace t' = last_n (alloc_trace_max_entries (trace_init\<lparr>record_history := True\<rparr>))
      (trace (trace_init\<lparr>record_history := True\<rparr>) @
       [\<lparr>action_kind = ALLOC, te_device = 0, te_addr = 4096, te_size = 512, te_stream = 0\<rparr>])"
  by (rule record_entry_keeps_last) (simp_all add: trace_init_def trace_ok_def)

text \<open>Enabling the history again with a smaller limit keeps the old buffer and position, so
  that recording later writes outside the buffer: here three entries are recorded with limit 2,
  the limit is set to 1, and the second entry after that is written past the end.
\<close>

theorem recordHistory_shrink_overflows:
  "\<exists>e t1 t2 t3 t4 t5. recordHistory_trace False True True 2 trace_init = Inr t1 \<and>
     record_entry e t1 = Inr t2 \<and> record_entry e t2 = Inr t3 \<and> record_entry e t3 = Inr t4 \<and>
     (case recordHistory_trace False True True 1 t4 of Inl _ \<Rightarrow> False
      | Inr t \<Rightarrow> record_entry e t = Inr t5) \<and>
     record_entry e t5 = Inl UndefinedBehaviour"
  by (simp add: recordHistory_trace_def record_entry_def push_entry_def trace_init_def Let_def)

end
