(* ===== verification/GcuRuntime.thy ===== *)
theory GcuRuntime
  imports GcuPrelude
begin

text \<open>
  The TOPS runtime as the sources see it. It is not part of the repository, so its calls are
  a parameter of the model: the record \<open>tops\<close> has one field per call, a function on the
  driver's state \<open>'d\<close> that returns the error code, the out-parameters and the new state.
  \<open>ctx\<close> is what the components share in one process: the driver's state, the statics of
  \<^verbatim>\<open>gcu_functions.cpp\<close> and \<^verbatim>\<open>gcu_stream.cpp\<close> (with the thread-locals of one thread) and the
  pool of events of \<^verbatim>\<open>gcu_caching_allocator.cpp\<close>.
\<close>

type_synonym stream_t = nat
type_synonym event_t = nat
type_synonym addr = nat

record 'd tops =
  topsGetDeviceCount :: "'d \<Rightarrow> (tops_error \<times> int) \<times> 'd"
  topsDriverGetVersion :: "'d \<Rightarrow> (tops_error \<times> int) \<times> 'd"
  topsGetLastError :: "'d \<Rightarrow> tops_error \<times> 'd"
  topsGetDevice :: "'d \<Rightarrow> (tops_error \<times> int) \<times> 'd"
  topsSetDevice :: "int \<Rightarrow> 'd \<Rightarrow> tops_error \<times> 'd"
  topsDeviceSynchronize :: "'d \<Rightarrow> tops_error \<times> 'd"
  topsMemGetInfo :: "'d \<Rightarrow> (tops_error \<times> nat \<times> nat) \<times> 'd"
  topsMalloc :: "nat \<Rightarrow> 'd \<Rightarrow> (tops_error \<times> addr) \<times> 'd"
  topsFree :: "addr \<Rightarrow> 'd \<Rightarrow> tops_error \<times> 'd"
  topsStreamCreateWithFlags :: "'d \<Rightarrow> (tops_error \<times> stream_t) \<times> 'd"
  topsStreamQuery :: "stream_t \<Rightarrow> 'd \<Rightarrow> tops_error \<times> 'd"
  topsStreamSynchronize :: "stream_t \<Rightarrow> 'd \<Rightarrow> tops_error \<times> 'd"
  topsStreamIsCapturing :: "stream_t \<Rightarrow> 'd \<Rightarrow> (tops_error \<times> nat) \<times> 'd"
  topsStreamWaitEvent :: "stream_t \<Rightarrow> event_t \<Rightarrow> 'd \<Rightarrow> tops_error \<times> 'd"
  topsThreadExchangeStreamCaptureMode :: "nat \<Rightarrow> 'd \<Rightarrow> (tops_error \<times> nat) \<times> 'd"
  topsEventCreateWithFlags :: "nat \<Rightarrow> 'd \<Rightarrow> (tops_error \<times> event_t) \<times> 'd"
  topsEventDestroy :: "event_t \<Rightarrow> 'd \<Rightarrow> tops_error \<times> 'd"
  topsEventRecord :: "event_t \<Rightarrow> stream_t \<Rightarrow> 'd \<Rightarrow> tops_error \<times> 'd"
  topsEventQuery :: "event_t \<Rightarrow> 'd \<Rightarrow> tops_error \<times> 'd"
  topsEventSynchronize :: "event_t \<Rightarrow> 'd \<Rightarrow> tops_error \<times> 'd"
  topsEventElapsedTime :: "event_t \<Rightarrow> event_t \<Rightarrow> 'd \<Rightarrow> (tops_error \<times> rat) \<times> 'd"
  topsIpcGetMemHandle :: "addr \<Rightarrow> 'd \<Rightarrow> (tops_error \<times> string) \<times> 'd"
  topsIpcOpenMemHandle :: "string \<Rightarrow> 'd \<Rightarrow> (tops_error \<times> addr) \<times> 'd"
  topsIpcCloseMemHandle :: "addr \<Rightarrow> 'd \<Rightarrow> tops_error \<times> 'd"

definition topsEventDefault :: nat where "topsEventDefault = 0"
definition topsEventDisableTiming :: nat where "topsEventDisableTiming = 2"

text \<open>
  \<open>current_streams\<close> is the thread-local array of stream ids (\<open>None\<close>: not yet allocated),
  \<open>streams\<close> and \<open>priority_counters\<close> the statics indexed by priority and device,
  \<open>device_flags\<close> the devices whose stream pools exist, \<open>event_pools\<close> the free events of each
  device.
\<close>

record 'd ctx =
  drv :: 'd
  device_count_static :: "int option"
  has_primary_context :: "(int \<Rightarrow> bool) option"
  targetDeviceIndex :: int
  stream_init_flag :: bool
  num_gcus :: int
  kStreamsPerPoolBits :: nat
  kStreamsPerPool :: int
  kUseGcuDefaultStream :: bool
  max_stream_priorities :: int
  device_flags :: "int list"
  priority_counters :: "nat \<Rightarrow> int \<Rightarrow> 32 word"
  streams :: "nat \<Rightarrow> int \<Rightarrow> nat \<Rightarrow> stream_t"
  kDefaultStream :: "int \<Rightarrow> stream_t"
  current_streams :: "64 word list option"
  event_pools :: "int \<Rightarrow> event_t list"

definition ctx_init :: "'d \<Rightarrow> 'd ctx" where
  "ctx_init d = \<lparr> drv = d, device_count_static = None, has_primary_context = None,
     targetDeviceIndex = -1, stream_init_flag = False, num_gcus = -1, kStreamsPerPoolBits = 5,
     kStreamsPerPool = 32, kUseGcuDefaultStream = True, max_stream_priorities = 0,
     device_flags = [], priority_counters = (\<lambda>_ _. 0), streams = (\<lambda>_ _ _. 0),
     kDefaultStream = (\<lambda>_. 0), current_streams = None, event_pools = (\<lambda>_. []) \<rparr>"

type_synonym ('d, 'a) cact = "('d ctx, 'a) act"

text \<open>A runtime call; \<open>call_check\<close> is \<^verbatim>\<open>C10_GCU_CHECK\<close> around one that has an out-parameter.\<close>

definition call :: "('d \<Rightarrow> 'r \<times> 'd) \<Rightarrow> ('d, 'r) cact" where
  "call f = (\<lambda>c. case f (drv c) of (r, d) \<Rightarrow> (Inr r, c\<lparr>drv := d\<rparr>))"

definition call_check :: "('d \<Rightarrow> (tops_error \<times> 'r) \<times> 'd) \<Rightarrow> ('d, 'r) cact" where
  "call_check f = bnd (call f) (\<lambda>(err, r). seq (gcu_check err) (ret r))"

text \<open>\<^verbatim>\<open>C10_GCU_CHECK_WARN\<close>.\<close>

definition gcu_check_warn :: "'d tops \<Rightarrow> tops_error \<Rightarrow> ('d, unit) cact" where
  "gcu_check_warn T err =
     whenM (err \<noteq> topsSuccess) (bnd (call (topsGetLastError T)) (\<lambda>_. ret ()))"

text \<open>
  What the runtime documents of the calls other than \<^verbatim>\<open>topsMalloc\<close> and \<^verbatim>\<open>topsFree\<close>: they
  leave the set of live allocations alone. \<open>live\<close> reads that set off the driver's state.
\<close>

definition quiet :: "('d \<Rightarrow> 'l) \<Rightarrow> ('d \<Rightarrow> 'r \<times> 'd) \<Rightarrow> bool" where
  "quiet live f \<longleftrightarrow> (\<forall>d. live (snd (f d)) = live d)"

definition quiet_others :: "'d tops \<Rightarrow> ('d \<Rightarrow> 'l) \<Rightarrow> bool" where
  "quiet_others T live \<longleftrightarrow>
     quiet live (topsGetDeviceCount T) \<and> quiet live (topsDriverGetVersion T) \<and>
     quiet live (topsGetLastError T) \<and> quiet live (topsGetDevice T) \<and>
     quiet live (topsDeviceSynchronize T) \<and>
     quiet live (topsMemGetInfo T) \<and> quiet live (topsStreamCreateWithFlags T) \<and>
     (\<forall>s. quiet live (topsStreamQuery T s)) \<and> (\<forall>s. quiet live (topsStreamSynchronize T s)) \<and>
     (\<forall>s. quiet live (topsStreamIsCapturing T s)) \<and>
     (\<forall>s e. quiet live (topsStreamWaitEvent T s e)) \<and>
     (\<forall>m. quiet live (topsThreadExchangeStreamCaptureMode T m)) \<and>
     (\<forall>f. quiet live (topsEventCreateWithFlags T f)) \<and> (\<forall>e. quiet live (topsEventDestroy T e)) \<and>
     (\<forall>e s. quiet live (topsEventRecord T e s)) \<and> (\<forall>e. quiet live (topsEventQuery T e)) \<and>
     (\<forall>e. quiet live (topsEventSynchronize T e)) \<and>
     (\<forall>e f. quiet live (topsEventElapsedTime T e f)) \<and>
     (\<forall>a. quiet live (topsIpcGetMemHandle T a)) \<and> (\<forall>h. quiet live (topsIpcOpenMemHandle T h)) \<and>
     (\<forall>a. quiet live (topsIpcCloseMemHandle T a))"

definition quiet_runtime :: "'d tops \<Rightarrow> ('d \<Rightarrow> 'l) \<Rightarrow> bool" where
  "quiet_runtime T live \<longleftrightarrow> quiet_others T live \<and> (\<forall>i. quiet live (topsSetDevice T i))"

lemma keeps_call:
  "quiet live f \<Longrightarrow> keeps_pred (\<lambda>c. P (live (drv c))) (call f)"
  by (auto simp: keeps_pred_def call_def quiet_def split: prod.splits) (metis snd_conv)

lemma keeps_call_check:
  "quiet live f \<Longrightarrow> keeps_pred (\<lambda>c. P (live (drv c))) (call_check f)"
  unfolding call_check_def by (intro keeps_intros keeps_call)

lemma quiet_othersD:
  assumes "quiet_others T live"
  shows "quiet live (topsGetDeviceCount T)" "quiet live (topsDriverGetVersion T)"
    "quiet live (topsGetLastError T)" "quiet live (topsGetDevice T)"
    "quiet live (topsDeviceSynchronize T)" "quiet live (topsMemGetInfo T)"
    "quiet live (topsStreamCreateWithFlags T)" "quiet live (topsStreamQuery T s)"
    "quiet live (topsStreamSynchronize T s)" "quiet live (topsStreamIsCapturing T s)"
    "quiet live (topsStreamWaitEvent T s e)" "quiet live (topsThreadExchangeStreamCaptureMode T m)"
    "quiet live (topsEventCreateWithFlags T fl)" "quiet live (topsEventDestroy T e)"
    "quiet live (topsEventRecord T e s)" "quiet live (topsEventQuery T e)"
    "quiet live (topsEventSynchronize T e)" "quiet live (topsEventElapsedTime T e e')"
    "quiet live (topsIpcGetMemHandle T a)" "quiet live (topsIpcOpenMemHandle T h)"
    "quiet live (topsIpcCloseMemHandle T a)"
  using assms by (simp_all add: quiet_others_def)

lemma quiet_runtimeD:
  assumes "quiet_runtime T live"
  shows "quiet_others T live" and "quiet live (topsSetDevice T i)"
  using assms by (simp_all add: quiet_runtime_def)

lemma keeps_gcu_check_warn:
  "quiet_others T live \<Longrightarrow> keeps_pred (\<lambda>c. P (live (drv c))) (gcu_check_warn T err)"
  unfolding gcu_check_warn_def by (intro keeps_intros keeps_call quiet_othersD)

section \<open>A reference runtime\<close>

text \<open>
  A runtime in which the statements with hypotheses on the runtime can be evaluated: two
  devices, memory above everything that is live with a limit on the live bytes, events that
  are all ready or all pending.
\<close>

record sim =
  sim_live :: "(addr \<times> nat) list"
  sim_cur :: int
  sim_capacity :: nat
  sim_events :: nat
  sim_ready :: bool

definition sim_init :: sim where
  "sim_init = \<lparr> sim_live = [], sim_cur = 0, sim_capacity = 1073741824,
     sim_events = 1, sim_ready = True \<rparr>"

definition sim_ok :: "sim \<Rightarrow> tops_error \<times> sim" where
  "sim_ok d = (topsSuccess, d)"

definition sim_value :: "'a \<Rightarrow> sim \<Rightarrow> (tops_error \<times> 'a) \<times> sim" where
  "sim_value x d = ((topsSuccess, x), d)"

definition sim_top :: "sim \<Rightarrow> addr" where
  "sim_top d = fold (\<lambda>(q, m) a. max a (q + m)) (sim_live d) 4096"

definition sim_malloc :: "nat \<Rightarrow> sim \<Rightarrow> (tops_error \<times> addr) \<times> sim" where
  "sim_malloc n d =
     (if 0 < n \<and> sum_list (map snd (sim_live d)) + n \<le> sim_capacity d \<and> sim_top d + n < 2 ^ 63 then
        ((topsSuccess, sim_top d), d\<lparr>sim_live := (sim_top d, n) # sim_live d\<rparr>)
      else ((topsErrorMemoryAllocation, 0), d))"

definition sim_free :: "addr \<Rightarrow> sim \<Rightarrow> tops_error \<times> sim" where
  "sim_free a d =
     (if a \<in> fst ` set (sim_live d)
      then (topsSuccess, d\<lparr>sim_live := filter (\<lambda>(b, _). b \<noteq> a) (sim_live d)\<rparr>)
      else (topsErrorInvalidValue, d))"

definition sim_tops :: "sim tops" where
  "sim_tops =
     \<lparr> topsGetDeviceCount = sim_value 2, topsDriverGetVersion = sim_value 1,
       topsGetLastError = sim_ok, topsGetDevice = (\<lambda>d. ((topsSuccess, sim_cur d), d)),
       topsSetDevice = (\<lambda>i d. (topsSuccess, d\<lparr>sim_cur := i\<rparr>)), topsDeviceSynchronize = sim_ok,
       topsMemGetInfo = (\<lambda>d. ((topsSuccess, sim_capacity d - sum_list (map snd (sim_live d)),
                               sim_capacity d), d)),
       topsMalloc = sim_malloc, topsFree = sim_free, topsStreamCreateWithFlags = sim_value 64,
       topsStreamQuery = (\<lambda>_. sim_ok), topsStreamSynchronize = (\<lambda>_. sim_ok),
       topsStreamIsCapturing = (\<lambda>_. sim_value 0), topsStreamWaitEvent = (\<lambda>_ _. sim_ok),
       topsThreadExchangeStreamCaptureMode = (\<lambda>_. sim_value 0),
       topsEventCreateWithFlags =
         (\<lambda>_ d. ((topsSuccess, sim_events d), d\<lparr>sim_events := sim_events d + 1\<rparr>)),
       topsEventDestroy = (\<lambda>_. sim_ok), topsEventRecord = (\<lambda>_ _. sim_ok),
       topsEventQuery = (\<lambda>_ d. (if sim_ready d then topsSuccess else topsErrorNotReady, d)),
       topsEventSynchronize = (\<lambda>_. sim_ok), topsEventElapsedTime = (\<lambda>_ _. sim_value 0),
       topsIpcGetMemHandle = (\<lambda>_. sim_value ''handle''), topsIpcOpenMemHandle = (\<lambda>_. sim_value 8192),
       topsIpcCloseMemHandle = (\<lambda>_. sim_ok) \<rparr>"

lemmas sim_defs = sim_tops_def sim_ok_def sim_value_def

lemma sim_quiet: "quiet_runtime sim_tops (\<lambda>d. set (sim_live d))"
  by (simp add: quiet_runtime_def quiet_others_def quiet_def sim_defs)

end
