(* ===== verification/GcuDevice.thy ===== *)
theory GcuDevice
  imports GcuRuntime
begin

text \<open>
  Device management, \<^verbatim>\<open>gcu_functions.cpp\<close> and \<^verbatim>\<open>gcu_guard_impl.cpp\<close>: the number of devices,
  the current device with the pending \<open>targetDeviceIndex\<close> (a device that is only made
  current once it has a context), and the device guard.
\<close>

section \<open>The number of devices\<close>

definition driver_version :: "'d tops \<Rightarrow> ('d, int) cact" where
  "driver_version T =
     bnd (call (topsDriverGetVersion T)) (\<lambda>(err, v).
       if err = topsSuccess then ret v
       else bnd (call (topsGetLastError T)) (\<lambda>_. ret (-1)))"

definition GetDeviceCount :: "'d tops \<Rightarrow> ('d, tops_error \<times> int) cact" where
  "GetDeviceCount T = call (topsGetDeviceCount T)"

definition device_count_impl :: "'d tops \<Rightarrow> bool \<Rightarrow> ('d, int) cact" where
  "device_count_impl T fail_if_no_driver =
     bnd (GetDeviceCount T) (\<lambda>(err, count).
       if err = topsSuccess then ret count
       else
         bnd (call (topsGetLastError T)) (\<lambda>_.
         case err of
           topsErrorNoDevice \<Rightarrow> ret 0
         | topsErrorInsufficientDriver \<Rightarrow>
             bnd (driver_version T) (\<lambda>version.
               if version \<le> 0 then
                 (if \<not> fail_if_no_driver then ret 0
                  else throw (TorchCheck ''Found no ENFLAME driver on your system''))
               else throw (TorchCheck ''The ENFLAME driver on your system is too old''))
         | topsErrorInitializationError \<Rightarrow> throw (TorchCheck ''GCU driver initialization failed'')
         | topsErrorUnknown \<Rightarrow> throw (TorchCheck ''GCU unknown error'')
         | _ \<Rightarrow> throw (TorchCheck ''Unexpected error from topsGetDeviceCount()'')))"

text \<open>
  \<open>device_count\<close> computes the number once; an exception, also the failed assertion that the
  number fits into the 8-bit \<^verbatim>\<open>DeviceIndex\<close>, is caught and gives 0.
\<close>

definition device_count :: "'d tops \<Rightarrow> ('d, int) cact" where
  "device_count T =
     bnd (gets device_count_static) (\<lambda>cached.
       case cached of Some n \<Rightarrow> ret n
       | None \<Rightarrow>
           bnd (try_catch
                 (bnd (device_count_impl T False) (\<lambda>result.
                    seq (require InternalAssert (result \<le> 127)) (ret result)))
                 (\<lambda>_. ret 0))
             (\<lambda>n. seq (upd (\<lambda>c. c\<lparr>device_count_static := Some n\<rparr>)) (ret n)))"

definition device_count_ensure_non_zero :: "'d tops \<Rightarrow> ('d, int) cact" where
  "device_count_ensure_non_zero T =
     bnd (device_count_impl T True) (\<lambda>count.
       seq (require (TorchCheck ''No ENFLAME GCUs are available'') (count \<noteq> 0)) (ret count))"

definition is_available :: "'d tops \<Rightarrow> ('d, bool) cact" where
  "is_available T = bnd (device_count T) (\<lambda>n. ret (0 < n))"

section \<open>The current device\<close>

definition dummyHasPrimaryContext :: "'d tops \<Rightarrow> int \<Rightarrow> ('d, bool) cact" where
  "dummyHasPrimaryContext T device_index =
     bnd (device_count T) (\<lambda>n.
       seq (require (TorchCheck ''hasPrimaryContext expects a valid device index'')
              (0 \<le> device_index \<and> device_index < n))
         (ret True))"

definition setHasPrimaryContext :: "(int \<Rightarrow> bool) option \<Rightarrow> ('d, unit) cact" where
  "setHasPrimaryContext func = upd (\<lambda>c. c\<lparr>has_primary_context := func\<rparr>)"

definition hasPrimaryContext :: "'d tops \<Rightarrow> int \<Rightarrow> ('d, bool) cact" where
  "hasPrimaryContext T device_index =
     bnd (gets has_primary_context) (\<lambda>func.
       case func of None \<Rightarrow> dummyHasPrimaryContext T device_index
       | Some f \<Rightarrow> ret (f device_index))"

text \<open>\<open>GetDevice\<close> returns the error code and, on success, the device.\<close>

definition GetDevice :: "'d tops \<Rightarrow> ('d, tops_error \<times> int) cact" where
  "GetDevice T =
     bnd (gets targetDeviceIndex) (\<lambda>target.
       if 0 \<le> target then ret (topsSuccess, target)
       else
         bnd (call (topsGetDevice T)) (\<lambda>(err, tmp_device).
           if err = topsSuccess then
             seq (require InternalAssert (0 \<le> tmp_device \<and> tmp_device \<le> 127))
               (ret (topsSuccess, tmp_device))
           else ret (err, 0)))"

definition SetDevice :: "'d tops \<Rightarrow> int \<Rightarrow> ('d, tops_error) cact" where
  "SetDevice T device =
     seq (require (TorchCheck ''device id must be positive!'') (0 \<le> device))
     (seq (upd (\<lambda>c. c\<lparr>targetDeviceIndex := -1\<rparr>))
      (bnd (call_check (topsGetDevice T)) (\<lambda>cur_device.
         if device = cur_device then ret topsSuccess
         else call (topsSetDevice T device))))"

definition MaybeSetDevice :: "'d tops \<Rightarrow> int \<Rightarrow> ('d, tops_error) cact" where
  "MaybeSetDevice T device =
     bnd (hasPrimaryContext T device) (\<lambda>has.
       if has then SetDevice T device
       else seq (upd (\<lambda>c. c\<lparr>targetDeviceIndex := device\<rparr>)) (ret topsSuccess))"

definition ExchangeDevice :: "'d tops \<Rightarrow> int \<Rightarrow> ('d, int) cact" where
  "ExchangeDevice T to_device =
     bnd (gets targetDeviceIndex) (\<lambda>cur_device.
     seq (upd (\<lambda>c. c\<lparr>targetDeviceIndex := -1\<rparr>))
      (if cur_device < 0 then
         bnd (call_check (topsGetDevice T)) (\<lambda>tmp_device.
           if to_device = tmp_device then ret tmp_device
           else bnd (call (topsSetDevice T to_device)) (\<lambda>err. seq (gcu_check err) (ret tmp_device)))
       else bnd (call (topsSetDevice T to_device)) (\<lambda>err. seq (gcu_check err) (ret cur_device))))"

definition MaybeExchangeDevice :: "'d tops \<Rightarrow> int \<Rightarrow> ('d, int) cact" where
  "MaybeExchangeDevice T to_device =
     bnd (call_check (topsGetDevice T)) (\<lambda>cur_device.
     seq (require InternalAssert (0 \<le> cur_device \<and> cur_device \<le> 127))
      (if to_device = cur_device then ret cur_device
       else
         bnd (hasPrimaryContext T to_device) (\<lambda>has.
         seq (if has then bnd (call (topsSetDevice T to_device)) gcu_check
              else upd (\<lambda>c. c\<lparr>targetDeviceIndex := to_device\<rparr>))
           (ret cur_device))))"

definition current_device :: "'d tops \<Rightarrow> ('d, int) cact" where
  "current_device T = bnd (GetDevice T) (\<lambda>(err, device). seq (gcu_check err) (ret device))"

definition set_device :: "'d tops \<Rightarrow> int \<Rightarrow> ('d, unit) cact" where
  "set_device T device = bnd (SetDevice T device) gcu_check"

definition SetTargetDevice :: "'d tops \<Rightarrow> ('d, unit) cact" where
  "SetTargetDevice T =
     bnd (gets targetDeviceIndex) (\<lambda>target.
       whenM (0 \<le> target) (bnd (SetDevice T target) gcu_check))"

definition device_synchronize :: "'d tops \<Rightarrow> ('d, unit) cact" where
  "device_synchronize T = bnd (call (topsDeviceSynchronize T)) gcu_check"

text \<open>The search of \<open>getDeviceIndexWithPrimaryContext\<close> after the current device.\<close>

fun find_primary_context :: "'d tops \<Rightarrow> int \<Rightarrow> int list \<Rightarrow> ('d, int option) cact" where
  "find_primary_context T cur [] = ret None"
| "find_primary_context T cur (i # is) =
     (if i = cur then find_primary_context T cur is
      else bnd (hasPrimaryContext T i) (\<lambda>has.
             if has then ret (Some i) else find_primary_context T cur is))"

definition getDeviceIndexWithPrimaryContext :: "'d tops \<Rightarrow> ('d, int option) cact" where
  "getDeviceIndexWithPrimaryContext T =
     bnd (current_device T) (\<lambda>cur.
     bnd (if 0 \<le> cur then hasPrimaryContext T cur else ret False) (\<lambda>has.
       if has then ret (Some cur)
       else bnd (device_count T) (\<lambda>n. find_primary_context T cur [0..n - 1])))"

section \<open>The device guard\<close>

text \<open>
  \<^verbatim>\<open>GCUGuard\<close> is \<^verbatim>\<open>c10::impl::InlineDeviceGuard<GCUGuardImpl>\<close>: the constructor exchanges
  the device, the destructor sets the original one with \<^verbatim>\<open>uncheckedSetDevice\<close>, which only
  warns about an error code but is \<^verbatim>\<open>noexcept\<close>.
\<close>

definition uncheckedSetDevice :: "'d tops \<Rightarrow> int \<Rightarrow> ('d, unit) cact" where
  "uncheckedSetDevice T d =
     try_catch (bnd (MaybeSetDevice T d) (gcu_check_warn T)) (\<lambda>_. throw Terminate)"

definition with_guard :: "'d tops \<Rightarrow> int \<Rightarrow> ('d, 'a) cact \<Rightarrow> ('d, 'a) cact" where
  "with_guard T d m =
     bnd (ExchangeDevice T d) (\<lambda>original. finallyM m (uncheckedSetDevice T original))"

section \<open>These calls leave the allocations alone\<close>

named_theorems device_keeps \<open>device management does not change the live allocations\<close>

lemmas quiet_calls = quiet_runtimeD(1) [THEN quiet_othersD(1), THEN keeps_call]
  quiet_runtimeD(1) [THEN quiet_othersD(2), THEN keeps_call]
  quiet_runtimeD(1) [THEN quiet_othersD(3), THEN keeps_call]
  quiet_runtimeD(1) [THEN quiet_othersD(4), THEN keeps_call]
  quiet_runtimeD(1) [THEN quiet_othersD(4), THEN keeps_call_check]
  quiet_runtimeD(1) [THEN quiet_othersD(7), THEN keeps_call_check]
  quiet_runtimeD(1) [THEN quiet_othersD(10), THEN keeps_call_check]
  quiet_runtimeD(2) [THEN keeps_call] quiet_runtimeD(1) [THEN keeps_gcu_check_warn]

lemma keeps_case_error [keeps_intros]:
  "(\<And>n. keeps_pred P (f n)) \<Longrightarrow> keeps_pred P m1 \<Longrightarrow> keeps_pred P m2 \<Longrightarrow> keeps_pred P m3 \<Longrightarrow>
   keeps_pred P m4 \<Longrightarrow> keeps_pred P m5 \<Longrightarrow> keeps_pred P m6 \<Longrightarrow> keeps_pred P m7 \<Longrightarrow>
   keeps_pred P m8 \<Longrightarrow> keeps_pred P m9 \<Longrightarrow> keeps_pred P m10 \<Longrightarrow>
   keeps_pred P (case e of topsSuccess \<Rightarrow> m1 | topsErrorMemoryAllocation \<Rightarrow> m2
     | topsErrorNotReady \<Rightarrow> m3 | topsErrorNoDevice \<Rightarrow> m4 | topsErrorInsufficientDriver \<Rightarrow> m5
     | topsErrorInitializationError \<Rightarrow> m6 | topsErrorUnknown \<Rightarrow> m7 | topsErrorInvalidValue \<Rightarrow> m8
     | topsErrorPeerAccessAlreadyEnabled \<Rightarrow> m9 | topsErrorPeerAccessNotEnabled \<Rightarrow> m10
     | topsErrorOther n \<Rightarrow> f n)"
  by (cases e) simp_all

lemma device_count_keeps [device_keeps]:
  assumes "quiet_runtime T live"
  shows "keeps_pred (\<lambda>c. P (live (drv c))) (device_count T)"
  unfolding device_count_def device_count_impl_def GetDeviceCount_def driver_version_def
  by (intro keeps_intros quiet_calls assms) simp

lemma hasPrimaryContext_keeps [device_keeps]:
  "quiet_runtime T live \<Longrightarrow> keeps_pred (\<lambda>c. P (live (drv c))) (hasPrimaryContext T i)"
  unfolding hasPrimaryContext_def dummyHasPrimaryContext_def
  by (intro keeps_intros device_keeps)

lemma GetDevice_keeps [device_keeps]:
  "quiet_runtime T live \<Longrightarrow> keeps_pred (\<lambda>c. P (live (drv c))) (GetDevice T)"
  unfolding GetDevice_def by (intro keeps_intros quiet_calls)

lemma current_device_keeps [device_keeps]:
  "quiet_runtime T live \<Longrightarrow> keeps_pred (\<lambda>c. P (live (drv c))) (current_device T)"
  unfolding current_device_def by (intro keeps_intros device_keeps)

lemma SetDevice_keeps [device_keeps]:
  "quiet_runtime T live \<Longrightarrow> keeps_pred (\<lambda>c. P (live (drv c))) (SetDevice T i)"
  unfolding SetDevice_def by (intro keeps_intros quiet_calls) simp_all

lemma MaybeSetDevice_keeps [device_keeps]:
  "quiet_runtime T live \<Longrightarrow> keeps_pred (\<lambda>c. P (live (drv c))) (MaybeSetDevice T i)"
  unfolding MaybeSetDevice_def by (intro keeps_intros device_keeps) simp_all

lemma ExchangeDevice_keeps [device_keeps]:
  "quiet_runtime T live \<Longrightarrow> keeps_pred (\<lambda>c. P (live (drv c))) (ExchangeDevice T i)"
  unfolding ExchangeDevice_def by (intro keeps_intros quiet_calls) simp_all

lemma uncheckedSetDevice_keeps [device_keeps]:
  "quiet_runtime T live \<Longrightarrow> keeps_pred (\<lambda>c. P (live (drv c))) (uncheckedSetDevice T i)"
  unfolding uncheckedSetDevice_def by (intro keeps_intros device_keeps quiet_calls)

lemma with_guard_keeps [device_keeps]:
  "quiet_runtime T live \<Longrightarrow> keeps_pred (\<lambda>c. P (live (drv c))) m \<Longrightarrow>
   keeps_pred (\<lambda>c. P (live (drv c))) (with_guard T i m)"
  unfolding with_guard_def by (intro keeps_intros device_keeps)

section \<open>A runtime whose current device behaves\<close>

text \<open>
  What the runtime documents of the current device: \<^verbatim>\<open>topsSetDevice\<close> with a valid index
  succeeds and \<^verbatim>\<open>topsGetDevice\<close> then returns that index; asking changes nothing.
  \<open>cur\<close> reads the current device off the driver's state and \<open>n\<close> is the number of devices.
\<close>

definition device_runtime :: "'d tops \<Rightarrow> ('d \<Rightarrow> int) \<Rightarrow> int \<Rightarrow> bool" where
  "device_runtime T cur n \<longleftrightarrow> n \<le> 127 \<and>
     (\<forall>d. topsGetDevice T d = ((topsSuccess, cur d), d)) \<and>
     (\<forall>d. topsGetDeviceCount T d = ((topsSuccess, n), d)) \<and>
     (\<forall>d i. 0 \<le> i \<and> i < n \<longrightarrow> fst (topsSetDevice T i d) = topsSuccess \<and>
        cur (snd (topsSetDevice T i d)) = i)"

text \<open>The device the process acts on: the pending one, if any.\<close>

definition effective_device :: "('d \<Rightarrow> int) \<Rightarrow> 'd ctx \<Rightarrow> int" where
  "effective_device cur c = (if 0 \<le> targetDeviceIndex c then targetDeviceIndex c else cur (drv c))"

definition device_ok :: "('d \<Rightarrow> int) \<Rightarrow> int \<Rightarrow> 'd ctx \<Rightarrow> bool" where
  "device_ok cur n c \<longleftrightarrow> 0 \<le> cur (drv c) \<and> cur (drv c) < n \<and> targetDeviceIndex c < n \<and>
     (device_count_static c = None \<or> device_count_static c = Some n)"

lemma GetDevice_effective:
  "device_runtime T cur n \<Longrightarrow> device_ok cur n c \<Longrightarrow>
   GetDevice T c = (Inr (topsSuccess, effective_device cur c), c)"
  by (auto simp: GetDevice_def device_runtime_def device_ok_def effective_device_def act_simps
      call_def)

lemma SetDevice_sets:
  assumes "device_runtime T cur n" "device_ok cur n c" "0 \<le> i" "i < n"
  shows "\<exists>c'. SetDevice T i c = (Inr topsSuccess, c') \<and> device_ok cur n c' \<and>
    effective_device cur c' = i \<and> targetDeviceIndex c' = -1 \<and>
    device_count_static c' = device_count_static c \<and> has_primary_context c' = has_primary_context c"
proof (cases "i = cur (drv c)")
  case True
  then show ?thesis
    using assms by (auto simp: SetDevice_def device_runtime_def device_ok_def effective_device_def
        act_simps call_def call_check_def)
next
  case False
  obtain d where "topsSetDevice T i (drv c) = (topsSuccess, d)" "cur d = i"
    using assms unfolding device_runtime_def by (metis prod.collapse)
  then show ?thesis
    using assms False by (auto simp: SetDevice_def device_runtime_def device_ok_def
        effective_device_def act_simps call_def call_check_def)
qed

lemma device_count_value:
  assumes "device_runtime T cur n" "device_ok cur n c"
  shows "device_count T c = (Inr n, c\<lparr>device_count_static := Some n\<rparr>)"
  using assms
  by (cases "device_count_static c")
    (auto simp: device_count_def device_count_impl_def GetDeviceCount_def device_runtime_def
      device_ok_def act_simps call_def)

lemma hasPrimaryContext_value:
  assumes "device_runtime T cur n" "device_ok cur n c" "0 \<le> i" "i < n"
  shows "\<exists>b c'. hasPrimaryContext T i c = (Inr b, c') \<and> device_ok cur n c' \<and> drv c' = drv c \<and>
    targetDeviceIndex c' = targetDeviceIndex c \<and> (has_primary_context c = None \<longrightarrow> b) \<and>
    has_primary_context c' = has_primary_context c"
  using assms
  by (cases "has_primary_context c")
    (auto simp: hasPrimaryContext_def dummyHasPrimaryContext_def act_simps device_count_value
      device_ok_def)

lemma MaybeSetDevice_sets:
  assumes T: "device_runtime T cur n" and c: "device_ok cur n c" and i: "0 \<le> i" "i < n"
  shows "\<exists>c'. MaybeSetDevice T i c = (Inr topsSuccess, c') \<and> device_ok cur n c' \<and>
    effective_device cur c' = i"
proof -
  obtain b c1 where h: "hasPrimaryContext T i c = (Inr b, c1)" "device_ok cur n c1"
    using hasPrimaryContext_value [OF T c i] by blast
  show ?thesis
  proof (cases b)
    case True
    then show ?thesis
      using SetDevice_sets [OF T h(2) i] h(1) by (auto simp: MaybeSetDevice_def act_simps)
  next
    case False
    then show ?thesis
      using h i by (auto simp: MaybeSetDevice_def act_simps device_ok_def effective_device_def)
  qed
qed

lemma ExchangeDevice_sets:
  assumes T: "device_runtime T cur n" and c: "device_ok cur n c" and i: "0 \<le> i" "i < n"
  shows "\<exists>c'. ExchangeDevice T i c = (Inr (effective_device cur c), c') \<and> device_ok cur n c' \<and>
    effective_device cur c' = i"
proof -
  obtain d where d: "topsSetDevice T i (drv c) = (topsSuccess, d)" "cur d = i"
    using T i unfolding device_runtime_def by (metis prod.collapse)
  then show ?thesis
    using T c i by (auto simp: ExchangeDevice_def device_runtime_def device_ok_def
        effective_device_def act_simps call_def call_check_def)
qed

text \<open>
  The guard restores the device whatever its body does, also when the body throws, as long as
  the body leaves a valid device.
\<close>

lemma with_guard_effective:
  assumes T: "device_runtime T cur n" and c: "device_ok cur n c" and i: "0 \<le> i" "i < n"
    and m: "\<And>c r c'. device_ok cur n c \<Longrightarrow> effective_device cur c = i \<Longrightarrow> m c = (r, c') \<Longrightarrow>
      device_ok cur n c'"
  obtains c1 r c2 c' where "device_ok cur n c1" "effective_device cur c1 = i" "m c1 = (r, c2)"
    and "with_guard T i m c = (r, c')" "device_ok cur n c'"
    and "effective_device cur c' = effective_device cur c"
proof -
  obtain c1 where c1: "ExchangeDevice T i c = (Inr (effective_device cur c), c1)"
      "device_ok cur n c1" "effective_device cur c1 = i"
    using ExchangeDevice_sets [OF T c i] by blast
  obtain r c2 where c2: "m c1 = (r, c2)" by fastforce
  have ok2: "device_ok cur n c2" by (rule m [OF c1(2,3) c2])
  have e: "0 \<le> effective_device cur c" "effective_device cur c < n"
    using c by (auto simp: device_ok_def effective_device_def)
  obtain c' where "MaybeSetDevice T (effective_device cur c) c2 = (Inr topsSuccess, c')"
      "device_ok cur n c'" "effective_device cur c' = effective_device cur c"
    using MaybeSetDevice_sets [OF T ok2 e] by blast
  then have "with_guard T i m c = (r, c')"
    using c1(1) c2 by (simp add: with_guard_def uncheckedSetDevice_def act_simps gcu_check_warn_def)
  with c1 c2 \<open>device_ok cur n c'\<close> \<open>effective_device cur c' = _\<close> show thesis by (intro that)
qed

lemma sim_device_runtime: "device_runtime sim_tops sim_cur 2"
  by (simp add: device_runtime_def sim_defs)

lemma sim_device_ok: "device_ok sim_cur 2 (ctx_init sim_init)"
  by (simp add: device_ok_def ctx_init_def sim_init_def)

section \<open>Properties\<close>

text \<open>C15: a device guard runs its body with the requested device current and makes the previous
  device current again afterwards, also when the body throws; the pending device counts as the
  previous one, and the guard itself neither throws nor ends the process.
\<close>

theorem with_guard_restores_device:
  assumes "device_runtime T cur n" and "device_ok cur n c" and "0 \<le> i" and "i < n"
    and "\<And>c r c'. device_ok cur n c \<Longrightarrow> effective_device cur c = i \<Longrightarrow> m c = (r, c') \<Longrightarrow>
      device_ok cur n c'"
  shows "\<exists>c1 r c2 c'. effective_device cur c1 = i \<and> m c1 = (r, c2) \<and> with_guard T i m c = (r, c') \<and>
    device_ok cur n c' \<and> effective_device cur c' = effective_device cur c"
  by (rule with_guard_effective [OF assms]) blast+

theorem with_guard_restores_device_witness:
  "\<exists>c1 r c2 c'. effective_device sim_cur c1 = 1 \<and> throw InternalAssert (c1 :: sim ctx) = (r :: exc + unit, c2) \<and>
    with_guard sim_tops 1 (throw InternalAssert) (ctx_init sim_init) = (r, c') \<and>
    device_ok sim_cur 2 c' \<and>
    effective_device sim_cur c' = effective_device sim_cur (ctx_init sim_init)"
  by (rule with_guard_restores_device [OF sim_device_runtime sim_device_ok])
    (simp_all add: throw_apply)

end
