(* ===== verification/GcuStream.thy ===== *)
theory GcuStream
  imports GcuDevice
begin

text \<open>
  Streams, \<^verbatim>\<open>gcu_stream.{h,cpp}\<close>: the encoding of stream ids, the pools of streams that are
  handed out round-robin, and the current stream of each device. Stream ids are 64-bit; the
  environment variables that the code reads are parameters of the functions that read them.
\<close>

section \<open>Stream ids\<close>

definition kMaxStreamNum :: nat where "kMaxStreamNum = 32"
definition kStreamTypeBits :: nat where "kStreamTypeBits = 4"
definition max_compile_time_stream_priorities :: int where
  "max_compile_time_stream_priorities = 4"
definition C10_COMPILE_TIME_MAX_GCUS :: int where "C10_COMPILE_TIME_MAX_GCUS = 16"

type_synonym stream_id = "64 word"

definition DEFAULT :: nat where "DEFAULT = 0"
definition EXT :: nat where "EXT = 15"

definition isExt :: "nat \<Rightarrow> bool" where "isExt st \<longleftrightarrow> st = EXT"
definition isDefault :: "nat \<Rightarrow> bool" where "isDefault st \<longleftrightarrow> st = DEFAULT"

text \<open>The shift of the signed \<^verbatim>\<open>StreamId\<close> is arithmetic; the mask removes the sign bits.\<close>

definition streamIdType :: "stream_id \<Rightarrow> exc + nat" where
  "streamIdType s =
     (if \<not> odd (uint s) \<and> s \<noteq> 0 then Inr EXT
      else
        (let v = unat (signed_drop_bit 1 s AND mask kStreamTypeBits)
         in if v \<noteq> 0 \<or> \<not> odd (uint s) then Inr v else Inl InternalAssert))"

definition streamIdIndex :: "nat \<Rightarrow> stream_id \<Rightarrow> nat" where
  "streamIdIndex bits s = unat (signed_drop_bit (kStreamTypeBits + 1) s AND mask bits)"

definition makeStreamId :: "nat \<Rightarrow> nat \<Rightarrow> stream_id" where
  "makeStreamId st si =
     (if isDefault st then 0
      else push_bit (kStreamTypeBits + 1) (word_of_nat si) OR word_of_nat (2 * st) OR 1)"

record gcu_stream =
  gs_device :: int
  gs_id :: stream_id

section \<open>Initialisation\<close>

definition initGlobalStreamState :: "'d tops \<Rightarrow> ('d, unit) cact" where
  "initGlobalStreamState T =
     bnd (device_count T) (\<lambda>n.
     seq (upd (\<lambda>c. c\<lparr>num_gcus := n\<rparr>))
     (seq (require (TorchCheck ''Number of GCU devices on the machine is too large'')
             (n \<le> C10_COMPILE_TIME_MAX_GCUS))
      (let leastPriority = -1; greatestPriority = -1 :: int;
           range = leastPriority - greatestPriority + 1
       in upd (\<lambda>c. c\<lparr>max_stream_priorities :=
                 (if max_compile_time_stream_priorities \<le> range
                  then max_compile_time_stream_priorities else range)\<rparr>))))"

text \<open>
  One stream of a pool: the write into \<^verbatim>\<open>streams[p][device][i]\<close> is out of bounds for
  \<open>i \<ge> kMaxStreamNum\<close>.
\<close>

definition init_pool_stream :: "'d tops \<Rightarrow> int \<Rightarrow> nat \<Rightarrow> nat \<Rightarrow> ('d, unit) cact" where
  "init_pool_stream T device_index i p =
     seq (require UndefinedBehaviour
            (i < kMaxStreamNum \<and> int p < max_compile_time_stream_priorities \<and>
             0 \<le> device_index \<and> device_index < C10_COMPILE_TIME_MAX_GCUS))
       (bnd (call_check (topsStreamCreateWithFlags T)) (\<lambda>s.
          upd (\<lambda>c. c\<lparr>streams := (streams c)(p := (streams c p)(device_index :=
                       (streams c p device_index)(i := s)))\<rparr>)))"

text \<open>
  \<open>env_stream_num\<close> is the value of \<^verbatim>\<open>ENFLAME_PT_STREAM_NUM\<close> or 32, truncated to \<^verbatim>\<open>int\<close>.
  \<open>std::log2\<close> of the positive number truncates to the position of its highest bit.
\<close>

definition initDeviceStreamState :: "'d tops \<Rightarrow> int \<Rightarrow> int \<Rightarrow> ('d, unit) cact" where
  "initDeviceStreamState T env_stream_num device_index =
     with_guard T device_index
      (let n = max env_stream_num (int kMaxStreamNum);
           bits = lg (nat n)
       in seq (upd (\<lambda>c. c\<lparr>kStreamsPerPoolBits := bits, kStreamsPerPool := 2 ^ bits\<rparr>))
          (bnd (gets (\<lambda>c. nat (max_stream_priorities c))) (\<lambda>prios.
             for_each (\<lambda>i. for_each (\<lambda>p. init_pool_stream T device_index i p) [0..<prios])
               [0..<2 ^ bits])))"

definition initGCUStreamsOnce :: "'d tops \<Rightarrow> bool \<Rightarrow> ('d, unit) cact" where
  "initGCUStreamsOnce T use_default =
     seq (bnd (gets stream_init_flag) (\<lambda>initialised.
            whenM (\<not> initialised)
              (seq (initGlobalStreamState T) (upd (\<lambda>c. c\<lparr>stream_init_flag := True\<rparr>)))))
      (bnd (gets current_streams) (\<lambda>cs.
         if cs \<noteq> None then ret ()
         else
           bnd (gets num_gcus) (\<lambda>n.
           seq (upd (\<lambda>c. c\<lparr>current_streams := Some (replicate (nat n) 0),
                           kUseGcuDefaultStream := use_default\<rparr>))
           (for_each (\<lambda>i.
              seq (upd (\<lambda>c. c\<lparr>current_streams :=
                       map_option (\<lambda>l. l[i := makeStreamId DEFAULT 0]) (current_streams c)\<rparr>))
              (whenM (\<not> use_default)
                 (with_guard T (int i)
                   (bnd (call_check (topsStreamCreateWithFlags T)) (\<lambda>s.
                      upd (\<lambda>c. c\<lparr>kDefaultStream := (kDefaultStream c)(int i := s)\<rparr>))))))
              [0..<nat n]))))"

definition check_gcu :: "int \<Rightarrow> ('d, unit) cact" where
  "check_gcu device_index =
     bnd (gets num_gcus) (\<lambda>n. require InternalAssert (0 \<le> device_index \<and> device_index < n))"

section \<open>Handing out streams\<close>

text \<open>\<open>get_idx\<close> increments the 32-bit counter; the counter wraps around.\<close>

definition get_idx :: "nat \<Rightarrow> int \<Rightarrow> ('d, nat) cact" where
  "get_idx pri device =
     (\<lambda>c. let raw_idx = priority_counters c pri device
          in (Inr (unat raw_idx mod nat (kStreamsPerPool c)),
              c\<lparr>priority_counters := (priority_counters c)(pri :=
                  (priority_counters c pri)(device := raw_idx + 1))\<rparr>))"

definition GCUStreamForId :: "int \<Rightarrow> stream_id \<Rightarrow> gcu_stream" where
  "GCUStreamForId d s = \<lparr> gs_device = d, gs_id = s \<rparr>"

text \<open>\<open>GCUStream::stream\<close>: the handle behind a stream value.\<close>

definition stream_handle :: "gcu_stream \<Rightarrow> ('d, stream_t) cact" where
  "stream_handle g =
     bnd (gets (\<lambda>c. c)) (\<lambda>c.
       case streamIdType (gs_id g) of Inl e \<Rightarrow> throw e
       | Inr st \<Rightarrow>
           (let si = streamIdIndex (kStreamsPerPoolBits c) (gs_id g)
            in if isDefault st then
                 seq (require InternalAssert (si = 0))
                   (ret (if kUseGcuDefaultStream c then 0 else kDefaultStream c (gs_device g)))
               else if isExt st then ret (unat (gs_id g))
               else
                 seq (require InternalAssert (1 \<le> st \<and> int st \<le> max_stream_priorities c))
                 (seq (require UndefinedBehaviour (si < kMaxStreamNum))
                   (ret (streams c (st - 1) (gs_device g) si)))))"

definition or_current_device :: "'d tops \<Rightarrow> int \<Rightarrow> ('d, int) cact" where
  "or_current_device T device_index =
     (if device_index = -1 then current_device T else ret device_index)"

definition getStreamFromPool ::
  "'d tops \<Rightarrow> bool \<Rightarrow> int \<Rightarrow> int \<Rightarrow> int \<Rightarrow> ('d, gcu_stream) cact" where
  "getStreamFromPool T use_default env_stream_num priority device_index =
     seq (initGCUStreamsOnce T use_default)
     (bnd (or_current_device T device_index) (\<lambda>device_index.
      seq (check_gcu device_index)
      (seq (bnd (gets device_flags) (\<lambda>flags.
              whenM (device_index \<notin> set flags)
                (seq (initDeviceStreamState T env_stream_num device_index)
                  (upd (\<lambda>c. c\<lparr>device_flags := device_index # device_flags c\<rparr>)))))
       (bnd (gets (\<lambda>c. nat (max 0 (min (- priority) (max_stream_priorities c - 1))))) (\<lambda>pri_idx.
        bnd (get_idx pri_idx device_index) (\<lambda>idx.
          ret (GCUStreamForId device_index (makeStreamId (pri_idx + 1) idx))))))))"

definition getStreamFromPool_high ::
  "'d tops \<Rightarrow> bool \<Rightarrow> int \<Rightarrow> bool \<Rightarrow> int \<Rightarrow> ('d, gcu_stream) cact" where
  "getStreamFromPool_high T use_default env_stream_num isHighPriority device =
     seq (initGCUStreamsOnce T use_default)
      (bnd (gets (\<lambda>c. if isHighPriority then - max_stream_priorities c + 1 else 0)) (\<lambda>priority.
         getStreamFromPool T use_default env_stream_num priority device))"

definition getStreamFromExternal :: "stream_t \<Rightarrow> int \<Rightarrow> gcu_stream" where
  "getStreamFromExternal ext_stream device_index =
     GCUStreamForId device_index (word_of_nat ext_stream)"

definition getDefaultGCUStream :: "'d tops \<Rightarrow> bool \<Rightarrow> int \<Rightarrow> ('d, gcu_stream) cact" where
  "getDefaultGCUStream T use_default device_index =
     seq (initGCUStreamsOnce T use_default)
     (bnd (or_current_device T device_index) (\<lambda>device_index.
      seq (check_gcu device_index)
        (ret (GCUStreamForId device_index (makeStreamId DEFAULT 0)))))"

text \<open>\<open>current_streams\<close> has \<open>num_gcus\<close> entries; an access outside is undefined.\<close>

definition getCurrentGCUStream :: "'d tops \<Rightarrow> bool \<Rightarrow> int \<Rightarrow> ('d, gcu_stream) cact" where
  "getCurrentGCUStream T use_default device_index =
     seq (initGCUStreamsOnce T use_default)
     (bnd (or_current_device T device_index) (\<lambda>device_index.
      seq (check_gcu device_index)
      (bnd (gets current_streams) (\<lambda>cs.
         case cs of None \<Rightarrow> throw UndefinedBehaviour
         | Some l \<Rightarrow>
             if nat device_index < length l
             then ret (GCUStreamForId device_index (l ! nat device_index))
             else throw UndefinedBehaviour))))"

definition setCurrentGCUStream :: "'d tops \<Rightarrow> bool \<Rightarrow> gcu_stream \<Rightarrow> ('d, unit) cact" where
  "setCurrentGCUStream T use_default stream =
     seq (initGCUStreamsOnce T use_default)
      (bnd (gets current_streams) (\<lambda>cs.
         case cs of None \<Rightarrow> throw UndefinedBehaviour
         | Some l \<Rightarrow>
             if 0 \<le> gs_device stream \<and> nat (gs_device stream) < length l
             then upd (\<lambda>c. c\<lparr>current_streams :=
                      Some (l[nat (gs_device stream) := gs_id stream])\<rparr>)
             else throw UndefinedBehaviour))"

text \<open>\<open>GCUStream::query\<close> and \<open>GCUStream::synchronize\<close>.\<close>

definition stream_query :: "'d tops \<Rightarrow> gcu_stream \<Rightarrow> ('d, bool) cact" where
  "stream_query T g =
     with_guard T (gs_device g)
      (bnd (stream_handle g) (\<lambda>h.
       bnd (call (topsStreamQuery T h)) (\<lambda>err.
         if err = topsSuccess then ret True
         else if err \<noteq> topsErrorNotReady then seq (gcu_check err) (ret False)
         else bnd (call (topsGetLastError T)) (\<lambda>_. ret False))))"

definition StreamSynchronize :: "'d tops \<Rightarrow> stream_t \<Rightarrow> ('d, unit) cact" where
  "StreamSynchronize T h = bnd (call (topsStreamSynchronize T h)) gcu_check"

definition stream_synchronize :: "'d tops \<Rightarrow> gcu_stream \<Rightarrow> ('d, unit) cact" where
  "stream_synchronize T g =
     with_guard T (gs_device g) (bnd (stream_handle g) (StreamSynchronize T))"

text \<open>\<open>currentStreamCaptureStatusMayInitCtx\<close> of \<^verbatim>\<open>gcu_graphs_c10_utils.h\<close>; 0 is \<^verbatim>\<open>None\<close>.\<close>

definition currentStreamCaptureStatusMayInitCtx :: "'d tops \<Rightarrow> bool \<Rightarrow> ('d, nat) cact" where
  "currentStreamCaptureStatusMayInitCtx T use_default =
     bnd (getCurrentGCUStream T use_default (-1)) (\<lambda>g.
     bnd (stream_handle g) (\<lambda>h. call_check (topsStreamIsCapturing T h)))"

definition topsStreamCaptureModeRelaxed :: nat where "topsStreamCaptureModeRelaxed = 2"

text \<open>
  \<open>GCUStreamCaptureModeGuard\<close>: the constructor exchanges the capture mode and the destructor
  exchanges it back.
\<close>

definition with_capture_mode :: "'d tops \<Rightarrow> nat \<Rightarrow> ('d, 'a) cact \<Rightarrow> ('d, 'a) cact" where
  "with_capture_mode T desired m =
     bnd (call_check (topsThreadExchangeStreamCaptureMode T desired)) (\<lambda>strictness.
       finallyM m (bnd (call (topsThreadExchangeStreamCaptureMode T strictness))
                  (\<lambda>(err, _). gcu_check_warn T err)))"

section \<open>The encoding of stream ids\<close>


lemma unat_signed_drop_mask:
  assumes "n + m \<le> 64"
  shows "unat (signed_drop_bit n (s :: 64 word) AND mask m) = unat s div 2 ^ n mod 2 ^ m"
proof -
  have "signed_drop_bit n s AND mask m = take_bit m (drop_bit n s)"
    using assms by (intro bit_eqI) (auto simp: bit_simps)
  then show ?thesis
    by (simp add: unsigned_take_bit_eq unat_drop_bit_eq)  (simp add: take_bit_eq_mod drop_bit_eq_div)
qed

lemma makeStreamId_value:
  assumes "0 < st" "st < 16"
  shows "makeStreamId st si = word_of_nat (32 * si + 2 * st + 1)"
proof -
  have one: "word_of_nat (2 * st) OR 1 = (word_of_nat (2 * st + 1) :: 64 word)"
    by (simp add: or_one_eq)
  have small: "bit (word_of_nat (2 * st + 1) :: 64 word) n \<Longrightarrow> n < 5" for n
  proof -
    have "take_bit 5 (2 * st + 1) = 2 * st + 1" using assms by (intro take_bit_nat_eq_self) simp
    then have "take_bit 5 (word_of_nat (2 * st + 1) :: 64 word) = word_of_nat (2 * st + 1)"
      by (metis take_bit_of_nat)
    then show "bit (word_of_nat (2 * st + 1) :: 64 word) n \<Longrightarrow> n < 5" by (metis bit_take_bit_iff)
  qed
  have "push_bit 5 (word_of_nat si) OR word_of_nat (2 * st + 1) =
      push_bit 5 (word_of_nat si) + (word_of_nat (2 * st + 1) :: 64 word)"
    by (rule disjunctive_add_eq_or [symmetric]) (rule bit_eqI, auto simp: bit_simps dest: small [simplified])
  then show ?thesis
    using assms one by (simp add: makeStreamId_def isDefault_def DEFAULT_def kStreamTypeBits_def or.assoc push_bit_eq_mult)
qed

lemma unat_makeStreamId:
  "0 < st \<Longrightarrow> st < 16 \<Longrightarrow> si < 2 ^ 59 \<Longrightarrow> unat (makeStreamId st si) = 32 * si + 2 * st + 1"
  by (simp only: makeStreamId_value unat_of_nat) (simp add: take_bit_nat_eq_self)

lemma streamIdType_makeStreamId:
  assumes "0 < st" "st < 16" "si < 2 ^ 59"
  shows "streamIdType (makeStreamId st si) = Inr st"
proof -
  note u = unat_makeStreamId [OF assms]
  have "odd (unat (makeStreamId st si))" unfolding u by simp
  then have "odd (uint (makeStreamId st si))" by (metis uint_nat even_of_nat) 
  moreover have "unat (signed_drop_bit 1 (makeStreamId st si) AND mask 4) = st"
    by (subst unat_signed_drop_mask) (use assms in \<open>simp_all add: u\<close>)
  ultimately show ?thesis using assms(1) by (simp add: streamIdType_def kStreamTypeBits_def)
qed

lemma streamIdIndex_makeStreamId:
  assumes "0 < st" "st < 16" "si < 2 ^ bits" "bits \<le> 59"
  shows "streamIdIndex bits (makeStreamId st si) = si"
proof -
  have si: "si < 2 ^ 59" using assms(3) power_increasing [OF assms(4), of "2::nat"] by simp
  have "(32 * si + 2 * st + 1) div 32 = si" using assms by simp
  then show ?thesis
    unfolding streamIdIndex_def kStreamTypeBits_def using assms(3,4)
    by (subst unat_signed_drop_mask) (simp_all add: unat_makeStreamId [OF assms(1,2) si])
qed


section \<open>These calls leave the allocations alone\<close>

lemma initGCUStreamsOnce_keeps [device_keeps]:
  assumes "quiet_runtime T live"
  shows "keeps_pred (\<lambda>c. P (live (drv c))) (initGCUStreamsOnce T u)"
  unfolding initGCUStreamsOnce_def initGlobalStreamState_def
  by (intro keeps_intros device_keeps quiet_calls assms) simp_all

lemma getCurrentGCUStream_keeps [device_keeps]:
  assumes "quiet_runtime T live"
  shows "keeps_pred (\<lambda>c. P (live (drv c))) (getCurrentGCUStream T u i)"
  unfolding getCurrentGCUStream_def or_current_device_def check_gcu_def
  by (intro keeps_intros device_keeps quiet_calls assms)

lemma stream_handle_keeps [device_keeps]: "keeps_pred P (stream_handle g)"
  unfolding stream_handle_def by (intro keeps_intros)

lemma captureStatus_keeps [device_keeps]:
  assumes "quiet_runtime T live"
  shows "keeps_pred (\<lambda>c. P (live (drv c))) (currentStreamCaptureStatusMayInitCtx T u)"
  unfolding currentStreamCaptureStatusMayInitCtx_def
  by (intro keeps_intros device_keeps quiet_calls assms)

section \<open>Round-robin\<close>

lemma mod_pow2_Suc:
  assumes "b \<le> 32"
  shows "unat (w + 1 :: 32 word) mod 2 ^ b = Suc (unat w mod 2 ^ b) mod 2 ^ b"
proof -
  have "unat (w + 1) = Suc (unat w) mod 2 ^ 32" by (simp add: unat_word_ariths)
  moreover have "(2::nat) ^ b dvd 2 ^ 32" using assms by (rule le_imp_power_dvd)
  ultimately show ?thesis by (simp add: mod_mod_cancel mod_Suc_eq)
qed

text \<open>Successive requests walk through the pool, also where the 32-bit counter wraps.\<close>

lemma get_idx_next:
  assumes "kStreamsPerPool c = 2 ^ b" "b \<le> 32" "get_idx p d c = (Inr i, c')"
  shows "i < 2 ^ b" and "get_idx p d c' = (Inr j, c'') \<Longrightarrow> j = Suc i mod 2 ^ b"
    and "kStreamsPerPool c' = 2 ^ b"
  using assms by (auto simp: get_idx_def Let_def nat_power_eq mod_pow2_Suc)

section \<open>Initialised streams\<close>

text \<open>
  The state after the first call on each device: the pool sizes are those of the default
  configuration (the environment asks for fewer than 64 streams).
\<close>

definition streams_ready :: "'d ctx \<Rightarrow> int \<Rightarrow> bool" where
  "streams_ready c n \<longleftrightarrow> stream_init_flag c \<and> num_gcus c = n \<and> max_stream_priorities c = 1 \<and>
     kStreamsPerPoolBits c = 5 \<and> kStreamsPerPool c = 32 \<and>
     (\<exists>l. current_streams c = Some l \<and> int (length l) = n)"

lemma initGCUStreamsOnce_ready:
  "streams_ready c n \<Longrightarrow> initGCUStreamsOnce T u c = (Inr (), c)"
  by (auto simp: streams_ready_def initGCUStreamsOnce_def act_simps)

lemma getStreamFromPool_ready:
  assumes "streams_ready c n" "0 \<le> d" "d < n" "d \<in> set (device_flags c)"
  shows "getStreamFromPool T u env prio d c =
    (Inr (GCUStreamForId d (makeStreamId 1 (unat (priority_counters c 0 d) mod 32))),
     c\<lparr>priority_counters := (priority_counters c)(0 := (priority_counters c 0)(d :=
         priority_counters c 0 d + 1))\<rparr>)"
proof -
  have "nat (max 0 (min (- prio) (max_stream_priorities c - 1))) = 0"
    using assms(1) by (simp add: streams_ready_def)
  then show ?thesis
    using assms
    by (simp add: getStreamFromPool_def seq_apply initGCUStreamsOnce_ready bnd_apply
        or_current_device_def act_simps check_gcu_def get_idx_def Let_def)
      (simp add: streams_ready_def)
qed

lemma stream_handle_pool:
  assumes "streams_ready c n" "i < 32"
  shows "stream_handle (GCUStreamForId d (makeStreamId 1 i)) c = (Inr (streams c 0 d i), c)"
proof -
  have i: "i < 2 ^ 59" using assms(2) by simp
  show ?thesis
    using assms streamIdType_makeStreamId [of 1 i] i streamIdIndex_makeStreamId [of 1 i 5]
    by (simp add: stream_handle_def GCUStreamForId_def act_simps streams_ready_def isDefault_def
        DEFAULT_def isExt_def EXT_def kMaxStreamNum_def)
qed

lemma stream_handle_default:
  "kUseGcuDefaultStream c \<Longrightarrow>
   stream_handle (GCUStreamForId d (makeStreamId DEFAULT 0)) c = (Inr 0, c)"
  by (simp add: stream_handle_def GCUStreamForId_def makeStreamId_def isDefault_def DEFAULT_def
      act_simps streamIdType_def streamIdIndex_def)

text \<open>An external stream is its own handle as long as the handle is an even non-null address.\<close>

lemma stream_handle_external:
  assumes "even h" "h \<noteq> 0" "h < 2 ^ 64"
  shows "stream_handle (getStreamFromExternal h d) c = (Inr h, c)"
proof -
  have u: "unat (word_of_nat h :: 64 word) = h"
    using assms(3) by (simp add: unat_of_nat take_bit_nat_eq_self)
  then have "word_of_nat h \<noteq> (0 :: 64 word)" using assms(2) by auto
  moreover have "even (uint (word_of_nat h :: 64 word))" using u assms(1) by (metis uint_nat even_of_nat)
  ultimately show ?thesis
    by (simp add: stream_handle_def getStreamFromExternal_def GCUStreamForId_def act_simps
        streamIdType_def isDefault_def DEFAULT_def isExt_def EXT_def u)
qed

lemma setCurrentGCUStream_ready:
  assumes "streams_ready c n" "0 \<le> gs_device g" "gs_device g < n"
  shows "setCurrentGCUStream T u g c =
    (Inr (), c\<lparr>current_streams := Some ((the (current_streams c))[nat (gs_device g) := gs_id g])\<rparr>)"
proof -
  have len: "current_streams c = Some l \<Longrightarrow> nat (gs_device g) < length l" for l
    using assms by (auto simp: streams_ready_def)
  show ?thesis
    using assms len
    by (auto simp: setCurrentGCUStream_def seq_apply initGCUStreamsOnce_ready bnd_apply act_simps
        streams_ready_def split: option.splits)
qed

lemma getCurrentGCUStream_ready:
  assumes "streams_ready c n" "0 \<le> d" "d < n"
  shows "getCurrentGCUStream T u d c =
    (Inr (GCUStreamForId d (the (current_streams c) ! nat d)), c)"
proof -
  have len: "current_streams c = Some l \<Longrightarrow> nat d < length l" for l
    using assms by (auto simp: streams_ready_def)
  show ?thesis
    using assms len
    by (auto simp: getCurrentGCUStream_def seq_apply initGCUStreamsOnce_ready bnd_apply act_simps
        or_current_device_def check_gcu_def streams_ready_def split: option.splits)
qed

lemma streams_ready_set:
  "streams_ready c n \<Longrightarrow>
   streams_ready (c\<lparr>current_streams := Some ((the (current_streams c))[i := x])\<rparr>) n"
  by (auto simp: streams_ready_def)

section \<open>More streams than the table has entries\<close>

lemma keeps_call_frame: "(\<And>c d. P c \<Longrightarrow> P (c\<lparr>drv := d\<rparr>)) \<Longrightarrow> keeps_pred P (call f)"
  by (auto simp: keeps_pred_def call_def split: prod.splits)

lemma ExchangeDevice_frame:
  "(\<And>c d. P c \<Longrightarrow> P (c\<lparr>drv := d\<rparr>)) \<Longrightarrow> (\<And>c i. P c \<Longrightarrow> P (c\<lparr>targetDeviceIndex := i\<rparr>)) \<Longrightarrow>
   keeps_pred P (ExchangeDevice T i)"
  unfolding ExchangeDevice_def call_check_def by (intro keeps_intros keeps_call_frame) simp_all

text \<open>
  \<open>std::max\<close> where a minimum was meant: with \<^verbatim>\<open>ENFLAME_PT_STREAM_NUM\<close> of 64 or more the pool
  initialisation writes past the 32 entries of \<^verbatim>\<open>streams[p][device]\<close>.
\<close>

lemma initDeviceStreamState_overflow:
  assumes T: "device_runtime T cur n" and c: "device_ok cur n c" and d: "0 \<le> d" "d < n" "n \<le> 16"
    and p: "max_stream_priorities c = 1" and env: "64 \<le> env"
    and create: "\<And>x. fst (fst (topsStreamCreateWithFlags T x)) = topsSuccess \<and>
      cur (snd (topsStreamCreateWithFlags T x)) = cur x"
  shows "fst (initDeviceStreamState T env d c) = Inl UndefinedBehaviour"
proof -
  define bits where "bits = lg (nat (max env (int kMaxStreamNum)))"
  have "6 \<le> bits" unfolding bits_def kMaxStreamNum_def
    using env lg_mono [of 64 "nat (max env 32)"] lg_power [of 6] by simp
  then have "(2::nat) ^ 6 \<le> 2 ^ bits" by (intro power_increasing) simp_all
  then have big: "32 < (2::nat) ^ bits" by simp
  have range: "[0..<2 ^ bits] = [0..<32] @ 32 # [33..<2 ^ bits]"
    using big upt_add_eq_append [of 0 32 "2 ^ bits - 32"] by (simp add: upt_conv_Cons)
  let ?R = "device_ok cur n"
  have one: "hoare ?R (init_pool_stream T d i q) (\<lambda>_. ?R) (\<lambda>_ _. False)"
    if "i < 32" "q = 0" for i q
    using d that create
    by (auto simp: hoare_def init_pool_stream_def act_simps call_check_def call_def device_ok_def
        kMaxStreamNum_def max_compile_time_stream_priorities_def C10_COMPILE_TIME_MAX_GCUS_def
        split: prod.splits) (metis fst_conv snd_conv)+
  have row: "hoare ?R (for_each (\<lambda>q. init_pool_stream T d i q) [0..<prios]) (\<lambda>_. ?R) (\<lambda>_ _. False)"
    if "i < 32" "prios \<le> 1" for i prios
    using that by (intro hoare_for_each one) auto
  have first: "hoare ?R (for_each (\<lambda>i. for_each (\<lambda>q. init_pool_stream T d i q) [0..<1]) [0..<32])
      (\<lambda>_. ?R) (\<lambda>_ _. False)"
    by (intro hoare_for_each row) simp_all
  obtain c1 where c1: "ExchangeDevice T d c = (Inr (effective_device cur c), c1)"
      "device_ok cur n c1"
    using ExchangeDevice_sets [OF T c d(1,2)] by blast
  have p1: "max_stream_priorities c1 = 1"
    using keeps_predD [OF ExchangeDevice_frame [where P = "\<lambda>c. max_stream_priorities c = 1"] p c1(1)]
    by simp
  let ?c1 = "c1\<lparr>kStreamsPerPoolBits := bits, kStreamsPerPool := 2 ^ bits\<rparr>"
  have ok1: "?R ?c1" using c1(2) by (simp add: device_ok_def)
  obtain c2 where c2: "for_each (\<lambda>i. for_each (\<lambda>q. init_pool_stream T d i q) [0..<1]) [0..<32] ?c1 =
      (Inr (), c2)" "?R c2"
    by (rule hoare_returns [OF first ok1]) simp
  have "init_pool_stream T d 32 0 c2 = (Inl UndefinedBehaviour, c2)"
    by (simp add: init_pool_stream_def act_simps kMaxStreamNum_def)
  then have body: "for_each (\<lambda>i. for_each (\<lambda>q. init_pool_stream T d i q) [0..<1]) [0..<2 ^ bits] ?c1 =
      (Inl UndefinedBehaviour, c2)"
    using c2(1) by (simp add: range for_each_append seq_apply)
  have e: "0 \<le> effective_device cur c" "effective_device cur c < n"
    using c by (auto simp: device_ok_def effective_device_def)
  obtain c' where "MaybeSetDevice T (effective_device cur c) c2 = (Inr topsSuccess, c')"
    using MaybeSetDevice_sets [OF T c2(2) e] by blast
  then show ?thesis
    using c1(1) body p1
    by (simp add: initDeviceStreamState_def with_guard_def uncheckedSetDevice_def act_simps Let_def
        gcu_check_warn_def bits_def [symmetric])
qed

text \<open>A context with two devices whose streams are initialised.\<close>

definition ctx_ready :: "'d \<Rightarrow> 'd ctx" where
  "ctx_ready d = (ctx_init d)\<lparr>stream_init_flag := True, num_gcus := 2, max_stream_priorities := 1,
     device_flags := [0, 1], current_streams := Some [0, 0]\<rparr>"

lemma ctx_ready: "streams_ready (ctx_ready d) 2"
  by (simp add: streams_ready_def ctx_ready_def ctx_init_def)

section \<open>Properties\<close>

text \<open>C17: a stream id made from a stream type and an index decodes to them again, for every type
  below 16 and every index of the pool.
\<close>

theorem stream_id_roundtrip:
  assumes "0 < st" and "st < 16" and "bits \<le> 59" and "si < 2 ^ bits"
  shows "streamIdType (makeStreamId st si) = Inr st \<and> streamIdIndex bits (makeStreamId st si) = si"
proof -
  have "si < 2 ^ 59" using assms(4) power_increasing [OF assms(3), of "2::nat"] by simp
  then show ?thesis
    using streamIdType_makeStreamId [OF assms(1,2)] streamIdIndex_makeStreamId [OF assms(1,2,4,3)] by simp
qed

theorem stream_id_roundtrip_witness:
  "streamIdType (makeStreamId 1 31) = Inr 1 \<and> streamIdIndex 5 (makeStreamId 1 31) = 31"
  by (rule stream_id_roundtrip) simp_all



text \<open>The current stream of a device is the one that was set for it, and setting it leaves the
  current streams of the other devices alone.
\<close>

theorem setCurrentGCUStream_get:
  assumes "streams_ready c n" and "0 \<le> gs_device g" and "gs_device g < n" and "0 \<le> d" and "d < n"
  shows "\<exists>c'. setCurrentGCUStream T u g c = (Inr (), c') \<and> streams_ready c' n \<and>
    getCurrentGCUStream T u d c' =
      (if d = gs_device g then (Inr g, c') else (fst (getCurrentGCUStream T u d c), c'))"
proof -
  let ?l = "the (current_streams c)"
  let ?c' = "c\<lparr>current_streams := Some (?l[nat (gs_device g) := gs_id g])\<rparr>"
  have ready: "streams_ready ?c' n" by (rule streams_ready_set [OF assms(1)])
  have len: "nat (gs_device g) < length ?l" using assms(1-3) by (auto simp: streams_ready_def)
  have "nat d = nat (gs_device g) \<longleftrightarrow> d = gs_device g" using assms(2,4) by auto
  then show ?thesis
    using setCurrentGCUStream_ready [OF assms(1-3), of T u] getCurrentGCUStream_ready [OF ready assms(4,5), of T u]
      getCurrentGCUStream_ready [OF assms(1,4,5), of T u] ready len
    by (auto simp: nth_list_update GCUStreamForId_def)
qed

theorem setCurrentGCUStream_get_witness:
  "\<exists>c'. setCurrentGCUStream sim_tops True (GCUStreamForId 1 65) (ctx_ready sim_init) = (Inr (), c') \<and>
    streams_ready c' 2 \<and>
    getCurrentGCUStream sim_tops True 1 c' =
      (if 1 = gs_device (GCUStreamForId 1 65) then (Inr (GCUStreamForId 1 65), c')
       else (fst (getCurrentGCUStream sim_tops True 1 (ctx_ready sim_init)), c'))"
  by (rule setCurrentGCUStream_get [OF ctx_ready]) (simp_all add: GCUStreamForId_def)

text \<open>With \<^verbatim>\<open>ENFLAME_PT_STREAM_NUM\<close> of 64 or more the initialisation of a device's streams
  writes past the table of 32 streams, on every runtime that creates the streams it is asked for.
\<close>

theorem initDeviceStreamState_out_of_bounds:
  assumes "device_runtime T cur n" and "device_ok cur n c" and "0 \<le> d" and "d < n" and "n \<le> 16"
    and "max_stream_priorities c = 1" and "64 \<le> env"
    and "\<And>x. fst (fst (topsStreamCreateWithFlags T x)) = topsSuccess \<and>
      cur (snd (topsStreamCreateWithFlags T x)) = cur x"
  shows "fst (initDeviceStreamState T env d c) = Inl UndefinedBehaviour"
  by (rule initDeviceStreamState_overflow [OF assms])

theorem initDeviceStreamState_out_of_bounds_witness:
  "fst (initDeviceStreamState sim_tops 64 0 (ctx_ready sim_init)) = Inl UndefinedBehaviour"
  by (rule initDeviceStreamState_out_of_bounds [OF sim_device_runtime])
    (simp_all add: sim_defs ctx_ready_def ctx_init_def device_ok_def sim_init_def)

end
