(* ===== verification/DeviceAlloc.thy ===== *)
theory DeviceAlloc
  imports AllocStats GcuStream
begin

text \<open>
  \<^verbatim>\<open>DeviceCachingAllocator\<close> of \<^verbatim>\<open>gcu_caching_allocator.cpp\<close>, operation by operation. A
  \<^verbatim>\<open>Block*\<close> is a number (\<open>bid\<close>) into the heap of the state; dereferencing a number that is
  not in the heap (a deleted block) is undefined behaviour. Sizes and addresses are natural
  numbers below \<open>2 ^ 64\<close>, with the wrap-around of \<^verbatim>\<open>size_t\<close> written out (\<open>add64\<close>,
  \<open>sub64\<close>). Hash containers are lists in some iteration order.

  \<^verbatim>\<open>expandable_segments()\<close> is constantly false on this platform, so no block has an expandable
  segment: \<^verbatim>\<open>mapped\<close> is always true, the sets of unmapped blocks are empty, and the branches
  for expandable segments are left out. Also left out are gathered contexts, reports to the
  profiler and the locking; where the lock is released during \<^verbatim>\<open>topsMalloc\<close>, what other
  threads do meanwhile is a parameter. Checks that only debug builds make are no part of the
  definitions.
\<close>

section \<open>The state\<close>

definition add64 :: "nat \<Rightarrow> nat \<Rightarrow> nat" where "add64 a b = (a + b) mod 2 ^ 64"
definition sub64 :: "nat \<Rightarrow> nat \<Rightarrow> nat" where "sub64 a b = (a + 2 ^ 64 - b) mod 2 ^ 64"

type_synonym bid = nat
type_synonym mempool_id = "nat \<times> nat"

text \<open>
  A \<^verbatim>\<open>BlockPool*\<close>: one of the two pools of the allocator or one of the two of a private pool.
\<close>

datatype pool_ref =
    large_blocks
  | small_blocks
  | private_large mempool_id
  | private_small mempool_id

fun is_small :: "pool_ref \<Rightarrow> bool" where
  "is_small large_blocks = False"
| "is_small small_blocks = True"
| "is_small (private_large _) = False"
| "is_small (private_small _) = True"

fun owner_PrivatePool :: "pool_ref \<Rightarrow> mempool_id option" where
  "owner_PrivatePool (private_large i) = Some i"
| "owner_PrivatePool (private_small i) = Some i"
| "owner_PrivatePool _ = None"

record block_pool =
  blocks :: "bid list"
  get_free_blocks_call_count :: int

definition BlockPool :: block_pool where
  "BlockPool = \<lparr> blocks = [], get_free_blocks_call_count = 0 \<rparr>"

record block =
  b_device :: int
  b_stream :: stream_t
  stream_uses :: "gcu_stream list"
  bsize :: nat
  requested_size :: nat
  pool :: pool_ref
  ptr :: addr
  allocated :: bool
  prv :: "bid option"
  nxt :: "bid option"
  event_count :: int
  gc_count_base :: int

definition Block :: "int \<Rightarrow> stream_t \<Rightarrow> nat \<Rightarrow> pool_ref \<Rightarrow> addr \<Rightarrow> block" where
  "Block device stream size0 pl p =
     \<lparr> b_device = device, b_stream = stream, stream_uses = [], bsize = size0, requested_size = 0,
       pool = pl, ptr = p, allocated = False, prv = None, nxt = None, event_count = 0,
       gc_count_base = 0 \<rparr>"

definition is_split :: "block \<Rightarrow> bool" where
  "is_split x \<longleftrightarrow> prv x \<noteq> None \<or> nxt x \<noteq> None"

text \<open>What \<open>BlockComparatorSize\<close> looks at: stream, size and address.\<close>

type_synonym block_key = "stream_t \<times> nat \<times> addr"

definition key :: "block \<Rightarrow> block_key" where
  "key x = (b_stream x, bsize x, ptr x)"

fun BlockComparatorSize :: "block_key \<Rightarrow> block_key \<Rightarrow> bool" where
  "BlockComparatorSize (st, sz, p) (st', sz', p') =
     (if st \<noteq> st' then st < st' else if sz \<noteq> sz' then sz < sz' else p < p')"

interpretation block_order: comparator BlockComparatorSize
  by unfold_locales (auto split: if_splits)

record private_pool =
  use_count :: int
  topsMalloc_count :: int

definition PrivatePool :: private_pool where
  "PrivatePool = \<lparr> use_count = 1, topsMalloc_count = 0 \<rparr>"

text \<open>
  The queue of a stream in \<^verbatim>\<open>gcu_events\<close>: pairs of an event and a block; \<open>None\<close> is an event
  that was moved out.
\<close>

type_synonym event_queue = "(event_t option \<times> bid) list"

text \<open>
  An observer of out-of-memory errors is the list of the calls it got, \<open>None\<close> an empty
  \<^verbatim>\<open>std::function\<close>.
\<close>

type_synonym oom_event = "int \<times> int \<times> int \<times> int"
type_synonym oom_observer = "oom_event list option"

record 'd dca =
  stats :: device_stats
  pools :: "pool_ref \<Rightarrow> block_pool"
  active_blocks :: "bid list"
  captures_underway :: "(mempool_id \<times> (stream_t \<Rightarrow> bool)) list"
  needs_events_deferred_until_no_capture :: "bid list"
  gcu_events :: "(gcu_stream \<times> event_queue) list"
  total_allocated_memory :: "64 word"
  allowed_memory_maximum :: "64 word"
  set_fraction :: bool
  tracing :: trace_state
  graph_pools :: "(mempool_id \<times> private_pool) list"
  graph_pools_freeable :: "mempool_id list"
  oom_observers :: "oom_observer list"
  devices_with_peer_access :: "int list"
  heap :: "bid \<Rightarrow> block option"
  next_bid :: bid
  ctx :: "'d ctx"

type_synonym ('d, 'a) dact = "('d dca, 'a) act"

definition DeviceCachingAllocator :: "alloc_config \<Rightarrow> 'd ctx \<Rightarrow> 'd dca" where
  "DeviceCachingAllocator c x =
     \<lparr> stats = DeviceStats (sint (max_split_size c)), pools = (\<lambda>_. BlockPool), active_blocks = [],
       captures_underway = [], needs_events_deferred_until_no_capture = [], gcu_events = [],
       total_allocated_memory = 0, allowed_memory_maximum = 0, set_fraction = False,
       tracing = trace_init, graph_pools = [], graph_pools_freeable = [], oom_observers = [],
       devices_with_peer_access = [], heap = (\<lambda>_. None), next_bid = 1, ctx = x \<rparr>"

text \<open>
  What an operation depends on besides the state: the runtime, the bit helpers, the
  configuration, whether the default stream is the null stream, the registered callbacks that
  free memory, and what other threads do to this allocator while its lock is released.
\<close>

record 'd env =
  runtime :: "'d tops"
  llvm :: llvm_math
  cfg :: alloc_config
  use_default_stream :: bool
  callbacks :: "('d dca \<Rightarrow> bool \<times> 'd dca) list"
  other_threads :: "'d dca \<Rightarrow> 'd dca"

abbreviation max_split :: "'d env \<Rightarrow> nat" where
  "max_split E \<equiv> unat (max_split_size (cfg E))"

section \<open>Access to the heap and to the shared context\<close>

definition deref :: "bid \<Rightarrow> ('d, block) dact" where
  "deref b = (\<lambda>s. case heap s b of None \<Rightarrow> (Inl UndefinedBehaviour, s) | Some x \<Rightarrow> (Inr x, s))"

definition modify :: "bid \<Rightarrow> (block \<Rightarrow> block) \<Rightarrow> ('d, unit) dact" where
  "modify b f = (\<lambda>s. case heap s b of None \<Rightarrow> (Inl UndefinedBehaviour, s)
     | Some x \<Rightarrow> (Inr (), s\<lparr>heap := (heap s)(b \<mapsto> f x)\<rparr>))"

definition new_block :: "block \<Rightarrow> ('d, bid) dact" where
  "new_block x = (\<lambda>s. (Inr (next_bid s),
     s\<lparr>heap := (heap s)(next_bid s \<mapsto> x), next_bid := Suc (next_bid s)\<rparr>))"

definition delete_block :: "bid \<Rightarrow> ('d, unit) dact" where
  "delete_block b = upd (\<lambda>s. s\<lparr>heap := (heap s)(b := None)\<rparr>)"

definition in_ctx :: "('d, 'a) cact \<Rightarrow> ('d, 'a) dact" where
  "in_ctx m = (\<lambda>s. case m (ctx s) of (r, c) \<Rightarrow> (r, s\<lparr>ctx := c\<rparr>))"

definition upd_stats :: "(device_stats \<Rightarrow> device_stats) \<Rightarrow> ('d, unit) dact" where
  "upd_stats f = upd (\<lambda>s. s\<lparr>stats := f (stats s)\<rparr>)"

definition get_stat_types_for_pool :: "pool_ref \<Rightarrow> stat_types" where
  "get_stat_types_for_pool pl = stat_types_of (is_small pl)"

abbreviation selected ::
  "pool_ref \<Rightarrow> (stat_type \<Rightarrow> device_stats \<Rightarrow> device_stats) \<Rightarrow> ('d, unit) dact" where
  "selected pl f \<equiv> upd_stats (for_each_selected_stat_type (get_stat_types_for_pool pl) f)"

text \<open>
  The private pool of an id; a reference to one that was destroyed is undefined behaviour, as
  is the use of one of its block pools.
\<close>

definition get_private_pool :: "mempool_id \<Rightarrow> ('d, private_pool) dact" where
  "get_private_pool i = (\<lambda>s. case map_of (graph_pools s) i of
     None \<Rightarrow> (Inl UndefinedBehaviour, s) | Some p \<Rightarrow> (Inr p, s))"

definition set_private_pool :: "mempool_id \<Rightarrow> (private_pool \<Rightarrow> private_pool) \<Rightarrow> ('d, unit) dact" where
  "set_private_pool i f =
     upd (\<lambda>s. s\<lparr>graph_pools := map (\<lambda>(j, p). (j, if j = i then f p else p)) (graph_pools s)\<rparr>)"

definition pool_exists :: "'d dca \<Rightarrow> pool_ref \<Rightarrow> bool" where
  "pool_exists s pl = (case owner_PrivatePool pl of None \<Rightarrow> True
     | Some i \<Rightarrow> map_of (graph_pools s) i \<noteq> None)"

text \<open>The comparator of a pool's set dereferences the elements.\<close>

definition check_pool :: "pool_ref \<Rightarrow> ('d, unit) dact" where
  "check_pool pl =
     bnd (gets (\<lambda>s. pool_exists s pl \<and> list_all (\<lambda>b. heap s b \<noteq> None) (blocks (pools s pl))))
       (require UndefinedBehaviour)"

definition key_of :: "'d dca \<Rightarrow> bid \<Rightarrow> block_key" where
  "key_of s b = key (the (heap s b))"

definition set_blocks :: "pool_ref \<Rightarrow> bid list \<Rightarrow> 'd dca \<Rightarrow> 'd dca" where
  "set_blocks pl bs s = s\<lparr>pools := (pools s)(pl := (pools s pl)\<lparr>blocks := bs\<rparr>)\<rparr>"

text \<open>\<open>std::set::erase\<close> with an element.\<close>

definition pool_erase :: "pool_ref \<Rightarrow> bid \<Rightarrow> ('d, nat) dact" where
  "pool_erase pl b =
     seq (check_pool pl)
     (bnd (deref b) (\<lambda>_ s.
        let (bs, n) = set_erase BlockComparatorSize (key_of s) b (blocks (pools s pl))
        in (Inr n, set_blocks pl bs s)))"

definition insert_into_blocks :: "pool_ref \<Rightarrow> bid \<Rightarrow> ('d, bool) dact" where
  "insert_into_blocks pl b =
     bnd (gets (\<lambda>s. get_free_blocks_call_count (pools s pl))) (\<lambda>n.
     seq (modify b (\<lambda>x. x\<lparr>gc_count_base := n\<rparr>))
     (seq (check_pool pl)
      (\<lambda>s. let (bs, inserted) = set_insert BlockComparatorSize (key_of s) b (blocks (pools s pl))
           in (Inr inserted, set_blocks pl bs s))))"

definition record_trace ::
  "trace_action \<Rightarrow> int \<Rightarrow> int \<Rightarrow> stream_t \<Rightarrow> int \<Rightarrow> ('d, unit) dact" where
  "record_trace action addr size0 stream device =
     (\<lambda>s. case record_entry \<lparr> action_kind = action, te_device = device, te_addr = addr,
                             te_size = size0, te_stream = stream \<rparr> (tracing s) of
            Inl e \<Rightarrow> (Inl e, s) | Inr t \<Rightarrow> (Inr (), s\<lparr>tracing := t\<rparr>))"

section \<open>Choosing a pool and a block\<close>

record alloc_params =
  p_device :: int
  p_stream :: stream_t
  p_size :: nat
  p_pool :: pool_ref
  alloc_size :: nat
  p_block :: "bid option"
  p_err :: tops_error

definition AllocParams :: "int \<Rightarrow> nat \<Rightarrow> stream_t \<Rightarrow> pool_ref \<Rightarrow> nat \<Rightarrow> alloc_params" where
  "AllocParams device size0 stream pl asize =
     \<lparr> p_device = device, p_stream = stream, p_size = size0, p_pool = pl, alloc_size = asize,
       p_block = None, p_err = topsSuccess \<rparr>"

fun find_capture :: "stream_t \<Rightarrow> (mempool_id \<times> (stream_t \<Rightarrow> bool)) list \<Rightarrow> mempool_id option" where
  "find_capture stream [] = None"
| "find_capture stream ((i, filter0) # cs) =
     (if filter0 stream then Some i else find_capture stream cs)"

definition get_pool :: "nat \<Rightarrow> stream_t \<Rightarrow> ('d, pool_ref) dact" where
  "get_pool size0 stream =
     bnd (gets captures_underway) (\<lambda>cs.
       case find_capture stream cs of
         Some i \<Rightarrow>
           seq (bnd (gets (\<lambda>s. map_of (graph_pools s) i \<noteq> None)) (require InternalAssert))
             (ret (if size0 \<le> unat kSmallSize then private_small i else private_large i))
       | None \<Rightarrow> ret (if size0 \<le> unat kSmallSize then small_blocks else large_blocks))"

definition should_split :: "'d env \<Rightarrow> block \<Rightarrow> nat \<Rightarrow> bool" where
  "should_split E x size0 =
     (let remaining = sub64 (bsize x) size0
      in if is_small (pool x) \<or> expandable_segments (cfg E) then unat kMinBlockSize \<le> remaining
         else size0 < max_split E \<and> unat kSmallSize < remaining)"

text \<open>
  The block that \<open>get_free_block\<close> finds, from the iterator that \<open>lower_bound\<close> returned. The
  first condition says that the block is too large to be split for a small request, the second
  that it exceeds a large request by too much.
\<close>

definition get_free_block :: "'d env \<Rightarrow> alloc_params \<Rightarrow> ('d, bool \<times> alloc_params) dact" where
  "get_free_block E p =
     seq (bnd (gets set_fraction) (\<lambda>f.
            whenM (f \<and> 0 < garbage_collection_threshold (cfg E))
              (upd (\<lambda>s. s\<lparr>pools := (pools s)(p_pool p := (pools s (p_pool p))
                 \<lparr>get_free_blocks_call_count := get_free_blocks_call_count (pools s (p_pool p)) + 1\<rparr>)\<rparr>))))
     (seq (check_pool (p_pool p))
      (bnd (gets (\<lambda>s. lower_bound BlockComparatorSize (key_of s) (p_stream p, p_size p, 0)
                        (blocks (pools s (p_pool p))))) (\<lambda>it.
       case it of [] \<Rightarrow> ret (False, p)
       | b # _ \<Rightarrow>
           bnd (deref b) (\<lambda>x.
             if b_stream x \<noteq> p_stream p then ret (False, p)
             else if p_size p < max_split E \<and> max_split E \<le> bsize x then ret (False, p)
             else if max_split E \<le> p_size p \<and> add64 (p_size p) (unat kLargeBuffer) \<le> bsize x
               then ret (False, p)
             else
               seq (upd (\<lambda>s. set_blocks (p_pool p) (remove1 b (blocks (pools s (p_pool p)))) s))
                 (ret (True, p\<lparr>p_block := Some b\<rparr>))))))"

text \<open>Every callback is executed; the result says whether one of them freed memory.\<close>

definition trigger_free_memory_callbacks :: "'d env \<Rightarrow> ('d, bool) dact" where
  "trigger_free_memory_callbacks E =
     (\<lambda>s. case fold (\<lambda>cb (freed_memory, s). case cb s of (b, s) \<Rightarrow> (freed_memory \<or> b, s))
                 (callbacks E) (False, s) of (b, s) \<Rightarrow> (Inr b, s))"

section \<open>Freeing and merging\<close>

definition try_merge_blocks :: "bid \<Rightarrow> bid option \<Rightarrow> pool_ref \<Rightarrow> ('d, nat) dact" where
  "try_merge_blocks dst src pl =
     (case src of None \<Rightarrow> ret 0
      | Some sb \<Rightarrow>
          bnd (deref sb) (\<lambda>x.
            if allocated x \<or> 0 < event_count x \<or> stream_uses x \<noteq> [] then ret 0
            else
              bnd (deref dst) (\<lambda>d.
              seq (require InternalAssert (is_split d \<and> is_split x))
              (seq (if prv d = Some sb then
                      seq (modify dst (\<lambda>d. d\<lparr>ptr := ptr x, prv := prv x\<rparr>))
                        (case prv x of None \<Rightarrow> ret ()
                         | Some a \<Rightarrow> modify a (\<lambda>y. y\<lparr>nxt := Some dst\<rparr>))
                    else
                      seq (modify dst (\<lambda>d. d\<lparr>nxt := nxt x\<rparr>))
                        (case nxt x of None \<Rightarrow> ret ()
                         | Some a \<Rightarrow> modify a (\<lambda>y. y\<lparr>prv := Some dst\<rparr>)))
               (seq (modify dst (\<lambda>d. d\<lparr>bsize := add64 (bsize d) (bsize x)\<rparr>))
                (bnd (pool_erase pl sb) (\<lambda>_.
                 seq (delete_block sb) (ret (bsize x)))))))))"

text \<open>The statistics at the end of \<open>free_block\<close>.\<close>

definition free_block_stats :: "int \<Rightarrow> int \<Rightarrow> nat \<Rightarrow> nat \<Rightarrow> stat_type \<Rightarrow> device_stats \<Rightarrow> device_stats" where
  "free_block_stats net_blocks net_size original_block_size requested t st =
     (let st = (if 0 < net_blocks
                then st\<lparr>inactive_split := stat_at (increase_stat net_blocks) t (inactive_split st)\<rparr>
                else if net_blocks < 0
                then st\<lparr>inactive_split := stat_at (decrease_stat (- net_blocks)) t (inactive_split st)\<rparr>
                else st);
          st = (if 0 < net_size
                then st\<lparr>inactive_split_bytes := stat_at (increase_stat net_size) t (inactive_split_bytes st)\<rparr>
                else if net_size < 0
                then st\<lparr>inactive_split_bytes := stat_at (decrease_stat (- net_size)) t (inactive_split_bytes st)\<rparr>
                else st)
      in st\<lparr>active := stat_at (decrease_stat 1) t (active st),
            active_bytes := stat_at (decrease_stat (int original_block_size)) t (active_bytes st),
            requested_bytes := stat_at (decrease_stat (int requested)) t (requested_bytes st)\<rparr>)"

definition free_block :: "bid \<Rightarrow> ('d, unit) dact" where
  "free_block b =
     bnd (deref b) (\<lambda>x.
     seq (require InternalAssert (\<not> allocated x \<and> event_count x = 0 \<and> stream_uses x = []))
     (seq (record_trace FREE_COMPLETED (int (ptr x)) (int (requested_size x)) (b_stream x) (b_device x))
      (bnd (try_merge_blocks b (prv x) (pool x)) (\<lambda>subsumed1.
       bnd (try_merge_blocks b (nxt x) (pool x)) (\<lambda>subsumed2.
       seq (upd (\<lambda>s. s\<lparr>active_blocks := remove1 b (active_blocks s)\<rparr>))
       (bnd (insert_into_blocks (pool x) b) (\<lambda>inserted.
        seq (require InternalAssert inserted)
        (bnd (deref b) (\<lambda>y.
         let net_blocks = (if 0 < subsumed1 then -1 else 0) + (if 0 < subsumed2 then -1 else 0)
                          + (if is_split y then 1 else 0);
             net_size = (if 0 < subsumed1 then - int subsumed1 else 0)
                        + (if 0 < subsumed2 then - int subsumed2 else 0)
                        + (if is_split y then int (bsize y) else 0)
         in selected (pool x) (free_block_stats net_blocks net_size (bsize x) (requested_size x)))))))))))"

section \<open>Returning segments to the device\<close>

definition release_block :: "'d env \<Rightarrow> bid \<Rightarrow> ('d, unit) dact" where
  "release_block E b =
     seq (upd_stats (\<lambda>st. st\<lparr>num_device_free := num_device_free st + 1\<rparr>))
     (bnd (deref b) (\<lambda>x.
      seq (record_trace SEGMENT_FREE (int (ptr x)) (int (bsize x)) (b_stream x) (b_device x))
      (seq (in_ctx (bnd (call (topsFree (runtime E) (ptr x))) gcu_check))
      (seq (upd (\<lambda>s. s\<lparr>total_allocated_memory := total_allocated_memory s - word_of_nat (bsize x)\<rparr>))
      (seq (case owner_PrivatePool (pool x) of None \<Rightarrow> ret ()
            | Some i \<Rightarrow>
                bnd (get_private_pool i) (\<lambda>pp.
                seq (require InternalAssert (0 < topsMalloc_count pp))
                  (set_private_pool i (\<lambda>pp. pp\<lparr>topsMalloc_count := topsMalloc_count pp - 1\<rparr>))))
      (seq (selected (pool x) (\<lambda>t st. st\<lparr>
              segment := stat_at (decrease_stat 1) t (segment st),
              reserved_bytes := stat_at (decrease_stat (int (bsize x))) t (reserved_bytes st)\<rparr>))
      (seq (whenM (max_split E \<le> bsize x)
             (upd_stats (\<lambda>st. st\<lparr>oversize_segments := decrease_stat 1 (oversize_segments st)\<rparr>)))
      (bnd (pool_erase (pool x) b) (\<lambda>_. delete_block b)))))))))"

definition release_blocks :: "'d env \<Rightarrow> pool_ref \<Rightarrow> ('d, unit) dact" where
  "release_blocks E pl =
     seq (check_pool pl)
     (bnd (gets (\<lambda>s. blocks (pools s pl)))
       (for_each (\<lambda>b. bnd (deref b) (\<lambda>x.
          whenM (prv x = None \<and> nxt x = None) (release_block E b)))))"

section \<open>Events\<close>

text \<open>\<open>EventPool::get\<close>, and what the destructor of an \<^verbatim>\<open>EventPool::Event\<close> does.\<close>

definition event_pool_get :: "'d tops \<Rightarrow> int \<Rightarrow> ('d, event_t) cact" where
  "event_pool_get T device =
     bnd (device_count T) (\<lambda>n.
     seq (require InternalAssert (0 \<le> device))
     (seq (require InternalAssert (device < n))
      (bnd (gets (\<lambda>c. event_pools c device)) (\<lambda>es.
         if es \<noteq> [] then
           seq (upd (\<lambda>c. c\<lparr>event_pools := (event_pools c)(device := butlast es)\<rparr>)) (ret (last es))
         else call_check (topsEventCreateWithFlags T topsEventDisableTiming)))))"

definition event_pool_return :: "int \<Rightarrow> event_t \<Rightarrow> ('d, unit) cact" where
  "event_pool_return device e =
     upd (\<lambda>c. c\<lparr>event_pools := (event_pools c)(device := event_pools c device @ [e])\<rparr>)"

fun push_event :: "gcu_stream \<Rightarrow> event_t option \<times> bid \<Rightarrow> (gcu_stream \<times> event_queue) list \<Rightarrow>
    (gcu_stream \<times> event_queue) list" where
  "push_event k e [] = [(k, [e])]"
| "push_event k e ((k', q) # evs) = (if k' = k then (k', q @ [e]) # evs else (k', q) # push_event k e evs)"

definition map_queue :: "gcu_stream \<Rightarrow> (event_queue \<Rightarrow> event_queue) \<Rightarrow> ('d, unit) dact" where
  "map_queue k f =
     upd (\<lambda>s. s\<lparr>gcu_events := map (\<lambda>(k', q). (k', if k' = k then f q else q)) (gcu_events s)\<rparr>)"

definition insert_event :: "'d env \<Rightarrow> bid \<Rightarrow> gcu_stream \<Rightarrow> ('d, unit) dact" where
  "insert_event E b stream =
     seq (in_ctx (bnd (SetDevice (runtime E) (gs_device stream)) gcu_check))
     (bnd (in_ctx (event_pool_get (runtime E) (gs_device stream))) (\<lambda>event.
      seq (in_ctx (try_catch
             (bnd (stream_handle stream) (\<lambda>h.
              bnd (call (topsEventRecord (runtime E) event h)) gcu_check))
             (\<lambda>e. seq (event_pool_return (gs_device stream) event) (throw e))))
      (seq (modify b (\<lambda>x. x\<lparr>event_count := event_count x + 1\<rparr>))
        (upd (\<lambda>s. s\<lparr>gcu_events := push_event stream (Some event, b) (gcu_events s)\<rparr>)))))"

definition insert_events :: "'d env \<Rightarrow> bid \<Rightarrow> ('d, unit) dact" where
  "insert_events E b =
     bnd (in_ctx (GetDevice (runtime E))) (\<lambda>(err, prev_device).
     seq (gcu_check err)
     (bnd (deref b) (\<lambda>x.
      seq (modify b (\<lambda>x. x\<lparr>stream_uses := []\<rparr>))
      (seq (bnd (deref b) (\<lambda>y. require InternalAssert (stream_uses y = [])))
      (seq (for_each (insert_event E b) (stream_uses x))
        (in_ctx (bnd (MaybeSetDevice (runtime E) prev_device) gcu_check)))))))"

definition insert_events_deferred_until_no_capture :: "'d env \<Rightarrow> ('d, unit) dact" where
  "insert_events_deferred_until_no_capture E =
     bnd (gets needs_events_deferred_until_no_capture) (\<lambda>bs.
       whenM (bs \<noteq> [])
         (seq (for_each (\<lambda>b.
                 seq (bnd (deref b) (\<lambda>x. require InternalAssert (stream_uses x \<noteq> [])))
                   (insert_events E b)) bs)
           (upd (\<lambda>s. s\<lparr>needs_events_deferred_until_no_capture := []\<rparr>))))"

text \<open>One outstanding event has completed: \<open>event_count--\<close>, and the last one frees the block.\<close>

definition event_done :: "bid \<Rightarrow> ('d, unit) dact" where
  "event_done b =
     seq (modify b (\<lambda>x. x\<lparr>event_count := event_count x - 1\<rparr>))
       (bnd (deref b) (\<lambda>x. whenM (event_count x = 0) (free_block b)))"

definition sync_event :: "'d env \<Rightarrow> gcu_stream \<Rightarrow> nat \<Rightarrow> event_t option \<times> bid \<Rightarrow> ('d, unit) dact" where
  "sync_event E k i e =
     seq (map_queue k (\<lambda>q. q[i := (None, snd e)]))
      (case fst e of None \<Rightarrow> throw UndefinedBehaviour
       | Some event \<Rightarrow>
           finallyM
             (seq (in_ctx (bnd (call (topsEventSynchronize (runtime E) event)) gcu_check))
               (event_done (snd e)))
             (in_ctx (event_pool_return (gs_device k) event)))"

definition synchronize_and_free_events :: "'d env \<Rightarrow> ('d, unit) dact" where
  "synchronize_and_free_events E =
     seq (upd_stats (\<lambda>st. st\<lparr>num_sync_all_streams := num_sync_all_streams st + 1\<rparr>))
     (seq (bnd (gets (\<lambda>s. captures_underway s = [])) (require InternalAssert))
     (seq (insert_events_deferred_until_no_capture E)
     (seq (bnd (gets gcu_events)
            (for_each (\<lambda>(k, q). for_each (\<lambda>(i, e). sync_event E k i e) (enumerate 0 q))))
       (upd (\<lambda>s. s\<lparr>gcu_events := []\<rparr>)))))"

text \<open>
  The loop over the queue of one stream, on the pairs that are still in it. It stops at the
  first event that is not ready; a queue that becomes empty is erased.
\<close>

fun process_queue :: "'d env \<Rightarrow> gcu_stream \<Rightarrow> event_queue \<Rightarrow> ('d, unit) dact" where
  "process_queue E k [] =
     upd (\<lambda>s. s\<lparr>gcu_events := filter (\<lambda>(k', q). k' \<noteq> k) (gcu_events s)\<rparr>)"
| "process_queue E k (e # es) =
     seq (map_queue k (\<lambda>q. q[0 := (None, snd e)]))
      (case fst e of None \<Rightarrow> throw UndefinedBehaviour
       | Some event \<Rightarrow>
           bnd (in_ctx (call (topsEventQuery (runtime E) event))) (\<lambda>err.
             if err = topsErrorNotReady then
               seq (in_ctx (bnd (call (topsGetLastError (runtime E))) (\<lambda>_. ret ())))
                 (map_queue k (\<lambda>q. q[0 := (Some event, snd e)]))
             else if err \<noteq> topsSuccess then
               seq (in_ctx (event_pool_return (gs_device k) event)) (gcu_check err)
             else
               seq (finallyM (seq (event_done (snd e)) (map_queue k tl))
                      (in_ctx (event_pool_return (gs_device k) event)))
                 (process_queue E k es)))"

definition process_events :: "'d env \<Rightarrow> ('d, unit) dact" where
  "process_events E =
     seq (insert_events_deferred_until_no_capture E)
      (bnd (gets gcu_events) (for_each (\<lambda>(k, q). process_queue E k q)))"

end
