(* ===== verification/DeviceOps.thy ===== *)
theory DeviceOps
  imports DeviceAlloc
begin

text \<open>
  The operations of \<^verbatim>\<open>DeviceCachingAllocator\<close> that allocate: garbage collection, new
  segments, giving cached segments back, splitting, \<open>malloc\<close> and \<open>free\<close>; then the queries
  and the graph pools.
\<close>

section \<open>Garbage collection\<close>

text \<open>\<open>Block::gc_count\<close>: the difference is truncated to \<^verbatim>\<open>int\<close> and converted to \<^verbatim>\<open>size_t\<close>.\<close>

definition gc_count :: "'d dca \<Rightarrow> block \<Rightarrow> nat" where
  "gc_count s x =
     unat (word_of_int (signed_take_bit 31
       (get_free_blocks_call_count (pools s (pool x)) - gc_count_base x)) :: 64 word)"

text \<open>
  One pass over the large blocks. The age threshold and the ages are \<^verbatim>\<open>double\<close>s in the source
  and rational numbers here. The state of the pass is \<open>gc_reclaimed\<close>, \<open>total_age\<close>,
  \<open>freeable_block_count\<close> and \<open>block_freed\<close>.
\<close>

type_synonym gc_state = "nat \<times> rat \<times> int \<times> bool"

fun gc_pass :: "'d env \<Rightarrow> rat \<Rightarrow> bid list \<Rightarrow> gc_state \<Rightarrow> ('d, gc_state) dact" where
  "gc_pass E age_threshold [] g = ret g"
| "gc_pass E age_threshold (b # bs) (reclaimed, total_age, count, freed) =
     bnd (deref b) (\<lambda>x.
     bnd (gets (\<lambda>s. gc_count s x)) (\<lambda>n.
       if \<not> is_split x \<and> age_threshold \<le> of_nat n then
         seq (release_block E b)
           (gc_pass E age_threshold bs (add64 reclaimed (bsize x), total_age - of_nat n, count - 1, True))
       else gc_pass E age_threshold bs (reclaimed, total_age, count, freed)))"

fun gc_loop :: "nat \<Rightarrow> 'd env \<Rightarrow> nat \<Rightarrow> gc_state \<Rightarrow> ('d, unit) dact" where
  "gc_loop 0 E target g = throw OutOfFuel"
| "gc_loop (Suc fuel) E target g =
     (case g of (reclaimed, total_age, count, freed) \<Rightarrow>
        if reclaimed < target \<and> freed \<and> 0 < count then
          seq (check_pool large_blocks)
          (bnd (gets (\<lambda>s. blocks (pools s large_blocks))) (\<lambda>bs.
           bnd (gc_pass E (total_age / of_int count) bs (reclaimed, total_age, count, False))
             (gc_loop fuel E target)))
        else ret ())"

text \<open>
  The product of the threshold and the allowed memory is truncated to \<^verbatim>\<open>size_t\<close>. Every pass
  but the last one releases a block, so one pass more than there are freeable blocks is enough
  fuel.
\<close>

definition garbage_collect_cached_blocks :: "'d env \<Rightarrow> ('d, unit) dact" where
  "garbage_collect_cached_blocks E =
     bnd (gets (\<lambda>s. nat \<lfloor>garbage_collection_threshold (cfg E) *
                        of_nat (unat (allowed_memory_maximum s))\<rfloor>)) (\<lambda>gc_threshold.
     bnd (gets (\<lambda>s. unat (total_allocated_memory s))) (\<lambda>total.
       if total \<le> gc_threshold then ret ()
       else
         seq (check_pool large_blocks)
         (bnd (gets (\<lambda>s. map (\<lambda>b. gc_count s (the (heap s b)))
                         (filter (\<lambda>b. \<not> is_split (the (heap s b))) (blocks (pools s large_blocks)))))
           (\<lambda>ages.
            if ages = [] then ret ()
            else gc_loop (length ages + 2) E (total - gc_threshold)
                   (0, of_nat (sum_list ages), int (length ages), True)))))"

section \<open>New segments\<close>

definition topsMallocMaybeCapturing :: "'d env \<Rightarrow> nat \<Rightarrow> ('d, tops_error \<times> addr) cact" where
  "topsMallocMaybeCapturing E size0 =
     bnd (currentStreamCaptureStatusMayInitCtx (runtime E) (use_default_stream E)) (\<lambda>status.
       if status = 0 then call (topsMalloc (runtime E) size0)
       else with_capture_mode (runtime E) topsStreamCaptureModeRelaxed
              (call (topsMalloc (runtime E) size0)))"

text \<open>The part of \<open>alloc_block\<close> after a successful \<^verbatim>\<open>topsMalloc\<close>: the segment becomes a block.\<close>

definition new_segment :: "'d env \<Rightarrow> alloc_params \<Rightarrow> addr \<Rightarrow> ('d, bool \<times> alloc_params) dact" where
  "new_segment E p a =
     seq (case owner_PrivatePool (p_pool p) of None \<Rightarrow> ret ()
          | Some i \<Rightarrow>
              bnd (get_private_pool i) (\<lambda>_.
                set_private_pool i (\<lambda>pp. pp\<lparr>topsMalloc_count := topsMalloc_count pp + 1\<rparr>)))
     (seq (upd (\<lambda>s. s\<lparr>total_allocated_memory :=
             total_allocated_memory s + word_of_nat (alloc_size p)\<rparr>))
     (bnd (new_block (Block (p_device p) (p_stream p) (alloc_size p) (p_pool p) a)) (\<lambda>b.
      seq (selected (p_pool p) (\<lambda>t st. st\<lparr>
             segment := stat_at (increase_stat 1) t (segment st),
             reserved_bytes := stat_at (increase_stat (int (alloc_size p))) t (reserved_bytes st)\<rparr>))
      (seq (whenM (max_split E \<le> alloc_size p)
             (upd_stats (\<lambda>st. st\<lparr>oversize_segments := increase_stat 1 (oversize_segments st)\<rparr>)))
      (seq (require InternalAssert (a \<noteq> 0))
      (seq (upd_stats (\<lambda>st. st\<lparr>num_device_alloc := num_device_alloc st + 1\<rparr>))
      (seq (record_trace SEGMENT_ALLOC (int a) (int (alloc_size p)) (p_stream p) (p_device p))
        (ret (True, p\<lparr>p_err := topsSuccess, p_block := Some b\<rparr>)))))))))"

text \<open>
  \<open>alloc_block\<close> releases the lock around \<^verbatim>\<open>topsMalloc\<close> when configured so; other threads may
  then act before and after the call.
\<close>

definition alloc_block :: "'d env \<Rightarrow> alloc_params \<Rightarrow> bool \<Rightarrow> ('d, bool \<times> alloc_params) dact" where
  "alloc_block E p isRetry =
     seq (in_ctx (bnd (call (topsGetLastError (runtime E))) gcu_check))
     (seq (whenM isRetry (upd_stats (\<lambda>st. st\<lparr>num_alloc_retries := num_alloc_retries st + 1\<rparr>)))
      (bnd (gets (\<lambda>s. set_fraction s \<and>
               allowed_memory_maximum s < total_allocated_memory s + word_of_nat (alloc_size p)))
        (\<lambda>exceeded.
         if exceeded then ret (False, p\<lparr>p_err := topsErrorMemoryAllocation\<rparr>)
         else
           seq (whenM (release_lock_on_topsmalloc (cfg E)) (upd (other_threads E)))
           (bnd (in_ctx (topsMallocMaybeCapturing E (alloc_size p))) (\<lambda>(err, a).
            seq (whenM (release_lock_on_topsmalloc (cfg E)) (upd (other_threads E)))
             (if err \<noteq> topsSuccess then
                (if err = topsErrorMemoryAllocation then
                   seq (in_ctx (bnd (call (topsGetLastError (runtime E))) (\<lambda>_. ret ())))
                     (ret (False, p\<lparr>p_err := err\<rparr>))
                 else seq (gcu_check err) (ret (False, p\<lparr>p_err := err\<rparr>)))
              else new_segment E p a))))))"

section \<open>Giving cached segments back\<close>

text \<open>
  The blocks before the iterator, largest first; the loop releases oversize blocks of the
  stream until enough is released.
\<close>

fun release_oversize :: "'d env \<Rightarrow> alloc_params \<Rightarrow> nat \<Rightarrow> nat \<Rightarrow> bid list \<Rightarrow> ('d, nat) dact" where
  "release_oversize E p key_size totalReleased [] = ret totalReleased"
| "release_oversize E p key_size totalReleased (b # bs) =
     bnd (deref b) (\<lambda>x.
       if totalReleased < key_size \<and> max_split E \<le> bsize x \<and> b_stream x = p_stream p then
         seq (release_block E b)
           (release_oversize E p key_size (add64 totalReleased (bsize x)) bs)
       else ret totalReleased)"

definition release_available_cached_blocks :: "'d env \<Rightarrow> alloc_params \<Rightarrow> ('d, bool) dact" where
  "release_available_cached_blocks E p =
     (if max_split_size (cfg E) = -1 then ret False
      else
        (let key_size = (if p_size p < max_split E then max_split E else p_size p)
         in seq (check_pool (p_pool p))
           (bnd (gets (\<lambda>s. let bs = blocks (pools s (p_pool p));
                               it = lower_bound BlockComparatorSize (key_of s) (p_stream p, key_size, 0) bs
                           in (rev (take (length bs - length it) bs), it))) (\<lambda>(preceding, it).
            bnd (case it of [] \<Rightarrow> ret None
                 | b # _ \<Rightarrow> bnd (deref b) (\<lambda>x. ret (if b_stream x = p_stream p then Some b else None)))
             (\<lambda>found.
              case found of
                None \<Rightarrow>
                  if preceding = [] then ret False
                  else bnd (release_oversize E p key_size 0 preceding) (\<lambda>totalReleased.
                         ret (key_size \<le> totalReleased))
              | Some b \<Rightarrow> seq (release_block E b) (ret True))))))"

definition release_private_pool :: "'d env \<Rightarrow> mempool_id \<Rightarrow> ('d, unit) dact" where
  "release_private_pool E i =
     bnd (get_private_pool i) (\<lambda>pp.
     seq (require InternalAssert (use_count pp = 0))
     (seq (release_blocks E (private_small i))
     (seq (release_blocks E (private_large i))
     (bnd (get_private_pool i) (\<lambda>pp.
      whenM (topsMalloc_count pp = 0)
       (seq (upd (\<lambda>s. s\<lparr>graph_pools := filter (\<lambda>(j, _). j \<noteq> i) (graph_pools s)\<rparr>))
         (upd (\<lambda>s. s\<lparr>graph_pools_freeable := remove1 i (graph_pools_freeable s)\<rparr>)))))))) "

definition release_cached_blocks :: "'d env \<Rightarrow> ('d, bool) dact" where
  "release_cached_blocks E =
     seq (synchronize_and_free_events E)
     (seq (release_blocks E large_blocks)
     (seq (release_blocks E small_blocks)
     (seq (bnd (gets graph_pools_freeable) (for_each (release_private_pool E)))
       (ret True))))"

section \<open>Allocation\<close>

text \<open>\<open>alloc_found_block\<close> hands out the block of \<open>p\<close>, with its remainder split off if asked.\<close>

definition alloc_stats :: "block \<Rightarrow> stat_type \<Rightarrow> device_stats \<Rightarrow> device_stats" where
  "alloc_stats x t st = st\<lparr>
     allocation := stat_at (increase_stat 1) t (allocation st),
     allocated_bytes := stat_at (increase_stat (int (bsize x))) t (allocated_bytes st),
     active := stat_at (increase_stat 1) t (active st),
     active_bytes := stat_at (increase_stat (int (bsize x))) t (active_bytes st),
     requested_bytes := stat_at (increase_stat (int (requested_size x))) t (requested_bytes st)\<rparr>"

definition split_block :: "alloc_params \<Rightarrow> bid \<Rightarrow> ('d, bid) dact" where
  "split_block p remaining =
     bnd (deref remaining) (\<lambda>r.
     bnd (new_block (Block (p_device p) (p_stream p) (p_size p) (p_pool p) (ptr r))) (\<lambda>b.
     seq (modify b (\<lambda>x. x\<lparr>prv := prv r\<rparr>))
     (seq (case prv r of None \<Rightarrow> ret () | Some a \<Rightarrow> modify a (\<lambda>y. y\<lparr>nxt := Some b\<rparr>))
     (seq (modify b (\<lambda>x. x\<lparr>nxt := Some remaining\<rparr>))
     (seq (modify remaining (\<lambda>y. y\<lparr>prv := Some b, ptr := add64 (ptr y) (p_size p),
                                   bsize := sub64 (bsize y) (p_size p)\<rparr>))
     (bnd (insert_into_blocks (p_pool p) remaining) (\<lambda>_.
     (if is_split r then
        seq (bnd (deref b) (\<lambda>x. upd_stats (\<lambda>st. st\<lparr>inactive_split_bytes :=
               decrease_stat_array (int (bsize x)) (get_stat_types_for_pool (p_pool p))
                 (inactive_split_bytes st)\<rparr>))) (ret b)
      else
        seq (bnd (deref remaining) (\<lambda>y. selected (p_pool p) (\<lambda>t st. st\<lparr>
               inactive_split_bytes := stat_at (increase_stat (int (bsize y))) t (inactive_split_bytes st),
               inactive_split := stat_at (increase_stat 1) t (inactive_split st)\<rparr>))) (ret b)))))))))"

definition alloc_found_block ::
  "'d env \<Rightarrow> alloc_params \<Rightarrow> nat \<Rightarrow> bool \<Rightarrow> ('d, bid) dact" where
  "alloc_found_block E p orig_size split_remainder =
     (case p_block p of None \<Rightarrow> throw InternalAssert
      | Some found \<Rightarrow>
          bnd (deref found) (\<lambda>x.
          seq (require InternalAssert (p_err p = topsSuccess \<and> ptr x \<noteq> 0))
          (bnd (if split_remainder then split_block p found
                else
                  seq (whenM (is_split x) (selected (p_pool p) (\<lambda>t st. st\<lparr>
                         inactive_split_bytes := stat_at (decrease_stat (int (bsize x))) t (inactive_split_bytes st),
                         inactive_split := stat_at (decrease_stat 1) t (inactive_split st)\<rparr>)))
                    (ret found)) (\<lambda>b.
           seq (modify b (\<lambda>y. y\<lparr>allocated := True, requested_size := orig_size\<rparr>))
           (bnd (deref b) (\<lambda>y.
            seq (record_trace ALLOC (int (ptr y)) (int orig_size) (b_stream y) (b_device y))
            (seq (upd (\<lambda>s. s\<lparr>active_blocks := List.insert b (active_blocks s)\<rparr>))
            (seq (selected (p_pool p) (alloc_stats y))
            (seq (whenM (max_split E \<le> bsize y)
                   (upd_stats (\<lambda>st. st\<lparr>oversize_allocations := increase_stat 1 (oversize_allocations st)\<rparr>)))
              (ret b))))))))))"

text \<open>The out-of-memory branch of \<open>malloc\<close>; it always throws.\<close>

text \<open>Calling an empty function throws.\<close>

fun notify_observers :: "oom_event \<Rightarrow> oom_observer list \<Rightarrow> (exc + unit) \<times> oom_observer list" where
  "notify_observers e [] = (Inr (), [])"
| "notify_observers e (None # obs) = (Inl (StdException ''bad_function_call''), None # obs)"
| "notify_observers e (Some seen # obs) =
     (case notify_observers e obs of (r, obs') \<Rightarrow> (r, Some (seen @ [e]) # obs'))"

definition call_observers :: "oom_event \<Rightarrow> ('d, unit) dact" where
  "call_observers e = (\<lambda>s. case notify_observers e (oom_observers s) of
     (r, obs) \<Rightarrow> (r, s\<lparr>oom_observers := obs\<rparr>))"

definition report_oom :: "'d env \<Rightarrow> alloc_params \<Rightarrow> ('d, 'a) dact" where
  "report_oom E p =
     seq (require InternalAssert (p_err p = topsErrorMemoryAllocation))
     (bnd (in_ctx (call_check (topsMemGetInfo (runtime E)))) (\<lambda>(device_free, device_total).
      seq (record_trace OOM (int device_free) (int (p_size p)) (p_stream p) (p_device p))
      (seq (upd_stats (\<lambda>st. st\<lparr>num_ooms := num_ooms st + 1\<rparr>))
      (seq (bnd (gets (\<lambda>s. if set_fraction s then uint (allowed_memory_maximum s) else int device_total))
             (\<lambda>allowed. call_observers (p_device p, int (alloc_size p), allowed, int device_free)))
        (throw OutOfMemoryError)))))"

definition or_else :: "('d, bool \<times> 'p) dact \<Rightarrow> ('p \<Rightarrow> ('d, bool \<times> 'p) dact) \<Rightarrow> ('d, bool \<times> 'p) dact" where
  "or_else m n = bnd m (\<lambda>(ok, p). if ok then ret (True, p) else n p)"

definition find_block :: "'d env \<Rightarrow> alloc_params \<Rightarrow> ('d, bool \<times> alloc_params) dact" where
  "find_block E p =
     or_else (get_free_block E p) (\<lambda>p.
       bnd (trigger_free_memory_callbacks E) (\<lambda>freed.
         if freed then get_free_block E p else ret (False, p)))"

definition obtain_block :: "'d env \<Rightarrow> alloc_params \<Rightarrow> ('d, bool \<times> alloc_params) dact" where
  "obtain_block E p =
     or_else (find_block E p) (\<lambda>p.
     seq (bnd (gets set_fraction) (\<lambda>f.
            whenM (f \<and> 0 < garbage_collection_threshold (cfg E)) (garbage_collect_cached_blocks E)))
     (or_else (alloc_block E p False) (\<lambda>p.
      or_else (bnd (release_available_cached_blocks E p) (\<lambda>released.
                 if released then alloc_block E p False else ret (False, p))) (\<lambda>p.
      bnd (gets (\<lambda>s. captures_underway s = [])) (\<lambda>idle.
        if idle then seq (release_cached_blocks E) (alloc_block E p True)
        else ret (False, p))))))"

definition malloc :: "'d env \<Rightarrow> int \<Rightarrow> 64 word \<Rightarrow> stream_t \<Rightarrow> ('d, bid) dact" where
  "malloc E device orig_size stream =
     seq (bnd (gets (\<lambda>s. captures_underway s = [])) (\<lambda>idle. whenM idle (process_events E)))
     (bnd (lift_exc (round_size (llvm E) (cfg E) orig_size)) (\<lambda>rounded.
      let size0 = unat rounded in
      bnd (get_pool size0 stream) (\<lambda>pl.
      bnd (obtain_block E (AllocParams device size0 stream pl (unat (get_allocation_size rounded))))
       (\<lambda>(block_found, p).
        if \<not> block_found then report_oom E p
        else
          (case p_block p of None \<Rightarrow> throw UndefinedBehaviour
           | Some b \<Rightarrow>
               bnd (deref b) (\<lambda>x.
                 alloc_found_block E p (unat orig_size) (should_split E x size0)))))))"

definition free :: "'d env \<Rightarrow> bid \<Rightarrow> ('d, unit) dact" where
  "free E b =
     seq (modify b (\<lambda>x. x\<lparr>allocated := False\<rparr>))
     (bnd (deref b) (\<lambda>x.
      seq (selected (pool x) (\<lambda>t st. st\<lparr>
             allocation := stat_at (decrease_stat 1) t (allocation st),
             allocated_bytes := stat_at (decrease_stat (int (bsize x))) t (allocated_bytes st)\<rparr>))
      (seq (record_trace FREE_REQUESTED (int (ptr x)) (int (requested_size x)) (b_stream x) (b_device x))
      (seq (whenM (max_split E \<le> bsize x)
             (upd_stats (\<lambda>st. st\<lparr>oversize_allocations := decrease_stat 1 (oversize_allocations st)\<rparr>)))
       (if stream_uses x \<noteq> [] then
          bnd (gets captures_underway) (\<lambda>cs.
            if cs \<noteq> [] then
              upd (\<lambda>s. s\<lparr>needs_events_deferred_until_no_capture :=
                     needs_events_deferred_until_no_capture s @ [b]\<rparr>)
            else insert_events E b)
        else free_block b)))))"

section \<open>Queries\<close>

text \<open>
  The walks along the links, with fuel: the number of blocks ever created bounds the length
  of a chain.
\<close>

fun walk_prev :: "nat \<Rightarrow> bid \<Rightarrow> ('d, bid) dact" where
  "walk_prev 0 b = throw OutOfFuel"
| "walk_prev (Suc fuel) b =
     bnd (deref b) (\<lambda>x. case prv x of None \<Rightarrow> ret b | Some a \<Rightarrow> walk_prev fuel a)"

fun walk_sizes :: "nat \<Rightarrow> bid option \<Rightarrow> nat \<Rightarrow> ('d, nat) dact" where
  "walk_sizes 0 b size0 = throw OutOfFuel"
| "walk_sizes (Suc fuel) b size0 =
     (case b of None \<Rightarrow> ret size0
      | Some b \<Rightarrow> bnd (deref b) (\<lambda>x. walk_sizes fuel (nxt x) (add64 size0 (bsize x))))"

definition getBaseAllocation :: "bid \<Rightarrow> ('d, addr \<times> nat) dact" where
  "getBaseAllocation b =
     bnd (gets next_bid) (\<lambda>n.
     bnd (walk_prev (n + 1) b) (\<lambda>h.
     bnd (deref h) (\<lambda>x.
     bnd (walk_sizes (n + 2) (Some h) 0) (\<lambda>size0. ret (ptr x, size0)))))"

text \<open>
  \<open>shareIpcHandle\<close>: the offset of the block in its segment, and the version byte, the type
  byte and the driver's handle of the segment.
\<close>

definition SHAREABLE_HANDLE_VERSION :: char where "SHAREABLE_HANDLE_VERSION = char_of (1::nat)"
definition SHAREABLE_GCU_MALLOC :: char where "SHAREABLE_GCU_MALLOC = CHR ''c''"

definition shareIpcHandle :: "'d env \<Rightarrow> bid \<Rightarrow> ('d, int \<times> string) dact" where
  "shareIpcHandle E b =
     bnd (gets next_bid) (\<lambda>n.
     bnd (walk_prev (n + 1) b) (\<lambda>h.
     bnd (deref b) (\<lambda>x.
     bnd (deref h) (\<lambda>y.
     bnd (in_ctx (call_check (topsIpcGetMemHandle (runtime E) (ptr y)))) (\<lambda>handle.
       ret (int (ptr x) - int (ptr y),
            SHAREABLE_HANDLE_VERSION # SHAREABLE_GCU_MALLOC # handle))))))"

definition recordStream :: "bid \<Rightarrow> gcu_stream \<Rightarrow> ('d, unit) dact" where
  "recordStream b stream =
     bnd (in_ctx (stream_handle stream)) (\<lambda>h.
     bnd (deref b) (\<lambda>x.
       if h = b_stream x then ret ()
       else modify b (\<lambda>x. x\<lparr>stream_uses := List.insert stream (stream_uses x)\<rparr>)))"

definition setMemoryFraction :: "'d env \<Rightarrow> rat \<Rightarrow> ('d, unit) dact" where
  "setMemoryFraction E fraction =
     bnd (in_ctx (call_check (topsMemGetInfo (runtime E)))) (\<lambda>(device_free, device_total).
       upd (\<lambda>s. s\<lparr>allowed_memory_maximum := word_of_int \<lfloor>fraction * of_nat device_total\<rfloor>,
                  set_fraction := True\<rparr>))"

definition emptyCache :: "'d env \<Rightarrow> ('d, unit) dact" where
  "emptyCache E = bnd (release_cached_blocks E) (\<lambda>_. ret ())"

definition cache_info_aux :: "pool_ref \<Rightarrow> nat \<Rightarrow> ('d, nat) dact" where
  "cache_info_aux pl largest =
     seq (check_pool pl)
      (gets (\<lambda>s. fold (\<lambda>b l. if l < bsize (the (heap s b)) then bsize (the (heap s b)) else l)
                   (blocks (pools s pl)) largest))"

fun cache_info_pools :: "pool_ref list \<Rightarrow> nat \<Rightarrow> ('d, nat) dact" where
  "cache_info_pools [] largest = ret largest"
| "cache_info_pools (pl # pls) largest = bnd (cache_info_aux pl largest) (cache_info_pools pls)"

definition cacheInfo :: "'d env \<Rightarrow> nat \<Rightarrow> ('d, nat) dact" where
  "cacheInfo E largest =
     bnd (if largest = 0 then
            bnd (in_ctx (call_check (topsMemGetInfo (runtime E)))) (\<lambda>(device_free, _). ret device_free)
          else ret largest) (\<lambda>largest.
     bnd (gets (\<lambda>s. [large_blocks, small_blocks] @
                concat (map (\<lambda>(i, _). [private_large i, private_small i]) (graph_pools s)))) (\<lambda>pls.
       cache_info_pools pls largest))"

definition getStats :: "('d, device_stats) dact" where
  "getStats = gets stats"

definition resetAccumulatedStats :: "('d, unit) dact" where
  "resetAccumulatedStats = upd_stats resetAccumulatedStats_stats"

definition resetPeakStats :: "('d, unit) dact" where
  "resetPeakStats = upd_stats resetPeakStats_stats"

definition recordHistory :: "bool \<Rightarrow> bool \<Rightarrow> bool \<Rightarrow> nat \<Rightarrow> ('d, unit) dact" where
  "recordHistory never has_recorder enabled max_entries =
     (\<lambda>s. case recordHistory_trace never has_recorder enabled max_entries (tracing s) of
            Inl e \<Rightarrow> (Inl e, s) | Inr t \<Rightarrow> (Inr (), s\<lparr>tracing := t\<rparr>))"

definition attachOutOfMemoryObserver :: "oom_observer \<Rightarrow> ('d, unit) dact" where
  "attachOutOfMemoryObserver observer =
     upd (\<lambda>s. s\<lparr>oom_observers := oom_observers s @ [observer]\<rparr>)"

definition attachAllocatorTraceTracker :: "('d, unit) dact" where
  "attachAllocatorTraceTracker =
     upd (\<lambda>s. s\<lparr>tracing := (tracing s)\<lparr>trace_trackers := trace_trackers (tracing s) @ [[]]\<rparr>\<rparr>)"

section \<open>Graph pools\<close>

definition beginAllocateToPool :: "mempool_id \<Rightarrow> (stream_t \<Rightarrow> bool) \<Rightarrow> ('d, unit) dact" where
  "beginAllocateToPool i filter0 =
     bnd (gets (\<lambda>s. map_of (graph_pools s) i)) (\<lambda>found.
     seq (case found of
            None \<Rightarrow>
              upd (\<lambda>s. s\<lparr>graph_pools := graph_pools s @ [(i, PrivatePool)],
                         pools := (pools s)(private_large i := BlockPool, private_small i := BlockPool)\<rparr>)
          | Some pp \<Rightarrow>
              seq (require InternalAssert (0 < use_count pp))
                (set_private_pool i (\<lambda>pp. pp\<lparr>use_count := use_count pp + 1\<rparr>)))
     (seq (bnd (gets captures_underway) (\<lambda>cs.
            require (TorchCheck ''beginAllocateToPool: already recording to mempool_id'')
              (i \<notin> fst ` set cs)))
       (upd (\<lambda>s. s\<lparr>captures_underway := captures_underway s @ [(i, filter0)]\<rparr>))))"

fun remove_capture :: "mempool_id \<Rightarrow> (mempool_id \<times> 'f) list \<Rightarrow> (mempool_id \<times> 'f) list option" where
  "remove_capture i [] = None"
| "remove_capture i ((j, f) # cs) =
     (if j = i then Some cs else map_option (\<lambda>cs'. (j, f) # cs') (remove_capture i cs))"

definition endAllocateToPool :: "mempool_id \<Rightarrow> ('d, unit) dact" where
  "endAllocateToPool i =
     bnd (gets (\<lambda>s. remove_capture i (captures_underway s))) (\<lambda>r.
       case r of
         None \<Rightarrow> throw (TorchCheck ''endAllocatePool: not currently recording to mempool_id'')
       | Some cs \<Rightarrow> upd (\<lambda>s. s\<lparr>captures_underway := cs\<rparr>))"

definition releasePool :: "mempool_id \<Rightarrow> ('d, unit) dact" where
  "releasePool i =
     bnd (gets (\<lambda>s. map_of (graph_pools s) i)) (\<lambda>found.
       case found of None \<Rightarrow> throw InternalAssert
       | Some pp \<Rightarrow>
           seq (set_private_pool i (\<lambda>pp. pp\<lparr>use_count := use_count pp - 1\<rparr>))
           (seq (require InternalAssert (0 \<le> use_count pp - 1))
            (whenM (use_count pp - 1 = 0)
              (bnd (gets graph_pools_freeable) (\<lambda>fs.
               seq (require InternalAssert (i \<notin> set fs))
                 (upd (\<lambda>s. s\<lparr>graph_pools_freeable := graph_pools_freeable s @ [i]\<rparr>)))))))"

definition addPeerAccess :: "int \<Rightarrow> ('d, unit) dact" where
  "addPeerAccess dev =
     bnd (gets devices_with_peer_access) (\<lambda>ds.
       if dev \<in> set ds then ret ()
       else upd (\<lambda>s. s\<lparr>devices_with_peer_access := devices_with_peer_access s @ [dev]\<rparr>))"

definition checkPoolLiveAllocations :: "mempool_id \<Rightarrow> addr list \<Rightarrow> ('d, bool) dact" where
  "checkPoolLiveAllocations i expected =
     bnd (gets (\<lambda>s. map_of (graph_pools s) i \<noteq> None)) (\<lambda>ex.
     seq (require (TorchCheck ''Could not find pool of id'') ex)
     (bnd (gets (\<lambda>s. list_all (\<lambda>b. heap s b \<noteq> None) (active_blocks s))) (\<lambda>ok.
     seq (require UndefinedBehaviour ok)
      (gets (\<lambda>s. let bs = filter (\<lambda>b. allocated (the (heap s b)) \<and>
                              owner_PrivatePool (pool (the (heap s b))) = Some i) (active_blocks s)
                 in list_all (\<lambda>b. ptr (the (heap s b)) \<in> set expected) bs \<and>
                    length bs = card (set expected))))))"

end
