(* ===== verification/NativeAlloc.thy ===== *)
theory NativeAlloc
  imports DeviceOps
begin

text \<open>
  \<^verbatim>\<open>NativeCachingAllocator\<close> of \<^verbatim>\<open>gcu_caching_allocator.cpp\<close>: the front end over one
  \<open>DeviceCachingAllocator\<close> per device. It finds the block of a pointer in a sharded hash map,
  checks its arguments, and hands the call to the allocator of the device. All allocators work on
  one process context, which is the front end's \<open>nctx\<close> while none of them runs.
\<close>

section \<open>The state\<close>

text \<open>A \<^verbatim>\<open>Block*\<close> across devices: the allocator whose heap it is in, and its number there.\<close>

type_synonym block_ptr = "nat \<times> bid"

text \<open>
  An entry of \<^verbatim>\<open>ipcMemHandle_to_devptr\<close>: the device, the mapped pointer, and the number of
  shared pointers to it (the weak pointer is valid while there is one).
\<close>

record ipc_entry =
  ie_device :: int
  gcu_ipc_ptr :: addr
  ie_refs :: nat

record 'd native =
  device_allocator :: "'d dca list"
  allocated_blocks :: "nat \<Rightarrow> addr \<Rightarrow> block_ptr option"
  ipcMemHandle_to_devptr :: "string \<Rightarrow> ipc_entry option"
  nctx :: "'d ctx"

type_synonym ('d, 'a) nact = "('d native, 'a) act"

text \<open>
  What the front end depends on besides the environment of the allocators: the hash function of
  the shards, whether \<^verbatim>\<open>PYTORCH_NO_GCU_MEMORY_CACHING\<close> is set, the length of a driver's IPC
  handle, and the calls of the runtime that only it makes.
\<close>

record 'd native_env =
  alloc_env :: "'d env"
  twang_mix64 :: "addr \<Rightarrow> nat"
  force_uncached :: bool
  TOPS_IPC_HANDLE_SIZE :: nat
  topsDeviceEnablePeerAccess :: "int \<Rightarrow> 'd \<Rightarrow> tops_error \<times> 'd"
  topsDeviceCanAccessPeer :: "int \<Rightarrow> int \<Rightarrow> 'd \<Rightarrow> (tops_error \<times> int) \<times> 'd"
  topsMemcpyDtoDAsync :: "addr \<Rightarrow> addr \<Rightarrow> nat \<Rightarrow> stream_t \<Rightarrow> 'd \<Rightarrow> tops_error \<times> 'd"
  topsMemcpyPeerAsync ::
    "addr \<Rightarrow> int \<Rightarrow> addr \<Rightarrow> int \<Rightarrow> nat \<Rightarrow> stream_t \<Rightarrow> 'd \<Rightarrow> tops_error \<times> 'd"

abbreviation rt :: "'d native_env \<Rightarrow> 'd tops" where
  "rt N \<equiv> runtime (alloc_env N)"

definition in_nctx :: "('d, 'a) cact \<Rightarrow> ('d, 'a) nact" where
  "in_nctx m = (\<lambda>s. case m (nctx s) of (r, c) \<Rightarrow> (r, s\<lparr>nctx := c\<rparr>))"

text \<open>
  A call of one device's allocator, in the current process context. An index outside the vector
  is undefined behaviour.
\<close>

definition on_device :: "int \<Rightarrow> ('d, 'a) dact \<Rightarrow> ('d, 'a) nact" where
  "on_device d m =
     (\<lambda>s. if 0 \<le> d \<and> nat d < length (device_allocator s)
          then (case m ((device_allocator s ! nat d)\<lparr>ctx := nctx s\<rparr>) of (r, a) \<Rightarrow>
                  (r, s\<lparr>device_allocator := (device_allocator s)[nat d := a], nctx := ctx a\<rparr>))
          else (Inl UndefinedBehaviour, s))"

section \<open>The map from pointers to blocks\<close>

definition kNumMutexShard :: nat where "kNumMutexShard = 67"

definition get_mutex_shard_id :: "'d native_env \<Rightarrow> addr \<Rightarrow> nat" where
  "get_mutex_shard_id N p = twang_mix64 N p mod kNumMutexShard"

definition add_allocated_block :: "'d native_env \<Rightarrow> addr \<Rightarrow> block_ptr \<Rightarrow> ('d, unit) nact" where
  "add_allocated_block N p b =
     upd (\<lambda>s. s\<lparr>allocated_blocks := (allocated_blocks s)(get_mutex_shard_id N p :=
       (allocated_blocks s (get_mutex_shard_id N p))(p \<mapsto> b))\<rparr>)"

definition get_allocated_block :: "'d native_env \<Rightarrow> addr \<Rightarrow> bool \<Rightarrow> ('d, block_ptr option) nact" where
  "get_allocated_block N p remove =
     bnd (gets (\<lambda>s. allocated_blocks s (get_mutex_shard_id N p) p)) (\<lambda>it.
     seq (whenM (it \<noteq> None \<and> remove)
           (upd (\<lambda>s. s\<lparr>allocated_blocks := (allocated_blocks s)(get_mutex_shard_id N p :=
              (allocated_blocks s (get_mutex_shard_id N p))(p := None))\<rparr>)))
       (ret it))"

section \<open>Devices\<close>

definition native_init :: "'d native_env \<Rightarrow> int \<Rightarrow> ('d, unit) nact" where
  "native_init N device_count0 =
     upd (\<lambda>s. if int (length (device_allocator s)) < device_count0
              then s\<lparr>device_allocator := device_allocator s @
                replicate (nat device_count0 - length (device_allocator s))
                  (DeviceCachingAllocator (cfg (alloc_env N)) (nctx s))\<rparr>
              else s)"

definition initialized :: "('d, bool) nact" where
  "initialized = gets (\<lambda>s. device_allocator s \<noteq> [])"

definition device_in_range :: "int \<Rightarrow> 'd native \<Rightarrow> bool" where
  "device_in_range d s \<longleftrightarrow> 0 \<le> d \<and> nat d < length (device_allocator s)"

definition assertValidDevice :: "int \<Rightarrow> ('d, unit) nact" where
  "assertValidDevice d =
     bnd (gets (device_in_range d))
       (require (TorchCheck ''Invalid device argument: did you call init?''))"

text \<open>The calls below assert the index with an internal assertion instead.\<close>

definition internal_assert_device :: "int \<Rightarrow> ('d, unit) nact" where
  "internal_assert_device d = bnd (gets (device_in_range d)) (require InternalAssert)"

section \<open>Allocation and release\<close>

text \<open>
  \<open>native_malloc\<close> returns the pointer. The log file that \<^verbatim>\<open>TORCH_GCU_ALLOC_LOG_TO_FILE\<close> asks
  for is left out.
\<close>

definition native_malloc :: "'d native_env \<Rightarrow> int \<Rightarrow> 64 word \<Rightarrow> stream_t \<Rightarrow> ('d, addr) nact" where
  "native_malloc N device size0 stream =
     seq (internal_assert_device device)
     (bnd (on_device device (bnd (malloc (alloc_env N) device size0 stream)
             (\<lambda>b. bnd (deref b) (\<lambda>x. ret (b, ptr x))))) (\<lambda>(b, p).
      seq (add_allocated_block N p (nat device, b)) (ret p)))"

text \<open>A method of the allocator of a block's device; the block's record says which one.\<close>

definition on_block_device :: "block_ptr \<Rightarrow> (bid \<Rightarrow> ('d, 'a) dact) \<Rightarrow> ('d, 'a) nact" where
  "on_block_device bp m =
     bnd (on_device (int (fst bp)) (deref (snd bp))) (\<lambda>x. on_device (b_device x) (m (snd bp)))"

definition native_free :: "'d native_env \<Rightarrow> addr \<Rightarrow> ('d, unit) nact" where
  "native_free N p =
     (if p = 0 then ret ()
      else
        bnd (get_allocated_block N p True) (\<lambda>b.
          case b of None \<Rightarrow> throw (TorchCheck ''invalid device pointer'')
          | Some bp \<Rightarrow> on_block_device bp (free (alloc_env N))))"

definition local_raw_delete :: "'d native_env \<Rightarrow> addr \<Rightarrow> ('d, unit) nact" where
  "local_raw_delete N p = native_free N p"

definition uncached_delete :: "'d native_env \<Rightarrow> addr \<Rightarrow> ('d, unit) nact" where
  "uncached_delete N p = in_nctx (bnd (call (topsFree (rt N) p)) gcu_check)"

datatype deleter = local_raw_delete_fn | uncached_delete_fn

definition run_deleter :: "'d native_env \<Rightarrow> deleter \<Rightarrow> addr \<Rightarrow> ('d, unit) nact" where
  "run_deleter N f p =
     (case f of local_raw_delete_fn \<Rightarrow> local_raw_delete N p | uncached_delete_fn \<Rightarrow> uncached_delete N p)"

definition raw_deleter :: "'d native_env \<Rightarrow> deleter" where
  "raw_deleter N = (if force_uncached N then uncached_delete_fn else local_raw_delete_fn)"

text \<open>What \<^verbatim>\<open>allocate\<close> returns: the data pointer with its deleter and its device.\<close>

record data_ptr =
  dp_data :: addr
  dp_deleter :: deleter
  dp_device :: int

definition one_exa_bytes :: nat where "one_exa_bytes = 1152921504606846976"

definition current_device_checked :: "'d native_env \<Rightarrow> ('d, int) nact" where
  "current_device_checked N =
     in_nctx (bnd (GetDevice (rt N)) (\<lambda>(err, device). seq (gcu_check err) (ret device)))"

definition current_stream_handle :: "'d native_env \<Rightarrow> int \<Rightarrow> ('d, stream_t) nact" where
  "current_stream_handle N device =
     in_nctx (bnd (getCurrentGCUStream (rt N) (use_default_stream (alloc_env N)) device) stream_handle)"

definition allocate :: "'d native_env \<Rightarrow> 64 word \<Rightarrow> ('d, data_ptr) nact" where
  "allocate N size0 =
     seq (require OutOfMemoryError (unat size0 < one_exa_bytes))
     (bnd (current_device_checked N) (\<lambda>device.
      bnd (in_nctx (getCurrentGCUStream (rt N) (use_default_stream (alloc_env N)) device)) (\<lambda>stream.
      if force_uncached N then
        bnd (in_nctx (call_check (topsMalloc (rt N) (unat size0)))) (\<lambda>p.
          ret \<lparr>dp_data = p, dp_deleter = uncached_delete_fn, dp_device = device\<rparr>)
      else
        bnd (if size0 \<noteq> 0
             then bnd (in_nctx (stream_handle stream)) (native_malloc N device size0)
             else ret 0) (\<lambda>p.
          ret \<lparr>dp_data = p, dp_deleter = local_raw_delete_fn, dp_device = device\<rparr>))))"

definition raw_alloc :: "'d native_env \<Rightarrow> 64 word \<Rightarrow> ('d, addr) nact" where
  "raw_alloc N nbytes =
     (if nbytes = 0 then ret 0
      else bnd (current_device_checked N) (\<lambda>device.
           bnd (current_stream_handle N device) (native_malloc N device nbytes)))"

definition raw_alloc_with_stream :: "'d native_env \<Rightarrow> 64 word \<Rightarrow> stream_t \<Rightarrow> ('d, addr) nact" where
  "raw_alloc_with_stream N nbytes stream =
     (if nbytes = 0 then ret 0
      else bnd (current_device_checked N) (\<lambda>device. native_malloc N device nbytes stream))"

definition raw_delete :: "'d native_env \<Rightarrow> addr \<Rightarrow> ('d, unit) nact" where
  "raw_delete N p = native_free N p"

text \<open>The C interface of the operator library.\<close>

definition topsatenMallocAsync ::
  "'d native_env \<Rightarrow> 64 word \<Rightarrow> stream_t \<Rightarrow> ('d, tops_error \<times> addr) nact" where
  "topsatenMallocAsync N nbytes stream =
     bnd (raw_alloc_with_stream N nbytes stream) (\<lambda>p. ret (topsSuccess, p))"

definition topsatenFreeAsync :: "'d native_env \<Rightarrow> addr \<Rightarrow> ('d, tops_error) nact" where
  "topsatenFreeAsync N p = seq (raw_delete N p) (ret topsSuccess)"

definition topsatenMalloc :: "'d native_env \<Rightarrow> 64 word \<Rightarrow> ('d, tops_error \<times> addr) nact" where
  "topsatenMalloc N nbytes = bnd (raw_alloc N nbytes) (\<lambda>p. ret (topsSuccess, p))"

definition topsatenFree :: "'d native_env \<Rightarrow> addr \<Rightarrow> ('d, tops_error) nact" where
  "topsatenFree N p = seq (raw_delete N p) (ret topsSuccess)"

section \<open>Settings and queries\<close>

definition native_setMemoryFraction :: "'d native_env \<Rightarrow> rat \<Rightarrow> int \<Rightarrow> ('d, unit) nact" where
  "native_setMemoryFraction N fraction device =
     seq (internal_assert_device device)
     (seq (require InternalAssert (0 \<le> fraction \<and> fraction \<le> 1))
     (seq (in_nctx (bnd (SetDevice (rt N) device) gcu_check))
       (on_device device (setMemoryFraction (alloc_env N) fraction))))"

text \<open>A loop over the allocators of all devices.\<close>

definition on_all_devices :: "(nat \<Rightarrow> ('d, unit) dact) \<Rightarrow> ('d, unit) nact" where
  "on_all_devices m =
     bnd (gets (\<lambda>s. length (device_allocator s))) (\<lambda>n.
       for_each (\<lambda>i. on_device (int i) (m i)) [0..<n])"

definition native_recordHistory :: "bool \<Rightarrow> bool \<Rightarrow> bool \<Rightarrow> nat \<Rightarrow> ('d, unit) nact" where
  "native_recordHistory never has_recorder enabled max_entries =
     on_all_devices (\<lambda>_. recordHistory never has_recorder enabled max_entries)"

definition native_isHistoryEnabled :: "'d native_env \<Rightarrow> ('d, bool) nact" where
  "native_isHistoryEnabled N =
     bnd (current_device_checked N) (\<lambda>device. on_device device (gets (\<lambda>s. record_history (tracing s))))"

definition native_checkPoolLiveAllocations ::
  "int \<Rightarrow> mempool_id \<Rightarrow> addr list \<Rightarrow> ('d, bool) nact" where
  "native_checkPoolLiveAllocations device i expected =
     on_device device (checkPoolLiveAllocations i expected)"

text \<open>
  The observer is moved into the first allocator of the loop; the later ones are given what a
  moved-from function is, an empty one.
\<close>

definition native_attachOutOfMemoryObserver :: "oom_observer \<Rightarrow> ('d, unit) nact" where
  "native_attachOutOfMemoryObserver observer =
     on_all_devices (\<lambda>i. attachOutOfMemoryObserver (if i = 0 then observer else None))"

definition native_attachAllocatorTraceTracker :: "('d, unit) nact" where
  "native_attachAllocatorTraceTracker = on_all_devices (\<lambda>_. attachAllocatorTraceTracker)"

definition native_emptyCache :: "'d native_env \<Rightarrow> ('d, unit) nact" where
  "native_emptyCache N = on_all_devices (\<lambda>_. emptyCache (alloc_env N))"

text \<open>The block of a pointer that must be known.\<close>

definition known_block :: "'d native_env \<Rightarrow> addr \<Rightarrow> exc \<Rightarrow> ('d, block_ptr) nact" where
  "known_block N p e =
     bnd (get_allocated_block N p False) (\<lambda>b. case b of None \<Rightarrow> throw e | Some bp \<Rightarrow> ret bp)"

definition native_getBaseAllocation :: "'d native_env \<Rightarrow> addr \<Rightarrow> ('d, addr \<times> nat) nact" where
  "native_getBaseAllocation N p =
     bnd (known_block N p (TorchCheck ''invalid device pointer''))
       (\<lambda>bp. on_block_device bp getBaseAllocation)"

definition native_shareIpcHandle :: "'d native_env \<Rightarrow> addr \<Rightarrow> ('d, int \<times> string) nact" where
  "native_shareIpcHandle N p =
     bnd (known_block N p (TorchCheck ''invalid device pointer''))
       (\<lambda>bp. on_block_device bp (shareIpcHandle (alloc_env N)))"

definition native_recordStream :: "'d native_env \<Rightarrow> data_ptr \<Rightarrow> gcu_stream \<Rightarrow> ('d, unit) nact" where
  "native_recordStream N p stream =
     (if dp_data p = 0 \<or> dp_deleter p \<noteq> local_raw_delete_fn then ret ()
      else bnd (known_block N (dp_data p) InternalAssert)
             (\<lambda>bp. on_block_device bp (\<lambda>b. recordStream b stream)))"

definition native_cacheInfo :: "'d native_env \<Rightarrow> int \<Rightarrow> nat \<Rightarrow> ('d, nat) nact" where
  "native_cacheInfo N device largest = on_device device (cacheInfo (alloc_env N) largest)"

definition getDeviceStats :: "int \<Rightarrow> ('d, device_stats) nact" where
  "getDeviceStats device = seq (assertValidDevice device) (on_device device getStats)"

definition native_resetAccumulatedStats :: "int \<Rightarrow> ('d, unit) nact" where
  "native_resetAccumulatedStats device =
     seq (assertValidDevice device) (on_device device resetAccumulatedStats)"

definition native_resetPeakStats :: "int \<Rightarrow> ('d, unit) nact" where
  "native_resetPeakStats device = seq (assertValidDevice device) (on_device device resetPeakStats)"

section \<open>Graph pools\<close>

definition native_beginAllocateToPool ::
  "int \<Rightarrow> mempool_id \<Rightarrow> (stream_t \<Rightarrow> bool) \<Rightarrow> ('d, unit) nact" where
  "native_beginAllocateToPool device i filter0 =
     seq (assertValidDevice device) (on_device device (beginAllocateToPool i filter0))"

definition native_endAllocateToPool :: "int \<Rightarrow> mempool_id \<Rightarrow> ('d, unit) nact" where
  "native_endAllocateToPool device i =
     seq (assertValidDevice device) (on_device device (endAllocateToPool i))"

definition native_releasePool :: "int \<Rightarrow> mempool_id \<Rightarrow> ('d, unit) nact" where
  "native_releasePool device i = seq (assertValidDevice device) (on_device device (releasePool i))"

section \<open>Access from other devices and other processes\<close>

definition enablePeerAccess :: "'d native_env \<Rightarrow> int \<Rightarrow> int \<Rightarrow> ('d, unit) nact" where
  "enablePeerAccess N dev dev_to_access =
     seq (in_nctx (with_guard (rt N) dev
            (bnd (call (topsDeviceEnablePeerAccess N dev_to_access)) (\<lambda>err.
               if err = topsErrorPeerAccessAlreadyEnabled
               then bnd (call (topsGetLastError (rt N))) (\<lambda>_. ret ())
               else gcu_check err))))
       (on_device dev_to_access (addPeerAccess dev))"

definition memcpyAsync ::
  "'d native_env \<Rightarrow> addr \<Rightarrow> int \<Rightarrow> addr \<Rightarrow> int \<Rightarrow> nat \<Rightarrow> stream_t \<Rightarrow> bool \<Rightarrow> ('d, tops_error) cact" where
  "memcpyAsync N dst dstDevice src srcDevice count0 stream p2p_enabled =
     (if srcDevice = dstDevice then call (topsMemcpyDtoDAsync N dst src count0 stream)
      else if \<not> p2p_enabled then ret topsErrorPeerAccessNotEnabled
      else call (topsMemcpyPeerAsync N dst dstDevice src srcDevice count0 stream))"

text \<open>
  The constructor of \<^verbatim>\<open>MemHandleCacheEntry\<close> parses a shared handle: the bare driver handle of
  an old peer, or a version byte (at most \<open>SHAREABLE_HANDLE_VERSION\<close>), a type byte and the
  driver's handle. \<^verbatim>\<open>istringstream::get\<close> returns -1 at the end.
\<close>

fun stream_get :: "string \<Rightarrow> int \<times> string" where
  "stream_get [] = (-1, [])"
| "stream_get (c # cs) = (int (of_char c), cs)"

definition SHAREABLE_GCU_EXPANDABLE_SEGMENT :: char where
  "SHAREABLE_GCU_EXPANDABLE_SEGMENT = CHR ''e''"

definition parse_handle :: "'d native_env \<Rightarrow> string \<Rightarrow> exc + string" where
  "parse_handle N handle =
     (if length handle = TOPS_IPC_HANDLE_SIZE N then Inr handle
      else
        (case stream_get handle of (version, rest) \<Rightarrow>
         case stream_get rest of (ty, raw) \<Rightarrow>
           if \<not> version \<le> int (of_char SHAREABLE_HANDLE_VERSION)
           then Inl (TorchCheck ''received sharable handle from a future version of torch'')
           else if ty = int (of_char SHAREABLE_GCU_MALLOC) then Inr (take (TOPS_IPC_HANDLE_SIZE N) raw)
           else if ty = int (of_char SHAREABLE_GCU_EXPANDABLE_SEGMENT)
           then Inl (TorchCheck ''expandable segment is not supported on GCU yet'')
           else Inl InternalAssert))"

definition MemHandleCacheEntry :: "'d native_env \<Rightarrow> int \<Rightarrow> string \<Rightarrow> ('d, ipc_entry) nact" where
  "MemHandleCacheEntry N device handle =
     (case parse_handle N handle of Inl e \<Rightarrow> throw e
      | Inr gcu_handle \<Rightarrow>
          bnd (in_nctx (call_check (topsIpcOpenMemHandle (rt N) gcu_handle))) (\<lambda>p.
            ret \<lparr>ie_device = device, gcu_ipc_ptr = p, ie_refs = 0\<rparr>))"

text \<open>
  A null pointer in an entry would make \<^verbatim>\<open>ptr()\<close> dereference the missing expandable segment.
\<close>

definition getIpcDevPtr :: "'d native_env \<Rightarrow> string \<Rightarrow> ('d, addr) nact" where
  "getIpcDevPtr N handle =
     bnd (gets (\<lambda>s. ipcMemHandle_to_devptr s handle)) (\<lambda>iter.
       case iter of
         Some e \<Rightarrow>
           seq (require InternalAssert (ie_refs e \<noteq> 0))
           (seq (upd (\<lambda>s. s\<lparr>ipcMemHandle_to_devptr := (ipcMemHandle_to_devptr s)(handle \<mapsto>
                   e\<lparr>ie_refs := ie_refs e + 1\<rparr>)\<rparr>))
             (ret (gcu_ipc_ptr e)))
       | None \<Rightarrow>
           bnd (current_device_checked N) (\<lambda>curr_device.
           bnd (bnd (gets (device_in_range curr_device)) (require UndefinedBehaviour)) (\<lambda>_.
           bnd (MemHandleCacheEntry N curr_device handle) (\<lambda>e.
           seq (require UndefinedBehaviour (gcu_ipc_ptr e \<noteq> 0))
           (seq (upd (\<lambda>s. s\<lparr>ipcMemHandle_to_devptr := (ipcMemHandle_to_devptr s)(handle \<mapsto>
                   e\<lparr>ie_refs := 1\<rparr>)\<rparr>))
             (ret (gcu_ipc_ptr e)))))))"

text \<open>
  The end of one of the shared pointers: the last one runs the deleter, which closes the handle
  (\<^verbatim>\<open>clear\<close>) and erases the entry.
\<close>

definition clear_entry :: "'d native_env \<Rightarrow> ipc_entry \<Rightarrow> ('d, unit) nact" where
  "clear_entry N e =
     whenM (gcu_ipc_ptr e \<noteq> 0)
      (in_nctx (with_guard (rt N) (ie_device e)
         (bnd (call (topsIpcCloseMemHandle (rt N) (gcu_ipc_ptr e))) gcu_check)))"

definition release_ipc_ptr :: "'d native_env \<Rightarrow> string \<Rightarrow> ('d, unit) nact" where
  "release_ipc_ptr N handle =
     bnd (gets (\<lambda>s. ipcMemHandle_to_devptr s handle)) (\<lambda>iter.
       case iter of None \<Rightarrow> throw InternalAssert
       | Some e \<Rightarrow>
           if 1 < ie_refs e then
             upd (\<lambda>s. s\<lparr>ipcMemHandle_to_devptr := (ipcMemHandle_to_devptr s)(handle \<mapsto>
               e\<lparr>ie_refs := ie_refs e - 1\<rparr>)\<rparr>)
           else
             seq (clear_entry N e)
               (upd (\<lambda>s. s\<lparr>ipcMemHandle_to_devptr := (ipcMemHandle_to_devptr s)(handle := None)\<rparr>)))"

section \<open>The cache of peer access, gcu\_peer\_to\_peer\_access.cpp\<close>

text \<open>\<open>p2pAccessEnabled_\<close> is a square of 1 (allowed), 0 (not allowed) and -1 (unknown).\<close>

record p2p_cache =
  p2pAccessEnabled :: "int list"
  num_devices :: int

definition init_p2p_access_cache :: "int \<Rightarrow> p2p_cache" where
  "init_p2p_access_cache n =
     \<lparr> p2pAccessEnabled = fold (\<lambda>i l. l[i * nat n + i := 1]) [0..<nat n] (replicate (nat (n * n)) (-1)),
       num_devices = n \<rparr>"

record 'd p2p_state =
  p2p :: p2p_cache
  front :: "'d native"

definition get_p2p_access :: "'d native_env \<Rightarrow> int \<Rightarrow> int \<Rightarrow> ('d p2p_state, bool) act" where
  "get_p2p_access N dev dev_to_access =
     bnd (gets p2p) (\<lambda>c.
     seq (require (TorchCheck ''dev is not a device'') (dev \<ge> 0 \<or> dev < num_devices c))
     (seq (require (TorchCheck ''dev_to_access is not a device'')
             (dev_to_access \<ge> 0 \<or> dev_to_access < num_devices c))
     (seq (require InternalAssert (num_devices c \<ge> 0))
       (let i = dev * num_devices c + dev_to_access
        in seq (require UndefinedBehaviour (0 \<le> i \<and> nat i < length (p2pAccessEnabled c)))
           (if p2pAccessEnabled c ! nat i \<noteq> -1 then ret (p2pAccessEnabled c ! nat i \<noteq> 0)
            else
              bnd (\<lambda>s. case in_nctx (call_check (topsDeviceCanAccessPeer N dev dev_to_access)) (front s) of
                     (r, f) \<Rightarrow> (r, s\<lparr>front := f\<rparr>)) (\<lambda>result.
              seq (upd (\<lambda>s. s\<lparr>p2p := (p2p s)\<lparr>p2pAccessEnabled :=
                     (p2pAccessEnabled (p2p s))[nat i := (if result \<noteq> 0 then 1 else 0)]\<rparr>\<rparr>))
              (seq (whenM (result \<noteq> 0)
                     (\<lambda>s. case enablePeerAccess N dev dev_to_access (front s) of
                        (r, f) \<Rightarrow> (r, s\<lparr>front := f\<rparr>)))
                (ret (result \<noteq> 0)))))))))"

section \<open>Choosing the back end\<close>

text \<open>
  \<^verbatim>\<open>std::sregex_token_iterator\<close> with submatch -1 over a regular expression for a non-empty run
  of separators: what stands between the runs. A string that ends with a separator has no last
  empty token, one that begins with a separator has a first empty one.
\<close>

function split_runs :: "(char \<Rightarrow> bool) \<Rightarrow> string \<Rightarrow> string list" where
  "split_runs sep s =
     (let token = takeWhile (\<lambda>c. \<not> sep c) s; rest = dropWhile (\<lambda>c. \<not> sep c) s
      in if rest = [] then [token]
         else (let suffix = dropWhile sep rest
               in token # (if suffix = [] then [] else split_runs sep suffix)))"
  by pat_completeness auto
termination
proof (relation "measure (\<lambda>(_, s). length s)")
  fix sep :: "char \<Rightarrow> bool" and s token rest suffix :: string
  assume "token = takeWhile (\<lambda>c. \<not> sep c) s" and rest: "rest = dropWhile (\<lambda>c. \<not> sep c) s"
    and "rest \<noteq> []" and suffix: "suffix = dropWhile sep rest" and "suffix \<noteq> []"
  from rest \<open>rest \<noteq> []\<close> have "sep (hd rest)" using hd_dropWhile [of "\<lambda>c. \<not> sep c" s] by simp
  with \<open>rest \<noteq> []\<close> have "length (dropWhile sep rest) \<le> length (tl rest)"
    by (cases rest) (simp_all add: length_dropWhile_le)
  moreover have "length rest \<le> length s" unfolding rest by (rule length_dropWhile_le)
  ultimately show "((sep, suffix), (sep, s)) \<in> measure (\<lambda>(_, s). length s)"
    using \<open>rest \<noteq> []\<close> by (cases rest) (simp_all add: suffix)
qed simp

declare split_runs.simps [simp del]

definition is_space_or_comma :: "char \<Rightarrow> bool" where
  "is_space_or_comma c \<longleftrightarrow> of_char c \<in> {9, 10, 11, 12, 13, 32, 44 :: nat}"

datatype backend = native_backend | topsMallocAsync_backend

fun find_backend :: "string list \<Rightarrow> backend" where
  "find_backend [] = native_backend"
| "find_backend (option # options) =
     (case split_runs (\<lambda>c. c = CHR '':'') option of
        k # v # _ \<Rightarrow>
          if k = ''backend'' \<and> v = ''topsMallocAsync'' then topsMallocAsync_backend
          else if k = ''backend'' \<and> v = ''native'' then native_backend
          else find_backend options
      | _ \<Rightarrow> find_backend options)"

definition parseEnvForBackend :: "string option \<Rightarrow> backend" where
  "parseEnvForBackend val =
     (case val of None \<Rightarrow> native_backend
      | Some config \<Rightarrow> find_backend (split_runs is_space_or_comma config))"

end
