(* ===== verification/AllocSnapshot.thy ===== *)
theory AllocSnapshot
  imports NativeAlloc
begin

text \<open>
  What \<^verbatim>\<open>gcu_caching_allocator.cpp\<close> reports of its memory and how it puts a private pool back:
  \<open>snapshot\<close>, which describes every segment and its blocks, and the checkpoints of private pools.
  The contexts of the allocations are left out, as in the rest of the allocator.
\<close>

section \<open>Blocks of the allocator\<close>

definition get_all_blocks :: "'d dca \<Rightarrow> bid list" where
  "get_all_blocks s =
     blocks (pools s small_blocks) @ blocks (pools s large_blocks) @
     concat (map (\<lambda>(i, _). blocks (pools s (private_small i)) @ blocks (pools s (private_large i))) (graph_pools s)) @
     active_blocks s"

text \<open>The elements of the sets are dereferenced; one that was deleted is undefined behaviour.\<close>

definition get_private_pool_head_blocks :: "mempool_id \<Rightarrow> ('d, bid list) dact" where
  "get_private_pool_head_blocks i =
     seq (bnd (gets (\<lambda>s. list_all (\<lambda>b. heap s b \<noteq> None) (active_blocks s))) (require UndefinedBehaviour))
     (seq (check_pool (private_small i))
     (seq (check_pool (private_large i))
       (gets (\<lambda>s.
          filter (\<lambda>b. owner_PrivatePool (pool (the (heap s b))) = Some i \<and> prv (the (heap s b)) = None) (active_blocks s) @
          filter (\<lambda>b. prv (the (heap s b)) = None) (blocks (pools s (private_small i))) @
          filter (\<lambda>b. prv (the (heap s b)) = None) (blocks (pools s (private_large i)))))))"

section \<open>Snapshots\<close>

text \<open>The signed 64-bit numbers of the report are kept as words.\<close>

record block_info =
  bi_size :: "64 word"
  bi_requested_size :: "64 word"
  bi_gc_counter :: int
  bi_allocated :: bool
  bi_active :: bool

record segment_info =
  si_device :: int
  si_address :: "64 word"
  si_total_size :: "64 word"
  si_requested_size :: "64 word"
  si_allocated_size :: "64 word"
  si_active_size :: "64 word"
  si_stream :: stream_t
  si_is_large :: bool
  si_is_expandable :: bool
  si_owner_private_pool_id :: mempool_id
  si_blocks :: "block_info list"

definition SegmentInfo :: "mempool_id \<Rightarrow> block \<Rightarrow> segment_info" where
  "SegmentInfo owner x =
     \<lparr> si_device = b_device x, si_address = word_of_nat (ptr x), si_total_size = 0, si_requested_size = 0,
       si_allocated_size = 0, si_active_size = 0, si_stream = b_stream x, si_is_large = \<not> is_small (pool x),
       si_is_expandable = False, si_owner_private_pool_id = owner, si_blocks = [] \<rparr>"

definition add_block :: "block \<Rightarrow> segment_info \<Rightarrow> segment_info" where
  "add_block x si =
     (let is_active = allocated x \<or> 0 < event_count x \<or> stream_uses x \<noteq> [];
          sz = word_of_nat (bsize x)
      in si\<lparr>
        si_blocks := si_blocks si @ [\<lparr> bi_size = sz, bi_requested_size = word_of_nat (requested_size x),
          bi_gc_counter = 0, bi_allocated = allocated x, bi_active = is_active \<rparr>],
        si_total_size := si_total_size si + sz,
        si_allocated_size := (if allocated x then si_allocated_size si + sz else si_allocated_size si),
        si_active_size := (if is_active then si_active_size si + sz else si_active_size si),
        si_requested_size := (if is_active then si_requested_size si + word_of_nat (requested_size x)
          else si_requested_size si)\<rparr>)"

text \<open>The walk along the links, with fuel as in the other walks.\<close>

fun segment_blocks :: "nat \<Rightarrow> bid option \<Rightarrow> segment_info \<Rightarrow> ('d, segment_info) dact" where
  "segment_blocks 0 b si = throw OutOfFuel"
| "segment_blocks (Suc fuel) b si =
     (case b of None \<Rightarrow> ret si
      | Some b \<Rightarrow> bnd (deref b) (\<lambda>x. segment_blocks fuel (nxt x) (add_block x si)))"

text \<open>
  The id of a private pool; \<open>pool_to_id\<close> has those of all private pools, and a block of the
  public pools gets \<open>(0, 0)\<close>.
\<close>

definition owner_id :: "'d dca \<Rightarrow> pool_ref \<Rightarrow> mempool_id" where
  "owner_id s pl = (case owner_PrivatePool pl of
       Some i \<Rightarrow> if i \<in> fst ` set (graph_pools s) \<or> i \<in> set (graph_pools_freeable s) then i else (0, 0)
     | None \<Rightarrow> (0, 0))"

fun collect_segments :: "bid list \<Rightarrow> ('d, segment_info list) dact" where
  "collect_segments [] = ret []"
| "collect_segments (b # bs) =
     bnd (deref b) (\<lambda>x.
       if prv x \<noteq> None then collect_segments bs
       else
         seq (bnd (gets (\<lambda>s. pool_exists s (pool x))) (require UndefinedBehaviour))
         (bnd (gets (\<lambda>s. owner_id s (pool x))) (\<lambda>owner.
          bnd (gets next_bid) (\<lambda>n.
          bnd (segment_blocks (n + 2) (Some b) (SegmentInfo owner x)) (\<lambda>si.
          bnd (collect_segments bs) (\<lambda>sis. ret (si # sis)))))))"

definition snapshot :: "('d, segment_info list) dact" where
  "snapshot =
     bnd (gets get_all_blocks) (\<lambda>bs.
     bnd (collect_segments bs) (\<lambda>result.
     seq (record_trace SNAPSHOT 0 (sint (sum_list (map si_active_size result))) 0 0)
       (ret (sort_key (\<lambda>si. sint (si_address si)) result))))"

record allocator_config_info =
  ci_garbage_collection_threshold :: rat
  ci_max_split_size :: "64 word"
  ci_pinned_num_register_threads :: "64 word"
  ci_expandable_segments :: bool
  ci_release_lock_on_malloc :: bool
  ci_pinned_use_host_register :: bool
  ci_last_allocator_settings :: string
  ci_roundup_power2_divisions :: "64 word list"

record snapshot_info =
  segments :: "segment_info list"
  device_traces :: "trace_entry list list"
  config_metadata :: allocator_config_info

definition config_info :: "alloc_config \<Rightarrow> allocator_config_info" where
  "config_info c =
     \<lparr> ci_garbage_collection_threshold = m_garbage_collection_threshold c, ci_max_split_size = m_max_split_size c,
       ci_pinned_num_register_threads = m_pinned_num_register_threads c, ci_expandable_segments = expandable_segments c,
       ci_release_lock_on_malloc = m_release_lock_on_topsmalloc c,
       ci_pinned_use_host_register = m_pinned_use_gcu_host_register c,
       ci_last_allocator_settings = m_last_allocator_settings c,
       ci_roundup_power2_divisions = m_roundup_power2_divisions c \<rparr>"

text \<open>The trace of a device is taken before its snapshot, which adds an entry.\<close>

fun snapshot_devices :: "nat list \<Rightarrow> ('d, trace_entry list list \<times> segment_info list) nact" where
  "snapshot_devices [] = ret ([], [])"
| "snapshot_devices (d # ds) =
     bnd (on_device (int d) (gets (\<lambda>s. trace (tracing s)))) (\<lambda>t.
     bnd (on_device (int d) snapshot) (\<lambda>snap.
     bnd (snapshot_devices ds) (\<lambda>(ts, snaps). ret (t # ts, snap @ snaps))))"

definition native_snapshot :: "'d native_env \<Rightarrow> ('d, snapshot_info) nact" where
  "native_snapshot N =
     bnd (gets (\<lambda>s. length (device_allocator s))) (\<lambda>n.
     bnd (snapshot_devices [0..<n]) (\<lambda>(ts, segs).
       ret \<lparr> segments = segs, device_traces = ts, config_metadata = config_info (cfg (alloc_env N)) \<rparr>))"

section \<open>Checkpoints\<close>

text \<open>\<open>bs_device\<close> has no counterpart in the constructor of \<^verbatim>\<open>BlockState\<close> and keeps its default.\<close>

record block_state =
  bs_device :: int
  bs_stream :: stream_t
  bs_stream_uses :: "gcu_stream list"
  bs_size :: nat
  bs_ptr :: addr
  bs_allocated :: bool
  bs_gc_count :: int

definition BlockState :: "bid \<Rightarrow> ('d, block_state) dact" where
  "BlockState b =
     bnd (deref b) (\<lambda>x.
     seq (require (TorchCheck ''Events should have synchronized when checkpointing block'') (event_count x = 0))
       (ret \<lparr> bs_device = 0, bs_stream = b_stream x, bs_stream_uses = stream_uses x, bs_size = bsize x,
          bs_ptr = ptr x, bs_allocated = allocated x, bs_gc_count = signed_take_bit 31 (gc_count_base x) \<rparr>))"

record segment_state =
  ss_blocks :: "block_state list"
  ss_is_small :: bool

fun block_states :: "nat \<Rightarrow> bid option \<Rightarrow> ('d, block_state list) dact" where
  "block_states 0 b = throw OutOfFuel"
| "block_states (Suc fuel) b =
     (case b of None \<Rightarrow> ret []
      | Some b \<Rightarrow>
          bnd (BlockState b) (\<lambda>st.
          bnd (deref b) (\<lambda>x.
          bnd (block_states fuel (nxt x)) (\<lambda>sts. ret (st # sts)))))"

definition SegmentState :: "bid \<Rightarrow> ('d, segment_state) dact" where
  "SegmentState head =
     bnd (deref head) (\<lambda>x.
     seq (require InternalAssert (prv x = None))
     (bnd (gets next_bid) (\<lambda>n.
      bnd (block_states (n + 2) (Some head)) (\<lambda>sts.
        ret \<lparr> ss_blocks = sts, ss_is_small = is_small (pool x) \<rparr>))))"

record private_pool_state =
  pps_owner_id :: mempool_id
  pps_segments :: "segment_state list"

fun segment_states :: "bid list \<Rightarrow> ('d, segment_state list) dact" where
  "segment_states [] = ret []"
| "segment_states (b # bs) =
     bnd (SegmentState b) (\<lambda>st. bnd (segment_states bs) (\<lambda>sts. ret (st # sts)))"

definition PrivatePoolState :: "mempool_id \<Rightarrow> bid list \<Rightarrow> ('d, private_pool_state) dact" where
  "PrivatePoolState pool_id heads =
     bnd (segment_states heads) (\<lambda>sts. ret \<lparr> pps_owner_id = pool_id, pps_segments = sts \<rparr>)"

definition getCheckpointState :: "mempool_id \<Rightarrow> ('d, private_pool_state) dact" where
  "getCheckpointState i =
     bnd (gets (\<lambda>s. (map_of (graph_pools s) i \<noteq> None, i \<in> set (graph_pools_freeable s)))) (\<lambda>(found, freeable).
       if found then bnd (get_private_pool_head_blocks i) (PrivatePoolState i)
       else if freeable then throw (TorchCheck ''Not expected to checkpoint freeable graph'')
       else throw (TorchCheck ''Could not find pool of id''))"

record restore_result =
  allocations_freed :: "addr list"
  allocations_created :: "bid list"

text \<open>
  One segment: every allocated block is freed, and the walk goes on from what its object has
  become. A check without a message has the empty one.
\<close>

fun free_segment :: "nat \<Rightarrow> 'd env \<Rightarrow> bid option \<Rightarrow> restore_result \<Rightarrow> ('d, restore_result) dact" where
  "free_segment 0 E b rr = throw OutOfFuel"
| "free_segment (Suc fuel) E b rr =
     (case b of None \<Rightarrow> ret rr
      | Some b \<Rightarrow>
          bnd (deref b) (\<lambda>x.
          bnd (if allocated x then
                 seq (require (TorchCheck ''Events should have synchronized when setting checkpointed block'')
                        (event_count x = 0))
                 (seq (free E b)
                 (seq (bnd (deref b) (\<lambda>y. require (TorchCheck []) (\<not> allocated y)))
                   (ret (rr\<lparr>allocations_freed := allocations_freed rr @ [ptr x]\<rparr>))))
               else ret rr) (\<lambda>rr.
          bnd (deref b) (\<lambda>y. free_segment fuel E (nxt y) rr))))"

fun free_segments :: "'d env \<Rightarrow> bid list \<Rightarrow> restore_result \<Rightarrow> ('d, restore_result) dact" where
  "free_segments E [] rr = ret rr"
| "free_segments E (b # bs) rr =
     bnd (gets next_bid) (\<lambda>n. bnd (free_segment (n + 2) E (Some b) rr) (free_segments E bs))"

fun check_segment_free :: "nat \<Rightarrow> bid option \<Rightarrow> ('d, unit) dact" where
  "check_segment_free 0 b = throw OutOfFuel"
| "check_segment_free (Suc fuel) b =
     (case b of None \<Rightarrow> ret ()
      | Some b \<Rightarrow>
          bnd (deref b) (\<lambda>x.
          seq (require (TorchCheck []) (\<not> allocated x)) (check_segment_free fuel (nxt x))))"

definition freeBlocksAllocatedToPool :: "'d env \<Rightarrow> mempool_id \<Rightarrow> restore_result \<Rightarrow> ('d, restore_result) dact" where
  "freeBlocksAllocatedToPool E i rr =
     bnd (get_private_pool_head_blocks i) (\<lambda>heads.
     bnd (free_segments E heads rr) (\<lambda>rr.
     bnd (get_private_pool_head_blocks i) (\<lambda>heads.
     seq (for_each (\<lambda>b. bnd (gets next_bid) (\<lambda>n. check_segment_free (n + 2) (Some b))) heads)
       (ret rr))))"

text \<open>
  The first loop of \<open>setSegmentStateToCheckpoint\<close> hands out every block of the checkpoint,
  splitting the remainder off before all but the last. It returns the last block.
\<close>

fun allocate_states ::
  "'d env \<Rightarrow> pool_ref \<Rightarrow> bid option \<Rightarrow> bid \<Rightarrow> block_state list \<Rightarrow> ('d, bid) dact" where
  "allocate_states E pl cur0 last_block [] = ret last_block"
| "allocate_states E pl cur0 last_block (st # sts) =
     (case cur0 of None \<Rightarrow> throw UndefinedBehaviour
      | Some c \<Rightarrow>
          bnd (pool_erase pl c) (\<lambda>_.
          bnd (alloc_found_block E
                 ((AllocParams (bs_device st) (bs_size st) (bs_stream st) pl (bs_size st))\<lparr>p_block := Some c\<rparr>)
                 (bs_size st) (sts \<noteq> [])) (\<lambda>b.
          bnd (deref b) (\<lambda>x.
          seq (require (TorchCheck []) (ptr x = bs_ptr st))
          (seq (require (TorchCheck []) (bsize x = bs_size st))
          (seq (require (TorchCheck []) ((nxt x \<noteq> None) = (sts \<noteq> [])))
            (allocate_states E pl (nxt x) b sts)))))))"

text \<open>The second loop frees what the checkpoint has as free.\<close>

fun free_states :: "'d env \<Rightarrow> bid option \<Rightarrow> block_state list \<Rightarrow> restore_result \<Rightarrow> ('d, restore_result) dact" where
  "free_states E cur0 [] rr = ret rr"
| "free_states E cur0 (st # sts) rr =
     (case cur0 of None \<Rightarrow> throw InternalAssert
      | Some c \<Rightarrow>
          bnd (if bs_allocated st then ret (rr\<lparr>allocations_created := allocations_created rr @ [c]\<rparr>)
               else
                 seq (free E c)
                 (bnd (deref c) (\<lambda>x.
                  seq (require (TorchCheck []) (ptr x = bs_ptr st))
                  (seq (require (TorchCheck []) (allocated x = bs_allocated st))
                  (seq (require (TorchCheck []) (bsize x = bs_size st))
                    (ret rr)))))) (\<lambda>rr.
          bnd (deref c) (\<lambda>x. free_states E (nxt x) sts rr)))"

definition setSegmentStateToCheckpoint ::
  "'d env \<Rightarrow> bid \<Rightarrow> segment_state \<Rightarrow> restore_result \<Rightarrow> ('d, restore_result) dact" where
  "setSegmentStateToCheckpoint E b seg rr =
     bnd (deref b) (\<lambda>x.
     bnd (allocate_states E (pool x) (Some b) b (ss_blocks seg)) (\<lambda>last_block.
     bnd (gets next_bid) (\<lambda>n.
     bnd (walk_prev (n + 1) last_block) (\<lambda>first_block.
       free_states E (Some first_block) (ss_blocks seg) rr))))"

text \<open>A later block with the same pointer replaces an earlier one in the map.\<close>

definition ptrs_to_blocks :: "mempool_id \<Rightarrow> 'd dca \<Rightarrow> addr \<Rightarrow> bid option" where
  "ptrs_to_blocks i s =
     map_of (rev (map (\<lambda>b. (ptr (the (heap s b)), b)) (blocks (pools s (private_small i)) @ blocks (pools s (private_large i)))))"

fun restore_segments ::
  "'d env \<Rightarrow> (addr \<Rightarrow> bid option) \<Rightarrow> segment_state list \<Rightarrow> restore_result \<Rightarrow> ('d, restore_result) dact" where
  "restore_segments E to_block [] rr = ret rr"
| "restore_segments E to_block (seg # segs) rr =
     seq (require (StdException ''out_of_range'') (ss_blocks seg \<noteq> []))
     (let p = bs_ptr (hd (ss_blocks seg))
      in case to_block p of None \<Rightarrow> throw (TorchCheck '' could not find '')
         | Some b \<Rightarrow> bnd (setSegmentStateToCheckpoint E b seg rr) (restore_segments E to_block segs))"

definition setCheckpointPoolState :: "'d env \<Rightarrow> private_pool_state \<Rightarrow> ('d, restore_result) dact" where
  "setCheckpointPoolState E pps =
     (let i = pps_owner_id pps
      in seq (bnd (gets (\<lambda>s. i \<notin> set (graph_pools_freeable s)))
               (require (TorchCheck ''Not expected to checkpoint freeable graph'')))
         (seq (bnd (gets (\<lambda>s. map_of (graph_pools s) i \<noteq> None))
               (require (TorchCheck ''Could not find private pool id'')))
         (bnd (freeBlocksAllocatedToPool E i \<lparr> allocations_freed = [], allocations_created = [] \<rparr>) (\<lambda>rr.
          seq (check_pool (private_small i))
          (seq (check_pool (private_large i))
          (bnd (gets (ptrs_to_blocks i)) (\<lambda>to_block.
            restore_segments E to_block (pps_segments pps) rr)))))))"

section \<open>Checkpoints of the front end\<close>

definition native_getCheckpointState :: "int \<Rightarrow> mempool_id \<Rightarrow> ('d, private_pool_state) nact" where
  "native_getCheckpointState device i = on_device device (getCheckpointState i)"

record checkpoint_delta =
  ptrs_freed :: "addr list"
  dataptrs_allocd :: "data_ptr list"

fun add_created :: "'d native_env \<Rightarrow> int \<Rightarrow> bid list \<Rightarrow> ('d, data_ptr list) nact" where
  "add_created N device [] = ret []"
| "add_created N device (b # bs) =
     bnd (on_device device (bnd (deref b) (\<lambda>x. ret (ptr x)))) (\<lambda>p.
     seq (add_allocated_block N p (nat device, b))
     (bnd (add_created N device bs) (\<lambda>ps.
       ret (\<lparr> dp_data = p, dp_deleter = local_raw_delete_fn, dp_device = device \<rparr> # ps))))"

text \<open>\<open>None\<close> is a state that is none of a private pool.\<close>

definition native_setCheckpointPoolState ::
  "'d native_env \<Rightarrow> int \<Rightarrow> private_pool_state option \<Rightarrow> ('d, checkpoint_delta) nact" where
  "native_setCheckpointPoolState N device pps =
     (case pps of None \<Rightarrow> throw (TorchCheck ''Expected PrivatePoolState'')
      | Some pps \<Rightarrow>
          bnd (on_device device (setCheckpointPoolState (alloc_env N) pps)) (\<lambda>rr.
          seq (for_each (\<lambda>p. bnd (get_allocated_block N p True) (\<lambda>_. ret ())) (allocations_freed rr))
          (bnd (add_created N device (allocations_created rr)) (\<lambda>ps.
            ret \<lparr> ptrs_freed = allocations_freed rr, dataptrs_allocd = ps \<rparr>))))"

end
