(* ===== verification/RuntimeLaws.thy ===== *)
theory RuntimeLaws
  imports DeviceAlloc
begin

text \<open>
  What the allocator relies on of the runtime, and the calls into the shared context (device,
  streams, events) seen from the allocator: they keep the context well formed, leave the live
  allocations alone, and throw nothing but the error codes of the runtime.
\<close>

section \<open>Laws of the runtime\<close>

text \<open>
  \<open>live\<close> is the set of live allocations, address and size. A successful \<^verbatim>\<open>topsMalloc\<close> returns
  fresh memory inside the 64-bit address space that overlaps no live allocation; freeing the
  address of a live allocation ends exactly that one.
\<close>

definition live_ok :: "(addr \<times> nat) set \<Rightarrow> bool" where
  "live_ok L \<longleftrightarrow>
     (\<forall>(p, n)\<in>L. p \<noteq> 0 \<and> 0 < n \<and> p + n < 2 ^ 64) \<and>
     (\<forall>(p, n)\<in>L. \<forall>(q, m)\<in>L. (p, n) \<noteq> (q, m) \<longrightarrow> p + n \<le> q \<or> q + m \<le> p)"

definition memory_runtime :: "'d tops \<Rightarrow> ('d \<Rightarrow> (addr \<times> nat) set) \<Rightarrow> bool" where
  "memory_runtime T live \<longleftrightarrow>
     (\<forall>n d. 0 < n \<longrightarrow>
        (case topsMalloc T n d of ((err, p), d') \<Rightarrow>
           if err = topsSuccess
           then p \<noteq> 0 \<and> p + n < 2 ^ 64 \<and> live d' = insert (p, n) (live d) \<and>
                (\<forall>(q, m)\<in>live d. p + n \<le> q \<or> q + m \<le> p)
           else live d' = live d)) \<and>
     (\<forall>p n d. live_ok (live d) \<and> (p, n) \<in> live d \<and> fst (topsFree T p d) = topsSuccess \<longrightarrow>
        live (snd (topsFree T p d)) = live d - {(p, n)})"

definition good_runtime ::
  "'d tops \<Rightarrow> ('d \<Rightarrow> (addr \<times> nat) set) \<Rightarrow> ('d \<Rightarrow> int) \<Rightarrow> int \<Rightarrow> bool" where
  "good_runtime T live cur n \<longleftrightarrow>
     device_runtime T cur n \<and> quiet_runtime T live \<and> quiet_others T cur \<and>
     memory_runtime T live \<and> (\<forall>m. quiet cur (topsMalloc T m)) \<and> (\<forall>a. quiet cur (topsFree T a))"

lemma good_runtimeD:
  assumes "good_runtime T live cur n"
  shows "device_runtime T cur n" "quiet_runtime T live" "quiet_others T live" "quiet_others T cur"
    "memory_runtime T live" "quiet live (topsSetDevice T i)" "quiet cur (topsMalloc T m)"
    "quiet cur (topsFree T a)"
  using assms by (simp_all add: good_runtime_def quiet_runtime_def)

section \<open>A well-formed context\<close>

text \<open>A stream id that names the default stream, an external one, or one of the pool.\<close>

definition valid_stream_id :: "stream_id \<Rightarrow> bool" where
  "valid_stream_id i \<longleftrightarrow> i = 0 \<or> streamIdType i = Inr EXT \<or> streamIdType i = Inr 1"

definition ctx_ok :: "('d \<Rightarrow> int) \<Rightarrow> int \<Rightarrow> 'd ctx \<Rightarrow> bool" where
  "ctx_ok cur n c \<longleftrightarrow> device_ok cur n c \<and> streams_ready c n \<and>
     (\<forall>i\<in>set (the (current_streams c)). valid_stream_id i)"

definition valid_stream :: "int \<Rightarrow> gcu_stream \<Rightarrow> bool" where
  "valid_stream n g \<longleftrightarrow> 0 \<le> gs_device g \<and> gs_device g < n \<and> valid_stream_id (gs_id g)"

definition gcu_error :: "exc \<Rightarrow> bool" where
  "gcu_error e \<longleftrightarrow> (\<exists>err. e = GcuError err)"

text \<open>
  \<open>csafe cur n live m Q\<close>: on a well-formed context \<open>m\<close> keeps it well formed and the live
  allocations unchanged, returns a value with \<open>Q\<close> or throws an error code of the runtime.
\<close>

definition csafe ::
  "('d \<Rightarrow> int) \<Rightarrow> int \<Rightarrow> ('d \<Rightarrow> 'l) \<Rightarrow> ('d, 'a) cact \<Rightarrow> ('a \<Rightarrow> bool) \<Rightarrow> bool" where
  "csafe cur n live m Q \<longleftrightarrow>
     (\<forall>c r c'. ctx_ok cur n c \<longrightarrow> m c = (r, c') \<longrightarrow>
        ctx_ok cur n c' \<and> live (drv c') = live (drv c) \<and>
        (\<forall>e. r = Inl e \<longrightarrow> gcu_error e) \<and> (\<forall>x. r = Inr x \<longrightarrow> Q x))"

named_theorems csafe_intros \<open>safe context actions\<close>

lemma csafeI:
  assumes "\<And>c r c'. ctx_ok cur n c \<Longrightarrow> m c = (r, c') \<Longrightarrow> ctx_ok cur n c' \<and>
    live (drv c') = live (drv c) \<and> (\<forall>e. r = Inl e \<longrightarrow> gcu_error e) \<and> (\<forall>x. r = Inr x \<longrightarrow> Q x)"
  shows "csafe cur n live m Q"
  unfolding csafe_def using assms by blast

lemma csafeD:
  assumes "csafe cur n live m Q" and "ctx_ok cur n c" and "m c = (r, c')"
  shows "ctx_ok cur n c'" and "live (drv c') = live (drv c)"
    and "r = Inl e \<Longrightarrow> gcu_error e" and "r = Inr x \<Longrightarrow> Q x"
  using assms unfolding csafe_def by blast+

lemma csafe_ret [csafe_intros]: "Q x \<Longrightarrow> csafe cur n live (ret x) Q"
  by (simp add: csafe_def act_simps)

lemma csafe_bnd [csafe_intros]:
  assumes m: "csafe cur n live m R" and f: "\<And>x. R x \<Longrightarrow> csafe cur n live (f x) Q"
  shows "csafe cur n live (bnd m f) Q"
proof (rule csafeI)
  fix c r c' assume c: "ctx_ok cur n c" and eq: "bnd m f c = (r, c')"
  obtain r1 c1 where 1: "m c = (r1, c1)" by fastforce
  note m1 = csafeD [OF m c 1]
  show "ctx_ok cur n c' \<and> live (drv c') = live (drv c) \<and> (\<forall>e. r = Inl e \<longrightarrow> gcu_error e) \<and>
    (\<forall>x. r = Inr x \<longrightarrow> Q x)"
  proof (cases r1)
    case (Inl e)
    then show ?thesis using 1 eq m1 by (auto simp: act_simps)
  next
    case (Inr x)
    then have "f x c1 = (r, c')" using 1 eq by (simp add: act_simps)
    from csafeD [OF f [OF m1(4) [OF Inr]] m1(1) this] m1(2) show ?thesis by auto
  qed
qed

lemma csafe_seq [csafe_intros]:
  "csafe cur n live m (\<lambda>_. True) \<Longrightarrow> csafe cur n live k Q \<Longrightarrow> csafe cur n live (seq m k) Q"
  unfolding seq_def by (rule csafe_bnd)

lemma csafe_gcu_check [csafe_intros]: "csafe cur n live (gcu_check err) (\<lambda>_. True)"
  by (simp add: csafe_def act_simps gcu_error_def)

lemma csafe_weaken: "csafe cur n live m Q \<Longrightarrow> (\<And>x. Q x \<Longrightarrow> R x) \<Longrightarrow> csafe cur n live m R"
  unfolding csafe_def by blast

lemma csafe_call:
  assumes "quiet live f" and "quiet cur f"
  shows "csafe cur n live (call f) (\<lambda>_. True)"
proof (rule csafeI)
  fix c r c' assume c: "ctx_ok cur n c" and eq: "call f c = (r, c')"
  obtain x d where f: "f (drv c) = (x, d)" by fastforce
  then have "live d = live (drv c)" "cur d = cur (drv c)"
    using assms unfolding quiet_def by (metis snd_conv)+
  with f c eq show "ctx_ok cur n c' \<and> live (drv c') = live (drv c) \<and>
      (\<forall>e. r = Inl e \<longrightarrow> gcu_error e) \<and> (\<forall>x. r = Inr x \<longrightarrow> True)"
    by (auto simp: call_def ctx_ok_def device_ok_def streams_ready_def)
qed

lemma csafe_call_check:
  "quiet live f \<Longrightarrow> quiet cur f \<Longrightarrow> csafe cur n live (call_check f) (\<lambda>_. True)"
  unfolding call_check_def case_prod_beta
  by (rule csafe_bnd [OF csafe_call]) (auto intro: csafe_intros)

lemma csafe_upd [csafe_intros]:
  "(\<And>c. ctx_ok cur n c \<Longrightarrow> ctx_ok cur n (f c) \<and> live (drv (f c)) = live (drv c)) \<Longrightarrow>
   csafe cur n live (upd f) (\<lambda>_. True)"
  by (simp add: csafe_def act_simps)

lemma csafe_try_catch:
  assumes m: "csafe cur n live m Q" and h: "\<And>e. gcu_error e \<Longrightarrow> csafe cur n live (h e) Q"
  shows "csafe cur n live (try_catch m h) Q"
proof (rule csafeI)
  fix c r c' assume c: "ctx_ok cur n c" and eq: "try_catch m h c = (r, c')"
  obtain r1 c1 where 1: "m c = (r1, c1)" by fastforce
  note m1 = csafeD [OF m c 1]
  show "ctx_ok cur n c' \<and> live (drv c') = live (drv c) \<and> (\<forall>e. r = Inl e \<longrightarrow> gcu_error e) \<and>
    (\<forall>x. r = Inr x \<longrightarrow> Q x)"
  proof (cases r1)
    case (Inl e)
    then have "h e c1 = (r, c')" using 1 eq by (simp add: act_simps)
    from csafeD [OF h [OF m1(3) [OF Inl]] m1(1) this] m1(2) show ?thesis by auto
  next
    case (Inr x)
    then show ?thesis using 1 eq m1 by (auto simp: act_simps)
  qed
qed

lemma csafe_throw: "gcu_error e \<Longrightarrow> csafe cur n live (throw e) Q"
  by (simp add: csafe_def act_simps)

section \<open>The calls of the allocator into the context\<close>

lemma ctx_ok_frame:
  assumes "ctx_ok cur n c" and "device_ok cur n c'" and "stream_init_flag c' = stream_init_flag c"
    "num_gcus c' = num_gcus c" "max_stream_priorities c' = max_stream_priorities c"
    "kStreamsPerPoolBits c' = kStreamsPerPoolBits c" "kStreamsPerPool c' = kStreamsPerPool c"
    "current_streams c' = current_streams c"
  shows "ctx_ok cur n c'"
  using assms by (auto simp: ctx_ok_def streams_ready_def)

lemma device_count_csafe:
  assumes "good_runtime T live cur n"
  shows "csafe cur n live (device_count T) (\<lambda>k. k = n)"
proof (rule csafeI)
  fix c r c' assume c: "ctx_ok cur n c" and eq: "device_count T c = (r, c')"
  have "device_count T c = (Inr n, c\<lparr>device_count_static := Some n\<rparr>)"
    using c by (intro device_count_value [OF good_runtimeD(1) [OF assms]]) (simp add: ctx_ok_def)
  moreover have "ctx_ok cur n (c\<lparr>device_count_static := Some n\<rparr>)"
    using c by (intro ctx_ok_frame [OF c]) (simp_all add: ctx_ok_def device_ok_def)
  ultimately show "ctx_ok cur n c' \<and> live (drv c') = live (drv c) \<and>
      (\<forall>e. r = Inl e \<longrightarrow> gcu_error e) \<and> (\<forall>x. r = Inr x \<longrightarrow> x = n)"
    using eq by auto
qed

lemma GetDevice_csafe:
  assumes "good_runtime T live cur n"
  shows "csafe cur n live (GetDevice T) (\<lambda>(err, d). err = topsSuccess \<and> 0 \<le> d \<and> d < n)"
proof (rule csafeI)
  fix c r c' assume c: "ctx_ok cur n c" and eq: "GetDevice T c = (r, c')"
  then have "device_ok cur n c" by (simp add: ctx_ok_def)
  then have "r = Inr (topsSuccess, effective_device cur c)" "c' = c"
    and "0 \<le> effective_device cur c" "effective_device cur c < n"
    using GetDevice_effective [OF good_runtimeD(1) [OF assms]] eq
    by (auto simp: device_ok_def effective_device_def)
  with c show "ctx_ok cur n c' \<and> live (drv c') = live (drv c) \<and> (\<forall>e. r = Inl e \<longrightarrow> gcu_error e) \<and>
      (\<forall>x. r = Inr x \<longrightarrow> (case x of (err, d) \<Rightarrow> err = topsSuccess \<and> 0 \<le> d \<and> d < n))"
    by auto
qed

lemma current_device_csafe:
  assumes "good_runtime T live cur n"
  shows "csafe cur n live (current_device T) (\<lambda>d. 0 \<le> d \<and> d < n)"
  unfolding current_device_def case_prod_beta
  by (rule csafe_bnd [OF GetDevice_csafe [OF assms]]) (auto intro!: csafe_intros)

lemma SetDevice_csafe:
  assumes T: "good_runtime T live cur n" and i: "0 \<le> i" "i < n"
  shows "csafe cur n live (SetDevice T i) (\<lambda>_. True)"
proof (rule csafeI)
  fix c r c' assume c: "ctx_ok cur n c" and eq: "SetDevice T i c = (r, c')"
  have ok: "device_ok cur n c" using c by (simp add: ctx_ok_def)
  obtain d' where d': "topsSetDevice T i (drv c) = (topsSuccess, d')" "cur d' = i"
    using good_runtimeD(1) [OF T] i unfolding device_runtime_def by (metis prod.collapse)
  have ld: "live d' = live (drv c)"
    using good_runtimeD(6) [OF T, of i] d'(1) unfolding quiet_def by (metis snd_conv)
  have "r = Inr topsSuccess \<and> c' = c\<lparr>targetDeviceIndex := -1,
      drv := (if i = cur (drv c) then drv c else d')\<rparr>"
    using eq good_runtimeD(1) [OF T] i d'
    by (auto simp: SetDevice_def device_runtime_def act_simps call_def call_check_def split: if_splits)
  moreover have "ctx_ok cur n (c\<lparr>targetDeviceIndex := -1,
      drv := (if i = cur (drv c) then drv c else d')\<rparr>)"
    using c i d' ok by (intro ctx_ok_frame [OF c]) (auto simp: device_ok_def)
  ultimately show "ctx_ok cur n c' \<and> live (drv c') = live (drv c) \<and>
      (\<forall>e. r = Inl e \<longrightarrow> gcu_error e) \<and> (\<forall>x. r = Inr x \<longrightarrow> True)"
    using ld by auto
qed

lemma hasPrimaryContext_csafe:
  assumes T: "good_runtime T live cur n" and i: "0 \<le> i" "i < n"
  shows "csafe cur n live (hasPrimaryContext T i) (\<lambda>_. True)"
proof (rule csafeI)
  fix c r c' assume c: "ctx_ok cur n c" and eq: "hasPrimaryContext T i c = (r, c')"
  have "dummyHasPrimaryContext T i c = (Inr True, c\<lparr>device_count_static := Some n\<rparr>)"
    using c i by (simp add: dummyHasPrimaryContext_def act_simps ctx_ok_def
        device_count_value [OF good_runtimeD(1) [OF T]])
  moreover have "ctx_ok cur n (c\<lparr>device_count_static := Some n\<rparr>)"
    using c by (intro ctx_ok_frame [OF c]) (simp_all add: ctx_ok_def device_ok_def)
  ultimately show "ctx_ok cur n c' \<and> live (drv c') = live (drv c) \<and>
      (\<forall>e. r = Inl e \<longrightarrow> gcu_error e) \<and> (\<forall>x. r = Inr x \<longrightarrow> True)"
    using eq c by (auto simp: hasPrimaryContext_def act_simps split: option.splits)
qed

lemma MaybeSetDevice_csafe:
  assumes T: "good_runtime T live cur n" and i: "0 \<le> i" "i < n"
  shows "csafe cur n live (MaybeSetDevice T i) (\<lambda>_. True)"
  unfolding MaybeSetDevice_def
proof (rule csafe_bnd [OF hasPrimaryContext_csafe [OF assms]])
  fix has :: bool
  have "ctx_ok cur n c \<Longrightarrow> ctx_ok cur n (c\<lparr>targetDeviceIndex := i\<rparr>)" for c
    by (rule ctx_ok_frame) (use i in \<open>auto simp: ctx_ok_def device_ok_def\<close>)
  then have "csafe cur n live (upd (\<lambda>c. c\<lparr>targetDeviceIndex := i\<rparr>)) (\<lambda>_. True)"
    by (intro csafe_upd) simp
  then have "csafe cur n live (seq (upd (\<lambda>c. c\<lparr>targetDeviceIndex := i\<rparr>)) (ret topsSuccess)) (\<lambda>_. True)"
    by (rule csafe_seq) (rule csafe_ret, simp)
  then show "csafe cur n live (if has then SetDevice T i
      else seq (upd (\<lambda>c. c\<lparr>targetDeviceIndex := i\<rparr>)) (ret topsSuccess)) (\<lambda>_. True)"
    using SetDevice_csafe [OF assms] by (cases has) simp_all
qed

lemma stream_handle_csafe:
  assumes "valid_stream n g"
  shows "csafe cur n live (stream_handle g) (\<lambda>_. True)"
proof (rule csafeI)
  fix c r c' assume c: "ctx_ok cur n c" and eq: "stream_handle g c = (r, c')"
  have small: "streamIdIndex 5 i < 32" for i
    by (simp add: streamIdIndex_def kStreamTypeBits_def unat_signed_drop_mask)
  have "\<exists>h. stream_handle g c = (Inr h, c)"
    using assms c small
    by (auto simp: valid_stream_def valid_stream_id_def stream_handle_def act_simps ctx_ok_def
        streams_ready_def isDefault_def DEFAULT_def isExt_def EXT_def kMaxStreamNum_def
        streamIdType_def [of 0] streamIdIndex_def [of _ 0])
  with c eq show "ctx_ok cur n c' \<and> live (drv c') = live (drv c) \<and>
      (\<forall>e. r = Inl e \<longrightarrow> gcu_error e) \<and> (\<forall>x. r = Inr x \<longrightarrow> True)"
    by auto
qed

lemma getCurrentGCUStream_csafe:
  assumes T: "good_runtime T live cur n"
  shows "csafe cur n live (getCurrentGCUStream T u (-1)) (valid_stream n)"
proof -
  have "csafe cur n live (getCurrentGCUStream T u d) (valid_stream n)" if d: "0 \<le> d" "d < n" for d
  proof (rule csafeI)
    fix c r c' assume c: "ctx_ok cur n c" and eq: "getCurrentGCUStream T u d c = (r, c')"
    have ready: "streams_ready c n" using c by (simp add: ctx_ok_def)
    have "nat d < length (the (current_streams c))" using ready d by (auto simp: streams_ready_def)
    then have "valid_stream_id (the (current_streams c) ! nat d)" using c by (simp add: ctx_ok_def)
    with eq c d getCurrentGCUStream_ready [OF ready d] show "ctx_ok cur n c' \<and>
        live (drv c') = live (drv c) \<and> (\<forall>e. r = Inl e \<longrightarrow> gcu_error e) \<and>
        (\<forall>x. r = Inr x \<longrightarrow> valid_stream n x)"
      by (auto simp: valid_stream_def GCUStreamForId_def)
  qed
  moreover have "getCurrentGCUStream T u (-1) c = getCurrentGCUStream T u (effective_device cur c) c"
    and "0 \<le> effective_device cur c \<and> effective_device cur c < n" if "ctx_ok cur n c" for c
  proof -
    have ok: "device_ok cur n c" "streams_ready c n" using that by (simp_all add: ctx_ok_def)
    then show e: "0 \<le> effective_device cur c \<and> effective_device cur c < n"
      by (auto simp: device_ok_def effective_device_def)
    have "current_device T c = (Inr (effective_device cur c), c)"
      by (simp add: current_device_def act_simps GetDevice_effective [OF good_runtimeD(1) [OF T] ok(1)])
    with e show "getCurrentGCUStream T u (-1) c = getCurrentGCUStream T u (effective_device cur c) c"
      by (auto simp: getCurrentGCUStream_def seq_def bnd_def or_current_device_def ret_def
          initGCUStreamsOnce_ready [OF ok(2)])
  qed
  ultimately show ?thesis unfolding csafe_def by metis
qed

lemma ctx_ok_events: "ctx_ok cur n c \<Longrightarrow> ctx_ok cur n (c\<lparr>event_pools := e\<rparr>)"
  by (rule ctx_ok_frame) (auto simp: ctx_ok_def device_ok_def)

lemma csafe_if:
  "(b \<Longrightarrow> csafe cur n live m Q) \<Longrightarrow> (\<not> b \<Longrightarrow> csafe cur n live k Q) \<Longrightarrow>
   csafe cur n live (if b then m else k) Q"
  by simp

lemma event_pool_get_csafe:
  assumes T: "good_runtime T live cur n" and i: "0 \<le> i" "i < n"
  shows "csafe cur n live (event_pool_get T i) (\<lambda>_. True)"
  unfolding event_pool_get_def
proof (rule csafe_bnd [OF device_count_csafe [OF T]])
  fix k assume k: "k = n"
  have get: "csafe cur n live (gets f) (\<lambda>_. True)" for f :: "_ \<Rightarrow> event_t list"
    by (simp add: csafe_def act_simps)
  have req: "csafe cur n live (require InternalAssert True) (\<lambda>_. True)" by (simp add: csafe_def act_simps)
  note call = csafe_call_check [OF quiet_othersD(13) [OF good_runtimeD(3) [OF T]]
    quiet_othersD(13) [OF good_runtimeD(4) [OF T]]]
  have take: "csafe cur n live
      (seq (upd (\<lambda>c. c\<lparr>event_pools := (event_pools c)(i := butlast es)\<rparr>)) (ret (last es))) (\<lambda>_. True)" for es
    by (intro csafe_seq csafe_upd csafe_ret) (simp_all add: ctx_ok_events)
  have "csafe cur n live (bnd (gets (\<lambda>c. event_pools c i)) (\<lambda>es. if es \<noteq> [] then
         seq (upd (\<lambda>c. c\<lparr>event_pools := (event_pools c)(i := butlast es)\<rparr>)) (ret (last es))
       else call_check (topsEventCreateWithFlags T topsEventDisableTiming))) (\<lambda>_. True)"
    by (rule csafe_bnd [OF get]) (rule csafe_if [OF take call])
  then show "csafe cur n live (seq (require InternalAssert (0 \<le> i)) (seq (require InternalAssert (i < k))
      (bnd (gets (\<lambda>c. event_pools c i)) (\<lambda>es. if es \<noteq> [] then
         seq (upd (\<lambda>c. c\<lparr>event_pools := (event_pools c)(i := butlast es)\<rparr>)) (ret (last es))
       else call_check (topsEventCreateWithFlags T topsEventDisableTiming))))) (\<lambda>_. True)"
    using i k req by (simp add: csafe_seq)
qed

lemma event_pool_return_csafe: "csafe cur n live (event_pool_return i e) (\<lambda>_. True)"
  unfolding event_pool_return_def by (intro csafe_upd) (simp add: ctx_ok_events)


lemma captureStatus_csafe:
  assumes T: "good_runtime T live cur n"
  shows "csafe cur n live (currentStreamCaptureStatusMayInitCtx T u) (\<lambda>_. True)"
  unfolding currentStreamCaptureStatusMayInitCtx_def
  by (rule csafe_bnd [OF getCurrentGCUStream_csafe [OF T]], rule csafe_bnd [OF stream_handle_csafe],
      assumption)
    (rule csafe_call_check [OF quiet_othersD(10) [OF good_runtimeD(3) [OF T]]
       quiet_othersD(10) [OF good_runtimeD(4) [OF T]]])

lemma call_others_csafe:
  assumes T: "good_runtime T live cur n"
  shows "csafe cur n live (call (topsGetLastError T)) (\<lambda>_. True)"
    and "csafe cur n live (call (topsEventQuery T e)) (\<lambda>_. True)"
    and "csafe cur n live (call (topsEventSynchronize T e)) (\<lambda>_. True)"
    and "csafe cur n live (call (topsEventRecord T e h)) (\<lambda>_. True)"
    and "csafe cur n live (call_check (topsMemGetInfo T)) (\<lambda>_. True)"
  using quiet_othersD [OF good_runtimeD(3) [OF T]] quiet_othersD [OF good_runtimeD(4) [OF T]]
  by (simp_all add: csafe_call csafe_call_check)


section \<open>The reference runtime meets the laws\<close>

lemma fold_max_base: "a \<le> fold (\<lambda>(q, m) a. max a (q + m)) xs (a :: nat)"
proof (induction xs arbitrary: a)
  case (Cons x xs)
  obtain q m where x: "x = (q, m)" by fastforce
  have "a \<le> max a (q + m)" by simp
  also have "\<dots> \<le> fold (\<lambda>(q, m) a. max a (q + m)) xs (max a (q + m))" by (rule Cons.IH)
  finally show ?case by (simp add: x)
qed simp

lemma fold_max_ge: "(q, m) \<in> set xs \<Longrightarrow> q + m \<le> fold (\<lambda>(q, m) a. max a (q + m)) xs (a :: nat)"
proof (induction xs arbitrary: a)
  case (Cons x xs)
  show ?case
  proof (cases "x = (q, m)")
    case True
    have "q + m \<le> max a (q + m)" by simp
    also have "\<dots> \<le> fold (\<lambda>(q, m) a. max a (q + m)) xs (max a (q + m))" by (rule fold_max_base)
    finally show ?thesis by (simp add: True)
  next
    case False
    with Cons show ?thesis by auto
  qed
qed simp

lemma sim_top_ge: "4096 \<le> sim_top d" "(q, m) \<in> set (sim_live d) \<Longrightarrow> q + m \<le> sim_top d"
  unfolding sim_top_def by (rule fold_max_base) (rule fold_max_ge)

lemma sim_live_free:
  assumes ok: "live_ok (set L)" and p: "(p, n) \<in> set L"
  shows "set (filter (\<lambda>(b, _). b \<noteq> p) L) = set L - {(p, n)}"
proof -
  have "m = n" if "(p, m) \<in> set L" for m
  proof (rule ccontr)
    assume "m \<noteq> n"
    then have "p + m \<le> p \<or> p + n \<le> p" using ok p that unfolding live_ok_def by blast
    moreover have "0 < m" "0 < n" using ok p that unfolding live_ok_def by blast+
    ultimately show False by simp
  qed
  then show ?thesis by auto
qed

lemma sim_memory: "memory_runtime sim_tops (\<lambda>d. set (sim_live d))"
proof -
  have malloc: "case topsMalloc sim_tops k d of ((err, p), d') \<Rightarrow>
      if err = topsSuccess
      then p \<noteq> 0 \<and> p + k < 2 ^ 64 \<and> set (sim_live d') = insert (p, k) (set (sim_live d)) \<and>
        (\<forall>(q, m)\<in>set (sim_live d). p + k \<le> q \<or> q + m \<le> p)
      else set (sim_live d') = set (sim_live d)" for k d
  proof -
    have "\<forall>(q, m)\<in>set (sim_live d). sim_top d + k \<le> q \<or> q + m \<le> sim_top d" "sim_top d \<noteq> 0"
      using sim_top_ge(1) [where d = d] sim_top_ge(2) [where d = d] by auto
    then show ?thesis by (simp add: sim_tops_def sim_malloc_def)
  qed
  have free: "set (sim_live (snd (topsFree sim_tops p d))) = set (sim_live d) - {(p, k)}"
    if "live_ok (set (sim_live d))" "(p, k) \<in> set (sim_live d)" for p k d
  proof -
    have "p \<in> fst ` set (sim_live d)" using that(2) by force
    then show ?thesis
      using sim_live_free [OF that] by (simp add: sim_tops_def sim_free_def)
  qed
  show ?thesis
    unfolding memory_runtime_def by (intro conjI allI impI) (rule malloc, elim conjE, rule free)
qed

lemma sim_good: "good_runtime sim_tops (\<lambda>d. set (sim_live d)) sim_cur 2"
  unfolding good_runtime_def
  by (intro conjI sim_device_runtime sim_quiet sim_memory)
    (simp_all add: quiet_others_def quiet_def sim_defs sim_malloc_def sim_free_def)

end
