(* ===== verification/AllocHeap.thy ===== *)
theory AllocHeap
  imports DeviceOps RuntimeLaws
begin

text \<open>
  The heap of blocks as linked segments: each block lies in one live segment of the device, is
  linked with the blocks next to it, and overlaps no other block. Merging two neighbours and
  splitting a block keep this.
\<close>

section \<open>Well-formed heaps\<close>


definition range_of :: "block \<Rightarrow> nat set" where
  "range_of x = {ptr x ..< ptr x + bsize x}"

definition node_ok :: "(bid \<Rightarrow> addr \<times> nat) \<Rightarrow> (addr \<times> nat) set \<Rightarrow> bid \<Rightarrow> block \<Rightarrow> bool" where
  "node_ok seg L b x \<longleftrightarrow> 0 < bsize x \<and> seg b \<in> L \<and> fst (seg b) \<le> ptr x \<and>
     ptr x + bsize x \<le> fst (seg b) + snd (seg b) \<and>
     (prv x = None \<longleftrightarrow> ptr x = fst (seg b)) \<and>
     (nxt x = None \<longleftrightarrow> ptr x + bsize x = fst (seg b) + snd (seg b))"

definition succ_ok :: "(bid \<Rightarrow> addr \<times> nat) \<Rightarrow> bid \<Rightarrow> block \<Rightarrow> bid \<Rightarrow> block \<Rightarrow> bool" where
  "succ_ok seg b x c y \<longleftrightarrow> prv y = Some b \<and> ptr y = ptr x + bsize x \<and> seg c = seg b \<and>
     pool y = pool x \<and> b_stream y = b_stream x"

definition heap_ok :: "(bid \<Rightarrow> addr \<times> nat) \<Rightarrow> (addr \<times> nat) set \<Rightarrow> (bid \<Rightarrow> block option) \<Rightarrow> bool" where
  "heap_ok seg L h \<longleftrightarrow>
     (\<forall>b x. h b = Some x \<longrightarrow> node_ok seg L b x) \<and>
     (\<forall>b x c. h b = Some x \<longrightarrow> nxt x = Some c \<longrightarrow> (\<exists>y. h c = Some y \<and> succ_ok seg b x c y)) \<and>
     (\<forall>b x a. h b = Some x \<longrightarrow> prv x = Some a \<longrightarrow> (\<exists>y. h a = Some y \<and> nxt y = Some b)) \<and>
     (\<forall>b x c y. h b = Some x \<longrightarrow> h c = Some y \<longrightarrow> b \<noteq> c \<longrightarrow> range_of x \<inter> range_of y = {})"

lemma heap_okD:
  assumes "heap_ok seg L h"
  shows "h b = Some x \<Longrightarrow> node_ok seg L b x"
    and "h b = Some x \<Longrightarrow> nxt x = Some c \<Longrightarrow> \<exists>y. h c = Some y \<and> succ_ok seg b x c y"
    and "h b = Some x \<Longrightarrow> prv x = Some a \<Longrightarrow> \<exists>y. h a = Some y \<and> nxt y = Some b"
    and "h b = Some x \<Longrightarrow> h c = Some y \<Longrightarrow> b \<noteq> c \<Longrightarrow> range_of x \<inter> range_of y = {}"
  using assms unfolding heap_ok_def by blast+

lemma heap_ok_prv:
  assumes "heap_ok seg L h" "h b = Some x" "prv x = Some a"
  obtains y where "h a = Some y" "nxt y = Some b" "succ_ok seg a y b x"
  using heap_okD(2,3) [OF assms(1)] assms(2,3) by (metis option.inject)


lemma succ_less:
  assumes "heap_ok seg L h" "h b = Some x" "nxt x = Some c" "h c = Some y"
  shows "ptr x < ptr y" and "succ_ok seg b x c y"
proof -
  from heap_okD(2) [OF assms(1-3)] assms(4) show s: "succ_ok seg b x c y" by auto
  from heap_okD(1) [OF assms(1,2)] s show "ptr x < ptr y" by (simp add: node_ok_def succ_ok_def)
qed

lemma heap_okI:
  assumes "\<And>b x. h b = Some x \<Longrightarrow> node_ok seg L b x"
    and "\<And>b x c. h b = Some x \<Longrightarrow> nxt x = Some c \<Longrightarrow> \<exists>y. h c = Some y \<and> succ_ok seg b x c y"
    and "\<And>b x a. h b = Some x \<Longrightarrow> prv x = Some a \<Longrightarrow> \<exists>y. h a = Some y \<and> nxt y = Some b"
    and "\<And>b x c y. h b = Some x \<Longrightarrow> h c = Some y \<Longrightarrow> b \<noteq> c \<Longrightarrow> range_of x \<inter> range_of y = {}"
  shows "heap_ok seg L h"
  using assms unfolding heap_ok_def by blast


lemma succ_unique:
  assumes H: "heap_ok seg L h" and "h b = Some x" "nxt x = Some c" "h b' = Some x'" "nxt x' = Some c"
  shows "b = b'"
  using heap_okD(2) [OF H assms(2,3)] heap_okD(2) [OF H assms(4,5)] by (auto simp: succ_ok_def)

section \<open>Merging a block with the one before it\<close>

definition merge_prev :: "(bid \<Rightarrow> block option) \<Rightarrow> bid \<Rightarrow> block \<Rightarrow> bid \<Rightarrow> block \<Rightarrow> (bid \<Rightarrow> block option) \<Rightarrow> bool" where
  "merge_prev h d xd s xs h' \<longleftrightarrow> h d = Some xd \<and> h s = Some xs \<and> prv xd = Some s \<and> h' s = None \<and>
     h' d = Some (xd\<lparr>ptr := ptr xs, prv := prv xs, bsize := bsize xd + bsize xs\<rparr>) \<and>
     (\<forall>b. b \<noteq> s \<longrightarrow> b \<noteq> d \<longrightarrow>
        h' b = map_option (\<lambda>x. if prv xs = Some b then x\<lparr>nxt := Some d\<rparr> else x) (h b))"

lemma merge_prevD:
  assumes "merge_prev h d xd s xs h'" and H: "heap_ok seg L h"
  shows "nxt xs = Some d" and "succ_ok seg s xs d xd" and "d \<noteq> s"
    and "h' b = Some x' \<Longrightarrow> b \<noteq> s"
    and "h' b = Some x' \<Longrightarrow> b \<noteq> d \<Longrightarrow>
      \<exists>x. h b = Some x \<and> x' = (if prv xs = Some b then x\<lparr>nxt := Some d\<rparr> else x)"
proof -
  have m: "h d = Some xd" "h s = Some xs" "prv xd = Some s" "h' s = None"
      "b \<noteq> s \<Longrightarrow> b \<noteq> d \<Longrightarrow> h' b = map_option (\<lambda>x. if prv xs = Some b then x\<lparr>nxt := Some d\<rparr> else x) (h b)"
    using assms(1) by (simp_all add: merge_prev_def)
  show nx: "nxt xs = Some d" using heap_okD(3) [OF H m(1,3)] m(2) by auto
  show "succ_ok seg s xs d xd" by (rule succ_less [OF H m(2) nx m(1)])
  show "d \<noteq> s" using succ_less(1) [OF H m(2) nx m(1)] m(1,2) by auto
  show "h' b = Some x' \<Longrightarrow> b \<noteq> s" using m(4) by auto
  then show "h' b = Some x' \<Longrightarrow> b \<noteq> d \<Longrightarrow>
      \<exists>x. h b = Some x \<and> x' = (if prv xs = Some b then x\<lparr>nxt := Some d\<rparr> else x)"
    using m(5) by (cases "h b") auto
qed

lemma merge_prev_node:
  assumes m: "merge_prev h d xd s xs h'" and H: "heap_ok seg L h" and b: "h' b = Some x'"
  shows "node_ok seg L b x'"
proof (cases "b = d")
  case True
  have "node_ok seg L d xd" "node_ok seg L s xs"
    using heap_okD(1) [OF H] m unfolding merge_prev_def by blast+
  with True show ?thesis
    using b m merge_prevD(2) [OF m H] by (auto simp: node_ok_def succ_ok_def merge_prev_def)
next
  case False
  then obtain x where x: "h b = Some x" "x' = (if prv xs = Some b then x\<lparr>nxt := Some d\<rparr> else x)"
    using merge_prevD(5) [OF m H b] by blast
  have "h s = Some xs" using m by (simp add: merge_prev_def)
  then have "nxt x = Some s" if "prv xs = Some b" using heap_okD(3) [OF H _ that] x(1) by auto
  then show ?thesis using heap_okD(1) [OF H x(1)] x(2) by (auto simp: node_ok_def)
qed

lemma merge_prev_succ:
  assumes m: "merge_prev h d xd s xs h'" and H: "heap_ok seg L h" and b: "h' b = Some x'"
    and c: "nxt x' = Some c"
  shows "\<exists>y. h' c = Some y \<and> succ_ok seg b x' c y"
proof -
  have d: "h d = Some xd" and s: "h s = Some xs" using m by (simp_all add: merge_prev_def)
  have ho: "h' e = map_option (\<lambda>x. if prv xs = Some e then x\<lparr>nxt := Some d\<rparr> else x) (h e)"
    if "e \<noteq> s" "e \<noteq> d" for e using m that by (simp add: merge_prev_def)
  note sd = succ_less(1) [OF H s merge_prevD(1) [OF m H] d] merge_prevD(2) [OF m H]
  show ?thesis
  proof (cases "b = d")
    case True
    then have x': "x' = xd\<lparr>ptr := ptr xs, prv := prv xs, bsize := bsize xd + bsize xs\<rparr>" "nxt xd = Some c"
      using b m c by (auto simp: merge_prev_def)
    then obtain y where y: "h c = Some y" "succ_ok seg d xd c y" using heap_okD(2) [OF H d] by auto
    have "ptr xd < ptr y" by (rule succ_less [OF H d x'(2) y(1)])
    then have "c \<noteq> d" "c \<noteq> s" using y(1) d s sd(1) by auto
    then show ?thesis using y sd(2) x'(1) True ho [of c] by (auto simp: succ_ok_def)
  next
    case False
    then obtain x where x: "h b = Some x" "x' = (if prv xs = Some b then x\<lparr>nxt := Some d\<rparr> else x)"
      using merge_prevD(5) [OF m H b] by blast
    show ?thesis
    proof (cases "prv xs = Some b")
      case True
      have "nxt x = Some s" using heap_okD(3) [OF H s True] x(1) by auto
      from succ_less(2) [OF H x(1) this s] have "succ_ok seg b x s xs" .
      then show ?thesis using x(2) True c m sd(2) by (auto simp: succ_ok_def merge_prev_def)
    next
      case no: False
      then obtain y where y: "h c = Some y" "succ_ok seg b x c y"
        using heap_okD(2) [OF H x(1)] x(2) c by auto
      have "c \<noteq> s" using y no s by (auto simp: succ_ok_def)
      moreover have "c \<noteq> d" using y m d merge_prevD(4) [OF m H b] by (auto simp: succ_ok_def merge_prev_def)
      ultimately show ?thesis using y x(2) no ho [of c] by (auto simp: succ_ok_def)
    qed
  qed
qed

lemma merge_prev_pred:
  assumes m: "merge_prev h d xd s xs h'" and H: "heap_ok seg L h" and b: "h' b = Some x'"
    and a: "prv x' = Some a"
  shows "\<exists>y. h' a = Some y \<and> nxt y = Some b"
proof -
  have d: "h d = Some xd" and s: "h s = Some xs" using m by (simp_all add: merge_prev_def)
  have ho: "h' e = map_option (\<lambda>x. if prv xs = Some e then x\<lparr>nxt := Some d\<rparr> else x) (h e)"
    if "e \<noteq> s" "e \<noteq> d" for e using m that by (simp add: merge_prev_def)
  show ?thesis
  proof (cases "b = d")
    case True
    then have a': "prv xs = Some a" using b m a by (auto simp: merge_prev_def)
    then obtain y where y: "h a = Some y" "nxt y = Some s" using heap_okD(3) [OF H s] by auto
    have "a \<noteq> s" "a \<noteq> d"
      using succ_less(1) [OF H y s] succ_less(1) [OF H s merge_prevD(1) [OF m H] d] y(1) s d by auto
    then show ?thesis using ho [of a] y(1) a' True by auto
  next
    case False
    then obtain x where x: "h b = Some x" "x' = (if prv xs = Some b then x\<lparr>nxt := Some d\<rparr> else x)"
      using merge_prevD(5) [OF m H b] by blast
    then obtain y where y: "h a = Some y" "nxt y = Some b"
      using heap_okD(3) [OF H x(1)] a by (auto split: if_splits)
    have "a \<noteq> s" using y merge_prevD(1) [OF m H] s False by auto
    moreover have "prv xs \<noteq> Some a" using heap_okD(3) [OF H s, of a] y merge_prevD(4) [OF m H b] by auto
    ultimately show ?thesis using ho [of a] m y d by (cases "a = d") (auto simp: merge_prev_def)
  qed
qed

text \<open>Blocks stay disjoint when every new range is covered by ranges of distinct old blocks.\<close>

lemma disjoint_cover:
  assumes H: "heap_ok seg L h"
    and cover: "\<And>b x' i. h' b = Some x' \<Longrightarrow> i \<in> range_of x' \<Longrightarrow>
      \<exists>e x. e \<in> K b \<and> h e = Some x \<and> i \<in> range_of x"
    and K: "\<And>b c. h' b \<noteq> None \<Longrightarrow> h' c \<noteq> None \<Longrightarrow> b \<noteq> c \<Longrightarrow> K b \<inter> K c = {}"
    and b: "h' b = Some x'" and c: "h' c = Some y'" and bc: "b \<noteq> c"
  shows "range_of x' \<inter> range_of y' = {}"
proof (rule ccontr)
  assume "range_of x' \<inter> range_of y' \<noteq> {}"
  then obtain i where i: "i \<in> range_of x'" "i \<in> range_of y'" by blast
  then obtain e x f y where "e \<in> K b" "h e = Some x" "i \<in> range_of x"
      and "f \<in> K c" "h f = Some y" "i \<in> range_of y"
    using cover [OF b i(1)] cover [OF c i(2)] by blast
  moreover have "e \<noteq> f" using K [OF _ _ bc] b c \<open>e \<in> K b\<close> \<open>f \<in> K c\<close> by auto
  ultimately show False using heap_okD(4) [OF H] by blast
qed

lemma merge_prev_ok:
  assumes m: "merge_prev h d xd s xs h'" and H: "heap_ok seg L h"
  shows "heap_ok seg L h'"
proof (rule heap_okI)
  let ?K = "\<lambda>b. if b = d then {d, s} else {b}"
  have cover: "\<exists>e x. e \<in> ?K b \<and> h e = Some x \<and> i \<in> range_of x"
    if b: "h' b = Some x'" and i: "i \<in> range_of x'" for b x' i
  proof (cases "b = d")
    case True
    then have "i \<in> range_of xs \<or> i \<in> range_of xd"
      using b i m merge_prevD(2) [OF m H] by (auto simp: range_of_def succ_ok_def merge_prev_def)
    moreover have "h d = Some xd" "h s = Some xs" using m by (simp_all add: merge_prev_def)
    ultimately show ?thesis using True by (metis insert_iff)
  next
    case False
    then show ?thesis using i merge_prevD(5) [OF m H b] by (auto simp: range_of_def split: if_splits)
  qed
  have K: "?K b \<inter> ?K c = {}" if "h' b \<noteq> None" "h' c \<noteq> None" "b \<noteq> c" for b c
    using m that by (auto simp: merge_prev_def)
  show "h' b = Some x' \<Longrightarrow> h' c = Some y' \<Longrightarrow> b \<noteq> c \<Longrightarrow> range_of x' \<inter> range_of y' = {}" for b x' c y'
    by (rule disjoint_cover [OF H cover K])
qed (rule merge_prev_node [OF m H] merge_prev_succ [OF m H] merge_prev_pred [OF m H]; assumption)+

section \<open>Merging a block with the one after it\<close>

definition merge_next :: "(bid \<Rightarrow> block option) \<Rightarrow> bid \<Rightarrow> block \<Rightarrow> bid \<Rightarrow> block \<Rightarrow> (bid \<Rightarrow> block option) \<Rightarrow> bool" where
  "merge_next h d xd s xs h' \<longleftrightarrow> h d = Some xd \<and> h s = Some xs \<and> nxt xd = Some s \<and> h' s = None \<and>
     h' d = Some (xd\<lparr>nxt := nxt xs, bsize := bsize xd + bsize xs\<rparr>) \<and>
     (\<forall>b. b \<noteq> s \<longrightarrow> b \<noteq> d \<longrightarrow>
        h' b = map_option (\<lambda>x. if nxt xs = Some b then x\<lparr>prv := Some d\<rparr> else x) (h b))"

lemma merge_nextD:
  assumes "merge_next h d xd s xs h'" and H: "heap_ok seg L h"
  shows "h d = Some xd" "h s = Some xs" "nxt xd = Some s"
    and "succ_ok seg d xd s xs" and "ptr xd < ptr xs" and "d \<noteq> s"
    and "h' b = Some x' \<Longrightarrow> b \<noteq> s"
    and "h' b = Some x' \<Longrightarrow> b \<noteq> d \<Longrightarrow>
      \<exists>x. h b = Some x \<and> x' = (if nxt xs = Some b then x\<lparr>prv := Some d\<rparr> else x)"
    and "h' d = Some (xd\<lparr>nxt := nxt xs, bsize := bsize xd + bsize xs\<rparr>)"
    and "h b = Some x \<Longrightarrow> b \<noteq> d \<Longrightarrow> b \<noteq> s \<Longrightarrow>
      h' b = Some (if nxt xs = Some b then x\<lparr>prv := Some d\<rparr> else x)"
proof -
  have m: "h d = Some xd" "h s = Some xs" "nxt xd = Some s" "h' s = None"
      "b \<noteq> s \<Longrightarrow> b \<noteq> d \<Longrightarrow> h' b = map_option (\<lambda>x. if nxt xs = Some b then x\<lparr>prv := Some d\<rparr> else x) (h b)"
    using assms(1) by (simp_all add: merge_next_def)
  show "h d = Some xd" "h s = Some xs" "nxt xd = Some s" by fact+
  show "succ_ok seg d xd s xs" "ptr xd < ptr xs" by (rule succ_less [OF H m(1,3,2)])+
  then show "d \<noteq> s" using m(1,2) by auto
  show "h' b = Some x' \<Longrightarrow> b \<noteq> s" using m(4) by auto
  then show "h' b = Some x' \<Longrightarrow> b \<noteq> d \<Longrightarrow>
      \<exists>x. h b = Some x \<and> x' = (if nxt xs = Some b then x\<lparr>prv := Some d\<rparr> else x)"
    using m(5) by (cases "h b") auto
  show "h' d = Some (xd\<lparr>nxt := nxt xs, bsize := bsize xd + bsize xs\<rparr>)"
    using assms(1) by (simp add: merge_next_def)
  show "h b = Some x \<Longrightarrow> b \<noteq> d \<Longrightarrow> b \<noteq> s \<Longrightarrow>
      h' b = Some (if nxt xs = Some b then x\<lparr>prv := Some d\<rparr> else x)"
    using m(5) by simp
qed

lemma merge_next_node:
  assumes m: "merge_next h d xd s xs h'" and H: "heap_ok seg L h" and b: "h' b = Some x'"
  shows "node_ok seg L b x'"
proof (cases "b = d")
  case True
  then show ?thesis
    using b merge_nextD(9) [OF m H] heap_okD(1) [OF H merge_nextD(1) [OF m H]]
      heap_okD(1) [OF H merge_nextD(2) [OF m H]] merge_nextD(4) [OF m H]
    by (auto simp: node_ok_def succ_ok_def)
next
  case False
  then obtain x where x: "h b = Some x" "x' = (if nxt xs = Some b then x\<lparr>prv := Some d\<rparr> else x)"
    using merge_nextD(8) [OF m H b] by blast
  have "prv x = Some s" if "nxt xs = Some b"
    using heap_okD(2) [OF H merge_nextD(2) [OF m H] that] x(1) by (auto simp: succ_ok_def)
  then show ?thesis using heap_okD(1) [OF H x(1)] x(2) by (auto simp: node_ok_def)
qed

lemma merge_next_succ:
  assumes m: "merge_next h d xd s xs h'" and H: "heap_ok seg L h" and b: "h' b = Some x'"
    and c: "nxt x' = Some c"
  shows "\<exists>y. h' c = Some y \<and> succ_ok seg b x' c y"
proof (cases "b = d")
  case True
  then have x': "x' = xd\<lparr>nxt := nxt xs, bsize := bsize xd + bsize xs\<rparr>" "nxt xs = Some c"
    using b c merge_nextD(9) [OF m H] by auto
  then obtain y where y: "h c = Some y" "succ_ok seg s xs c y"
    using heap_okD(2) [OF H merge_nextD(2) [OF m H]] by auto
  have "ptr xs < ptr y" by (rule succ_less [OF H merge_nextD(2) [OF m H] x'(2) y(1)])
  then have "c \<noteq> d" "c \<noteq> s" using y(1) merge_nextD(1,2,5) [OF m H] by auto
  then show ?thesis
    using merge_nextD(10) [OF m H y(1)] y(2) merge_nextD(4) [OF m H] x' True by (auto simp: succ_ok_def)
next
  case False
  then obtain x where x: "h b = Some x" "x' = (if nxt xs = Some b then x\<lparr>prv := Some d\<rparr> else x)"
    using merge_nextD(8) [OF m H b] by blast
  then have c': "nxt x = Some c" using c by (auto split: if_splits)
  then obtain y where y: "h c = Some y" "succ_ok seg b x c y" using heap_okD(2) [OF H x(1)] by auto
  have "c \<noteq> s" using succ_unique [OF H x(1) _ merge_nextD(1,3) [OF m H]] c' False by auto
  moreover have "nxt xs \<noteq> Some c"
    using succ_unique [OF H x(1) c' merge_nextD(2) [OF m H]] merge_nextD(7) [OF m H b] by auto
  ultimately show ?thesis
    using merge_nextD(9) [OF m H] merge_nextD(10) [OF m H y(1)] merge_nextD(1) [OF m H] y x(2)
    by (cases "c = d") (auto simp: succ_ok_def)
qed

lemma merge_next_pred:
  assumes m: "merge_next h d xd s xs h'" and H: "heap_ok seg L h" and b: "h' b = Some x'"
    and a: "prv x' = Some a"
  shows "\<exists>y. h' a = Some y \<and> nxt y = Some b"
proof (cases "b = d")
  case True
  then have "prv xd = Some a" using b a merge_nextD(9) [OF m H] by auto
  then obtain y where y: "h a = Some y" "nxt y = Some d" using heap_okD(3) [OF H merge_nextD(1) [OF m H]] by auto
  have "ptr y < ptr xd" by (rule succ_less [OF H y merge_nextD(1) [OF m H]])
  then have "a \<noteq> d" "a \<noteq> s" using y(1) merge_nextD(1,2,5) [OF m H] by auto
  then show ?thesis using merge_nextD(10) [OF m H y(1)] y(2) True by auto
next
  case False
  then obtain x where x: "h b = Some x" "x' = (if nxt xs = Some b then x\<lparr>prv := Some d\<rparr> else x)"
    using merge_nextD(8) [OF m H b] by blast
  show ?thesis
  proof (cases "nxt xs = Some b")
    case True
    then show ?thesis using x(2) a merge_nextD(9) [OF m H] by auto
  next
    case no: False
    then obtain y where y: "h a = Some y" "nxt y = Some b" using heap_okD(3) [OF H x(1)] x(2) a by auto
    have "a \<noteq> s" "a \<noteq> d"
      using y no merge_nextD(1-3) [OF m H] merge_nextD(7) [OF m H b] by auto
    then show ?thesis using merge_nextD(10) [OF m H y(1)] y(2) by auto
  qed
qed

lemma merge_next_ok:
  assumes m: "merge_next h d xd s xs h'" and H: "heap_ok seg L h"
  shows "heap_ok seg L h'"
proof (rule heap_okI)
  let ?K = "\<lambda>b. if b = d then {d, s} else {b}"
  have cover: "\<exists>e x. e \<in> ?K b \<and> h e = Some x \<and> i \<in> range_of x"
    if b: "h' b = Some x'" and i: "i \<in> range_of x'" for b x' i
  proof (cases "b = d")
    case True
    then have "i \<in> range_of xs \<or> i \<in> range_of xd"
      using b i merge_nextD(4,9) [OF m H] by (auto simp: range_of_def succ_ok_def)
    then show ?thesis using True merge_nextD(1,2) [OF m H] by (metis insert_iff)
  next
    case False
    then show ?thesis using i merge_nextD(8) [OF m H b] by (auto simp: range_of_def split: if_splits)
  qed
  have K: "?K b \<inter> ?K c = {}" if "h' b \<noteq> None" "h' c \<noteq> None" "b \<noteq> c" for b c
    using m that by (auto simp: merge_next_def)
  show "h' b = Some x' \<Longrightarrow> h' c = Some y' \<Longrightarrow> b \<noteq> c \<Longrightarrow> range_of x' \<inter> range_of y' = {}" for b x' c y'
    by (rule disjoint_cover [OF H cover K])
qed (rule merge_next_node [OF m H] merge_next_succ [OF m H] merge_next_pred [OF m H]; assumption)+

section \<open>Splitting a block\<close>

text \<open>The new block \<open>f\<close> takes the first \<open>n\<close> bytes of \<open>r\<close>.\<close>

definition split_at ::
  "(bid \<Rightarrow> block option) \<Rightarrow> bid \<Rightarrow> block \<Rightarrow> bid \<Rightarrow> block \<Rightarrow> nat \<Rightarrow> (bid \<Rightarrow> block option) \<Rightarrow> bool" where
  "split_at h r xr f xf n h' \<longleftrightarrow> h r = Some xr \<and> h f = None \<and> 0 < n \<and> n < bsize xr \<and>
     h' f = Some xf \<and> ptr xf = ptr xr \<and> bsize xf = n \<and> prv xf = prv xr \<and> nxt xf = Some r \<and>
     pool xf = pool xr \<and> b_stream xf = b_stream xr \<and>
     h' r = Some (xr\<lparr>prv := Some f, ptr := ptr xr + n, bsize := bsize xr - n\<rparr>) \<and>
     (\<forall>b. b \<noteq> r \<longrightarrow> b \<noteq> f \<longrightarrow>
        h' b = map_option (\<lambda>x. if prv xr = Some b then x\<lparr>nxt := Some f\<rparr> else x) (h b))"

lemma split_atD:
  assumes "split_at h r xr f xf n h'"
  shows "h r = Some xr" "h f = None" "0 < n" "n < bsize xr" "h' f = Some xf" "ptr xf = ptr xr"
    "bsize xf = n" "prv xf = prv xr" "nxt xf = Some r" "pool xf = pool xr" "b_stream xf = b_stream xr"
    "h' r = Some (xr\<lparr>prv := Some f, ptr := ptr xr + n, bsize := bsize xr - n\<rparr>)" "f \<noteq> r"
    and "h b = Some x \<Longrightarrow> b \<noteq> r \<Longrightarrow> h' b = Some (if prv xr = Some b then x\<lparr>nxt := Some f\<rparr> else x)"
    and "h' b = Some x' \<Longrightarrow> b \<noteq> r \<Longrightarrow> b \<noteq> f \<Longrightarrow>
      \<exists>x. h b = Some x \<and> x' = (if prv xr = Some b then x\<lparr>nxt := Some f\<rparr> else x)"
proof -
  show 1: "h r = Some xr" "h f = None" "0 < n" "n < bsize xr" "h' f = Some xf" "ptr xf = ptr xr"
    "bsize xf = n" "prv xf = prv xr" "nxt xf = Some r" "pool xf = pool xr" "b_stream xf = b_stream xr"
    "h' r = Some (xr\<lparr>prv := Some f, ptr := ptr xr + n, bsize := bsize xr - n\<rparr>)"
    using assms by (simp_all add: split_at_def)
  from 1(1,2) show "f \<noteq> r" by auto
  have e: "b \<noteq> r \<Longrightarrow> b \<noteq> f \<Longrightarrow>
      h' b = map_option (\<lambda>x. if prv xr = Some b then x\<lparr>nxt := Some f\<rparr> else x) (h b)"
    using assms by (simp add: split_at_def)
  show "h b = Some x \<Longrightarrow> b \<noteq> r \<Longrightarrow> h' b = Some (if prv xr = Some b then x\<lparr>nxt := Some f\<rparr> else x)"
    using e 1(2) by (cases "b = f") auto
  show "h' b = Some x' \<Longrightarrow> b \<noteq> r \<Longrightarrow> b \<noteq> f \<Longrightarrow>
      \<exists>x. h b = Some x \<and> x' = (if prv xr = Some b then x\<lparr>nxt := Some f\<rparr> else x)"
    using e by (cases "h b") auto
qed

lemma split_node:
  assumes m: "split_at h r xr f xf n h'" and H: "heap_ok seg L h" and b: "h' b = Some x'"
  shows "node_ok (seg(f := seg r)) L b x'"
proof -
  note D = split_atD [OF m]
  have r: "node_ok seg L r xr" by (rule heap_okD(1) [OF H D(1)])
  consider "b = f" | "b = r" | "b \<noteq> f" "b \<noteq> r" by blast
  then show ?thesis
  proof cases
    case 1
    then show ?thesis using r b D(3-9) by (auto simp: node_ok_def)
  next
    case 2
    then show ?thesis using r b D(3,4,12,13) by (auto simp: node_ok_def)
  next
    case 3
    then obtain x where x: "h b = Some x" "x' = (if prv xr = Some b then x\<lparr>nxt := Some f\<rparr> else x)"
      using D(15) [OF b] by blast
    have "nxt x = Some r" if "prv xr = Some b" using heap_okD(3) [OF H D(1) that] x(1) by auto
    then show ?thesis using heap_okD(1) [OF H x(1)] x(2) 3 by (auto simp: node_ok_def)
  qed
qed

lemma split_succ:
  assumes m: "split_at h r xr f xf n h'" and H: "heap_ok seg L h" and b: "h' b = Some x'"
    and c: "nxt x' = Some c"
  shows "\<exists>y. h' c = Some y \<and> succ_ok (seg(f := seg r)) b x' c y"
proof -
  note D = split_atD [OF m]
  consider "b = f" | "b = r" | "b \<noteq> f" "b \<noteq> r" "prv xr = Some b" | "b \<noteq> f" "b \<noteq> r" "prv xr \<noteq> Some b" by blast
  then show ?thesis
  proof cases
    case 1
    then show ?thesis using b c D(5-13) by (auto simp: succ_ok_def)
  next
    case 2
    then have x': "x' = xr\<lparr>prv := Some f, ptr := ptr xr + n, bsize := bsize xr - n\<rparr>" "nxt xr = Some c"
      using b c D(12) by auto
    obtain y where y: "h c = Some y" "succ_ok seg r xr c y" using heap_okD(2) [OF H D(1) x'(2)] by blast
    have "ptr xr < ptr y" by (rule succ_less [OF H D(1) x'(2) y(1)])
    then have "c \<noteq> r" using y(1) D(1) by auto
    moreover have "c \<noteq> f" using y(1) D(2) by auto
    ultimately show ?thesis using D(14) [OF y(1)] y(2) x' 2 D(4,13) by (auto simp: succ_ok_def)
  next
    case 3
    then obtain x where x: "h b = Some x" "x' = x\<lparr>nxt := Some f\<rparr>" using D(15) [OF b] by auto
    have "nxt x = Some r" using heap_okD(3) [OF H D(1) 3(3)] x(1) by auto
    then have "succ_ok seg b x r xr" using succ_less [OF H x(1) _ D(1)] by simp
    then show ?thesis using x(2) c 3 D(5-11) by (auto simp: succ_ok_def)
  next
    case 4
    then have x: "h b = Some x'" using D(15) [OF b] by auto
    then obtain y where y: "h c = Some y" "succ_ok seg b x' c y" using heap_okD(2) [OF H _ c] by auto
    have "c \<noteq> r" using y D(1) 4(3) by (auto simp: succ_ok_def)
    moreover have "c \<noteq> f" using y(1) D(2) by auto
    ultimately show ?thesis using D(14) [OF y(1)] y(2) 4 by (auto simp: succ_ok_def)
  qed
qed

lemma split_pred:
  assumes m: "split_at h r xr f xf n h'" and H: "heap_ok seg L h" and b: "h' b = Some x'"
    and a: "prv x' = Some a"
  shows "\<exists>y. h' a = Some y \<and> nxt y = Some b"
proof -
  note D = split_atD [OF m]
  consider "b = f" | "b = r" | "b \<noteq> f" "b \<noteq> r" by blast
  then show ?thesis
  proof cases
    case 1
    then have a': "prv xr = Some a" using b a D(5,8) by auto
    then obtain y where y: "h a = Some y" "nxt y = Some r" using heap_okD(3) [OF H D(1)] by blast
    have "ptr y < ptr xr" by (rule succ_less [OF H y D(1)])
    then have "a \<noteq> r" using y(1) D(1) by auto
    then show ?thesis using D(14) [OF y(1)] a' 1 by auto
  next
    case 2
    then show ?thesis using b a D(5,9,12) by auto
  next
    case 3
    then obtain x where x: "h b = Some x" "x' = (if prv xr = Some b then x\<lparr>nxt := Some f\<rparr> else x)"
      using D(15) [OF b] by blast
    then obtain y where y: "h a = Some y" "nxt y = Some b"
      using heap_okD(3) [OF H x(1)] a by (auto split: if_splits)
    have no: "prv xr \<noteq> Some a" using heap_okD(3) [OF H D(1), of a] y 3(2) by auto
    show ?thesis using D(14) [OF y(1)] no y D(1,12) by (cases "a = r") auto
  qed
qed

lemma split_ok:
  assumes m: "split_at h r xr f xf n h'" and H: "heap_ok seg L h"
  shows "heap_ok (seg(f := seg r)) L h'"
proof (rule heap_okI)
  note D = split_atD [OF m]
  have old: "\<exists>y. h b = Some y \<and> range_of x' = range_of y" if "h' b = Some x'" "b \<noteq> f" "b \<noteq> r" for b x'
    using D(15) [OF that(1)] that(2,3) by (auto simp: range_of_def)
  have xr: "range_of xf \<subseteq> range_of xr" "range_of (the (h' r)) \<subseteq> range_of xr"
      "range_of xf \<inter> range_of (the (h' r)) = {}"
    using D(3-7,12) by (auto simp: range_of_def)
  have part: "range_of x' \<subseteq> range_of xr" if "h' b = Some x'" "b = f \<or> b = r" for b x'
    using that xr D(5,12) by auto
  have new: "range_of x' \<inter> range_of y' = {}"
    if "h' b = Some x'" "h' c = Some y'" "b = f \<or> b = r" "c \<noteq> f" "c \<noteq> r" for b x' c y'
    using part [OF that(1,3)] old [OF that(2,4,5)] heap_okD(4) [OF H D(1)] that(5) by blast
  show "range_of x' \<inter> range_of y' = {}" if bc: "h' b = Some x'" "h' c = Some y'" "b \<noteq> c" for b x' c y'
  proof -
    consider "b = f" "c = r" | "b = r" "c = f" | "b = f \<or> b = r" "c \<noteq> f" "c \<noteq> r"
      | "c = f \<or> c = r" "b \<noteq> f" "b \<noteq> r" | "b \<noteq> f" "b \<noteq> r" "c \<noteq> f" "c \<noteq> r" using bc(3) by blast
    then show ?thesis
    proof cases
      case 1 then show ?thesis using bc xr(3) D(5) by auto
    next
      case 2 then show ?thesis using bc xr(3) D(5) by auto
    next
      case 3 then show ?thesis by (rule new [OF bc(1,2)])
    next
      case 4 then show ?thesis using new [OF bc(2,1)] by blast
    next
      case 5 then show ?thesis using old [OF bc(1)] old [OF bc(2)] heap_okD(4) [OF H] bc(3) by metis
    qed
  qed
qed (rule split_node [OF m H] split_succ [OF m H] split_pred [OF m H]; assumption)+

section \<open>New segments and segments given back\<close>

lemma heap_ok_alloc:
  assumes H: "heap_ok seg L h" and f: "h f = None" and x: "ptr x = p" "bsize x = n" "prv x = None" "nxt x = None"
    and n: "0 < n" and fresh: "\<And>q m. (q, m) \<in> L \<Longrightarrow> p + n \<le> q \<or> q + m \<le> p"
  shows "heap_ok (seg(f := (p, n))) (insert (p, n) L) (h(f \<mapsto> x))"
proof (rule heap_okI)
  have far: "range_of x \<inter> range_of y = {}" if "h b = Some y" for b y
    using heap_okD(1) [OF H that] fresh [of "fst (seg b)" "snd (seg b)"] x
    by (auto simp: node_ok_def range_of_def)
  show "(h(f \<mapsto> x)) b = Some y \<Longrightarrow> (h(f \<mapsto> x)) c = Some z \<Longrightarrow> b \<noteq> c \<Longrightarrow> range_of y \<inter> range_of z = {}"
    for b y c z using far heap_okD(4) [OF H] by (auto split: if_splits)
  show "(h(f \<mapsto> x)) b = Some y \<Longrightarrow> node_ok (seg(f := (p, n))) (insert (p, n) L) b y" for b y
    using heap_okD(1) [OF H] x n by (auto simp: node_ok_def split: if_splits)
  show "(h(f \<mapsto> x)) b = Some y \<Longrightarrow> nxt y = Some c \<Longrightarrow>
      \<exists>z. (h(f \<mapsto> x)) c = Some z \<and> succ_ok (seg(f := (p, n))) b y c z" for b y c
    using heap_okD(2) [OF H] x f by (fastforce simp: succ_ok_def split: if_splits)
  show "(h(f \<mapsto> x)) b = Some y \<Longrightarrow> prv y = Some a \<Longrightarrow> \<exists>z. (h(f \<mapsto> x)) a = Some z \<and> nxt z = Some b" for b y a
    using heap_okD(3) [OF H] x f by (fastforce split: if_splits)
qed

lemma unsplit_segment:
  assumes "heap_ok seg L h" "h b = Some x" "\<not> is_split x"
  shows "seg b = (ptr x, bsize x)"
  using heap_okD(1) [OF assms(1,2)] assms(3) by (auto simp: node_ok_def is_split_def prod_eq_iff)

lemma unsplit_alone:
  assumes H: "heap_ok seg L h" and b: "h b = Some x" "\<not> is_split x" and c: "h c = Some y" "seg c = seg b"
  shows "c = b"
proof (rule ccontr)
  assume "c \<noteq> b"
  then have "range_of y \<inter> range_of x = {}" by (rule heap_okD(4) [OF H c(1) b(1)])
  moreover have "range_of y \<subseteq> range_of x" "0 < bsize y"
    using heap_okD(1) [OF H c(1)] c(2) unsplit_segment [OF H b] by (auto simp: node_ok_def range_of_def)
  ultimately show False by (auto simp: range_of_def)
qed

lemma heap_ok_free:
  assumes H: "heap_ok seg L h" and b: "h b = Some x" "\<not> is_split x"
  shows "heap_ok seg (L - {seg b}) (h(b := None))"
proof (rule heap_okI)
  show "(h(b := None)) c = Some y \<Longrightarrow> node_ok seg (L - {seg b}) c y" for c y
    using heap_okD(1) [OF H, of c y] unsplit_alone [OF H b, of c y] by (auto simp: node_ok_def split: if_splits)
  show "(h(b := None)) c = Some y \<Longrightarrow> nxt y = Some d \<Longrightarrow>
      \<exists>z. (h(b := None)) d = Some z \<and> succ_ok seg c y d z" for c y d
    using heap_okD(2) [OF H, of c y d] b by (auto simp: succ_ok_def is_split_def split: if_splits)
  show "(h(b := None)) c = Some y \<Longrightarrow> prv y = Some a \<Longrightarrow> \<exists>z. (h(b := None)) a = Some z \<and> nxt z = Some c" for c y a
    using heap_okD(3) [OF H, of c y a] b by (auto simp: is_split_def split: if_splits)
  show "(h(b := None)) c = Some y \<Longrightarrow> (h(b := None)) d = Some z \<Longrightarrow> c \<noteq> d \<Longrightarrow> range_of y \<inter> range_of z = {}"
    for c y d z using heap_okD(4) [OF H] by (auto split: if_splits)
qed

text \<open>Updates that leave the geometry of every block alone.\<close>

definition geometry :: "block \<Rightarrow> addr \<times> nat \<times> bid option \<times> bid option \<times> pool_ref \<times> stream_t" where
  "geometry x = (ptr x, bsize x, prv x, nxt x, pool x, b_stream x)"

lemma heap_ok_geometry:
  assumes H: "heap_ok seg L h" and g: "\<And>b. map_option geometry (h' b) = map_option geometry (h b)"
  shows "heap_ok seg L h'"
proof -
  have old: "\<exists>x. h b = Some x \<and> geometry x = geometry x'" if "h' b = Some x'" for b x'
    using g [of b] that by (cases "h b") auto
  have new: "\<exists>x'. h' b = Some x' \<and> geometry x = geometry x'" if "h b = Some x" for b x
    using g [of b] that by (cases "h' b") auto
  have rg: "range_of x = range_of x'" if "geometry x = geometry x'" for x x' :: block
    using that by (simp add: range_of_def geometry_def)
  show ?thesis
  proof (rule heap_okI)
    show "h' b = Some x \<Longrightarrow> node_ok seg L b x" for b x
      using old [of b x] heap_okD(1) [OF H, of b] by (auto simp: node_ok_def geometry_def)
    show "\<exists>y. h' c = Some y \<and> succ_ok seg b x' c y" if b: "h' b = Some x'" "nxt x' = Some c" for b x' c
    proof -
      obtain x where x: "h b = Some x" "geometry x = geometry x'" using old [OF b(1)] by blast
      then obtain y where y: "h c = Some y" "succ_ok seg b x c y"
        using heap_okD(2) [OF H x(1)] b(2) by (auto simp: geometry_def)
      then show ?thesis using new [OF y(1)] x(2) by (auto simp: succ_ok_def geometry_def)
    qed
    show "\<exists>y. h' a = Some y \<and> nxt y = Some b" if b: "h' b = Some x'" "prv x' = Some a" for b x' a
    proof -
      obtain x where x: "h b = Some x" "geometry x = geometry x'" using old [OF b(1)] by blast
      then obtain y where y: "h a = Some y" "nxt y = Some b"
        using heap_okD(3) [OF H x(1)] b(2) by (auto simp: geometry_def)
      then show ?thesis using new [OF y(1)] by (auto simp: geometry_def)
    qed
    show "h' b = Some x \<Longrightarrow> h' c = Some y \<Longrightarrow> b \<noteq> c \<Longrightarrow> range_of x \<inter> range_of y = {}" for b x c y
      using heap_okD(4) [OF H] old rg by metis
  qed
qed

end
