(* ===== verification/AllocInv.thy ===== *)
theory AllocInv
  imports AllocHeap
begin

text \<open>
  The invariant of the allocator of one device: every block is either active or in exactly one
  pool, free neighbours are merged, events are counted exactly, and the statistics are the sums
  over the blocks that they stand for.
\<close>

section \<open>Sums over the heap\<close>

definition tot :: "(bid \<Rightarrow> block \<Rightarrow> int) \<Rightarrow> (bid \<Rightarrow> block option) \<Rightarrow> int" where
  "tot f h = (\<Sum>b\<in>dom h. f b (the (h b)))"

lemma tot_empty [simp]: "tot f (\<lambda>_. None) = 0"
  by (simp add: tot_def)

lemma tot_new:
  assumes "finite (dom h)" "h b = None"
  shows "tot f (h(b \<mapsto> y)) = tot f h + f b y"
proof -
  have "(\<Sum>c\<in>dom h. f c (the ((h(b \<mapsto> y)) c))) = (\<Sum>c\<in>dom h. f c (the (h c)))"
    using assms(2) by (intro sum.cong) auto
  then show ?thesis using assms by (simp add: tot_def domIff)
qed

lemma tot_del:
  assumes "finite (dom h)" "h b = Some x"
  shows "tot f (h(b := None)) = tot f h - f b x"
proof -
  have "(\<Sum>c\<in>dom h - {b}. f c (the ((h(b := None)) c))) = (\<Sum>c\<in>dom h - {b}. f c (the (h c)))"
    by (intro sum.cong) auto
  moreover have "tot f h = f b x + (\<Sum>c\<in>dom h - {b}. f c (the (h c)))"
    unfolding tot_def using assms by (subst sum.remove [where x = b]) auto
  ultimately show ?thesis by (simp add: tot_def)
qed

lemma tot_upd:
  assumes "finite (dom h)" "h b = Some x"
  shows "tot f (h(b \<mapsto> y)) = tot f h - f b x + f b y"
proof -
  have "tot f ((h(b := None))(b \<mapsto> y)) = tot f (h(b := None)) + f b y"
    using assms(1) by (intro tot_new) auto
  then show ?thesis using tot_del [OF assms] by simp
qed

lemma tot_cong:
  "(\<And>b x. h b = Some x \<Longrightarrow> f b x = g b x) \<Longrightarrow> tot f h = tot g h"
  unfolding tot_def by (intro sum.cong) auto

lemma tot_cong_at:
  assumes "finite (dom h)" "h b = Some x" and "\<And>c y. h c = Some y \<Longrightarrow> c \<noteq> b \<Longrightarrow> f c y = g c y"
  shows "tot f h = tot g h - g b x + f b x"
proof -
  have "tot f (h(b := None)) = tot g (h(b := None))"
    by (rule tot_cong) (use assms(3) in \<open>auto split: if_splits\<close>)
  then show ?thesis by (simp add: tot_del [OF assms(1,2)])
qed

lemma tot_nonneg: "(\<And>b x. h b = Some x \<Longrightarrow> 0 \<le> f b x) \<Longrightarrow> 0 \<le> tot f h"
  unfolding tot_def by (intro sum_nonneg) auto

lemma tot_ge:
  assumes "finite (dom h)" "h b = Some x" and "\<And>c y. h c = Some y \<Longrightarrow> 0 \<le> f c y"
  shows "f b x \<le> tot f h"
proof -
  have "0 \<le> tot f (h(b := None))" by (rule tot_nonneg) (use assms(3) in \<open>auto split: if_splits\<close>)
  then show ?thesis by (simp add: tot_del [OF assms(1,2)])
qed

lemma tot_update_same:
  assumes "finite (dom h)" "h b = Some x" "f b y = f b x"
  shows "tot f (h(b \<mapsto> y)) = tot f h"
  using assms by (simp add: tot_upd)

section \<open>Active, free and held blocks\<close>

definition busy :: "block \<Rightarrow> bool" where
  "busy x \<longleftrightarrow> allocated x \<or> 0 < event_count x \<or> stream_uses x \<noteq> []"

definition unused :: "block \<Rightarrow> bool" where
  "unused x \<longleftrightarrow> \<not> allocated x \<and> event_count x = 0 \<and> stream_uses x = []"

text \<open>
  \<open>parts_ok H N h P A\<close>: the blocks of the heap are the active ones (\<open>A\<close>), those in the pools
  (\<open>P\<close>) and the held ones (\<open>H\<close>: taken out of a pool to be handed out). Active blocks are in use,
  except those of \<open>N\<close>, which are about to be freed. No two neighbours are both free.
\<close>

definition parts_ok ::
  "bid set \<Rightarrow> bid set \<Rightarrow> (bid \<Rightarrow> block option) \<Rightarrow> (pool_ref \<Rightarrow> bid list) \<Rightarrow> bid list \<Rightarrow> bool" where
  "parts_ok H N h P A \<longleftrightarrow>
     distinct A \<and>
     (\<forall>pl. sorted_wrt BlockComparatorSize (map (\<lambda>b. key (the (h b))) (P pl))) \<and>
     (\<forall>pl b. b \<in> set (P pl) \<longrightarrow> (\<exists>x. h b = Some x \<and> pool x = pl \<and> unused x) \<and> b \<notin> set A \<and> b \<notin> H) \<and>
     (\<forall>b. b \<in> set A \<longrightarrow> (\<exists>x. h b = Some x \<and> (b \<notin> N \<longrightarrow> busy x)) \<and> b \<notin> H) \<and>
     (\<forall>b. b \<in> H \<longrightarrow> (\<exists>x. h b = Some x \<and> unused x)) \<and>
     (\<forall>b x. h b = Some x \<longrightarrow> b \<in> set A \<or> b \<in> H \<or> b \<in> set (P (pool x))) \<and>
     (\<forall>b x c. h b = Some x \<longrightarrow> b \<notin> set A \<longrightarrow> nxt x = Some c \<longrightarrow> c \<in> set A)"

lemma parts_okD:
  assumes "parts_ok H N h P A"
  shows "distinct A"
    and "sorted_wrt BlockComparatorSize (map (\<lambda>b. key (the (h b))) (P pl))"
    and "b \<in> set (P pl) \<Longrightarrow> \<exists>x. h b = Some x \<and> pool x = pl \<and> unused x"
    and "b \<in> set (P pl) \<Longrightarrow> b \<notin> set A" and "b \<in> set (P pl) \<Longrightarrow> b \<notin> H"
    and "b \<in> set A \<Longrightarrow> \<exists>x. h b = Some x \<and> (b \<notin> N \<longrightarrow> busy x)" and "b \<in> set A \<Longrightarrow> b \<notin> H"
    and "b \<in> H \<Longrightarrow> \<exists>x. h b = Some x \<and> unused x"
    and "h b = Some x \<Longrightarrow> b \<in> set A \<or> b \<in> H \<or> b \<in> set (P (pool x))"
    and "h b = Some x \<Longrightarrow> b \<notin> set A \<Longrightarrow> nxt x = Some c \<Longrightarrow> c \<in> set A"
  using assms unfolding parts_ok_def by blast+

lemma parts_okI:
  assumes "distinct A"
    and "\<And>pl. sorted_wrt BlockComparatorSize (map (\<lambda>b. key (the (h b))) (P pl))"
    and "\<And>pl b. b \<in> set (P pl) \<Longrightarrow> \<exists>x. h b = Some x \<and> pool x = pl \<and> unused x"
    and "\<And>pl b. b \<in> set (P pl) \<Longrightarrow> b \<notin> set A \<and> b \<notin> H"
    and "\<And>b. b \<in> set A \<Longrightarrow> \<exists>x. h b = Some x \<and> (b \<notin> N \<longrightarrow> busy x)"
    and "\<And>b. b \<in> set A \<Longrightarrow> b \<notin> H"
    and "\<And>b. b \<in> H \<Longrightarrow> \<exists>x. h b = Some x \<and> unused x"
    and "\<And>b x. h b = Some x \<Longrightarrow> b \<in> set A \<or> b \<in> H \<or> b \<in> set (P (pool x))"
    and "\<And>b x c. h b = Some x \<Longrightarrow> b \<notin> set A \<Longrightarrow> nxt x = Some c \<Longrightarrow> c \<in> set A"
  shows "parts_ok H N h P A"
  using assms unfolding parts_ok_def by simp

lemma not_busy: "unused x \<Longrightarrow> \<not> busy x"
  by (simp add: busy_def unused_def)

lemma pool_distinct: "parts_ok H N h P A \<Longrightarrow> distinct (P pl)"
  using block_order.sorted_distinct [OF parts_okD(2)] by (metis distinct_map)

text \<open>An inactive block that is not held is in its pool; neighbours are not both inactive.\<close>

lemma in_pool:
  "parts_ok H N h P A \<Longrightarrow> h b = Some x \<Longrightarrow> b \<notin> set A \<Longrightarrow> b \<notin> H \<Longrightarrow> b \<in> set (P (pool x))"
  using parts_okD(9) by blast

lemma prev_active:
  assumes "parts_ok H N h P A" "heap_ok seg L h" "h b = Some x" "b \<notin> set A" "prv x = Some a"
  shows "a \<in> set A"
  using heap_okD(3) [OF assms(2,3,5)] parts_okD(10) [OF assms(1)] assms(4) by blast

text \<open>One block absorbs a free neighbour: what \<open>merge_prev\<close> and \<open>merge_next\<close> have in common.\<close>

definition "use" :: "block \<Rightarrow> bool \<times> int \<times> gcu_stream list \<times> pool_ref \<times> nat \<times> int" where
  "use x = (allocated x, event_count x, stream_uses x, pool x, requested_size x, b_device x)"

definition absorb :: "(bid \<Rightarrow> block option) \<Rightarrow> bid \<Rightarrow> bid \<Rightarrow> (bid \<Rightarrow> block option) \<Rightarrow> bool" where
  "absorb h d s h' \<longleftrightarrow> h' s = None \<and>
     (\<forall>b. b \<noteq> s \<longrightarrow> (h b = None \<longrightarrow> h' b = None) \<and>
        (\<forall>x. h b = Some x \<longrightarrow> (\<exists>x'. h' b = Some x' \<and> use x' = use x \<and> (b \<noteq> d \<longrightarrow> key x' = key x) \<and>
           (b \<noteq> d \<longrightarrow> nxt x' = nxt x \<or> nxt x' = Some d) \<and> (is_split x' \<longrightarrow> is_split x) \<and>
           bsize x \<le> bsize x')))"

lemma absorb_new:
  assumes "absorb h d s h'" "h' b = Some x'"
  obtains x where "b \<noteq> s" "h b = Some x" "use x' = use x" "b \<noteq> d \<Longrightarrow> key x' = key x"
    "b \<noteq> d \<Longrightarrow> nxt x' = nxt x \<or> nxt x' = Some d" "is_split x' \<Longrightarrow> is_split x" "bsize x \<le> bsize x'"
proof -
  have "b \<noteq> s" using assms by (auto simp: absorb_def)
  moreover obtain x where "h b = Some x" using assms calculation by (cases "h b") (auto simp: absorb_def)
  ultimately show thesis using that assms unfolding absorb_def by (metis option.inject)
qed

lemma absorb_old:
  assumes "absorb h d s h'" "h b = Some x" "b \<noteq> s"
  obtains x' where "h' b = Some x'" "use x' = use x" "b \<noteq> d \<Longrightarrow> key x' = key x"
  using assms unfolding absorb_def by metis

lemma merge_prev_absorb:
  assumes m: "merge_prev h d xd s xs h'" and H: "heap_ok seg L h"
  shows "absorb h d s h'"
proof -
  have f: "prv xd \<noteq> None" "h d = Some xd"
      "h' d = Some (xd\<lparr>ptr := ptr xs, prv := prv xs, bsize := bsize xd + bsize xs\<rparr>)" "h' s = None"
    and g: "b \<noteq> s \<Longrightarrow> b \<noteq> d \<Longrightarrow>
        h' b = map_option (\<lambda>x. if prv xs = Some b then x\<lparr>nxt := Some d\<rparr> else x) (h b)" for b
    using m by (simp_all add: merge_prev_def)
  have n: "prv xs = Some b \<Longrightarrow> h b = Some x \<Longrightarrow> nxt x \<noteq> None" for b x
    using heap_okD(3) [OF H, of s xs b] m by (auto simp: merge_prev_def)
  show ?thesis
    unfolding absorb_def
  proof (intro conjI allI impI)
    fix b x assume "b \<noteq> s" "h b = Some x"
    then show "\<exists>x'. h' b = Some x' \<and> use x' = use x \<and> (b \<noteq> d \<longrightarrow> key x' = key x) \<and>
           (b \<noteq> d \<longrightarrow> nxt x' = nxt x \<or> nxt x' = Some d) \<and> (is_split x' \<longrightarrow> is_split x) \<and> bsize x \<le> bsize x'"
      using f g [of b] n [of b x] by (cases "b = d") (auto simp: use_def key_def is_split_def)
  next
    show "h' s = None" by (rule f(4))
  next
    fix b assume b: "b \<noteq> s" "h b = None"
    show "h' b = None" using f(2) g [OF b(1)] b(2) by (cases "b = d") auto
  qed
qed

lemma merge_next_absorb:
  assumes m: "merge_next h d xd s xs h'" and H: "heap_ok seg L h"
  shows "absorb h d s h'"
proof -
  have f: "nxt xd \<noteq> None" "h d = Some xd"
      "h' d = Some (xd\<lparr>nxt := nxt xs, bsize := bsize xd + bsize xs\<rparr>)" "h' s = None"
    and g: "b \<noteq> s \<Longrightarrow> b \<noteq> d \<Longrightarrow>
        h' b = map_option (\<lambda>x. if nxt xs = Some b then x\<lparr>prv := Some d\<rparr> else x) (h b)" for b
    using m by (simp_all add: merge_next_def)
  have n: "nxt xs = Some b \<Longrightarrow> h b = Some x \<Longrightarrow> prv x \<noteq> None" for b x
    using heap_okD(2) [OF H, of s xs b] m by (auto simp: merge_next_def succ_ok_def)
  show ?thesis
    unfolding absorb_def
  proof (intro conjI allI impI)
    fix b x assume "b \<noteq> s" "h b = Some x"
    then show "\<exists>x'. h' b = Some x' \<and> use x' = use x \<and> (b \<noteq> d \<longrightarrow> key x' = key x) \<and>
           (b \<noteq> d \<longrightarrow> nxt x' = nxt x \<or> nxt x' = Some d) \<and> (is_split x' \<longrightarrow> is_split x) \<and> bsize x \<le> bsize x'"
      using f g [of b] n [of b x] by (cases "b = d") (auto simp: use_def key_def is_split_def)
  next
    show "h' s = None" by (rule f(4))
  next
    fix b assume b: "b \<noteq> s" "h b = None"
    show "h' b = None" using f(2) g [OF b(1)] b(2) by (cases "b = d") auto
  qed
qed

lemma use_same:
  assumes "use x' = use x"
  shows "unused x' = unused x" "busy x' = busy x" "pool x' = pool x"
  using assms by (simp_all add: use_def unused_def busy_def)

lemma absorb_kept:
  assumes "absorb h d s h'" "h b = Some x" "b \<noteq> s"
  shows "\<exists>x'. h' b = Some x' \<and> pool x' = pool x \<and> unused x' = unused x \<and> busy x' = busy x"
  by (rule absorb_old [OF assms]) (auto dest: use_same)

lemma absorb_came:
  assumes "absorb h d s h'" "h' b = Some x'"
  shows "\<exists>x. b \<noteq> s \<and> h b = Some x \<and> pool x' = pool x \<and> (b \<noteq> d \<longrightarrow> nxt x' = nxt x \<or> nxt x' = Some d)"
  by (rule absorb_new [OF assms]) (auto dest: use_same)

lemma sorted_same_keys:
  assumes "\<And>b. b \<in> set bs \<Longrightarrow> key (the (h' b)) = key (the (h b))"
    and "sorted_wrt BlockComparatorSize (map (\<lambda>b. key (the (h b))) bs)"
  shows "sorted_wrt BlockComparatorSize (map (\<lambda>b. key (the (h' b))) bs)"
proof -
  have eq: "map (\<lambda>b. key (the (h' b))) bs = map (\<lambda>b. key (the (h b))) bs"
    by (rule map_cong [OF refl assms(1)])
  show ?thesis unfolding eq by (rule assms(2))
qed

lemma parts_absorb:
  assumes p: "parts_ok H N h P A" and a: "absorb h d s h'" and d: "d \<in> set A"
    and s: "s \<notin> set A" "s \<notin> H" "h s = Some xs"
  shows "parts_ok H N h' (P(pool xs := remove1 s (P (pool xs)))) A"
    (is "parts_ok H N h' ?P A")
proof (rule parts_okI)
  note D = parts_okD [OF p]
  have sub: "b \<in> set (?P pl) \<Longrightarrow> b \<in> set (P pl) \<and> b \<noteq> s" for pl b
    using pool_distinct [OF p, of "pool xs"] D(3) [of b pl] s(3) by (auto split: if_splits)
  have nd: "b \<in> set (P pl) \<Longrightarrow> b \<noteq> d" for b pl using D(4) d by blast
  have keys: "key (the (h' b)) = key (the (h b))" if "b \<in> set (?P pl)" for pl b
  proof -
    have b: "b \<in> set (P pl)" "b \<noteq> s" "b \<noteq> d" using sub [OF that] nd by auto
    then obtain x where x: "h b = Some x" using D(3) by blast
    show ?thesis by (rule absorb_old [OF a x b(2)]) (use x b(3) in simp)
  qed
  show "sorted_wrt BlockComparatorSize (map (\<lambda>b. key (the (h' b))) (?P pl))" for pl
  proof (rule sorted_same_keys [OF keys])
    show "sorted_wrt BlockComparatorSize (map (\<lambda>b. key (the (h b))) (?P pl))"
      using D(2) [of pl] by (cases "pl = pool xs") (simp_all add: block_order.sorted_remove1)
  qed
  show "distinct A" by (rule D(1))
  show "\<exists>x. h' b = Some x \<and> pool x = pl \<and> unused x" if "b \<in> set (?P pl)" for pl b
  proof -
    have b: "b \<in> set (P pl)" "b \<noteq> s" using sub [OF that] by auto
    then obtain x where x: "h b = Some x" "pool x = pl" "unused x" using D(3) by blast
    then show ?thesis using absorb_kept [OF a x(1) b(2)] by auto
  qed
  show "b \<notin> set A \<and> b \<notin> H" if "b \<in> set (?P pl)" for pl b
    using sub [OF that] D(4,5) by blast
  show "\<exists>x. h' b = Some x \<and> (b \<notin> N \<longrightarrow> busy x)" if b: "b \<in> set A" for b
  proof -
    obtain x where x: "h b = Some x" "b \<notin> N \<longrightarrow> busy x" using D(6) [OF b] by blast
    have "b \<noteq> s" using b s by auto
    then show ?thesis using absorb_kept [OF a x(1)] x(2) by auto
  qed
  show "b \<in> set A \<Longrightarrow> b \<notin> H" for b by (rule D(7))
  show "\<exists>x. h' b = Some x \<and> unused x" if b: "b \<in> H" for b
  proof -
    obtain x where x: "h b = Some x" "unused x" using D(8) [OF b] by blast
    have "b \<noteq> s" using b s by auto
    then show ?thesis using absorb_kept [OF a x(1)] x(2) by auto
  qed
  show "b \<in> set A \<or> b \<in> H \<or> b \<in> set (?P (pool x'))" if b: "h' b = Some x'" for b x'
  proof -
    obtain x where x: "b \<noteq> s" "h b = Some x" "pool x' = pool x" using absorb_came [OF a b] by blast
    then have "b \<in> set A \<or> b \<in> H \<or> b \<in> set (P (pool x'))" using D(9) [OF x(2)] x(3) by simp
    then show ?thesis using x(1) by auto
  qed
  show "c \<in> set A" if b: "h' b = Some x'" "b \<notin> set A" "nxt x' = Some c" for b x' c
  proof -
    obtain x where x: "h b = Some x" "b \<noteq> d \<longrightarrow> nxt x' = nxt x \<or> nxt x' = Some d"
      using absorb_came [OF a b(1)] by blast
    have "b \<noteq> d" using b(2) d by auto
    then show ?thesis using x b D(10) [OF x(1) b(2)] d by auto
  qed
qed

text \<open>The other moves of a block between the parts of the heap.\<close>

lemma parts_to_pool:
  assumes p: "parts_ok H N h P A" and b: "b \<in> set A" "h b = Some x" "unused x"
    and near: "\<And>a. prv x = Some a \<Longrightarrow> a \<in> set A" "\<And>c. nxt x = Some c \<Longrightarrow> c \<in> set A \<and> c \<noteq> b"
    and pre: "\<And>a y. h a = Some y \<Longrightarrow> nxt y = Some b \<Longrightarrow> prv x = Some a"
    and x': "use x' = use x" "nxt x' = nxt x"
    and Q: "set Q = insert b (set (P (pool x)))"
      "sorted_wrt BlockComparatorSize (map (\<lambda>c. key (the ((h(b \<mapsto> x')) c))) Q)"
  shows "parts_ok H (N - {b}) (h(b \<mapsto> x')) (P(pool x := Q)) (remove1 b A)"
    (is "parts_ok H ?N ?h ?P ?A")
proof (rule parts_okI)
  note D = parts_okD [OF p]
  have A: "set ?A = set A - {b}" using D(1) by simp
  show "distinct ?A" using D(1) by simp
  show "sorted_wrt BlockComparatorSize (map (\<lambda>b. key (the (?h b))) (?P pl))" for pl
  proof (cases "pl = pool x")
    case False
    have "sorted_wrt BlockComparatorSize (map (\<lambda>c. key (the (?h c))) (P pl))"
      by (rule sorted_same_keys [OF _ D(2)]) (use D(4) b(1) in auto)
    then show ?thesis using False by simp
  qed (use Q(2) in simp)
  show "\<exists>y. ?h c = Some y \<and> pool y = pl \<and> unused y" if "c \<in> set (?P pl)" for pl c
    using that D(3) [of c pl] Q(1) b use_same [OF x'(1)] by (auto split: if_splits)
  show "c \<notin> set ?A \<and> c \<notin> H" if "c \<in> set (?P pl)" for pl c
    using that D(4,5) [of c pl] Q(1) b D(7) A by (auto split: if_splits)
  show "\<exists>y. ?h c = Some y \<and> (c \<notin> ?N \<longrightarrow> busy y)" if "c \<in> set ?A" for c
    using that D(6) [of c] A by auto
  show "c \<in> set ?A \<Longrightarrow> c \<notin> H" for c using D(7) A by auto
  show "\<exists>y. ?h c = Some y \<and> unused y" if "c \<in> H" for c
    using D(7) [OF b(1)] D(8) [OF that] that by auto
  show "c \<in> set ?A \<or> c \<in> H \<or> c \<in> set (?P (pool y))" if c: "?h c = Some y" for c y
  proof (cases "c = b")
    case True
    then have "y = x'" using c by simp
    then show ?thesis using True Q(1) use_same(3) [OF x'(1)] by simp
  next
    case False
    then have "h c = Some y" using c by simp
    then have "c \<in> set A \<or> c \<in> H \<or> c \<in> set (P (pool y))" by (rule D(9))
    then show ?thesis using A False Q(1) by (cases "pool y = pool x") simp_all
  qed
  show "e \<in> set ?A" if "?h c = Some y" "c \<notin> set ?A" "nxt y = Some e" for c y e
  proof (cases "c = b")
    case True
    then show ?thesis using that near(2) x'(2) A by auto
  next
    case False
    then have c: "h c = Some y" "c \<notin> set A" using that A by auto
    then have "e \<in> set A" using D(10) that(3) by blast
    moreover have "e \<noteq> b" using pre [OF c(1)] near(1) c(2) that(3) by auto
    ultimately show ?thesis using A by simp
  qed
qed

lemma parts_take:
  assumes p: "parts_ok {} N h P A" and b: "b \<in> set (P pl)"
  shows "parts_ok {b} N h (P(pl := remove1 b (P pl))) A" (is "parts_ok _ _ _ ?P _")
proof (rule parts_okI)
  note D = parts_okD [OF p]
  have Q: "set (remove1 b (P pl)) = set (P pl) - {b}" using pool_distinct [OF p] by simp
  show "sorted_wrt BlockComparatorSize (map (\<lambda>b. key (the (h b))) (?P q))" for q
    using D(2) [of q] by (cases "q = pl") (simp_all add: block_order.sorted_remove1)
  have sub: "c \<in> set (?P q) \<Longrightarrow> c \<in> set (P q)" for c q using Q by (auto split: if_splits)
  have other: "c \<in> set (?P q) \<Longrightarrow> c \<noteq> b" for c q
    using Q D(3) [of b q] D(3) [OF b] by (auto split: if_splits)
  show "c \<in> set (?P q) \<Longrightarrow> \<exists>x. h c = Some x \<and> pool x = q \<and> unused x" for c q
    using D(3) sub by blast
  show "c \<in> set (?P q) \<Longrightarrow> c \<notin> set A \<and> c \<notin> {b}" for c q
    using D(4) sub other by blast
  show "h c = Some x \<Longrightarrow> c \<in> set A \<or> c \<in> {b} \<or> c \<in> set (?P (pool x))" for c x
    using D(9) [of c x] Q by auto
  show "c \<in> set A \<Longrightarrow> c \<notin> {b}" for c using D(4) [OF b] by auto
  show "c \<in> {b} \<Longrightarrow> \<exists>x. h c = Some x \<and> unused x" for c using D(3) [OF b] by auto
  show "distinct A" "c \<in> set A \<Longrightarrow> \<exists>x. h c = Some x \<and> (c \<notin> N \<longrightarrow> busy x)"
    "h c = Some x \<Longrightarrow> c \<notin> set A \<Longrightarrow> nxt x = Some e \<Longrightarrow> e \<in> set A" for c x e
    using D(1,6,10) by blast+
qed

lemma parts_new:
  assumes p: "parts_ok {} N h P A" and f: "h f = None" and x: "unused x" "nxt x = None"
  shows "parts_ok {f} N (h(f \<mapsto> x)) P A"
proof (rule parts_okI)
  note D = parts_okD [OF p]
  have P: "c \<in> set (P q) \<Longrightarrow> c \<noteq> f" for c q using D(3) [of c q] f by auto
  have A: "c \<in> set A \<Longrightarrow> c \<noteq> f" for c using D(6) [of c] f by auto
  show "sorted_wrt BlockComparatorSize (map (\<lambda>b. key (the ((h(f \<mapsto> x)) b))) (P q))" for q
    by (rule sorted_same_keys [OF _ D(2)]) (use P in auto)
  show "distinct A" by (rule D(1))
  show "c \<in> set (P q) \<Longrightarrow> \<exists>y. (h(f \<mapsto> x)) c = Some y \<and> pool y = q \<and> unused y" for c q
    using D(3) P by auto
  show "c \<in> set (P q) \<Longrightarrow> c \<notin> set A \<and> c \<notin> {f}" for c q using D(4) P by auto
  show "c \<in> set A \<Longrightarrow> \<exists>y. (h(f \<mapsto> x)) c = Some y \<and> (c \<notin> N \<longrightarrow> busy y)" for c using D(6) A by auto
  show "c \<in> set A \<Longrightarrow> c \<notin> {f}" for c using A by auto
  show "c \<in> {f} \<Longrightarrow> \<exists>y. (h(f \<mapsto> x)) c = Some y \<and> unused y" for c using x by auto
  show "(h(f \<mapsto> x)) c = Some y \<Longrightarrow> c \<in> set A \<or> c \<in> {f} \<or> c \<in> set (P (pool y))" for c y
    using D(9) by (auto split: if_splits)
  show "(h(f \<mapsto> x)) c = Some y \<Longrightarrow> c \<notin> set A \<Longrightarrow> nxt y = Some e \<Longrightarrow> e \<in> set A" for c y e
    using D(10) x(2) by (auto split: if_splits)
qed

lemma parts_activate:
  assumes p: "parts_ok {b} N h P A" and x: "busy x'"
  shows "parts_ok {} N (h(b \<mapsto> x')) P (List.insert b A)"
proof (rule parts_okI)
  note D = parts_okD [OF p]
  have P: "c \<in> set (P q) \<Longrightarrow> c \<noteq> b" for c q using D(5) by auto
  show "sorted_wrt BlockComparatorSize (map (\<lambda>c. key (the ((h(b \<mapsto> x')) c))) (P q))" for q
    by (rule sorted_same_keys [OF _ D(2)]) (use P in auto)
  show "distinct (List.insert b A)" using D(1) by simp
  show "c \<in> set (P q) \<Longrightarrow> \<exists>y. (h(b \<mapsto> x')) c = Some y \<and> pool y = q \<and> unused y" for c q
    using D(3) P by auto
  show "c \<in> set (P q) \<Longrightarrow> c \<notin> set (List.insert b A) \<and> c \<notin> {}" for c q using D(4) P by auto
  show "c \<in> set (List.insert b A) \<Longrightarrow> \<exists>y. (h(b \<mapsto> x')) c = Some y \<and> (c \<notin> N \<longrightarrow> busy y)" for c
    using D(6) x by auto
  show "(h(b \<mapsto> x')) c = Some y \<Longrightarrow> c \<in> set (List.insert b A) \<or> c \<in> {} \<or> c \<in> set (P (pool y))" for c y
    using D(9) by (auto split: if_splits)
  show "(h(b \<mapsto> x')) c = Some y \<Longrightarrow> c \<notin> set (List.insert b A) \<Longrightarrow> nxt y = Some e \<Longrightarrow>
      e \<in> set (List.insert b A)" for c y e
    using D(10) by (auto split: if_splits)
qed simp_all

lemma parts_remove:
  assumes p: "parts_ok {} N h P A" and b: "b \<in> set (P pl)"
  shows "parts_ok {} N (h(b := None)) (P(pl := remove1 b (P pl))) A" (is "parts_ok _ _ ?h ?P _")
proof (rule parts_okI)
  note D = parts_okD [OF parts_take [OF p b]]
  have A: "c \<in> set A \<Longrightarrow> c \<noteq> b" for c using D(7) by blast
  have P: "c \<in> set (?P q) \<Longrightarrow> c \<noteq> b" for c q using D(5) by blast
  show "sorted_wrt BlockComparatorSize (map (\<lambda>b. key (the (?h b))) (?P q))" for q
    by (rule sorted_same_keys [OF _ D(2)]) (use P in auto)
  show "distinct A" by (rule D(1))
  show "c \<in> set (?P q) \<Longrightarrow> \<exists>y. ?h c = Some y \<and> pool y = q \<and> unused y" for c q
    using D(3) [of c q] P [of c q] by auto
  show "c \<in> set (?P q) \<Longrightarrow> c \<notin> set A \<and> c \<notin> {}" for c q using D(4) by blast
  show "c \<in> set A \<Longrightarrow> \<exists>y. ?h c = Some y \<and> (c \<notin> N \<longrightarrow> busy y)" for c using D(6) A by auto
  show "?h c = Some y \<Longrightarrow> c \<in> set A \<or> c \<in> {} \<or> c \<in> set (?P (pool y))" for c y
    using D(9) [of c y] by (auto split: if_splits)
  show "?h c = Some y \<Longrightarrow> c \<notin> set A \<Longrightarrow> nxt y = Some e \<Longrightarrow> e \<in> set A" for c y e
    using D(10) by (auto split: if_splits)
qed simp_all

lemma parts_update:
  assumes p: "parts_ok H N h P A" and b: "b \<in> set A" and N: "\<not> busy x' \<Longrightarrow> b \<in> N'" "N \<subseteq> insert b N'"
  shows "parts_ok H N' (h(b \<mapsto> x')) P A"
proof (rule parts_okI)
  note D = parts_okD [OF p]
  have P: "c \<in> set (P q) \<Longrightarrow> c \<noteq> b" for c q using D(4) b by auto
  have Hb: "c \<in> H \<Longrightarrow> c \<noteq> b" for c using D(7) b by auto
  show "sorted_wrt BlockComparatorSize (map (\<lambda>c. key (the ((h(b \<mapsto> x')) c))) (P q))" for q
    by (rule sorted_same_keys [OF _ D(2)]) (use P in auto)
  show "distinct A" by (rule D(1))
  show "c \<in> set (P q) \<Longrightarrow> \<exists>y. (h(b \<mapsto> x')) c = Some y \<and> pool y = q \<and> unused y" for c q
    using D(3) P by auto
  show "c \<in> set (P q) \<Longrightarrow> c \<notin> set A \<and> c \<notin> H" for c q using D(4,5) by blast
  show "c \<in> set A \<Longrightarrow> \<exists>y. (h(b \<mapsto> x')) c = Some y \<and> (c \<notin> N' \<longrightarrow> busy y)" for c
    using D(6) [of c] N by (cases "c = b") auto
  show "c \<in> H \<Longrightarrow> \<exists>y. (h(b \<mapsto> x')) c = Some y \<and> unused y" for c using D(8) Hb by auto
  show "(h(b \<mapsto> x')) c = Some y \<Longrightarrow> c \<in> set A \<or> c \<in> H \<or> c \<in> set (P (pool y))" for c y
    using D(9) b by (auto split: if_splits)
  show "(h(b \<mapsto> x')) c = Some y \<Longrightarrow> c \<notin> set A \<Longrightarrow> nxt y = Some e \<Longrightarrow> e \<in> set A" for c y e
    using D(10) b by (auto split: if_splits)
qed (use parts_okD(7) [OF p] in blast)

lemma parts_split:
  assumes p: "parts_ok {r} N h P A" and m: "split_at h r xr f xf n h1" and H: "heap_ok seg L h"
    and x: "busy yf" "nxt yf = Some r" and r: "use yr = use xr" "nxt yr = nxt xr"
    and Q: "set Q = insert r (set (P (pool xr)))"
      "sorted_wrt BlockComparatorSize (map (\<lambda>c. key (the ((h1(f \<mapsto> yf, r \<mapsto> yr)) c))) Q)"
  shows "parts_ok {} N (h1(f \<mapsto> yf, r \<mapsto> yr)) (P(pool xr := Q)) (List.insert f A)"
    (is "parts_ok _ _ ?h ?P ?A")
proof (rule parts_okI)
  note D = parts_okD [OF p] and S = split_atD [OF m]
  have old: "\<exists>y'. h1 c = Some y' \<and> pool y' = pool y \<and> unused y' = unused y \<and> busy y' = busy y \<and>
      key y' = key y" if "h c = Some y" "c \<noteq> r" for c y
    using S(14) [OF that] by (auto simp: unused_def busy_def key_def)
  have P: "c \<in> set (P q) \<Longrightarrow> c \<noteq> r \<and> c \<noteq> f" for c q using D(5) D(3) [of c q] S(2) by auto
  have A: "c \<in> set A \<Longrightarrow> c \<noteq> r \<and> c \<noteq> f" for c using D(7) D(6) [of c] S(2) by auto
  have Pold: "\<exists>y'. ?h c = Some y' \<and> pool y' = q \<and> unused y' \<and> key y' = key (the (h c))"
    if c: "c \<in> set (P q)" for c q
  proof -
    obtain y where y: "h c = Some y" "pool y = q" "unused y" using D(3) [OF c] by blast
    then show ?thesis using old [OF y(1)] P [OF c] by auto
  qed
  show "sorted_wrt BlockComparatorSize (map (\<lambda>c. key (the (?h c))) (?P q))" for q
  proof (cases "q = pool xr")
    case False
    have "sorted_wrt BlockComparatorSize (map (\<lambda>c. key (the (?h c))) (P q))"
      by (rule sorted_same_keys [OF _ D(2)]) (use Pold [of _ q] in force)
    then show ?thesis using False by simp
  qed (use Q(2) in simp)
  obtain x0 where "h r = Some x0" "unused x0" using D(8) [of r] by auto
  then have xr: "unused xr" using S(1) by simp
  show "\<exists>y. ?h c = Some y \<and> pool y = q \<and> unused y" if c: "c \<in> set (?P q)" for c q
  proof (cases "c = r")
    case True
    have "r \<notin> set (P q)" using P by blast
    then have "q = pool xr" using c True by (auto split: if_splits)
    then show ?thesis using True xr use_same [OF r(1)] by simp
  next
    case False
    then have "c \<in> set (P q)" using c Q(1) by (auto split: if_splits)
    then show ?thesis using Pold by blast
  qed
  show "distinct ?A" using D(1) by simp
  show "c \<notin> set ?A \<and> c \<notin> {}" if "c \<in> set (?P q)" for c q
    using that Q(1) P [of c q] D(4) [of c q] A [of r] S(13) by (auto split: if_splits)
  show "\<exists>y. ?h c = Some y \<and> (c \<notin> N \<longrightarrow> busy y)" if c: "c \<in> set ?A" for c
  proof (cases "c = f")
    case False
    then have c: "c \<in> set A" using c by simp
    then obtain y where y: "h c = Some y" "c \<notin> N \<longrightarrow> busy y" using D(6) by blast
    then show ?thesis using old [OF y(1)] A [OF c] by auto
  qed (use x S(13) in auto)
  show "c \<in> set ?A \<or> c \<in> {} \<or> c \<in> set (?P (pool y))" if c: "?h c = Some y" for c y
  proof (cases "c = r \<or> c = f")
    case True
    then show ?thesis using c Q(1) use_same(3) [OF r(1)] by (auto split: if_splits)
  next
    case False
    then obtain y0 where y0: "h c = Some y0" "y = (if prv xr = Some c then y0\<lparr>nxt := Some f\<rparr> else y0)"
      using c S(15) [of c y] by auto
    then have "pool y = pool y0" by simp
    then show ?thesis using D(9) [OF y0(1)] False Q(1) by (cases "pool y0 = pool xr") simp_all
  qed
  show "e \<in> set ?A" if c: "?h c = Some y" "c \<notin> set ?A" "nxt y = Some e" for c y e
  proof (cases "c = r")
    case True
    then have "nxt xr = Some e" using c(1,3) r(2) by auto
    then show ?thesis using D(10) [OF S(1)] A [of r] by auto
  next
    case False
    have "c \<noteq> f" using c(2) by auto
    then obtain y0 where y0: "h c = Some y0" "y = (if prv xr = Some c then y0\<lparr>nxt := Some f\<rparr> else y0)"
      using c(1) False S(15) [of c y] by auto
    then show ?thesis using D(10) [OF y0(1)] c(2,3) by (auto split: if_splits)
  qed
qed simp_all

end
