(* ===== verification/AllocMerge.thy ===== *)
theory AllocMerge
  imports AllocInv
begin

text \<open>
  Running the operations on the heap symbolically, and what \<open>try_merge_blocks\<close> does: it leaves
  the heap as it is or merges the free neighbour into the block.
\<close>

section \<open>Symbolic execution of the heap operations\<close>

lemma wp_deref [wp_simps]: "wp (deref b) Q X = (\<lambda>s.
    case heap s b of None \<Rightarrow> X UndefinedBehaviour s | Some x \<Rightarrow> Q x s)"
  and wp_modify [wp_simps]: "wp (modify b f) Qu X = (\<lambda>s.
    case heap s b of None \<Rightarrow> X UndefinedBehaviour s | Some x \<Rightarrow> Qu () (s\<lparr>heap := (heap s)(b \<mapsto> f x)\<rparr>))"
  and wp_delete_block [wp_simps]: "wp (delete_block b) Qu X = (\<lambda>s. Qu () (s\<lparr>heap := (heap s)(b := None)\<rparr>))"
  and wp_new_block [wp_simps]: "wp (new_block x) Qb X = (\<lambda>s.
    Qb (next_bid s) (s\<lparr>heap := (heap s)(next_bid s \<mapsto> x), next_bid := Suc (next_bid s)\<rparr>))"
  and wp_upd_stats [wp_simps]: "wp (upd_stats g) Qu X = (\<lambda>s. Qu () (s\<lparr>stats := g (stats s)\<rparr>))"
  by (simp_all add: fun_eq_iff wp_def deref_def modify_def delete_block_def new_block_def upd_stats_def
      upd_apply split: option.splits)

lemma wp_check_pool:
  assumes "pool_exists s pl" "\<And>b. b \<in> set (blocks (pools s pl)) \<Longrightarrow> heap s b \<noteq> None"
  shows "wp (check_pool pl) Q X s \<longleftrightarrow> Q () s"
proof -
  have "list_all (\<lambda>b. heap s b \<noteq> None) (blocks (pools s pl))" using assms(2) by (simp add: list_all_iff)
  with assms(1) show ?thesis by (simp add: check_pool_def wp_simps)
qed

abbreviation blocks_of :: "'d dca \<Rightarrow> pool_ref \<Rightarrow> bid list" where
  "blocks_of s \<equiv> (\<lambda>pl. blocks (pools s pl))"

lemma blocks_of_set_blocks: "blocks_of (set_blocks pl bs s) = (blocks_of s)(pl := bs)"
  by (auto simp: set_blocks_def fun_eq_iff)

lemma set_blocks_frame [simp]:
  "heap (set_blocks pl bs s) = heap s" "active_blocks (set_blocks pl bs s) = active_blocks s"
  "stats (set_blocks pl bs s) = stats s" "graph_pools (set_blocks pl bs s) = graph_pools s"
  "ctx (set_blocks pl bs s) = ctx s" "next_bid (set_blocks pl bs s) = next_bid s"
  "tracing (set_blocks pl bs s) = tracing s" "gcu_events (set_blocks pl bs s) = gcu_events s"
  "captures_underway (set_blocks pl bs s) = captures_underway s"
  "needs_events_deferred_until_no_capture (set_blocks pl bs s) = needs_events_deferred_until_no_capture s"
  "total_allocated_memory (set_blocks pl bs s) = total_allocated_memory s"
  "graph_pools_freeable (set_blocks pl bs s) = graph_pools_freeable s"
  by (simp_all add: set_blocks_def)

lemma pool_exists_frame [simp]:
  "pool_exists (s\<lparr>heap := h\<rparr>) pl = pool_exists s pl" "pool_exists (s\<lparr>pools := p\<rparr>) pl = pool_exists s pl"
  "pool_exists (s\<lparr>stats := st\<rparr>) pl = pool_exists s pl" "pool_exists (s\<lparr>tracing := tr\<rparr>) pl = pool_exists s pl"
  "pool_exists (s\<lparr>active_blocks := A\<rparr>) pl = pool_exists s pl" "pool_exists (s\<lparr>ctx := c\<rparr>) pl = pool_exists s pl"
  "pool_exists (s\<lparr>next_bid := n\<rparr>) pl = pool_exists s pl" "pool_exists (s\<lparr>gcu_events := e\<rparr>) pl = pool_exists s pl"
  "pool_exists (s\<lparr>total_allocated_memory := m\<rparr>) pl = pool_exists s pl"
  "pool_exists (s\<lparr>needs_events_deferred_until_no_capture := d\<rparr>) pl = pool_exists s pl"
  "pool_exists (set_blocks q bs s) pl = pool_exists s pl"
  by (simp_all add: pool_exists_def set_blocks_def split: option.splits)

lemma wp_pool_erase:
  assumes "pool_exists s pl" "\<And>c. c \<in> set (blocks_of s pl) \<Longrightarrow> heap s c \<noteq> None"
    and "sorted_wrt BlockComparatorSize (map (key_of s) (blocks_of s pl))" "b \<in> set (blocks_of s pl)"
  shows "wp (pool_erase pl b) Q X s \<longleftrightarrow> Q 1 (set_blocks pl (remove1 b (blocks_of s pl)) s)"
proof -
  obtain x where "heap s b = Some x" using assms(2,4) by blast
  moreover have "set_erase BlockComparatorSize (key_of s) b (blocks_of s pl) = (remove1 b (blocks_of s pl), 1)"
    using assms(3,4) by (rule block_order.set_erase_member)
  ultimately show ?thesis
    by (simp add: pool_erase_def wp_simps wp_check_pool [OF assms(1,2)]) (simp add: wp_def)
qed

section \<open>Merging\<close>

text \<open>\<open>merged h b x src h' x' ms\<close>: the outcome of \<open>try_merge_blocks\<close>; \<open>ms\<close> is what was absorbed.\<close>

definition merged ::
  "(bid \<Rightarrow> block option) \<Rightarrow> bid \<Rightarrow> block \<Rightarrow> (bid \<Rightarrow> block option) \<Rightarrow> block \<Rightarrow> (bid \<times> block) list \<Rightarrow> bool" where
  "merged h b x h' x' ms \<longleftrightarrow> h b = Some x \<and> h' b = Some x' \<and>
     (ms = [] \<and> h' = h \<or>
      (\<exists>sb xs. ms = [(sb, xs)] \<and> unused xs \<and> (merge_prev h b x sb xs h' \<or> merge_next h b x sb xs h')))"

definition merge_state :: "(bid \<Rightarrow> addr \<times> nat) \<Rightarrow> (addr \<times> nat) set \<Rightarrow> bid \<Rightarrow> 'd dca \<Rightarrow> bool" where
  "merge_state seg L b s \<longleftrightarrow> live_ok L \<and> heap_ok seg L (heap s) \<and>
     parts_ok {} {b} (heap s) (blocks_of s) (active_blocks s) \<and> b \<in> set (active_blocks s) \<and>
     (\<forall>c x. heap s c = Some x \<longrightarrow> pool_exists s (pool x))"

lemma block_small:
  assumes "live_ok L" "node_ok seg L b x"
  shows "ptr x + bsize x < 2 ^ 64" and "ptr x \<noteq> 0"
proof -
  obtain p n where pn: "seg b = (p, n)" by fastforce
  then have "(p, n) \<in> L" using assms(2) by (simp add: node_ok_def)
  then have "p \<noteq> 0" "p + n < 2 ^ 64" using assms(1) unfolding live_ok_def by blast+
  with pn assms(2) show "ptr x + bsize x < 2 ^ 64" "ptr x \<noteq> 0" by (auto simp: node_ok_def)
qed

lemma add64_small: "a + b < 2 ^ 64 \<Longrightarrow> add64 a b = a + b"
  by (simp add: add64_def)

lemma sub64_small: "b \<le> a \<Longrightarrow> a < 2 ^ 64 \<Longrightarrow> sub64 a b = a - b"
proof -
  assume "b \<le> a" "a < 2 ^ 64"
  then have e: "a + 2 ^ 64 - b = (a - b) + 2 ^ 64" and "a - b < 2 ^ 64" by simp_all
  then show ?thesis unfolding sub64_def e by (simp only: mod_add_self2 mod_less)
qed

lemma wp_try_merge_prev:
  assumes S: "merge_state seg L b s" and b: "heap s b = Some x" and sb: "prv x = Some sb"
    "heap s sb = Some xs" "unused xs" "sb \<notin> set (active_blocks s)"
    and Q: "\<And>h1. merge_prev (heap s) b x sb xs h1 \<Longrightarrow>
      Q (bsize xs) (s\<lparr>heap := h1, pools := pools (set_blocks (pool xs) (remove1 sb (blocks_of s (pool xs))) s)\<rparr>)"
    and pl: "pl = pool xs"
  shows "wp (try_merge_blocks b (Some sb) pl) Q X s"
proof -
  have H: "heap_ok seg L (heap s)" and P: "parts_ok {} {b} (heap s) (blocks_of s) (active_blocks s)"
    and L: "live_ok L" and bA: "b \<in> set (active_blocks s)"
    and ex: "\<And>c x. heap s c = Some x \<Longrightarrow> pool_exists s (pool x)"
    using S by (simp_all add: merge_state_def)
  have inP: "sb \<in> set (blocks_of s (pool xs))" using in_pool [OF P sb(2,4)] by simp
  have nx: "nxt xs = Some b" using heap_okD(3) [OF H b sb(1)] sb(2) by auto
  have so: "succ_ok seg sb xs b x" "sb \<noteq> b" using succ_less [OF H sb(2) nx b] sb(2) b by auto
  have size: "bsize x + bsize xs < 2 ^ 64"
    using block_small(1) [OF L heap_okD(1) [OF H b]] so(1) by (simp add: succ_ok_def)
  define h2 where "h2 = (let h1 = (heap s)(b \<mapsto> x\<lparr>ptr := ptr xs, prv := prv xs\<rparr>) in
     case prv xs of None \<Rightarrow> h1 | Some a \<Rightarrow> h1(a \<mapsto> (the (heap s a))\<lparr>nxt := Some b\<rparr>))"
  define h3 where "h3 = h2(b \<mapsto> x\<lparr>ptr := ptr xs, prv := prv xs, bsize := bsize x + bsize xs\<rparr>)"
  have a: "\<exists>y. heap s a = Some y \<and> a \<noteq> b \<and> a \<noteq> sb" if pa: "prv xs = Some a" for a
  proof -
    obtain y where y: "heap s a = Some y" "nxt y = Some sb" using heap_okD(3) [OF H sb(2) pa] by blast
    have "ptr y < ptr xs" "ptr xs < ptr x" using succ_less(1) [OF H y sb(2)] succ_less(1) [OF H sb(2) nx b] by auto
    then show ?thesis using y(1) b sb(2) by auto
  qed
  have h2b: "h2 b = Some (x\<lparr>ptr := ptr xs, prv := prv xs\<rparr>)"
    using a by (auto simp: h2_def Let_def split: option.splits)
  have m: "merge_prev (heap s) b x sb xs (h3(sb := None))"
    using so(2) b sb a by (auto simp: merge_prev_def h3_def h2_def Let_def option.map_ident split: option.splits)
  define t where "t = s\<lparr>heap := h3\<rparr>"
  have heap_t: "heap t = h3" by (simp add: t_def)
  have mem: "c \<noteq> b" if "c \<in> set (blocks_of s q)" for c q using parts_okD(4) [OF P that] bA by auto
  have key: "key (the (h3 c)) = key (the (heap s c))" if "c \<in> set (blocks_of s q)" for c q
    using mem [OF that] by (auto simp: h3_def h2_def Let_def key_def split: option.splits)
  have ht: "h3 c \<noteq> None" if "heap s c \<noteq> None" for c
    using that by (auto simp: h3_def h2_def Let_def split: option.splits)
  have inh: "heap s c \<noteq> None" if "c \<in> set (blocks_of s q)" for c q using parts_okD(3) [OF P that] by auto
  have sorted: "sorted_wrt BlockComparatorSize (map (key_of t) (blocks_of t (pool xs)))"
    unfolding key_of_def t_def using sorted_same_keys [OF key parts_okD(2) [OF P]] by simp
  have erase: "wp (pool_erase (pool xs) sb) R X t \<longleftrightarrow>
      R 1 (set_blocks (pool xs) (remove1 sb (blocks_of t (pool xs))) t)" for R
    by (rule wp_pool_erase [OF _ _ sorted])
      (use ex [OF sb(2)] inP ht inh in \<open>auto simp: t_def\<close>)
  have fin: "Q (bsize xs) ((set_blocks (pool xs) (remove1 sb (blocks_of t (pool xs))) t)\<lparr>heap := h3(sb := None)\<rparr>)"
  proof -
    have "(set_blocks (pool xs) (remove1 sb (blocks_of t (pool xs))) t)\<lparr>heap := h3(sb := None)\<rparr> =
        s\<lparr>heap := h3(sb := None), pools := pools (set_blocks (pool xs) (remove1 sb (blocks_of s (pool xs))) s)\<rparr>"
      by (simp add: t_def set_blocks_def)
    then show ?thesis using Q [OF m] by (simp only:)
  qed
  have sp: "is_split x" "is_split xs" using sb(1) nx by (simp_all add: is_split_def)
  have dirty: "\<not> (allocated xs \<or> 0 < event_count xs \<or> stream_uses xs \<noteq> [])" using sb(3) by (simp add: unused_def)
  have "wp (case prv xs of None \<Rightarrow> ret () | Some a \<Rightarrow> modify a (\<lambda>y. y\<lparr>nxt := Some b\<rparr>)) R X
      (s\<lparr>heap := (heap s)(b \<mapsto> x\<lparr>ptr := ptr xs, prv := prv xs\<rparr>)\<rparr>) \<longleftrightarrow> R () (s\<lparr>heap := h2\<rparr>)" for R
    using a by (auto simp: h2_def Let_def wp_simps split: option.splits)
  then show ?thesis
    using b sb(1,2) dirty sp h2b size erase fin unfolding try_merge_blocks_def pl
    by (simp add: wp_simps add64_small t_def [symmetric] h3_def [symmetric] heap_t)
qed

lemma wp_try_merge_next:
  assumes S: "merge_state seg L b s" and b: "heap s b = Some x" and sb: "nxt x = Some sb"
    "heap s sb = Some xs" "unused xs" "sb \<notin> set (active_blocks s)"
    and Q: "\<And>h1. merge_next (heap s) b x sb xs h1 \<Longrightarrow>
      Q (bsize xs) (s\<lparr>heap := h1, pools := pools (set_blocks (pool xs) (remove1 sb (blocks_of s (pool xs))) s)\<rparr>)"
    and pl: "pl = pool xs"
  shows "wp (try_merge_blocks b (Some sb) pl) Q X s"
proof -
  have H: "heap_ok seg L (heap s)" and P: "parts_ok {} {b} (heap s) (blocks_of s) (active_blocks s)"
    and L: "live_ok L" and bA: "b \<in> set (active_blocks s)"
    and ex: "\<And>c x. heap s c = Some x \<Longrightarrow> pool_exists s (pool x)"
    using S by (simp_all add: merge_state_def)
  have inP: "sb \<in> set (blocks_of s (pool xs))" using in_pool [OF P sb(2,4)] by simp
  have so: "succ_ok seg b x sb xs" "ptr x < ptr xs" using succ_less [OF H b sb(1,2)] by auto
  have ne: "sb \<noteq> b" using so(2) sb(2) b by auto
  have pr: "prv x \<noteq> Some sb"
  proof
    assume "prv x = Some sb"
    then have "nxt xs = Some b" using heap_okD(3) [OF H b] sb(2) by auto
    from succ_less(1) [OF H sb(2) this b] so(2) show False by simp
  qed
  have px: "prv xs = Some b" using so(1) by (simp add: succ_ok_def)
  have size: "bsize x + bsize xs < 2 ^ 64"
    using block_small(1) [OF L heap_okD(1) [OF H sb(2)]] so(1) by (simp add: succ_ok_def)
  define h2 where "h2 = (let h1 = (heap s)(b \<mapsto> x\<lparr>nxt := nxt xs\<rparr>) in
     case nxt xs of None \<Rightarrow> h1 | Some a \<Rightarrow> h1(a \<mapsto> (the (heap s a))\<lparr>prv := Some b\<rparr>))"
  define h3 where "h3 = h2(b \<mapsto> x\<lparr>nxt := nxt xs, bsize := bsize x + bsize xs\<rparr>)"
  have a: "\<exists>y. heap s a = Some y \<and> a \<noteq> b \<and> a \<noteq> sb" if na: "nxt xs = Some a" for a
  proof -
    obtain y where y: "heap s a = Some y" using heap_okD(2) [OF H sb(2) na] by blast
    have "ptr xs < ptr y" by (rule succ_less(1) [OF H sb(2) na y])
    then show ?thesis using y b sb(2) so(2) by auto
  qed
  have h2b: "h2 b = Some (x\<lparr>nxt := nxt xs\<rparr>)"
    using a by (auto simp: h2_def Let_def split: option.splits)
  have m: "merge_next (heap s) b x sb xs (h3(sb := None))"
    using ne b sb a by (auto simp: merge_next_def h3_def h2_def Let_def option.map_ident split: option.splits)
  define t where "t = s\<lparr>heap := h3\<rparr>"
  have heap_t: "heap t = h3" by (simp add: t_def)
  have mem: "c \<noteq> b" if "c \<in> set (blocks_of s q)" for c q using parts_okD(4) [OF P that] bA by auto
  have key: "key (the (h3 c)) = key (the (heap s c))" if "c \<in> set (blocks_of s q)" for c q
    using mem [OF that] by (auto simp: h3_def h2_def Let_def key_def split: option.splits)
  have ht: "h3 c \<noteq> None" if "heap s c \<noteq> None" for c
    using that by (auto simp: h3_def h2_def Let_def split: option.splits)
  have inh: "heap s c \<noteq> None" if "c \<in> set (blocks_of s q)" for c q using parts_okD(3) [OF P that] by auto
  have sorted: "sorted_wrt BlockComparatorSize (map (key_of t) (blocks_of t (pool xs)))"
    unfolding key_of_def t_def using sorted_same_keys [OF key parts_okD(2) [OF P]] by simp
  have erase: "wp (pool_erase (pool xs) sb) R X t \<longleftrightarrow>
      R 1 (set_blocks (pool xs) (remove1 sb (blocks_of t (pool xs))) t)" for R
    by (rule wp_pool_erase [OF _ _ sorted])
      (use ex [OF sb(2)] inP ht inh in \<open>auto simp: t_def\<close>)
  have fin: "Q (bsize xs) ((set_blocks (pool xs) (remove1 sb (blocks_of t (pool xs))) t)\<lparr>heap := h3(sb := None)\<rparr>)"
  proof -
    have "(set_blocks (pool xs) (remove1 sb (blocks_of t (pool xs))) t)\<lparr>heap := h3(sb := None)\<rparr> =
        s\<lparr>heap := h3(sb := None), pools := pools (set_blocks (pool xs) (remove1 sb (blocks_of s (pool xs))) s)\<rparr>"
      by (simp add: t_def set_blocks_def)
    then show ?thesis using Q [OF m] by (simp only:)
  qed
  have sp: "is_split x" "is_split xs" using sb(1) px by (simp_all add: is_split_def)
  have dirty: "\<not> (allocated xs \<or> 0 < event_count xs \<or> stream_uses xs \<noteq> [])" using sb(3) by (simp add: unused_def)
  have "wp (case nxt xs of None \<Rightarrow> ret () | Some a \<Rightarrow> modify a (\<lambda>y. y\<lparr>prv := Some b\<rparr>)) R X
      (s\<lparr>heap := (heap s)(b \<mapsto> x\<lparr>nxt := nxt xs\<rparr>)\<rparr>) \<longleftrightarrow> R () (s\<lparr>heap := h2\<rparr>)" for R
    using a by (auto simp: h2_def Let_def wp_simps split: option.splits)
  then show ?thesis
    using b sb(1,2) dirty sp h2b size erase fin pr unfolding try_merge_blocks_def pl
    by (simp add: wp_simps add64_small t_def [symmetric] h3_def [symmetric] heap_t)
qed

text \<open>
  One call of \<open>try_merge_blocks\<close> on a neighbour of a block that is being freed: the neighbour is
  in use and nothing happens, or it is absorbed. In both cases the neighbours on that side are
  active afterwards.
\<close>

definition near_active :: "bid \<Rightarrow> bid option \<Rightarrow> 'd dca \<Rightarrow> bool" where
  "near_active b n s \<longleftrightarrow> (\<forall>c. n = Some c \<longrightarrow> c \<in> set (active_blocks s))"

lemma merged_use: "merged h b x h' x' ms \<Longrightarrow> use x' = use x"
  by (auto simp: merged_def use_def merge_prev_def merge_next_def)

lemma merge_state_absorb:
  assumes S: "merge_state seg L b s" and a: "absorb (heap s) b sb h1" and H: "heap_ok seg L h1"
    and sb: "heap s sb = Some xs" "sb \<notin> set (active_blocks s)"
  shows "merge_state seg L b (s\<lparr>heap := h1, pools := pools (set_blocks (pool xs) (remove1 sb (blocks_of s (pool xs))) s)\<rparr>)"
proof -
  have "parts_ok {} {b} h1 ((blocks_of s)(pool xs := remove1 sb (blocks_of s (pool xs)))) (active_blocks s)"
    by (rule parts_absorb [OF _ a _ sb(2) _ sb(1)]) (use S in \<open>auto simp: merge_state_def\<close>)
  moreover have "pool_exists s (pool y)" if "h1 c = Some y" for c y
    using absorb_came [OF a that] S by (auto simp: merge_state_def)
  ultimately show ?thesis
    using S H blocks_of_set_blocks [of "pool xs" "remove1 sb (blocks_of s (pool xs))" s]
    by (auto simp: merge_state_def)
qed

lemma wp_merge_side:
  assumes S: "merge_state seg L b s" and b: "heap s b = Some x" and src: "src = prv x \<or> src = nxt x"
    and Q: "\<And>h1 P1 x1 ms. merged (heap s) b x h1 x1 ms \<Longrightarrow> merge_state seg L b (s\<lparr>heap := h1, pools := P1\<rparr>) \<Longrightarrow>
      (src = prv x \<Longrightarrow> near_active b (prv x1) s \<and> nxt x1 = nxt x) \<Longrightarrow>
      (src = nxt x \<Longrightarrow> near_active b (nxt x1) s \<and> prv x1 = prv x) \<Longrightarrow>
      (\<And>q. get_free_blocks_call_count (P1 q) = get_free_blocks_call_count (pools s q)) \<Longrightarrow>
      Q (sum_list (map (\<lambda>(_, y). bsize y) ms)) (s\<lparr>heap := h1, pools := P1\<rparr>)"
  shows "wp (try_merge_blocks b src (pool x)) Q X s"
proof -
  have H: "heap_ok seg L (heap s)" and P: "parts_ok {} {b} (heap s) (blocks_of s) (active_blocks s)"
    using S by (simp_all add: merge_state_def)
  have far: "\<exists>y. heap s c = Some y \<and> c \<noteq> b \<and> pool y = pool x" if c: "src = Some c" for c
  proof -
    from src c consider "prv x = Some c" | "nxt x = Some c" by auto
    then show ?thesis
    proof cases
      case 1
      from heap_ok_prv [OF H b 1] obtain y where y: "heap s c = Some y" "nxt y = Some b" "succ_ok seg c y b x" .
      then show ?thesis using succ_less(1) [OF H y(1,2) b] b by (auto simp: succ_ok_def)
    next
      case 2
      then obtain y where y: "heap s c = Some y" using heap_okD(2) [OF H b] by blast
      then show ?thesis using succ_less [OF H b 2 y] b by (auto simp: succ_ok_def)
    qed
  qed
  have both: "prv x = Some c \<Longrightarrow> nxt x \<noteq> Some c" for c
  proof
    assume c: "prv x = Some c" "nxt x = Some c"
    from heap_ok_prv [OF H b c(1)] obtain y where "heap s c = Some y" "nxt y = Some b" .
    then show False using succ_less(1) [OF H _ _ b] succ_less(1) [OF H b c(2)] by fastforce
  qed
  consider "src = None" | sb xs where "src = Some sb" "heap s sb = Some xs" "busy xs"
    | sb xs where "src = Some sb" "heap s sb = Some xs" "\<not> busy xs" using far by (cases src) auto
  then show ?thesis
  proof cases
    case 1
    have "Q (sum_list (map (\<lambda>(_, y). bsize y) ([] :: (bid \<times> block) list))) (s\<lparr>heap := heap s, pools := pools s\<rparr>)"
      by (rule Q) (use 1 b S in \<open>auto simp: merged_def near_active_def\<close>)
    then show ?thesis using 1 by (simp add: try_merge_blocks_def wp_simps)
  next
    case (2 sb xs)
    have act: "sb \<in> set (active_blocks s)"
      using parts_okD(9) [OF P 2(2)] parts_okD(3) [OF P, of sb] 2(2,3) not_busy by fastforce
    have "Q (sum_list (map (\<lambda>(_, y). bsize y) ([] :: (bid \<times> block) list))) (s\<lparr>heap := heap s, pools := pools s\<rparr>)"
      by (rule Q) (use act 2(1) b S in \<open>auto simp: merged_def near_active_def\<close>)
    then show ?thesis using 2 by (simp add: try_merge_blocks_def wp_simps busy_def)
  next
    case (3 sb xs)
    have free: "sb \<notin> set (active_blocks s)" using parts_okD(6) [OF P, of sb] far [OF 3(1)] 3 by auto
    then have un: "unused xs" using parts_okD(3) [OF P in_pool [OF P 3(2) free]] 3(2) by auto
    have pl: "pool x = pool xs" using far [OF 3(1)] 3(2) by auto
    from src 3(1) consider "prv x = Some sb" | "nxt x = Some sb" by auto
    then show ?thesis
    proof cases
      case p: 1
      then have src: "src = prv x" "src \<noteq> nxt x" using both 3(1) by auto
      show ?thesis unfolding 3(1)
      proof (rule wp_try_merge_prev [OF S b p 3(2) un free _ pl])
        fix h1 assume m: "merge_prev (heap s) b x sb xs h1"
        let ?s = "s\<lparr>heap := h1, pools := pools (set_blocks (pool xs) (remove1 sb (blocks_of s (pool xs))) s)\<rparr>"
        have st: "merge_state seg L b ?s"
          by (rule merge_state_absorb [OF S merge_prev_absorb [OF m H] merge_prev_ok [OF m H] 3(2) free])
        have x1: "h1 b = Some (x\<lparr>ptr := ptr xs, prv := prv xs, bsize := bsize x + bsize xs\<rparr>)"
          using m by (simp add: merge_prev_def)
        have "Q (sum_list (map (\<lambda>(_, y). bsize y) [(sb, xs)])) ?s"
          by (rule Q [OF _ st])
            (use m x1 un b src prev_active [OF P H 3(2) free] in \<open>auto simp: merged_def near_active_def set_blocks_def\<close>)
        then show "Q (bsize xs) ?s" by simp
      qed
    next
      case n: 2
      then have src: "src = nxt x" "src \<noteq> prv x" using both [of sb] 3(1) by (auto dest: sym)
      show ?thesis unfolding 3(1)
      proof (rule wp_try_merge_next [OF S b n 3(2) un free _ pl])
        fix h1 assume m: "merge_next (heap s) b x sb xs h1"
        let ?s = "s\<lparr>heap := h1, pools := pools (set_blocks (pool xs) (remove1 sb (blocks_of s (pool xs))) s)\<rparr>"
        have st: "merge_state seg L b ?s"
          by (rule merge_state_absorb [OF S merge_next_absorb [OF m H] merge_next_ok [OF m H] 3(2) free])
        have x1: "h1 b = Some (x\<lparr>nxt := nxt xs, bsize := bsize x + bsize xs\<rparr>)"
          using m by (simp add: merge_next_def)
        have "Q (sum_list (map (\<lambda>(_, y). bsize y) [(sb, xs)])) ?s"
          by (rule Q [OF _ st])
            (use m x1 un b src parts_okD(10) [OF P 3(2) free] in \<open>auto simp: merged_def near_active_def set_blocks_def\<close>)
        then show "Q (bsize xs) ?s" by simp
      qed
    qed
  qed
qed

end
