(* ===== verification/AllocState.thy ===== *)
theory AllocState
  imports AllocMerge
begin

text \<open>
  The invariant of a \<^verbatim>\<open>DeviceCachingAllocator\<close> as a whole, with the accounts: what the
  statistics, the total of allocated memory, the counters of the graph pools and the counters of
  outstanding events have to be for a given heap.
\<close>

section \<open>Accounts\<close>

definition weigh :: "(pool_ref \<Rightarrow> bool) \<Rightarrow> (bid \<Rightarrow> block \<Rightarrow> bool) \<Rightarrow> (block \<Rightarrow> int) \<Rightarrow> bid \<Rightarrow> block \<Rightarrow> int" where
  "weigh p C w b x = (if p (pool x) \<and> C b x then w x else 0)"

abbreviation of_type :: "stat_type \<Rightarrow> pool_ref \<Rightarrow> bool" where
  "of_type t \<equiv> (\<lambda>pl. get_stat_types_for_pool pl t)"

abbreviation bytes :: "block \<Rightarrow> int" where "bytes x \<equiv> int (bsize x)"

definition acct_ok :: "device_stats \<Rightarrow> (bid \<Rightarrow> block option) \<Rightarrow> bid list \<Rightarrow> bool" where
  "acct_ok st h A \<longleftrightarrow> (\<forall>t.
     current (segment st t) = tot (weigh (of_type t) (\<lambda>_ x. prv x = None) (\<lambda>_. 1)) h \<and>
     current (reserved_bytes st t) = tot (weigh (of_type t) (\<lambda>_ _. True) bytes) h \<and>
     current (allocation st t) = tot (weigh (of_type t) (\<lambda>_ x. allocated x) (\<lambda>_. 1)) h \<and>
     current (allocated_bytes st t) = tot (weigh (of_type t) (\<lambda>_ x. allocated x) bytes) h \<and>
     current (active st t) = tot (weigh (of_type t) (\<lambda>b _. b \<in> set A) (\<lambda>_. 1)) h \<and>
     current (active_bytes st t) = tot (weigh (of_type t) (\<lambda>b _. b \<in> set A) bytes) h \<and>
     current (requested_bytes st t) = tot (weigh (of_type t) (\<lambda>b _. b \<in> set A) (\<lambda>x. int (requested_size x))) h \<and>
     current (inactive_split st t) = tot (weigh (of_type t) (\<lambda>b x. b \<notin> set A \<and> is_split x) (\<lambda>_. 1)) h \<and>
     current (inactive_split_bytes st t) = tot (weigh (of_type t) (\<lambda>b x. b \<notin> set A \<and> is_split x) bytes) h)"

definition mem_ok :: "64 word \<Rightarrow> (bid \<Rightarrow> block option) \<Rightarrow> bool" where
  "mem_ok m h \<longleftrightarrow> m = word_of_int (tot (\<lambda>_. bytes) h)"

definition priv_ok :: "(bid \<Rightarrow> block option) \<Rightarrow> (mempool_id \<times> private_pool) list \<Rightarrow> bool" where
  "priv_ok h gp \<longleftrightarrow> distinct (map fst gp) \<and>
     (\<forall>b x i. h b = Some x \<longrightarrow> owner_PrivatePool (pool x) = Some i \<longrightarrow> map_of gp i \<noteq> None) \<and>
     (\<forall>i pp. map_of gp i = Some pp \<longrightarrow> topsMalloc_count pp =
        tot (weigh (\<lambda>pl. owner_PrivatePool pl = Some i) (\<lambda>_ x. prv x = None) (\<lambda>_. 1)) h)"

definition over_ok :: "(bid \<Rightarrow> addr \<times> nat) \<Rightarrow> nat \<Rightarrow> (bid \<Rightarrow> block option) \<Rightarrow> bool" where
  "over_ok seg M h \<longleftrightarrow> (\<forall>b x. h b = Some x \<longrightarrow>
     (if is_small (pool x) then snd (seg b) \<le> unat kSmallBuffer
      else unat kSmallSize < bsize x \<and> (is_split x \<longrightarrow> snd (seg b) \<le> M + unat kSmallSize)))"

definition ev_count :: "(gcu_stream \<times> event_queue) list \<Rightarrow> bid \<Rightarrow> nat" where
  "ev_count ev b = length (filter (\<lambda>(e, c). e \<noteq> None \<and> c = b) (concat (map snd ev)))"

text \<open>
  \<open>D\<close> are the blocks whose events are deferred until no capture is underway. A freed block waits
  either there or for its outstanding events.
\<close>

definition waits_ok :: "int \<Rightarrow> bid list \<Rightarrow> (gcu_stream \<times> event_queue) list \<Rightarrow> bid \<Rightarrow> block \<Rightarrow> bool" where
  "waits_ok n D ev b x \<longleftrightarrow> event_count x = int (ev_count ev b) \<and> (\<forall>g\<in>set (stream_uses x). valid_stream n g) \<and>
     (allocated x \<longrightarrow> event_count x = 0) \<and>
     (\<not> allocated x \<and> stream_uses x \<noteq> [] \<longrightarrow> b \<in> set D \<and> event_count x = 0)"

definition events_ok ::
  "int \<Rightarrow> (bid \<Rightarrow> block option) \<Rightarrow> bid list \<Rightarrow> (gcu_stream \<times> event_queue) list \<Rightarrow> bool" where
  "events_ok n h D ev \<longleftrightarrow> distinct D \<and> distinct (map fst ev) \<and>
     (\<forall>k\<in>fst ` set ev. valid_stream n k) \<and>
     (\<forall>b x. h b = Some x \<longrightarrow> waits_ok n D ev b x) \<and>
     (\<forall>b. h b = None \<longrightarrow> ev_count ev b = 0) \<and>
     (\<forall>b\<in>set D. \<exists>x. h b = Some x \<and> \<not> allocated x \<and> stream_uses x \<noteq> [])"

lemma events_okD:
  assumes "events_ok n h D ev"
  shows "distinct D" "distinct (map fst ev)" "k \<in> fst ` set ev \<Longrightarrow> valid_stream n k"
    "h b = Some x \<Longrightarrow> waits_ok n D ev b x" "h b = None \<Longrightarrow> ev_count ev b = 0"
    "b \<in> set D \<Longrightarrow> \<exists>x. h b = Some x \<and> \<not> allocated x \<and> stream_uses x \<noteq> []"
  using assms unfolding events_ok_def by blast+

lemma events_okI:
  assumes "distinct D" "distinct (map fst ev)" "\<And>k. k \<in> fst ` set ev \<Longrightarrow> valid_stream n k"
    "\<And>b x. h b = Some x \<Longrightarrow> waits_ok n D ev b x" "\<And>b. h b = None \<Longrightarrow> ev_count ev b = 0"
    "\<And>b. b \<in> set D \<Longrightarrow> \<exists>x. h b = Some x \<and> \<not> allocated x \<and> stream_uses x \<noteq> []"
  shows "events_ok n h D ev"
  using assms unfolding events_ok_def by blast

definition side_ok :: "('d \<Rightarrow> (addr \<times> nat) set) \<Rightarrow> ('d \<Rightarrow> int) \<Rightarrow> int \<Rightarrow> 'd dca \<Rightarrow> bool" where
  "side_ok live cur n s \<longleftrightarrow> ctx_ok cur n (ctx s) \<and> live_ok (live (drv (ctx s))) \<and> trace_ok (tracing s) \<and>
     fst ` set (captures_underway s) \<subseteq> dom (map_of (graph_pools s)) \<and>
     distinct (graph_pools_freeable s) \<and>
     (\<forall>i\<in>set (graph_pools_freeable s). \<exists>pp. map_of (graph_pools s) i = Some pp \<and> use_count pp = 0) \<and>
     dom (heap s) \<subseteq> {..<next_bid s}"

definition dinv :: "'d env \<Rightarrow> ('d \<Rightarrow> (addr \<times> nat) set) \<Rightarrow> ('d \<Rightarrow> int) \<Rightarrow> int \<Rightarrow>
    bid set \<Rightarrow> bid set \<Rightarrow> bid list \<Rightarrow> 'd dca \<Rightarrow> bool" where
  "dinv E live cur n H N D s \<longleftrightarrow> side_ok live cur n s \<and>
     parts_ok H N (heap s) (blocks_of s) (active_blocks s) \<and>
     (\<exists>seg. heap_ok seg (live (drv (ctx s))) (heap s) \<and> over_ok seg (max_split E) (heap s)) \<and>
     events_ok n (heap s) D (gcu_events s) \<and> priv_ok (heap s) (graph_pools s) \<and>
     mem_ok (total_allocated_memory s) (heap s) \<and> acct_ok (stats s) (heap s) (active_blocks s)"

text \<open>The invariant between two operations: nothing is held, and no event has been moved out.\<close>

definition events_there :: "(gcu_stream \<times> event_queue) list \<Rightarrow> bool" where
  "events_there ev \<longleftrightarrow> (\<forall>(k, q)\<in>set ev. \<forall>(e, b)\<in>set q. e \<noteq> None)"

definition alloc_inv :: "'d env \<Rightarrow> ('d \<Rightarrow> (addr \<times> nat) set) \<Rightarrow> ('d \<Rightarrow> int) \<Rightarrow> int \<Rightarrow> 'd dca \<Rightarrow> bool" where
  "alloc_inv E live cur n s \<longleftrightarrow>
     dinv E live cur n {} {} (needs_events_deferred_until_no_capture s) s \<and> events_there (gcu_events s)"

section \<open>Sums under merging\<close>

definition link_free :: "(bid \<Rightarrow> block \<Rightarrow> int) \<Rightarrow> bool" where
  "link_free f \<longleftrightarrow> (\<forall>b x d. (nxt x \<noteq> None \<longrightarrow> f b (x\<lparr>nxt := Some d\<rparr>) = f b x) \<and>
     (prv x \<noteq> None \<longrightarrow> f b (x\<lparr>prv := Some d\<rparr>) = f b x))"

lemma link_free_weigh:
  assumes "\<And>b x d. nxt x \<noteq> None \<Longrightarrow> C b (x\<lparr>nxt := Some d\<rparr>) = C b x"
    and "\<And>b x d. prv x \<noteq> None \<Longrightarrow> C b (x\<lparr>prv := Some d\<rparr>) = C b x"
    and "\<And>x d. w (x\<lparr>nxt := Some d\<rparr>) = w x" and "\<And>x d. w (x\<lparr>prv := Some d\<rparr>) = w x"
  shows "link_free (weigh p C w)"
  using assms by (auto simp: link_free_def weigh_def)

lemma tot_pointwise:
  assumes "\<And>b. map_option (f b) (h' b) = map_option (f b) (h b)"
  shows "tot f h' = tot f h"
proof -
  have "h' b = None \<longleftrightarrow> h b = None" for b using assms [of b] by (cases "h' b"; cases "h b") auto
  then have "dom h' = dom h" by (auto simp: dom_def)
  moreover have "f b (the (h' b)) = f b (the (h b))" if "b \<in> dom h" for b
    using that assms [of b] by (cases "h' b"; cases "h b") auto
  ultimately show ?thesis by (simp add: tot_def cong: sum.cong)
qed

lemma tot_merged:
  assumes m: "merged h b x h' x' ms" and H: "heap_ok seg L h" and fin: "finite (dom h)" and f: "link_free f"
  shows "tot f h' = tot f h - f b x + f b x' - sum_list (map (\<lambda>(s, y). f s y) ms)"
proof -
  consider "ms = []" "h' = h" | s xs where "ms = [(s, xs)]" "merge_prev h b x s xs h'"
    | s xs where "ms = [(s, xs)]" "merge_next h b x s xs h'"
    using m by (auto simp: merged_def)
  then show ?thesis
  proof cases
    case 1
    then show ?thesis using m by (auto simp: merged_def)
  next
    case (2 s xs)
    have s: "h s = Some xs" "h b = Some x" "b \<noteq> s" "h' b = Some x'" "h' s = None"
      using 2 m merge_prevD(3) [OF 2(2) H] by (auto simp: merged_def merge_prev_def)
    have "map_option (f c) (h' c) = map_option (f c) ((h(s := None, b \<mapsto> x')) c)" for c
    proof (cases "c = b \<or> c = s")
      case False
      then have "h' c = map_option (\<lambda>x. if prv xs = Some c then x\<lparr>nxt := Some b\<rparr> else x) (h c)"
        using 2(2) by (auto simp: merge_prev_def)
      moreover have "nxt y \<noteq> None" if "prv xs = Some c" "h c = Some y" for y
        using heap_okD(3) [OF H s(1) that(1)] that(2) by auto
      ultimately show ?thesis using False f by (cases "h c") (auto simp: link_free_def)
    qed (use s in auto)
    then have "tot f h' = tot f (h(s := None, b \<mapsto> x'))" by (rule tot_pointwise)
    also have "\<dots> = tot f h - f s xs - f b x + f b x'"
      using s fin by (simp add: tot_upd [where x = x] tot_del [where x = xs])
    finally show ?thesis using 2(1) by simp
  next
    case (3 s xs)
    have s: "h s = Some xs" "h b = Some x" "b \<noteq> s" "h' b = Some x'" "h' s = None"
      using 3 m merge_nextD(6) [OF 3(2) H] by (auto simp: merged_def merge_next_def)
    have "map_option (f c) (h' c) = map_option (f c) ((h(s := None, b \<mapsto> x')) c)" for c
    proof (cases "c = b \<or> c = s")
      case False
      then have "h' c = map_option (\<lambda>x. if nxt xs = Some c then x\<lparr>prv := Some b\<rparr> else x) (h c)"
        using 3(2) by (auto simp: merge_next_def)
      moreover have "prv y \<noteq> None" if "nxt xs = Some c" "h c = Some y" for y
        using heap_okD(2) [OF H s(1) that(1)] that(2) by (auto simp: succ_ok_def)
      ultimately show ?thesis using False f by (cases "h c") (auto simp: link_free_def)
    qed (use s in auto)
    then have "tot f h' = tot f (h(s := None, b \<mapsto> x'))" by (rule tot_pointwise)
    also have "\<dots> = tot f h - f s xs - f b x + f b x'"
      using s fin by (simp add: tot_upd [where x = x] tot_del [where x = xs])
    finally show ?thesis using 3(1) by simp
  qed
qed

lemma merged_facts:
  assumes m: "merged h b x h' x' ms" and H: "heap_ok seg L h"
  shows "use x' = use x"
    and "bytes x' = bytes x + sum_list (map (\<lambda>(_, y). bytes y) ms)"
    and "\<And>s y. (s, y) \<in> set ms \<Longrightarrow> h s = Some y \<and> h' s = None \<and> s \<noteq> b \<and> unused y \<and> pool y = pool x \<and> is_split y"
    and "(if prv x' = None then 1 else (0::int)) =
      (if prv x = None then 1 else 0) + sum_list (map (\<lambda>(_, y). if prv y = None then 1 else 0) ms)"
    and "length ms \<le> 1"
proof -
  show "use x' = use x" by (rule merged_use [OF m])
  show "length ms \<le> 1" using m by (auto simp: merged_def)
  consider "ms = []" "h' = h" "x' = x" | s xs where "ms = [(s, xs)]" "unused xs" "merge_prev h b x s xs h'"
    | s xs where "ms = [(s, xs)]" "unused xs" "merge_next h b x s xs h'"
    using m by (auto simp: merged_def)
  then have "bytes x' = bytes x + sum_list (map (\<lambda>(_, y). bytes y) ms) \<and>
    (\<forall>s y. (s, y) \<in> set ms \<longrightarrow> h s = Some y \<and> h' s = None \<and> s \<noteq> b \<and> unused y \<and> pool y = pool x \<and> is_split y) \<and>
    (if prv x' = None then 1 else (0::int)) =
      (if prv x = None then 1 else 0) + sum_list (map (\<lambda>(_, y). if prv y = None then 1 else 0) ms)"
  proof cases
    case 1
    then show ?thesis by simp
  next
    case (2 s xs)
    have x': "x' = x\<lparr>ptr := ptr xs, prv := prv xs, bsize := bsize x + bsize xs\<rparr>" "prv x = Some s"
        "h s = Some xs" "h' s = None"
      using m 2(3) by (auto simp: merged_def merge_prev_def)
    then show ?thesis
      using 2 merge_prevD(1-3) [OF 2(3) H] by (auto simp: succ_ok_def is_split_def)
  next
    case (3 s xs)
    have x': "x' = x\<lparr>nxt := nxt xs, bsize := bsize x + bsize xs\<rparr>" "h s = Some xs" "h' s = None"
      using m 3(3) by (auto simp: merged_def merge_next_def)
    then show ?thesis
      using 3 merge_nextD(4,6) [OF 3(3) H] by (auto simp: succ_ok_def is_split_def)
  qed
  then show "bytes x' = bytes x + sum_list (map (\<lambda>(_, y). bytes y) ms)"
    "\<And>s y. (s, y) \<in> set ms \<Longrightarrow> h s = Some y \<and> h' s = None \<and> s \<noteq> b \<and> unused y \<and> pool y = pool x \<and> is_split y"
    "(if prv x' = None then 1 else (0::int)) =
      (if prv x = None then 1 else 0) + sum_list (map (\<lambda>(_, y). if prv y = None then 1 else 0) ms)"
    by blast+
qed

section \<open>The statistics of \<open>free_block\<close>\<close>

text \<open>
  Both merges of \<open>free_block\<close> and the move of the block to its pool: \<open>ms\<close> are the absorbed
  blocks, \<open>y\<close> is the block at the end.
\<close>

definition freeing :: "(bid \<Rightarrow> block option) \<Rightarrow> bid \<Rightarrow> block \<Rightarrow> (bid \<Rightarrow> block option) \<Rightarrow> block \<Rightarrow>
    (bid \<times> block) list \<Rightarrow> (bid \<times> block) list \<Rightarrow> bool" where
  "freeing h b x h' y ms1 ms2 \<longleftrightarrow> (\<exists>h1 x1. merged h b x h1 x1 ms1 \<and> merged h1 b x1 h' y ms2)"

lemma merged_heap_ok: "merged h b x h' x' ms \<Longrightarrow> heap_ok seg L h \<Longrightarrow> heap_ok seg L h'"
  using merge_prev_ok merge_next_ok by (fastforce simp: merged_def)

lemma merged_absorb:
  assumes "merged h b x h' x' ms" "heap_ok seg L h"
  shows "ms = [] \<and> h' = h \<or> (\<exists>s y. ms = [(s, y)] \<and> absorb h b s h')"
  using assms merge_prev_absorb merge_next_absorb by (fastforce simp: merged_def)

lemma merged_dom:
  assumes "merged h b x h' x' ms" "heap_ok seg L h"
  shows "dom h' \<subseteq> dom h"
proof -
  have "h c \<noteq> None" if "h' c = Some y" for c y
    using merged_absorb [OF assms] absorb_came [of h b _ h' c y] that by auto
  then show ?thesis by blast
qed

lemma tot_freeing:
  assumes m: "freeing h b x h' y ms1 ms2" and H: "heap_ok seg L h" and fin: "finite (dom h)"
    and f: "link_free f'" and off: "\<And>c z. h c = Some z \<Longrightarrow> c \<noteq> b \<Longrightarrow> f' c z = f c z"
  shows "tot f' h' = tot f h - f b x + f' b y - sum_list (map (\<lambda>(s, y). f' s y) (ms1 @ ms2))"
proof -
  obtain h1 x1 where m1: "merged h b x h1 x1 ms1" and m2: "merged h1 b x1 h' y ms2"
    using m by (auto simp: freeing_def)
  have "h b = Some x" using m1 by (simp add: merged_def)
  then have "tot f' h = tot f h - f b x + f' b x" by (rule tot_cong_at [OF fin]) (rule off)
  moreover have "tot f' h1 = tot f' h - f' b x + f' b x1 - sum_list (map (\<lambda>(s, y). f' s y) ms1)"
    by (rule tot_merged [OF m1 H fin f])
  moreover have "tot f' h' = tot f' h1 - f' b x1 + f' b y - sum_list (map (\<lambda>(s, y). f' s y) ms2)"
    by (rule tot_merged [OF m2 merged_heap_ok [OF m1 H] finite_subset [OF merged_dom [OF m1 H] fin] f])
  ultimately show ?thesis by simp
qed

lemma freeing_facts:
  assumes m: "freeing h b x h' y ms1 ms2" and H: "heap_ok seg L h"
  shows "use y = use x"
    and "bytes y = bytes x + sum_list (map (\<lambda>(_, y). bytes y) (ms1 @ ms2))"
    and "\<And>s z. (s, z) \<in> set (ms1 @ ms2) \<Longrightarrow> s \<noteq> b \<and> unused z \<and> pool z = pool x \<and> is_split z"
    and "(if prv y = None then 1 else (0::int)) =
      (if prv x = None then 1 else 0) + sum_list (map (\<lambda>(_, y). if prv y = None then 1 else 0) (ms1 @ ms2))"
    and "length ms1 \<le> 1" "length ms2 \<le> 1" and "heap_ok seg L h'" and "dom h' \<subseteq> dom h" and "h' b = Some y"
proof -
  obtain h1 x1 where m1: "merged h b x h1 x1 ms1" and m2: "merged h1 b x1 h' y ms2"
    using m by (auto simp: freeing_def)
  note H1 = merged_heap_ok [OF m1 H]
  note F1 = merged_facts [OF m1 H] and F2 = merged_facts [OF m2 H1]
  show "use y = use x" using F1(1) F2(1) by simp
  then have "pool x1 = pool x" using F1(1) by (simp add: use_def)
  then show "\<And>s z. (s, z) \<in> set (ms1 @ ms2) \<Longrightarrow> s \<noteq> b \<and> unused z \<and> pool z = pool x \<and> is_split z"
    using F1(3) F2(3) by auto
  show "bytes y = bytes x + sum_list (map (\<lambda>(_, y). bytes y) (ms1 @ ms2))" using F1(2) F2(2) by simp
  show "(if prv y = None then 1 else (0::int)) =
      (if prv x = None then 1 else 0) + sum_list (map (\<lambda>(_, y). if prv y = None then 1 else 0) (ms1 @ ms2))"
    using F1(4) F2(4) by simp
  show "length ms1 \<le> 1" "length ms2 \<le> 1" by (rule F1(5), rule F2(5))
  show "heap_ok seg L h'" by (rule merged_heap_ok [OF m2 H1])
  show "dom h' \<subseteq> dom h" using merged_dom [OF m1 H] merged_dom [OF m2 H1] by simp
  show "h' b = Some y" using m2 by (simp add: merged_def)
qed

text \<open>An update of one entry per selected type changes the selected entries.\<close>

lemma selected_current:
  assumes "\<And>u st t. current (F (g u st) t) = current (F st t) + (if t = u then d else 0)"
  shows "current (F (for_each_selected_stat_type (stat_types_of small) g st) t) =
    current (F st t) + (if stat_types_of small t then d else 0)"
  unfolding for_each_selected by (cases t; cases small; simp add: assms stat_types_of_def)

lemma current_stat_at:
  "current (stat_at (increase_stat n) u a t) = current (a t) + (if t = u then n else 0)"
  "current (stat_at (decrease_stat n) u a t) = current (a t) + (if t = u then - n else 0)"
  by (simp_all add: stat_at_def)

lemma selected_free_stats:
  assumes st': "st' = for_each_selected_stat_type (stat_types_of small) (free_block_stats nb ns sz rq) st"
  shows "current (segment st' t) = current (segment st t) + (if stat_types_of small t then 0 else 0)"
    "current (reserved_bytes st' t) = current (reserved_bytes st t) + (if stat_types_of small t then 0 else 0)"
    "current (allocation st' t) = current (allocation st t) + (if stat_types_of small t then 0 else 0)"
    "current (allocated_bytes st' t) = current (allocated_bytes st t) + (if stat_types_of small t then 0 else 0)"
    "current (active st' t) = current (active st t) + (if stat_types_of small t then - 1 else 0)"
    "current (active_bytes st' t) = current (active_bytes st t) + (if stat_types_of small t then - int sz else 0)"
    "current (requested_bytes st' t) = current (requested_bytes st t) + (if stat_types_of small t then - int rq else 0)"
    "current (inactive_split st' t) = current (inactive_split st t) + (if stat_types_of small t then nb else 0)"
    "current (inactive_split_bytes st' t) = current (inactive_split_bytes st t) + (if stat_types_of small t then ns else 0)"
  unfolding st' by (rule selected_current; simp add: free_block_stats_def Let_def current_stat_at)+

lemma sum_weigh:
  assumes "\<And>s z. (s, z) \<in> set ms \<Longrightarrow> pool z = pl"
  shows "sum_list (map (\<lambda>(s, z). weigh p C w s z) ms) =
    (if p pl then sum_list (map (\<lambda>(s, z). if C s z then w z else 0) ms) else 0)"
proof -
  have "map (\<lambda>(s, z). weigh p C w s z) ms = map (\<lambda>(s, z). if p pl then (if C s z then w z else 0) else 0) ms"
    by (rule map_cong [OF refl]) (use assms in \<open>auto simp: weigh_def\<close>)
  moreover have "sum_list (map (\<lambda>(s, z). 0 :: int) ms) = 0" by (induction ms) auto
  ultimately show ?thesis by (cases "p pl") (simp_all only: if_True if_False)
qed

lemma sum_const:
  assumes "\<And>s z. (s, z) \<in> set ms \<Longrightarrow> C s z \<longleftrightarrow> c"
  shows "sum_list (map (\<lambda>(s, z). if C s z then w z else 0) ms) = (if c then sum_list (map (\<lambda>(_, z). w z) ms) else (0::int))"
proof -
  have "map (\<lambda>(s, z). if C s z then w z else 0) ms = map (\<lambda>(_, z). if c then w z else 0) ms"
    by (rule map_cong [OF refl]) (use assms in auto)
  moreover have "sum_list (map (\<lambda>(_, z). 0 :: int) ms) = 0" by (induction ms) auto
  ultimately show ?thesis by (cases c) (simp_all only: if_True if_False)
qed

lemma sum_ones: "sum_list (map (\<lambda>(_, _). 1 :: int) ms) = int (length ms)"
  by (induction ms) auto

lemma weights_link_free:
  "link_free (weigh p (\<lambda>_ x. prv x = None) (\<lambda>_. 1))" "link_free (weigh p (\<lambda>_ _. True) bytes)"
  "link_free (weigh p (\<lambda>_ x. allocated x) (\<lambda>_. 1))" "link_free (weigh p (\<lambda>_ x. allocated x) bytes)"
  "link_free (weigh p (\<lambda>b _. b \<in> B) (\<lambda>_. 1))" "link_free (weigh p (\<lambda>b _. b \<in> B) bytes)"
  "link_free (weigh p (\<lambda>b _. b \<in> B) (\<lambda>x. int (requested_size x)))"
  "link_free (weigh p (\<lambda>b x. b \<notin> B \<and> is_split x) (\<lambda>_. 1))"
  "link_free (weigh p (\<lambda>b x. b \<notin> B \<and> is_split x) bytes)" "link_free (\<lambda>_. bytes)"
  by (auto simp: link_free_def weigh_def is_split_def)

lemma acct_okD:
  assumes "acct_ok st h A"
  shows "current (segment st t) = tot (weigh (of_type t) (\<lambda>_ x. prv x = None) (\<lambda>_. 1)) h"
     "current (reserved_bytes st t) = tot (weigh (of_type t) (\<lambda>_ _. True) bytes) h"
     "current (allocation st t) = tot (weigh (of_type t) (\<lambda>_ x. allocated x) (\<lambda>_. 1)) h"
     "current (allocated_bytes st t) = tot (weigh (of_type t) (\<lambda>_ x. allocated x) bytes) h"
     "current (active st t) = tot (weigh (of_type t) (\<lambda>b _. b \<in> set A) (\<lambda>_. 1)) h"
     "current (active_bytes st t) = tot (weigh (of_type t) (\<lambda>b _. b \<in> set A) bytes) h"
     "current (requested_bytes st t) = tot (weigh (of_type t) (\<lambda>b _. b \<in> set A) (\<lambda>x. int (requested_size x))) h"
     "current (inactive_split st t) = tot (weigh (of_type t) (\<lambda>b x. b \<notin> set A \<and> is_split x) (\<lambda>_. 1)) h"
     "current (inactive_split_bytes st t) = tot (weigh (of_type t) (\<lambda>b x. b \<notin> set A \<and> is_split x) bytes) h"
  using assms by (simp_all add: acct_ok_def)

text \<open>An entry stays exact when it changes by as much as the sum it stands for.\<close>

lemma bookI:
  assumes "c = tot f h" "c' = c + (if T then d else 0)" "tot f' h' = tot f h + (if T then D else 0)" "D = (d :: int)"
  shows "c' = tot f' h'"
  using assms by simp

lemma weigh_freeing:
  assumes m: "freeing h b x h' y ms1 ms2" and H: "heap_ok seg L h" and fin: "finite (dom h)"
    and f: "link_free (weigh p C' w)" and C: "\<And>c z. c \<noteq> b \<Longrightarrow> C' c z = C c z"
    and g: "\<And>g. C' b (y\<lparr>gc_count_base := g\<rparr>) = C' b y" "\<And>g. w (y\<lparr>gc_count_base := g\<rparr>) = w y"
  shows "tot (weigh p C' w) (h'(b \<mapsto> y\<lparr>gc_count_base := g\<rparr>)) = tot (weigh p C w) h +
    (if p (pool x) then (if C' b y then w y else 0) - (if C b x then w x else 0) -
       sum_list (map (\<lambda>(s, z). if C' s z then w z else 0) (ms1 @ ms2)) else 0)"
proof -
  note F = freeing_facts [OF m H]
  have 1: "tot (weigh p C' w) (h'(b \<mapsto> y\<lparr>gc_count_base := g\<rparr>)) = tot (weigh p C' w) h'"
    by (rule tot_update_same [OF finite_subset [OF F(8) fin] F(9)]) (simp add: weigh_def g)
  have 2: "tot (weigh p C' w) h' = tot (weigh p C w) h - weigh p C w b x + weigh p C' w b y -
      sum_list (map (\<lambda>(s, z). weigh p C' w s z) (ms1 @ ms2))"
    by (rule tot_freeing [OF m H fin f]) (simp add: weigh_def C)
  have 3: "sum_list (map (\<lambda>(s, z). weigh p C' w s z) (ms1 @ ms2)) =
      (if p (pool x) then sum_list (map (\<lambda>(s, z). if C' s z then w z else 0) (ms1 @ ms2)) else 0)"
    by (rule sum_weigh) (use F(3) in blast)
  show ?thesis unfolding 1 2 3 using use_same(3) [OF F(1)] by (simp add: weigh_def [of p C w b x] weigh_def [of p C' w b y])
qed

lemma acct_freeing:
  assumes acct: "acct_ok st h A" and m: "freeing h b x h' y ms1 ms2" and H: "heap_ok seg L h"
    and fin: "finite (dom h)" and A: "distinct A" "b \<in> set A" and x: "unused x"
    and ms: "\<And>s z. (s, z) \<in> set (ms1 @ ms2) \<Longrightarrow> s \<notin> set A"
    and nb: "nb = (if is_split y then 1 else 0) - int (length (ms1 @ ms2))"
    and ns: "ns = (if is_split y then bytes y else 0) - sum_list (map (\<lambda>(_, z). bytes z) (ms1 @ ms2))"
    and st': "st' = for_each_selected_stat_type (get_stat_types_for_pool (pool x))
      (free_block_stats nb ns (bsize x) (requested_size x)) st"
  shows "acct_ok st' (h'(b \<mapsto> y\<lparr>gc_count_base := g\<rparr>)) (remove1 b A)" (is "acct_ok _ ?h ?A")
proof -
  note F = freeing_facts [OF m H]
  have A': "set (remove1 b A) = set A - {b}" using A(1) by simp
  have y: "pool y = pool x" "\<not> allocated x" "\<not> allocated y" "requested_size y = requested_size x"
    using F(1) x by (auto simp: use_def unused_def)
  have bA: "b \<notin> set ?A" "\<And>c. c \<noteq> b \<Longrightarrow> (c \<in> set ?A) = (c \<in> set A)" using A' by auto
  note sel = selected_free_stats [OF st' [unfolded get_stat_types_for_pool_def], folded get_stat_types_for_pool_def]
  note S = sum_const [of "ms1 @ ms2"]
  have notA: "(s, z) \<in> set (ms1 @ ms2) \<Longrightarrow> s \<in> set ?A \<longleftrightarrow> False" for s z using ms A' by blast
  have inact: "(s, z) \<in> set (ms1 @ ms2) \<Longrightarrow> s \<notin> set ?A \<and> is_split z \<longleftrightarrow> True" for s z
    using notA F(3) by blast
  have free: "(s, z) \<in> set (ms1 @ ms2) \<Longrightarrow> allocated z \<longleftrightarrow> False" for s z
    using F(3) by (auto simp: unused_def)
  note W = weigh_freeing [OF m H fin]
  show ?thesis
    unfolding acct_ok_def
  proof (intro allI conjI)
    fix t
    show "current (segment st' t) = tot (weigh (of_type t) (\<lambda>_ x. prv x = None) (\<lambda>_. 1)) ?h"
      by (rule bookI [OF acct_okD(1) [OF acct] sel(1) W [OF weights_link_free(1) refl]]) (use F(4) in simp_all)
    show "current (reserved_bytes st' t) = tot (weigh (of_type t) (\<lambda>_ _. True) bytes) ?h"
      by (rule bookI [OF acct_okD(2) [OF acct] sel(2) W [OF weights_link_free(2) refl]]) (use F(2) in simp_all)
    show "current (allocation st' t) = tot (weigh (of_type t) (\<lambda>_ x. allocated x) (\<lambda>_. 1)) ?h"
      by (rule bookI [OF acct_okD(3) [OF acct] sel(3) W [OF weights_link_free(3) refl]])
        (use y S [OF free, where w = "\<lambda>_. 1"] in simp_all)
    show "current (allocated_bytes st' t) = tot (weigh (of_type t) (\<lambda>_ x. allocated x) bytes) ?h"
      by (rule bookI [OF acct_okD(4) [OF acct] sel(4) W [OF weights_link_free(4) refl]])
        (use y S [OF free, where w = bytes] in simp_all)
    show "current (active st' t) = tot (weigh (of_type t) (\<lambda>b' _. b' \<in> set ?A) (\<lambda>_. 1)) ?h"
      by (rule bookI [OF acct_okD(5) [OF acct] sel(5) W [OF weights_link_free(5) bA(2)]])
        (use A(2) bA(1) S [OF notA, where w = "\<lambda>_. 1"] in simp_all)
    show "current (active_bytes st' t) = tot (weigh (of_type t) (\<lambda>b' _. b' \<in> set ?A) bytes) ?h"
      by (rule bookI [OF acct_okD(6) [OF acct] sel(6) W [OF weights_link_free(6) bA(2)]])
        (use A(2) bA(1) S [OF notA, where w = bytes] in simp_all)
    show "current (requested_bytes st' t) = tot (weigh (of_type t) (\<lambda>b' _. b' \<in> set ?A) (\<lambda>x. int (requested_size x))) ?h"
      by (rule bookI [OF acct_okD(7) [OF acct] sel(7) W [OF weights_link_free(7) bA(2)]])
        (use A(2) bA(1) S [OF notA, where w = "\<lambda>x. int (requested_size x)"] in simp_all)
    show "current (inactive_split st' t) = tot (weigh (of_type t) (\<lambda>b' x. b' \<notin> set ?A \<and> is_split x) (\<lambda>_. 1)) ?h"
      by (rule bookI [OF acct_okD(8) [OF acct] sel(8) W [OF weights_link_free(8)]])
        (use A(2) bA S [OF inact, where w = "\<lambda>_. 1"] sum_ones [of "ms1 @ ms2"] nb in \<open>simp_all add: is_split_def\<close>)
    show "current (inactive_split_bytes st' t) = tot (weigh (of_type t) (\<lambda>b' x. b' \<notin> set ?A \<and> is_split x) bytes) ?h"
      by (rule bookI [OF acct_okD(9) [OF acct] sel(9) W [OF weights_link_free(9)]])
        (use A(2) bA S [OF inact, where w = bytes] ns in \<open>simp_all add: is_split_def\<close>)
  qed
qed

end
