(* ===== verification/AllocFree.thy ===== *)
theory AllocFree
  imports AllocState
begin

text \<open>
  \<open>free_block\<close> keeps the invariant: the block is merged with its free neighbours and put into its
  pool, and the accounts stay exact.
\<close>

section \<open>Traces and pools\<close>

lemma wp_record_trace:
  assumes "trace_ok (tracing s)" and "\<And>tr. trace_ok tr \<Longrightarrow> Q () (s\<lparr>tracing := tr\<rparr>)"
  shows "wp (record_trace a ad sz st dev) Q X s"
proof -
  let ?te = "\<lparr> action_kind = a, te_device = dev, te_addr = ad, te_size = sz, te_stream = st \<rparr>"
  let ?t = "(tracing s)\<lparr>trace_trackers := map (\<lambda>seen. seen @ [?te]) (trace_trackers (tracing s))\<rparr>"
  have "trace_ok ?t" using assms(1) by (simp add: trace_ok_def)
  then obtain t' where "push_entry ?te ?t = Inr t'" "trace_ok t'" using push_entry_trace by blast
  then have "\<exists>tr. record_entry ?te (tracing s) = Inr tr \<and> trace_ok tr"
    using assms(1) \<open>trace_ok ?t\<close> by (auto simp: record_entry_def Let_def)
  then show ?thesis using assms(2) by (auto simp: record_trace_def wp_def)
qed

lemma keys_differ:
  assumes "heap_ok seg L h" "h b = Some x" "h c = Some y" "b \<noteq> c"
  shows "BlockComparatorSize (key x) (key y) \<or> BlockComparatorSize (key y) (key x)"
proof -
  have "range_of x \<inter> range_of y = {}" by (rule heap_okD(4) [OF assms])
  moreover have "0 < bsize x" "0 < bsize y"
    using heap_okD(1) [OF assms(1,2)] heap_okD(1) [OF assms(1,3)] by (auto simp: node_ok_def)
  ultimately have "ptr x \<noteq> ptr y" by (auto simp: range_of_def)
  then show ?thesis by (auto simp: key_def)
qed

text \<open>Inserting a block that is in no pool succeeds.\<close>

lemma wp_insert_into_blocks:
  assumes H: "heap_ok seg L (heap s)" and b: "heap s b = Some x" and ex: "pool_exists s pl"
    and P: "\<And>c. c \<in> set (blocks_of s pl) \<Longrightarrow> heap s c \<noteq> None \<and> c \<noteq> b"
    and sorted: "sorted_wrt BlockComparatorSize (map (\<lambda>c. key (the (heap s c))) (blocks_of s pl))"
    and Q: "\<And>g bs. set bs = insert b (set (blocks_of s pl)) \<Longrightarrow>
      sorted_wrt BlockComparatorSize (map (\<lambda>c. key (the (((heap s)(b \<mapsto> x\<lparr>gc_count_base := g\<rparr>)) c))) bs) \<Longrightarrow>
      Q True (set_blocks pl bs (s\<lparr>heap := (heap s)(b \<mapsto> x\<lparr>gc_count_base := g\<rparr>)\<rparr>))"
  shows "wp (insert_into_blocks pl b) Q X s"
proof -
  define g where "g = get_free_blocks_call_count (pools s pl)"
  define h where "h = (heap s)(b \<mapsto> x\<lparr>gc_count_base := g\<rparr>)"
  define t where "t = s\<lparr>heap := h\<rparr>"
  have t: "pools t = pools s" "key_of t = (\<lambda>c. key (the (h c)))" "heap t = h"
    by (simp_all add: t_def key_of_def fun_eq_iff)
  have sh: "sorted_wrt BlockComparatorSize (map (\<lambda>c. key (the (h c))) (blocks_of s pl))"
    by (rule sorted_same_keys [OF _ sorted]) (use P in \<open>auto simp: h_def\<close>)
  have differ: "\<forall>y\<in>set (blocks_of s pl). BlockComparatorSize (key (the (h b))) (key (the (h y))) \<or>
      BlockComparatorSize (key (the (h y))) (key (the (h b)))"
  proof
    fix c assume c: "c \<in> set (blocks_of s pl)"
    then obtain y where y: "heap s c = Some y" "c \<noteq> b" using P by blast
    have "key (x\<lparr>gc_count_base := g\<rparr>) = key x" by (simp add: key_def)
    then show "BlockComparatorSize (key (the (h b))) (key (the (h c))) \<or>
        BlockComparatorSize (key (the (h c))) (key (the (h b)))"
      using keys_differ [OF H b y(1)] y by (simp add: h_def)
  qed
  let ?r = "set_insert BlockComparatorSize (\<lambda>c. key (the (h c))) b (blocks_of s pl)"
  have yes: "snd ?r" using block_order.set_insert_iff [OF sh] differ by blast
  have Qr: "Q True (set_blocks pl (fst ?r) t)"
    unfolding t_def h_def
    by (rule Q) (use block_order.set_insert_True [OF yes] block_order.set_insert_sorted [OF sh] in
        \<open>simp_all add: h_def\<close>)
  have ck: "wp (check_pool pl) R X t \<longleftrightarrow> R () t" for R
    by (rule wp_check_pool) (use ex P t in \<open>auto simp: t_def h_def\<close>)
  have "wp (\<lambda>s. let (bs, inserted) = set_insert BlockComparatorSize (key_of s) b (blocks_of s pl)
           in (Inr inserted, set_blocks pl bs s)) Q X t"
    using Qr yes by (cases ?r) (simp add: wp_def t)
  then show ?thesis
    using b ck unfolding insert_into_blocks_def
    by (simp add: wp_simps g_def [symmetric] h_def [symmetric] t_def [symmetric])
qed

section \<open>The invariant under \<open>free_block\<close>\<close>

lemma merged_came:
  assumes "merged h b x h' x' ms" "heap_ok seg L h" "h' c = Some z'"
  shows "\<exists>z. h c = Some z \<and> use z' = use z \<and> (is_split z' \<longrightarrow> is_split z) \<and> bsize z \<le> bsize z'"
proof -
  consider "h' = h" | s where "absorb h b s h'" using merged_absorb [OF assms(1,2)] by blast
  then show ?thesis
  proof cases
    case 2
    show ?thesis by (rule absorb_new [OF 2 assms(3)]) blast
  qed (use assms(3) in auto)
qed

lemma merged_gone:
  assumes m: "merged h b x h' x' ms" and H: "heap_ok seg L h" and c: "h c = Some z" "h' c = None"
  shows "(c, z) \<in> set ms"
proof -
  consider "h' = h" | s y where "ms = [(s, y)]" "absorb h b s h'" using merged_absorb [OF m H] by blast
  then show ?thesis
  proof cases
    case (2 s y)
    have "c = s" using absorb_kept [OF 2(2) c(1)] c(2) by auto
    moreover have "h s = Some y" using merged_facts(3) [OF m H, of s y] 2(1) by simp
    ultimately show ?thesis using 2(1) c(1) by simp
  qed (use c in auto)
qed

lemma freeing_came:
  assumes m: "freeing h b x h' y ms1 ms2" and H: "heap_ok seg L h" and c: "h' c = Some z'"
  shows "\<exists>z. h c = Some z \<and> use z' = use z \<and> (is_split z' \<longrightarrow> is_split z) \<and> bsize z \<le> bsize z'"
proof -
  obtain h1 x1 where m1: "merged h b x h1 x1 ms1" and m2: "merged h1 b x1 h' y ms2"
    using m by (auto simp: freeing_def)
  from merged_came [OF m2 merged_heap_ok [OF m1 H] c] obtain z1 where z1: "h1 c = Some z1" "use z' = use z1"
    "is_split z' \<longrightarrow> is_split z1" "bsize z1 \<le> bsize z'" by blast
  from merged_came [OF m1 H z1(1)] z1 show ?thesis by fastforce
qed

lemma freeing_gone:
  assumes m: "freeing h b x h' y ms1 ms2" and H: "heap_ok seg L h" and c: "h c = Some z" "h' c = None"
  shows "unused z"
proof -
  obtain h1 x1 where m1: "merged h b x h1 x1 ms1" and m2: "merged h1 b x1 h' y ms2"
    using m by (auto simp: freeing_def)
  show ?thesis
  proof (cases "h1 c")
    case None
    then show ?thesis using merged_facts(3) [OF m1 H merged_gone [OF m1 H c(1)]] by blast
  next
    case (Some z1)
    note H1 = merged_heap_ok [OF m1 H]
    have "unused z1" using merged_facts(3) [OF m2 H1 merged_gone [OF m2 H1 Some c(2)]] by blast
    moreover have "use z1 = use z" using merged_came [OF m1 H Some] c(1) by auto
    ultimately show ?thesis using use_same(1) by blast
  qed
qed

lemma events_freeing:
  assumes ev: "events_ok n h D ev" and m: "freeing h b x h' y ms1 ms2" and H: "heap_ok seg L h"
  shows "events_ok n h' D ev"
proof -
  have came: "\<exists>z. h c = Some z \<and> allocated z' = allocated z \<and> event_count z' = event_count z \<and>
      stream_uses z' = stream_uses z" if "h' c = Some z'" for c z'
    using freeing_came [OF m H that] by (auto simp: use_def)
  have stay: "\<exists>z'. h' c = Some z' \<and> allocated z' = allocated z \<and> stream_uses z' = stream_uses z"
    if c: "h c = Some z" "stream_uses z \<noteq> []" for c z
  proof (cases "h' c")
    case None
    then show ?thesis using freeing_gone [OF m H c(1)] c(2) by (simp add: unused_def)
  next
    case (Some z')
    then show ?thesis using came [OF Some] c(1) by auto
  qed
  note D = events_okD [OF ev]
  show ?thesis
  proof (rule events_okI)
    show "waits_ok n D ev c z'" if "h' c = Some z'" for c z'
    proof -
      from came [OF that] obtain z where "h c = Some z" "allocated z' = allocated z"
        "event_count z' = event_count z" "stream_uses z' = stream_uses z" by blast
      then show ?thesis using D(4) [of c z] by (auto simp: waits_ok_def)
    qed
    show "ev_count ev c = 0" if c: "h' c = None" for c
    proof (cases "h c")
      case None
      then show ?thesis by (rule D(5))
    next
      case (Some z)
      then show ?thesis using freeing_gone [OF m H Some c] D(4) [OF Some] by (simp add: unused_def waits_ok_def)
    qed
    show "\<exists>x. h' c = Some x \<and> \<not> allocated x \<and> stream_uses x \<noteq> []" if "c \<in> set D" for c
      using D(6) [OF that] stay by fastforce
  qed (use D(1,2,3) in blast)+
qed

lemma priv_freeing:
  assumes p: "priv_ok h gp" and m: "freeing h b x h' y ms1 ms2" and H: "heap_ok seg L h" and fin: "finite (dom h)"
  shows "priv_ok (h'(b \<mapsto> y\<lparr>gc_count_base := g\<rparr>)) gp"
proof -
  note F = freeing_facts [OF m H]
  have pool: "\<exists>z. h c = Some z \<and> pool z = pool z'" if "(h'(b \<mapsto> y\<lparr>gc_count_base := g\<rparr>)) c = Some z'" for c z'
  proof (cases "c = b")
    case True
    then show ?thesis using that F(1) m by (auto simp: freeing_def merged_def use_def)
  next
    case False
    then show ?thesis using that freeing_came [OF m H, of c z'] by (auto simp: use_def)
  qed
  have "tot (weigh (\<lambda>pl. owner_PrivatePool pl = Some i) (\<lambda>_ x. prv x = None) (\<lambda>_. 1)) (h'(b \<mapsto> y\<lparr>gc_count_base := g\<rparr>)) =
      tot (weigh (\<lambda>pl. owner_PrivatePool pl = Some i) (\<lambda>_ x. prv x = None) (\<lambda>_. 1)) h" for i
    using F(4) by (subst weigh_freeing [OF m H fin weights_link_free(1)]) auto
  then show ?thesis using p pool unfolding priv_ok_def by metis
qed

lemma mem_freeing:
  assumes p: "mem_ok w h" and m: "freeing h b x h' y ms1 ms2" and H: "heap_ok seg L h" and fin: "finite (dom h)"
  shows "mem_ok w (h'(b \<mapsto> y\<lparr>gc_count_base := g\<rparr>))"
proof -
  note F = freeing_facts [OF m H]
  have "tot (\<lambda>_. bytes) (h'(b \<mapsto> y\<lparr>gc_count_base := g\<rparr>)) = tot (\<lambda>_. bytes) h'"
    by (rule tot_update_same [OF finite_subset [OF F(8) fin] F(9)]) simp
  moreover have "tot (\<lambda>_. bytes) h' = tot (\<lambda>_. bytes) h"
    using tot_freeing [OF m H fin weights_link_free(10), of "\<lambda>_. bytes"] F(2) by simp
  ultimately show ?thesis using p by (simp add: mem_ok_def)
qed

lemma over_freeing:
  assumes o: "over_ok seg M h" and m: "freeing h b x h' y ms1 ms2" and H: "heap_ok seg L h"
  shows "over_ok seg M (h'(b \<mapsto> y\<lparr>gc_count_base := g\<rparr>))"
proof -
  have "\<exists>z. h c = Some z \<and> pool z' = pool z \<and> (is_split z' \<longrightarrow> is_split z) \<and> bsize z \<le> bsize z'"
    if "(h'(b \<mapsto> y\<lparr>gc_count_base := g\<rparr>)) c = Some z'" for c z'
  proof (cases "c = b")
    case True
    then have "z' = y\<lparr>gc_count_base := g\<rparr>" using that by simp
    then show ?thesis using freeing_came [OF m H freeing_facts(9) [OF m H]] True by (auto simp: use_def is_split_def)
  next
    case False
    then show ?thesis using that freeing_came [OF m H, of c z'] by (auto simp: use_def)
  qed
  then show ?thesis using o unfolding over_ok_def by fastforce
qed

lemma finite_heap: "side_ok live cur n s \<Longrightarrow> finite (dom (heap s))"
  by (auto simp: side_ok_def intro: finite_subset)

lemma priv_exists: "priv_ok (heap s) (graph_pools s) \<Longrightarrow> heap s b = Some x \<Longrightarrow> pool_exists s (pool x)"
  by (auto simp: priv_ok_def pool_exists_def split: option.splits)

lemma dinv_merge_state:
  assumes "dinv E live cur n {} {b} D s" "b \<in> set (active_blocks s)"
  obtains seg where "merge_state seg (live (drv (ctx s))) b s" "over_ok seg (max_split E) (heap s)"
  using assms priv_exists by (fastforce simp: dinv_def merge_state_def side_ok_def)

text \<open>What \<open>free_block\<close> leaves behind.\<close>

definition freed_state :: "bid \<Rightarrow> block \<Rightarrow> 'd dca \<Rightarrow> 'd dca \<Rightarrow> bool" where
  "freed_state b x s s' \<longleftrightarrow> (\<exists>tr h y ms1 ms2 g p st. freeing (heap s) b x h y ms1 ms2 \<and>
     s' = s\<lparr>tracing := tr, heap := h(b \<mapsto> y\<lparr>gc_count_base := g\<rparr>), pools := p,
            active_blocks := remove1 b (active_blocks s), stats := st\<rparr>)"

lemma free_block_inv:
  assumes I: "dinv E live cur n {} {b} D s" and bA: "b \<in> set (active_blocks s)"
    and m: "freeing (heap s) b x h y ms1 ms2" and un: "unused x" and tr: "trace_ok tr"
    and MS: "merge_state seg (live (drv (ctx s))) b (s\<lparr>heap := h, pools := p\<rparr>)"
    and over: "over_ok seg (max_split E) (heap s)" and H: "heap_ok seg (live (drv (ctx s))) (heap s)"
    and near: "\<And>a. prv y = Some a \<Longrightarrow> a \<in> set (active_blocks s)" "\<And>a. nxt y = Some a \<Longrightarrow> a \<in> set (active_blocks s)"
    and bs: "set bs = insert b (set (blocks (p (pool x))))"
      "sorted_wrt BlockComparatorSize (map (\<lambda>c. key (the ((h(b \<mapsto> y\<lparr>gc_count_base := g\<rparr>)) c))) bs)"
    and p': "(\<lambda>q. blocks (p' q)) = (\<lambda>q. blocks (p q))(pool x := bs)"
    and gone: "\<And>c z. (c, z) \<in> set (ms1 @ ms2) \<Longrightarrow> c \<notin> set (active_blocks s)"
    and st: "st = for_each_selected_stat_type (get_stat_types_for_pool (pool x)) (free_block_stats
      ((if is_split y then 1 else 0) - int (length (ms1 @ ms2)))
      ((if is_split y then bytes y else 0) - sum_list (map (\<lambda>(_, z). bytes z) (ms1 @ ms2)))
      (bsize x) (requested_size x)) (stats s)"
    and s': "s' = s\<lparr>tracing := tr, heap := h(b \<mapsto> y\<lparr>gc_count_base := g\<rparr>), pools := p',
      active_blocks := remove1 b (active_blocks s), stats := st\<rparr>"
  shows "dinv E live cur n {} {} D s'"
proof -
  note F = freeing_facts [OF m H]
  have side: "side_ok live cur n s" and fin: "finite (dom (heap s))"
    using I finite_heap by (auto simp: dinv_def)
  have P2: "parts_ok {} {b} h (\<lambda>q. blocks (p q)) (active_blocks s)" using MS by (simp add: merge_state_def)
  have y: "unused y" "pool y = pool x" using use_same(1,3) [OF F(1)] un by auto
  have parts: "parts_ok {} ({b} - {b}) (h(b \<mapsto> y\<lparr>gc_count_base := g\<rparr>)) ((\<lambda>q. blocks (p q))(pool y := bs))
      (remove1 b (active_blocks s))"
  proof (rule parts_to_pool [OF P2 bA F(9) y(1) near(1)])
    show "c \<in> set (active_blocks s) \<and> c \<noteq> b" if c: "nxt y = Some c" for c
    proof -
      obtain z where "h c = Some z" using heap_okD(2) [OF F(7) F(9) c] by blast
      then have "c \<noteq> b" using succ_less(1) [OF F(7) F(9) c] F(9) by auto
      then show ?thesis using near(2) [OF c] by blast
    qed
    show "prv y = Some a" if "h a = Some z" "nxt z = Some b" for a z
      using heap_okD(2) [OF F(7) that] F(9) by (auto simp: succ_ok_def)
  qed (use bs y in \<open>simp_all add: use_def\<close>)
  have heap': "heap_ok seg (live (drv (ctx s))) (h(b \<mapsto> y\<lparr>gc_count_base := g\<rparr>))"
    by (rule heap_ok_geometry [OF F(7)]) (use F(9) in \<open>simp add: geometry_def\<close>)
  have ev: "events_ok n (h(b \<mapsto> y\<lparr>gc_count_base := g\<rparr>)) D (gcu_events s)"
  proof -
    have 1: "events_ok n h D (gcu_events s)" using events_freeing [OF _ m H] I by (simp add: dinv_def)
    show ?thesis
    proof (rule events_okI)
      show "waits_ok n D (gcu_events s) c z" if "(h(b \<mapsto> y\<lparr>gc_count_base := g\<rparr>)) c = Some z" for c z
        using that events_okD(4) [OF 1, of c] events_okD(4) [OF 1 F(9)] by (auto simp: waits_ok_def split: if_splits)
      show "\<exists>z. (h(b \<mapsto> y\<lparr>gc_count_base := g\<rparr>)) c = Some z \<and> \<not> allocated z \<and> stream_uses z \<noteq> []" if "c \<in> set D" for c
        using events_okD(6) [OF 1 that] F(9) by auto
    qed (use events_okD [OF 1] in \<open>auto split: if_splits\<close>)
  qed
  have "acct_ok st (h(b \<mapsto> y\<lparr>gc_count_base := g\<rparr>)) (remove1 b (active_blocks s))"
    by (rule acct_freeing [OF _ m H fin _ bA un gone refl refl st])
      (use I parts_okD(1) [OF P2] in \<open>simp_all add: dinv_def\<close>)
  moreover have "dom (h(b \<mapsto> y\<lparr>gc_count_base := g\<rparr>)) \<subseteq> {..<next_bid s}"
  proof -
    have "dom (h(b \<mapsto> y\<lparr>gc_count_base := g\<rparr>)) = dom h" using F(9) by auto
    then show ?thesis using F(8) side unfolding side_ok_def by (metis order_trans)
  qed
  ultimately show ?thesis
    using I side parts heap' ev over_freeing [OF over m H] priv_freeing [OF _ m H fin] mem_freeing [OF _ m H fin] tr p' y(2)
    unfolding dinv_def s' by (auto simp: side_ok_def)
qed

lemma absorbed_sizes:
  assumes m: "merged h b x h' x' ms" and H: "heap_ok seg L h"
  shows "0 < sum_list (map (\<lambda>(_, y). bsize y) ms) \<longleftrightarrow> ms \<noteq> []"
    and "int (sum_list (map (\<lambda>(_, y). bsize y) ms)) = sum_list (map (\<lambda>(_, y). bytes y) ms)"
proof -
  have "0 < bsize y" if "(s, y) \<in> set ms" for s y
    using merged_facts(3) [OF m H that] heap_okD(1) [OF H, of s y] by (auto simp: node_ok_def)
  then show "0 < sum_list (map (\<lambda>(_, y). bsize y) ms) \<longleftrightarrow> ms \<noteq> []"
    using merged_facts(5) [OF m H] by (cases ms) auto
  show "int (sum_list (map (\<lambda>(_, y). bsize y) ms)) = sum_list (map (\<lambda>(_, y). bytes y) ms)"
    by (induction ms) auto
qed

lemma absorbed_free:
  assumes MS: "merge_state seg L b s" and m: "merged (heap s) b x h' x' ms" and c: "(c, z) \<in> set ms"
  shows "c \<notin> set (active_blocks s)"
proof
  assume "c \<in> set (active_blocks s)"
  moreover have "parts_ok {} {b} (heap s) (blocks_of s) (active_blocks s)" "heap_ok seg L (heap s)"
    using MS by (simp_all add: merge_state_def)
  ultimately show False using parts_okD(6) [of "{}" "{b}" "heap s"] merged_facts(3) [OF m _ c] not_busy by fastforce
qed

lemma wp_free_block:
  assumes I: "dinv E live cur n {} {b} D s" and bA: "b \<in> set (active_blocks s)"
    and b: "heap s b = Some x" and un: "unused x"
    and Q: "\<And>s'. dinv E live cur n {} {} D s' \<Longrightarrow> freed_state b x s s' \<Longrightarrow> Q () s'"
  shows "wp (free_block b) Q X s"
proof -
  let ?L = "live (drv (ctx s))"
  obtain seg where MS: "merge_state seg ?L b s" and over: "over_ok seg (max_split E) (heap s)"
    by (rule dinv_merge_state [OF I bA])
  have H: "heap_ok seg ?L (heap s)" using MS by (simp add: merge_state_def)
  have tr: "trace_ok (tracing s)" using I by (simp add: dinv_def side_ok_def)
  define stat where "stat = (\<lambda>subsumed1 subsumed2 y.
         let net_blocks = (if 0 < subsumed1 then -1 else 0) + (if 0 < subsumed2 then -1 else 0)
                          + (if is_split y then 1 else 0);
             net_size = (if 0 < subsumed1 then - int subsumed1 else 0)
                        + (if 0 < subsumed2 then - int subsumed2 else 0)
                        + (if is_split y then int (bsize y) else 0)
         in selected (pool x) (free_block_stats net_blocks net_size (bsize x) (requested_size x)) :: ('a, unit) dact)"
  define fin where "fin = (\<lambda>subsumed1 subsumed2. seq (upd (\<lambda>s :: 'a dca. s\<lparr>active_blocks := remove1 b (active_blocks s)\<rparr>))
       (bnd (insert_into_blocks (pool x) b) (\<lambda>inserted.
        seq (require InternalAssert inserted) (bnd (deref b) (stat subsumed1 subsumed2)))))"
  have unf: "wp (free_block b) Q X s \<longleftrightarrow>
      wp (record_trace FREE_COMPLETED (int (ptr x)) (int (requested_size x)) (b_stream x) (b_device x))
        (\<lambda>_. wp (try_merge_blocks b (prv x) (pool x)) (\<lambda>n1. wp (try_merge_blocks b (nxt x) (pool x))
          (\<lambda>n2. wp (fin n1 n2) Q X) X) X) X s"
    using b un by (simp add: free_block_def fin_def stat_def wp_simps unused_def)
  show ?thesis unfolding unf
  proof (rule wp_record_trace [OF tr])
    fix tr assume tr: "trace_ok tr"
    let ?s = "s\<lparr>tracing := tr\<rparr>"
    have MS0: "merge_state seg ?L b ?s" "heap ?s b = Some x" using MS b by (auto simp: merge_state_def)
    show "wp (try_merge_blocks b (prv x) (pool x)) (\<lambda>n1. wp (try_merge_blocks b (nxt x) (pool x))
        (\<lambda>n2. wp (fin n1 n2) Q X) X) X ?s"
    proof (rule wp_merge_side [OF MS0])
      fix h1 P1 x1 ms1
      assume m1: "merged (heap ?s) b x h1 x1 ms1" and MS1: "merge_state seg ?L b (?s\<lparr>heap := h1, pools := P1\<rparr>)"
        and near1: "prv x = prv x \<Longrightarrow> near_active b (prv x1) ?s \<and> nxt x1 = nxt x"
      let ?s1 = "?s\<lparr>heap := h1, pools := P1\<rparr>"
      have m1': "merged (heap s) b x h1 x1 ms1" using m1 by simp
      have x1: "heap ?s1 b = Some x1" "pool x = pool x1" "nxt x = nxt x1"
        using m1 near1 use_same(3) [OF merged_use [OF m1]] by (auto simp: merged_def)
      show "wp (try_merge_blocks b (nxt x) (pool x))
          (\<lambda>n2. wp (fin (sum_list (map (\<lambda>(_, y). bsize y) ms1)) n2) Q X) X ?s1"
        unfolding x1(2,3)
      proof (rule wp_merge_side [OF MS1 x1(1)])
        fix h2 P2 x2 ms2
        assume m2: "merged (heap ?s1) b x1 h2 x2 ms2"
          and MS2: "merge_state seg ?L b (?s1\<lparr>heap := h2, pools := P2\<rparr>)"
          and near2: "nxt x1 = nxt x1 \<Longrightarrow> near_active b (nxt x2) ?s1 \<and> prv x2 = prv x1"
        let ?s2 = "?s1\<lparr>heap := h2, pools := P2\<rparr>"
        have m: "freeing (heap s) b x h2 x2 ms1 ms2" using m1' m2 by (auto simp: freeing_def)
        note F = freeing_facts [OF m H]
        have P2: "parts_ok {} {b} h2 (\<lambda>q. blocks (P2 q)) (active_blocks s)" using MS2 by (simp add: merge_state_def)
        note sz = absorbed_sizes [OF m1' H]
        have sz2: "0 < sum_list (map (\<lambda>(_, y). bsize y) ms2) \<longleftrightarrow> ms2 \<noteq> []"
          "int (sum_list (map (\<lambda>(_, y). bsize y) ms2)) = sum_list (map (\<lambda>(_, y). bytes y) ms2)"
          using absorbed_sizes m2 MS1 by (fastforce simp: merge_state_def)+
        have "wp (insert_into_blocks (pool x) b) (\<lambda>inserted. wp (seq (require InternalAssert inserted)
          (bnd (deref b) (stat (sum_list (map (\<lambda>(_, y). bsize y) ms1)) (sum_list (map (\<lambda>(_, y). bsize y) ms2))))) Q X) X
          (?s2\<lparr>active_blocks := remove1 b (active_blocks s)\<rparr>)"
        proof (rule wp_insert_into_blocks)
          show "heap_ok seg ?L (heap (?s2\<lparr>active_blocks := remove1 b (active_blocks s)\<rparr>))" using F(7) by simp
          show "heap (?s2\<lparr>active_blocks := remove1 b (active_blocks s)\<rparr>) b = Some x2" using F(9) by simp
          show "pool_exists (?s2\<lparr>active_blocks := remove1 b (active_blocks s)\<rparr>) (pool x)"
            using priv_exists [of s b x] I b by (simp add: dinv_def)
          show "heap (?s2\<lparr>active_blocks := remove1 b (active_blocks s)\<rparr>) c \<noteq> None \<and> c \<noteq> b"
            if "c \<in> set (blocks_of (?s2\<lparr>active_blocks := remove1 b (active_blocks s)\<rparr>) (pool x))" for c
            using that parts_okD(3,4) [OF P2, of c "pool x"] bA by auto
          show "sorted_wrt BlockComparatorSize (map (\<lambda>c. key (the (heap (?s2\<lparr>active_blocks := remove1 b (active_blocks s)\<rparr>) c)))
              (blocks_of (?s2\<lparr>active_blocks := remove1 b (active_blocks s)\<rparr>) (pool x)))"
            using parts_okD(2) [OF P2, of "pool x"] by simp
        next
          fix g bs
          let ?h = "h2(b \<mapsto> x2\<lparr>gc_count_base := g\<rparr>)"
          assume "set bs = insert b (set (blocks_of (?s2\<lparr>active_blocks := remove1 b (active_blocks s)\<rparr>) (pool x)))"
            and "sorted_wrt BlockComparatorSize (map (\<lambda>c. key (the (((heap (?s2\<lparr>active_blocks := remove1 b (active_blocks s)\<rparr>))
                (b \<mapsto> x2\<lparr>gc_count_base := g\<rparr>)) c))) bs)"
          then have bs: "set bs = insert b (set (blocks (P2 (pool x))))"
            "sorted_wrt BlockComparatorSize (map (\<lambda>c. key (the (?h c))) bs)" by simp_all
          define st where "st = for_each_selected_stat_type (get_stat_types_for_pool (pool x)) (free_block_stats
            ((if is_split x2 then 1 else 0) - int (length (ms1 @ ms2)))
            ((if is_split x2 then bytes x2 else 0) - sum_list (map (\<lambda>(_, z). bytes z) (ms1 @ ms2)))
            (bsize x) (requested_size x)) (stats s)"
          define p' where "p' = P2(pool x := (P2 (pool x))\<lparr>blocks := bs\<rparr>)"
          define s' where "s' = s\<lparr>tracing := tr, heap := ?h, pools := p', active_blocks := remove1 b (active_blocks s), stats := st\<rparr>"
          have "dinv E live cur n {} {} D s'"
          proof (rule free_block_inv [where p = P2 and g = g, OF I bA m un tr _ over H _ _ bs _ _ st_def s'_def])
            show "merge_state seg ?L b (s\<lparr>heap := h2, pools := P2\<rparr>)" using MS2 by (simp add: merge_state_def)
            show "a \<in> set (active_blocks s)" if "prv x2 = Some a" for a using near1 near2 that by (simp add: near_active_def)
            show "a \<in> set (active_blocks s)" if "nxt x2 = Some a" for a using near2 that by (simp add: near_active_def)
            show "(\<lambda>q. blocks (p' q)) = (\<lambda>q. blocks (P2 q))(pool x := bs)" by (auto simp: p'_def)
            show "c \<notin> set (active_blocks s)" if "(c, z) \<in> set (ms1 @ ms2)" for c z
              using that absorbed_free [OF MS m1'] absorbed_free [OF MS1 m2] by auto
          qed
          moreover have "freed_state b x s s'" unfolding freed_state_def s'_def using m by blast
          ultimately have Qs': "Q () s'" by (rule Q)
          have st_eq: "st = for_each_selected_stat_type (get_stat_types_for_pool (pool x)) (free_block_stats
            ((if 0 < sum_list (map (\<lambda>(_, y). bsize y) ms1) then -1 else 0) +
             (if 0 < sum_list (map (\<lambda>(_, y). bsize y) ms2) then -1 else 0) + (if is_split x2 then 1 else 0))
            ((if 0 < sum_list (map (\<lambda>(_, y). bsize y) ms1) then - int (sum_list (map (\<lambda>(_, y). bsize y) ms1)) else 0) +
             (if 0 < sum_list (map (\<lambda>(_, y). bsize y) ms2) then - int (sum_list (map (\<lambda>(_, y). bsize y) ms2)) else 0) +
             (if is_split x2 then bytes x2 else 0)) (bsize x) (requested_size x)) (stats s)"
            using sz sz2 F(5,6) by (cases ms1; cases ms2) (simp_all add: st_def algebra_simps)
          let ?t = "set_blocks (pool x) bs (?s2\<lparr>active_blocks := remove1 b (active_blocks s),
              heap := (heap (?s2\<lparr>active_blocks := remove1 b (active_blocks s)\<rparr>))(b \<mapsto> x2\<lparr>gc_count_base := g\<rparr>)\<rparr>)"
          have t_eq: "?t\<lparr>stats := st\<rparr> = s'" by (simp add: s'_def p'_def set_blocks_def)
          have "wp (stat (sum_list (map (\<lambda>(_, y). bsize y) ms1)) (sum_list (map (\<lambda>(_, y). bsize y) ms2))
              (x2\<lparr>gc_count_base := g\<rparr>)) Q X ?t"
            using Qs' unfolding t_eq [symmetric] st_eq
            by (simp add: stat_def Let_def wp_simps is_split_def split del: if_split cong: if_cong)
          then show "wp (seq (require InternalAssert True) (bnd (deref b)
              (stat (sum_list (map (\<lambda>(_, y). bsize y) ms1)) (sum_list (map (\<lambda>(_, y). bsize y) ms2))))) Q X
            (set_blocks (pool x) bs (?s2\<lparr>active_blocks := remove1 b (active_blocks s),
              heap := (heap (?s2\<lparr>active_blocks := remove1 b (active_blocks s)\<rparr>))(b \<mapsto> x2\<lparr>gc_count_base := g\<rparr>)\<rparr>))"
            by (simp add: wp_simps)
        qed
        then show "wp (fin (sum_list (map (\<lambda>(_, y). bsize y) ms1)) (sum_list (map (\<lambda>(_, y). bsize y) ms2))) Q X ?s2"
          by (simp add: fin_def wp_simps)
      qed simp
    qed simp
  qed
qed

end
