(* ===== verification/AllocEvents.thy ===== *)
theory AllocEvents
  imports AllocFree
begin

text \<open>
  The events that guard blocks used on other streams: recording them, waiting for them or
  polling them keeps the invariant, and a block is freed when its last event has completed.
\<close>

section \<open>Queues of events\<close>

definition cnt :: "event_queue \<Rightarrow> bid \<Rightarrow> nat" where
  "cnt q c = length (filter (\<lambda>(e, b). e \<noteq> None \<and> b = c) q)"

definition mapq :: "gcu_stream \<Rightarrow> (event_queue \<Rightarrow> event_queue) \<Rightarrow> (gcu_stream \<times> event_queue) list \<Rightarrow>
    (gcu_stream \<times> event_queue) list" where
  "mapq k f ev = map (\<lambda>(k', q). (k', if k' = k then f q else q)) ev"

lemma ev_count_Cons: "ev_count ((k, q) # ev) c = cnt q c + ev_count ev c"
  and ev_count_Nil [simp]: "ev_count [] c = 0"
  by (simp_all add: ev_count_def cnt_def)

lemma cnt_simps [simp]: "cnt [] c = 0" "cnt (e # q) c = (if fst e \<noteq> None \<and> snd e = c then 1 else 0) + cnt q c"
  "cnt (q @ q') c = cnt q c + cnt q' c"
  by (auto simp: cnt_def split: prod.splits)

lemma mapq_fst [simp]: "map fst (mapq k f ev) = map fst ev" "fst ` set (mapq k f ev) = fst ` set ev"
proof -
  show "map fst (mapq k f ev) = map fst ev" by (induction ev) (auto simp: mapq_def)
  then show "fst ` set (mapq k f ev) = fst ` set ev" by (metis list.set_map)
qed

lemma mapq_other: "k' \<noteq> k \<Longrightarrow> (k', q) \<in> set (mapq k f ev) \<longleftrightarrow> (k', q) \<in> set ev"
  by (force simp: mapq_def)

lemma mapq_same: "(k, q) \<in> set ev \<Longrightarrow> (k, f q) \<in> set (mapq k f ev)"
  by (force simp: mapq_def)

lemma mapq_twice: "mapq k f (mapq k g ev) = mapq k (\<lambda>q. f (g q)) ev"
  by (induction ev) (auto simp: mapq_def)

lemma queue_unique: "distinct (map fst ev) \<Longrightarrow> (k, q) \<in> set ev \<Longrightarrow> (k, q') \<in> set ev \<Longrightarrow> q' = q"
  by (metis eq_key_imp_eq_value)

lemma mapq_id:
  assumes "distinct (map fst ev)" "(k, q) \<in> set ev" "f q = q"
  shows "mapq k f ev = ev"
proof -
  have "f q' = q'" if "(k, q') \<in> set ev" for q' using queue_unique [OF assms(1,2) that] assms(3) by simp
  then show ?thesis unfolding mapq_def by (intro map_idI) auto
qed

lemma mapq_absent: "k \<notin> fst ` set ev \<Longrightarrow> mapq k f ev = ev"
  unfolding mapq_def by (intro map_idI) force

lemma ev_count_mapq:
  "distinct (map fst ev) \<Longrightarrow> (k, q) \<in> set ev \<Longrightarrow>
   ev_count (mapq k f ev) c + cnt q c = ev_count ev c + cnt (f q) c"
proof (induction ev)
  case (Cons kq ev)
  obtain k' q' where kq: "kq = (k', q')" by fastforce
  show ?case
  proof (cases "k' = k")
    case True
    then have "q' = q" using queue_unique [OF Cons.prems(1,2), of q'] kq by auto
    moreover have "mapq k f ev = ev" using Cons.prems(1) True kq by (intro mapq_absent) simp
    ultimately show ?thesis using True kq by (simp add: ev_count_Cons mapq_def)
  next
    case False
    then have "(k, q) \<in> set ev" using Cons.prems(2) kq by auto
    then have "ev_count (mapq k f ev) c + cnt q c = ev_count ev c + cnt (f q) c"
      using Cons by simp
    then show ?thesis using False kq by (simp add: ev_count_Cons mapq_def)
  qed
qed simp

lemma ev_count_drop:
  "(\<And>q. (k, q) \<in> set ev \<Longrightarrow> cnt q c = 0) \<Longrightarrow> ev_count (filter (\<lambda>(k', q). k' \<noteq> k) ev) c = ev_count ev c"
proof (induction ev)
  case (Cons kq ev)
  then show ?case by (cases kq) (auto simp: ev_count_Cons)
qed simp

lemma ev_count_push: "ev_count (push_event k (Some e, b) ev) c = ev_count ev c + (if c = b then 1 else 0)"
proof (induction ev)
  case (Cons kq ev)
  then show ?case by (cases kq) (auto simp: ev_count_Cons)
qed (simp add: ev_count_Cons)

lemma push_event_keys: "fst ` set (push_event k e ev) = insert k (fst ` set ev)"
  by (induction ev rule: push_event.induct) auto

lemma push_event_distinct: "distinct (map fst ev) \<Longrightarrow> distinct (map fst (push_event k e ev))"
proof (induction ev rule: push_event.induct)
  case (2 k e k' q evs)
  have "k' \<noteq> k \<Longrightarrow> k' \<notin> fst ` set evs \<Longrightarrow> k' \<notin> fst ` set (push_event k e evs)"
    by (simp add: push_event_keys)
  with 2 show ?case by auto
qed simp

lemma push_event_there: "events_there ev \<Longrightarrow> events_there (push_event k (Some e, b) ev)"
proof (induction ev)
  case (Cons kq ev)
  then show ?case by (cases kq) (auto simp: events_there_def)
qed (simp add: events_there_def)

lemma wp_map_queue [wp_simps]: "wp (map_queue k f) Q X = (\<lambda>s. Q () (s\<lparr>gcu_events := mapq k f (gcu_events s)\<rparr>))"
  by (simp add: map_queue_def wp_simps mapq_def)

section \<open>Calls into the context\<close>

lemma wp_in_ctx:
  assumes m: "csafe cur n live m R" and c: "ctx_ok cur n (ctx s)" and X: "\<And>e s'. gcu_error e \<Longrightarrow> X e s'"
    and Q: "\<And>x c. R x \<Longrightarrow> ctx_ok cur n c \<Longrightarrow> live (drv c) = live (drv (ctx s)) \<Longrightarrow> Q x (s\<lparr>ctx := c\<rparr>)"
  shows "wp (in_ctx m) Q X s"
proof -
  obtain r c' where r: "m (ctx s) = (r, c')" by fastforce
  note D = csafeD [OF m c r]
  show ?thesis
    using r D Q X by (cases r) (auto simp: wp_def in_ctx_def)
qed

lemma dinv_ctx:
  assumes "dinv E live cur n H N D s" "ctx_ok cur n c" "live (drv c) = live (drv (ctx s))"
  shows "dinv E live cur n H N D (s\<lparr>ctx := c\<rparr>)"
  using assms by (simp add: dinv_def side_ok_def)

lemma dinv_ctx_ok: "dinv E live cur n H N D s \<Longrightarrow> ctx_ok cur n (ctx s)"
  by (simp add: dinv_def side_ok_def)

section \<open>Updates of an active block\<close>

lemma acct_same:
  assumes a: "acct_ok st h A" and fin: "finite (dom h)" and b: "h b = Some x"
    and g: "geometry x' = geometry x" "allocated x' = allocated x" "requested_size x' = requested_size x"
  shows "acct_ok st (h(b \<mapsto> x')) A"
proof -
  have "tot (weigh p C w) (h(b \<mapsto> x')) = tot (weigh p C w) h"
    if "C b x' = C b x" "w x' = w x" for p C w
    by (rule tot_update_same [OF fin b]) (use that g in \<open>simp add: weigh_def geometry_def\<close>)
  then show ?thesis using a g by (simp add: acct_ok_def is_split_def geometry_def)
qed

lemma dinv_update:
  assumes I: "dinv E live cur n H N D s" and b: "b \<in> set (active_blocks s)" "heap s b = Some x"
    and g: "geometry x' = geometry x" "allocated x' = allocated x" "requested_size x' = requested_size x"
    and N: "\<not> busy x' \<Longrightarrow> b \<in> N'" "N \<subseteq> insert b N'"
    and ev: "events_ok n ((heap s)(b \<mapsto> x')) D' ev'"
  shows "dinv E live cur n H N' D' (s\<lparr>heap := (heap s)(b \<mapsto> x'), gcu_events := ev'\<rparr>)"
proof -
  have fin: "finite (dom (heap s))" using I finite_heap by (auto simp: dinv_def)
  have parts: "parts_ok H N' ((heap s)(b \<mapsto> x')) (blocks_of s) (active_blocks s)"
    by (rule parts_update [OF _ b(1) N]) (use I in \<open>simp_all add: dinv_def\<close>)
  obtain seg where seg: "heap_ok seg (live (drv (ctx s))) (heap s)" "over_ok seg (max_split E) (heap s)"
    using I by (auto simp: dinv_def)
  have heap: "heap_ok seg (live (drv (ctx s))) ((heap s)(b \<mapsto> x'))"
    by (rule heap_ok_geometry [OF seg(1)]) (use b g in auto)
  have over: "over_ok seg (max_split E) ((heap s)(b \<mapsto> x'))"
    using seg(2) b(2) g(1) unfolding over_ok_def by (auto simp: geometry_def is_split_def)
  have tots: "tot (weigh p C w) ((heap s)(b \<mapsto> x')) = tot (weigh p C w) (heap s)"
    if "C b x' = C b x" "w x' = w x" for p C w
    by (rule tot_update_same [OF fin b(2)]) (use that g in \<open>simp add: weigh_def geometry_def\<close>)
  have priv: "priv_ok ((heap s)(b \<mapsto> x')) (graph_pools s)"
    using I b(2) g(1) by (auto simp: dinv_def priv_ok_def tots geometry_def split: if_splits)
  have mem: "mem_ok (total_allocated_memory s) ((heap s)(b \<mapsto> x'))"
    using I g(1) by (simp add: dinv_def mem_ok_def tot_update_same [OF fin b(2)] geometry_def)
  have "dom ((heap s)(b \<mapsto> x')) \<subseteq> {..<next_bid s}" using I b(2) by (auto simp: dinv_def side_ok_def)
  then have "side_ok live cur n (s\<lparr>heap := (heap s)(b \<mapsto> x'), gcu_events := ev'\<rparr>)"
    using I by (simp add: dinv_def side_ok_def)
  then show ?thesis
    using I parts heap over priv mem ev acct_same [OF _ fin b(2) g] unfolding dinv_def by auto
qed

section \<open>Completed events\<close>

text \<open>What the operations on events leave alone.\<close>

definition same_frame :: "'d dca \<Rightarrow> 'd dca \<Rightarrow> bool" where
  "same_frame s s' \<longleftrightarrow> captures_underway s' = captures_underway s \<and> graph_pools s' = graph_pools s \<and>
     graph_pools_freeable s' = graph_pools_freeable s \<and> next_bid s' = next_bid s \<and>
     set_fraction s' = set_fraction s \<and> allowed_memory_maximum s' = allowed_memory_maximum s"

lemma same_frame_refl [simp]: "same_frame s s"
  and same_frame_trans: "same_frame s t \<Longrightarrow> same_frame t u \<Longrightarrow> same_frame s u"
  by (simp_all add: same_frame_def)

lemma same_frame_simps [simp]:
  "same_frame s (t\<lparr>gcu_events := ev\<rparr>) = same_frame s t" "same_frame s (t\<lparr>ctx := c\<rparr>) = same_frame s t"
  "same_frame s (t\<lparr>heap := h\<rparr>) = same_frame s t" "same_frame s (t\<lparr>pools := p\<rparr>) = same_frame s t"
  "same_frame s (t\<lparr>stats := st\<rparr>) = same_frame s t" "same_frame s (t\<lparr>tracing := tr\<rparr>) = same_frame s t"
  "same_frame s (t\<lparr>active_blocks := A\<rparr>) = same_frame s t"
  "same_frame s (t\<lparr>needs_events_deferred_until_no_capture := d\<rparr>) = same_frame s t"
  "same_frame (s\<lparr>gcu_events := ev\<rparr>) t = same_frame s t" "same_frame (s\<lparr>ctx := c\<rparr>) t = same_frame s t"
  "same_frame (s\<lparr>heap := h\<rparr>) t = same_frame s t" "same_frame (s\<lparr>pools := p\<rparr>) t = same_frame s t"
  "same_frame (s\<lparr>stats := st\<rparr>) t = same_frame s t" "same_frame (s\<lparr>tracing := tr\<rparr>) t = same_frame s t"
  "same_frame (s\<lparr>active_blocks := A\<rparr>) t = same_frame s t"
  "same_frame (s\<lparr>needs_events_deferred_until_no_capture := d\<rparr>) t = same_frame s t"
  by (simp_all add: same_frame_def)

lemma freed_frame:
  assumes "freed_state b x s s'"
  shows "same_frame s s'" "gcu_events s' = gcu_events s" "ctx s' = ctx s"
    "needs_events_deferred_until_no_capture s' = needs_events_deferred_until_no_capture s"
  using assms unfolding freed_state_def by (elim exE conjE; simp)+

lemma dinv_events:
  assumes I: "dinv E live cur n H N D s" and ev: "\<And>c. ev_count ev' c = ev_count (gcu_events s) c"
    and k: "distinct (map fst ev')" "fst ` set ev' \<subseteq> fst ` set (gcu_events s)"
  shows "dinv E live cur n H N D (s\<lparr>gcu_events := ev'\<rparr>)"
proof -
  have e: "events_ok n (heap s) D (gcu_events s)" using I by (simp add: dinv_def)
  have "events_ok n (heap s) D ev'"
  proof (rule events_okI)
    show "waits_ok n D ev' b x" if "heap s b = Some x" for b x
      using events_okD(4) [OF e that] ev by (auto simp: waits_ok_def)
    show "valid_stream n g" if "g \<in> fst ` set ev'" for g using events_okD(3) [OF e] k(2) that by blast
  qed (use events_okD(1,5,6) [OF e] k(1) ev in auto)
  then show ?thesis using I by (simp add: dinv_def side_ok_def)
qed

lemma wp_event_done:
  assumes I: "dinv E live cur n {} {} D (s\<lparr>gcu_events := ev0\<rparr>)"
    and cnt: "\<And>c. ev_count ev0 c = ev_count (gcu_events s) c + (if c = b then 1 else 0)"
    and keys: "distinct (map fst (gcu_events s))" "fst ` set (gcu_events s) \<subseteq> fst ` set ev0"
    and Q: "\<And>s'. dinv E live cur n {} {} D s' \<Longrightarrow> gcu_events s' = gcu_events s \<Longrightarrow> same_frame s s' \<Longrightarrow>
      needs_events_deferred_until_no_capture s' = needs_events_deferred_until_no_capture s \<Longrightarrow> Q () s'"
  shows "wp (event_done b) Q X s"
proof -
  have ev: "events_ok n (heap s) D ev0" and P: "parts_ok {} {} (heap s) (blocks_of s) (active_blocks s)"
    using I by (simp_all add: dinv_def)
  have pos: "ev_count ev0 b \<noteq> 0" using cnt [of b] by simp
  then obtain x where x: "heap s b = Some x" using events_okD(5) [OF ev, of b] by fastforce
  have w: "waits_ok n D ev0 b x" by (rule events_okD(4) [OF ev x])
  then have x0: "\<not> allocated x" "stream_uses x = []" "event_count x = int (ev_count ev0 b)"
    using pos by (auto simp: waits_ok_def)
  have bA: "b \<in> set (active_blocks s)"
    using parts_okD(9) [OF P x] parts_okD(3) [OF P, of b] x x0 pos by (auto simp: unused_def)
  define x' where "x' = x\<lparr>event_count := event_count x - 1\<rparr>"
  have x': "geometry x' = geometry x" "allocated x' = allocated x" "requested_size x' = requested_size x"
      "stream_uses x' = []" "event_count x' = int (ev_count (gcu_events s) b)"
    using x0 cnt [of b] by (simp_all add: x'_def geometry_def)
  have ev': "events_ok n ((heap s)(b \<mapsto> x')) D (gcu_events s)"
  proof (rule events_okI)
    show "waits_ok n D (gcu_events s) c y" if "((heap s)(b \<mapsto> x')) c = Some y" for c y
      using that events_okD(4) [OF ev, of c y] w x' x0 cnt [of c] by (auto simp: waits_ok_def split: if_splits)
    show "ev_count (gcu_events s) c = 0" if "((heap s)(b \<mapsto> x')) c = None" for c
      using that events_okD(5) [OF ev, of c] cnt [of c] by (auto split: if_splits)
    show "\<exists>y. ((heap s)(b \<mapsto> x')) c = Some y \<and> \<not> allocated y \<and> stream_uses y \<noteq> []" if "c \<in> set D" for c
      using events_okD(6) [OF ev that] x x0 by auto
    show "valid_stream n g" if "g \<in> fst ` set (gcu_events s)" for g
      using events_okD(3) [OF ev] keys(2) that by blast
  qed (use events_okD(1) [OF ev] keys(1) in auto)
  have upd: "dinv E live cur n {} N' D (s\<lparr>heap := (heap s)(b \<mapsto> x')\<rparr>)" if "\<not> busy x' \<Longrightarrow> b \<in> N'" for N'
    using dinv_update [OF I, where b = b and x = x and x' = x' and N' = N' and D' = D and ev' = "gcu_events s"]
      bA x x' ev' that by simp
  show ?thesis
  proof (cases "event_count x' = 0")
    case True
    have "wp (free_block b) Q X (s\<lparr>heap := (heap s)(b \<mapsto> x')\<rparr>)"
    proof (rule wp_free_block [OF upd [of "{b}"]])
      fix s' assume "dinv E live cur n {} {} D s'" "freed_state b x' (s\<lparr>heap := (heap s)(b \<mapsto> x')\<rparr>) s'"
      then show "Q () s'" using freed_frame by (intro Q) fastforce+
    qed (use bA True x' x0 in \<open>simp_all add: unused_def\<close>)
    then show ?thesis using x True by (simp add: event_done_def wp_simps x'_def [symmetric])
  next
    case False
    then have "busy x'" using x'(5) by (simp add: busy_def)
    then have "Q () (s\<lparr>heap := (heap s)(b \<mapsto> x')\<rparr>)" using upd [of "{}"] by (intro Q) simp_all
    then show ?thesis using x False by (simp add: event_done_def wp_simps x'_def [symmetric])
  qed
qed

section \<open>Polling and waiting\<close>

definition all_there :: "event_queue \<Rightarrow> bool" where
  "all_there q \<longleftrightarrow> (\<forall>(e, b)\<in>set q. e \<noteq> None)"

definition other_queues :: "gcu_stream \<Rightarrow> 'd dca \<Rightarrow> 'd dca \<Rightarrow> bool" where
  "other_queues k s s' \<longleftrightarrow> (\<forall>k' q. k' \<noteq> k \<longrightarrow> (k', q) \<in> set (gcu_events s') \<longleftrightarrow> (k', q) \<in> set (gcu_events s))"

abbreviation deferred :: "'d dca \<Rightarrow> bid list" where
  "deferred s \<equiv> needs_events_deferred_until_no_capture s"

lemma dinv_keys: "dinv E live cur n H N D s \<Longrightarrow> distinct (map fst (gcu_events s))"
  by (simp add: dinv_def events_ok_def)

lemma wp_process_queue:
  assumes T: "good_runtime (runtime E) live cur n" and X: "\<And>e s'. gcu_error e \<Longrightarrow> X e s'"
    and I: "dinv E live cur n {} {} D s" and k: "(k, q) \<in> set (gcu_events s)" and q: "all_there q"
    and Q: "\<And>s'. dinv E live cur n {} {} D s' \<Longrightarrow> same_frame s s' \<Longrightarrow> deferred s' = deferred s \<Longrightarrow>
      other_queues k s s' \<Longrightarrow> (\<And>q'. (k, q') \<in> set (gcu_events s') \<Longrightarrow> all_there q') \<Longrightarrow> Q () s'"
  shows "wp (process_queue E k q) Q X s"
  using I k q Q
proof (induction q arbitrary: s)
  case Nil
  let ?ev = "filter (\<lambda>(k', q). k' \<noteq> k) (gcu_events s)"
  have "ev_count ?ev c = ev_count (gcu_events s) c" for c
  proof -
    have "cnt q' c = 0" if "(k, q') \<in> set (gcu_events s)" for q'
      using queue_unique [OF dinv_keys [OF Nil(1)] Nil(2) that] by simp
    then show ?thesis by (rule ev_count_drop)
  qed
  then have "dinv E live cur n {} {} D (s\<lparr>gcu_events := ?ev\<rparr>)"
    by (rule dinv_events [OF Nil(1)]) (use dinv_keys [OF Nil(1)] in \<open>auto simp: distinct_map_filter\<close>)
  then have "Q () (s\<lparr>gcu_events := ?ev\<rparr>)" by (rule Nil(4)) (auto simp: other_queues_def)
  then show ?case by (simp add: wp_simps)
next
  case (Cons e es)
  note I = Cons.prems(1) and k = Cons.prems(2) and there = Cons.prems(3) and Q = Cons.prems(4)
  obtain event b where e: "e = (Some event, b)" using there by (cases e) (auto simp: all_there_def)
  note keys = dinv_keys [OF I]
  let ?ev1 = "mapq k (\<lambda>q. q[0 := (None, b)]) (gcu_events s)"
  let ?s1 = "s\<lparr>gcu_events := ?ev1\<rparr>"
  have cnt1: "ev_count (gcu_events s) c = ev_count ?ev1 c + (if c = b then 1 else 0)" for c
    using ev_count_mapq [OF keys k, of "\<lambda>q. q[0 := (None, b)]" c] e by auto
  have undo: "mapq k (\<lambda>q. q[0 := (Some event, b)]) ?ev1 = gcu_events s"
    using mapq_id [OF keys k, of "\<lambda>q. q[0 := (None, b), 0 := (Some event, b)]"] e by (simp add: mapq_twice)
  have k1: "(k, (None, b) # es) \<in> set ?ev1" using mapq_same [OF k, of "\<lambda>q. q[0 := (None, b)]"] e by simp
  have "wp (in_ctx (call (topsEventQuery (runtime E) event))) (\<lambda>err. wp
     (if err = topsErrorNotReady then
               seq (in_ctx (bnd (call (topsGetLastError (runtime E))) (\<lambda>_. ret ())))
                 (map_queue k (\<lambda>q. q[0 := (Some event, snd e)]))
             else if err \<noteq> topsSuccess then
               seq (in_ctx (event_pool_return (gs_device k) event)) (gcu_check err)
             else
               seq (finallyM (seq (event_done (snd e)) (map_queue k tl))
                      (in_ctx (event_pool_return (gs_device k) event)))
                 (process_queue E k es)) Q X) X ?s1"
  proof (rule wp_in_ctx [OF call_others_csafe(2) [OF T] _ X])
    show "ctx_ok cur n (ctx ?s1)" using dinv_ctx_ok [OF I] by simp
    fix err c assume c: "ctx_ok cur n c" "live (drv c) = live (drv (ctx ?s1))"
    let ?s2 = "?s1\<lparr>ctx := c\<rparr>"
    have I2: "dinv E live cur n {} {} D (?s2\<lparr>gcu_events := gcu_events s\<rparr>)"
      using dinv_ctx [OF I c(1)] c(2) by simp
    consider "err = topsErrorNotReady" | "err \<noteq> topsErrorNotReady" "err \<noteq> topsSuccess" | "err = topsSuccess" by blast
    then show "wp (if err = topsErrorNotReady then
               seq (in_ctx (bnd (call (topsGetLastError (runtime E))) (\<lambda>_. ret ())))
                 (map_queue k (\<lambda>q. q[0 := (Some event, snd e)]))
             else if err \<noteq> topsSuccess then
               seq (in_ctx (event_pool_return (gs_device k) event)) (gcu_check err)
             else
               seq (finallyM (seq (event_done (snd e)) (map_queue k tl))
                      (in_ctx (event_pool_return (gs_device k) event)))
                 (process_queue E k es)) Q X ?s2"
    proof cases
      case 1
      have "csafe cur n live (bnd (call (topsGetLastError (runtime E))) (\<lambda>_. ret ())) (\<lambda>_. True)"
        by (rule csafe_bnd [OF call_others_csafe(1) [OF T]]) (rule csafe_ret, simp)
      then have "wp (in_ctx (bnd (call (topsGetLastError (runtime E))) (\<lambda>_. ret ())))
          (\<lambda>_. wp (map_queue k (\<lambda>q. q[0 := (Some event, b)])) Q X) X ?s2"
      proof (rule wp_in_ctx [OF _ _ X])
        fix c2 assume c2: "ctx_ok cur n c2" "live (drv c2) = live (drv (ctx ?s2))"
        have "dinv E live cur n {} {} D (s\<lparr>ctx := c2\<rparr>)" using dinv_ctx [OF I c2(1)] c2(2) c(2) by simp
        then have "Q () (s\<lparr>ctx := c2\<rparr>)"
          by (rule Q) (use queue_unique [OF keys k] there in \<open>auto simp: other_queues_def\<close>)
        then show "wp (map_queue k (\<lambda>q. q[0 := (Some event, b)])) Q X (?s2\<lparr>ctx := c2\<rparr>)"
          using undo by (simp add: wp_simps)
      qed (use c in simp)
      then show ?thesis using 1 e by (simp add: wp_simps)
    next
      case 2
      have "wp (in_ctx (event_pool_return (gs_device k) event)) (\<lambda>_. wp (gcu_check err) Q X) X ?s2"
        by (rule wp_in_ctx [OF event_pool_return_csafe _ X])
          (use 2 c X in \<open>auto simp: wp_simps gcu_error_def\<close>)
      then show ?thesis using 2 by (simp add: wp_simps)
    next
      case 3
      have "wp (event_done b) (\<lambda>_. wp (map_queue k tl) (\<lambda>_. wp (in_ctx (event_pool_return (gs_device k) event))
          (\<lambda>_. wp (process_queue E k es) Q X) X) XX) XX ?s2" for XX
      proof (rule wp_event_done [OF I2])
        fix s3 assume I3: "dinv E live cur n {} {} D s3" and ev3: "gcu_events s3 = gcu_events ?s2"
          and fr3: "same_frame ?s2 s3" "deferred s3 = deferred ?s2"
        let ?ev4 = "mapq k tl (gcu_events s3)"
        let ?s4 = "s3\<lparr>gcu_events := ?ev4\<rparr>"
        have k3: "(k, (None, b) # es) \<in> set (gcu_events s3)" using k1 ev3 by simp
        have "ev_count ?ev4 c = ev_count (gcu_events s3) c" for c
          using ev_count_mapq [OF dinv_keys [OF I3] k3, of tl c] by simp
        then have I4: "dinv E live cur n {} {} D ?s4"
          by (rule dinv_events [OF I3]) (use dinv_keys [OF I3] in simp_all)
        have k4: "(k, es) \<in> set ?ev4" using mapq_same [OF k3, of tl] by simp
        have "wp (in_ctx (event_pool_return (gs_device k) event)) (\<lambda>_. wp (process_queue E k es) Q X) X ?s4"
        proof (rule wp_in_ctx [OF event_pool_return_csafe _ X])
          show "ctx_ok cur n (ctx ?s4)" by (rule dinv_ctx_ok [OF I4])
          fix c5 assume c5: "ctx_ok cur n c5" "live (drv c5) = live (drv (ctx ?s4))"
          show "wp (process_queue E k es) Q X (?s4\<lparr>ctx := c5\<rparr>)"
          proof (rule Cons.IH)
            show "dinv E live cur n {} {} D (?s4\<lparr>ctx := c5\<rparr>)" by (rule dinv_ctx [OF I4 c5])
            show "(k, es) \<in> set (gcu_events (?s4\<lparr>ctx := c5\<rparr>))" using k4 by simp
            show "all_there es" using there by (auto simp: all_there_def)
            fix s' assume s': "dinv E live cur n {} {} D s'" "same_frame (?s4\<lparr>ctx := c5\<rparr>) s'"
              "deferred s' = deferred (?s4\<lparr>ctx := c5\<rparr>)" "other_queues k (?s4\<lparr>ctx := c5\<rparr>) s'"
              "\<And>q'. (k, q') \<in> set (gcu_events s') \<Longrightarrow> all_there q'"
            show "Q () s'"
            proof (rule Q [OF s'(1) _ _ _ s'(5)])
              show "same_frame s s'" using fr3(1) s'(2) by (simp add: same_frame_trans)
              show "deferred s' = deferred s" using fr3(2) s'(3) by simp
              show "other_queues k s s'" using s'(4) ev3 by (simp add: other_queues_def mapq_other)
            qed
          qed
        qed
        then show "wp (map_queue k tl) (\<lambda>_. wp (in_ctx (event_pool_return (gs_device k) event))
          (\<lambda>_. wp (process_queue E k es) Q X) X) XX s3" by (simp add: wp_simps)
      qed (use cnt1 keys in simp_all)
      then show ?thesis using 3 e by (simp add: wp_simps)
    qed
  qed
  then show ?case using e by (simp add: wp_simps cong: if_cong)
qed

section \<open>Recording events\<close>

text \<open>\<open>insert_event\<close> on a block that is waiting: one event more is outstanding.\<close>

lemma wp_insert_event:
  assumes T: "good_runtime (runtime E) live cur n" and X: "\<And>e s'. gcu_error e \<Longrightarrow> X e s'"
    and I: "dinv E live cur n {} {b} D s" and b: "b \<in> set (active_blocks s)" "heap s b = Some x"
    and x: "\<not> allocated x" "stream_uses x = []" and g: "valid_stream n g"
    and Q: "\<And>s' k e. dinv E live cur n {} {b} D s' \<Longrightarrow> same_frame s s' \<Longrightarrow> deferred s' = deferred s \<Longrightarrow>
      gcu_events s' = push_event k (Some e, b) (gcu_events s) \<Longrightarrow> active_blocks s' = active_blocks s \<Longrightarrow>
      heap s' = (heap s)(b \<mapsto> x\<lparr>event_count := event_count x + 1\<rparr>) \<Longrightarrow> Q () s'"
  shows "wp (insert_event E b g) Q X s"
proof -
  have dev: "0 \<le> gs_device g" "gs_device g < n" using g by (auto simp: valid_stream_def)
  define x' where "x' = x\<lparr>event_count := event_count x + 1\<rparr>"
  have set: "csafe cur n live (bnd (SetDevice (runtime E) (gs_device g)) gcu_check) (\<lambda>_. True)"
    by (rule csafe_bnd [OF SetDevice_csafe [OF T dev]]) (rule csafe_gcu_check)
  have rec: "csafe cur n live (try_catch
      (bnd (stream_handle g) (\<lambda>h. bnd (call (topsEventRecord (runtime E) event h)) gcu_check))
      (\<lambda>e. seq (event_pool_return (gs_device g) event) (throw e))) (\<lambda>_. True)" for event
  proof (rule csafe_try_catch)
    show "csafe cur n live (bnd (stream_handle g) (\<lambda>h. bnd (call (topsEventRecord (runtime E) event h)) gcu_check)) (\<lambda>_. True)"
      by (rule csafe_bnd [OF stream_handle_csafe [OF g]], rule csafe_bnd [OF call_others_csafe(4) [OF T]])
        (rule csafe_gcu_check)
    show "csafe cur n live (seq (event_pool_return (gs_device g) event) (throw e)) (\<lambda>_. True)" if "gcu_error e" for e
      by (rule csafe_seq [OF event_pool_return_csafe]) (rule csafe_throw [OF that])
  qed
  have "wp (in_ctx (bnd (SetDevice (runtime E) (gs_device g)) gcu_check)) (\<lambda>_. wp
     (in_ctx (event_pool_get (runtime E) (gs_device g))) (\<lambda>event. wp (in_ctx (try_catch
      (bnd (stream_handle g) (\<lambda>h. bnd (call (topsEventRecord (runtime E) event h)) gcu_check))
      (\<lambda>e. seq (event_pool_return (gs_device g) event) (throw e))))
      (\<lambda>_. wp (seq (modify b (\<lambda>x. x\<lparr>event_count := event_count x + 1\<rparr>))
        (upd (\<lambda>s. s\<lparr>gcu_events := push_event g (Some event, b) (gcu_events s)\<rparr>))) Q X) X) X) X s"
  proof (rule wp_in_ctx [OF set dinv_ctx_ok [OF I] X])
    fix c1 assume c1: "ctx_ok cur n c1" "live (drv c1) = live (drv (ctx s))"
    show "wp (in_ctx (event_pool_get (runtime E) (gs_device g))) (\<lambda>event. wp (in_ctx (try_catch
      (bnd (stream_handle g) (\<lambda>h. bnd (call (topsEventRecord (runtime E) event h)) gcu_check))
      (\<lambda>e. seq (event_pool_return (gs_device g) event) (throw e))))
      (\<lambda>_. wp (seq (modify b (\<lambda>x. x\<lparr>event_count := event_count x + 1\<rparr>))
        (upd (\<lambda>s. s\<lparr>gcu_events := push_event g (Some event, b) (gcu_events s)\<rparr>))) Q X) X) X (s\<lparr>ctx := c1\<rparr>)"
    proof (rule wp_in_ctx [OF event_pool_get_csafe [OF T dev] _ X])
      fix event c2 assume c2: "ctx_ok cur n c2" "live (drv c2) = live (drv (ctx (s\<lparr>ctx := c1\<rparr>)))"
      show "wp (in_ctx (try_catch
        (bnd (stream_handle g) (\<lambda>h. bnd (call (topsEventRecord (runtime E) event h)) gcu_check))
        (\<lambda>e. seq (event_pool_return (gs_device g) event) (throw e))))
        (\<lambda>_. wp (seq (modify b (\<lambda>x. x\<lparr>event_count := event_count x + 1\<rparr>))
          (upd (\<lambda>s. s\<lparr>gcu_events := push_event g (Some event, b) (gcu_events s)\<rparr>))) Q X) X (s\<lparr>ctx := c1, ctx := c2\<rparr>)"
      proof (rule wp_in_ctx [OF rec _ X])
        fix c3 assume c3: "ctx_ok cur n c3" "live (drv c3) = live (drv (ctx (s\<lparr>ctx := c1, ctx := c2\<rparr>)))"
        let ?s = "s\<lparr>ctx := c3\<rparr>"
        have I': "dinv E live cur n {} {b} D ?s" by (rule dinv_ctx [OF I c3(1)]) (use c1 c2 c3 in simp)
        have ev: "events_ok n (heap s) D (gcu_events s)" using I by (simp add: dinv_def)
        have ev': "events_ok n ((heap s)(b \<mapsto> x')) D (push_event g (Some event, b) (gcu_events s))"
        proof (rule events_okI)
          show "distinct (map fst (push_event g (Some event, b) (gcu_events s)))"
            by (rule push_event_distinct [OF events_okD(2) [OF ev]])
          show "valid_stream n k" if "k \<in> fst ` set (push_event g (Some event, b) (gcu_events s))" for k
            using that g events_okD(3) [OF ev] by (auto simp: push_event_keys)
          show "waits_ok n D (push_event g (Some event, b) (gcu_events s)) c y" if "((heap s)(b \<mapsto> x')) c = Some y" for c y
            using that events_okD(4) [OF ev, of c y] events_okD(4) [OF ev b(2)] x
            by (auto simp: waits_ok_def ev_count_push x'_def split: if_splits)
          show "ev_count (push_event g (Some event, b) (gcu_events s)) c = 0" if "((heap s)(b \<mapsto> x')) c = None" for c
            using that events_okD(5) [OF ev, of c] by (auto simp: ev_count_push split: if_splits)
          show "\<exists>y. ((heap s)(b \<mapsto> x')) c = Some y \<and> \<not> allocated y \<and> stream_uses y \<noteq> []" if "c \<in> set D" for c
            using events_okD(6) [OF ev that] b(2) x(2) by auto
        qed (rule events_okD(1) [OF ev])
        have "dinv E live cur n {} {b} D (?s\<lparr>heap := (heap ?s)(b \<mapsto> x'), gcu_events := push_event g (Some event, b) (gcu_events s)\<rparr>)"
          by (rule dinv_update [OF I', where x = x]) (use b ev' in \<open>simp_all add: x'_def geometry_def\<close>)
        then have "Q () (?s\<lparr>heap := (heap ?s)(b \<mapsto> x'), gcu_events := push_event g (Some event, b) (gcu_events s)\<rparr>)"
          by (rule Q) (simp_all add: x'_def)
        then show "wp (seq (modify b (\<lambda>x. x\<lparr>event_count := event_count x + 1\<rparr>))
          (upd (\<lambda>s. s\<lparr>gcu_events := push_event g (Some event, b) (gcu_events s)\<rparr>))) Q X (s\<lparr>ctx := c1, ctx := c2, ctx := c3\<rparr>)"
          using b(2) by (simp add: wp_simps x'_def)
      qed (use c2 in simp)
    qed (use c1 in simp)
  qed
  then show ?thesis unfolding insert_event_def by (simp add: wp_simps)
qed

text \<open>
  \<open>insert_events\<close> on a freed block with stream uses: afterwards it waits for one event per use.
\<close>

lemma wp_insert_uses:
  assumes T: "good_runtime (runtime E) live cur n" and X: "\<And>e s'. gcu_error e \<Longrightarrow> X e s'"
    and I: "dinv E live cur n {} {b} D s" and b: "b \<in> set (active_blocks s)" "heap s b = Some x"
    and x: "\<not> allocated x" "stream_uses x = []" and gs: "\<forall>g\<in>set gs. valid_stream n g"
    and Q: "\<And>s'. dinv E live cur n {} {b} D s' \<Longrightarrow> same_frame s s' \<Longrightarrow> deferred s' = deferred s \<Longrightarrow>
      (events_there (gcu_events s) \<Longrightarrow> events_there (gcu_events s')) \<Longrightarrow> active_blocks s' = active_blocks s \<Longrightarrow>
      heap s' = (heap s)(b \<mapsto> x\<lparr>event_count := event_count x + int (length gs)\<rparr>) \<Longrightarrow> Q () s'"
  shows "wp (for_each (insert_event E b) gs) Q X s"
  using I b x gs Q
proof (induction gs arbitrary: s x)
  case Nil
  have "Q () s" by (rule Nil.prems(7)) (use Nil.prems(1,3) in auto)
  then show ?case by (simp add: wp_simps)
next
  case (Cons g gs)
  have "wp (insert_event E b g) (\<lambda>_. wp (for_each (insert_event E b) gs) Q X) X s"
  proof (rule wp_insert_event [OF T X Cons.prems(1-5)])
    show "valid_stream n g" using Cons.prems(6) by simp
    fix s1 k e
    assume s1: "dinv E live cur n {} {b} D s1" "same_frame s s1" "deferred s1 = deferred s"
      "gcu_events s1 = push_event k (Some e, b) (gcu_events s)" "active_blocks s1 = active_blocks s"
      "heap s1 = (heap s)(b \<mapsto> x\<lparr>event_count := event_count x + 1\<rparr>)"
    show "wp (for_each (insert_event E b) gs) Q X s1"
    proof (rule Cons.IH [OF s1(1), where x = "x\<lparr>event_count := event_count x + 1\<rparr>"])
      fix s' assume s': "dinv E live cur n {} {b} D s'" "same_frame s1 s'" "deferred s' = deferred s1"
        "events_there (gcu_events s1) \<Longrightarrow> events_there (gcu_events s')" "active_blocks s' = active_blocks s1"
        "heap s' = (heap s1)(b \<mapsto> x\<lparr>event_count := event_count x + 1, event_count :=
           event_count (x\<lparr>event_count := event_count x + 1\<rparr>) + int (length gs)\<rparr>)"
      show "Q () s'"
      proof (rule Cons.prems(7) [OF s'(1) same_frame_trans [OF s1(2) s'(2)]])
        show "events_there (gcu_events s')" if "events_there (gcu_events s)"
          using s'(4) push_event_there [OF that] s1(4) by simp
        show "heap s' = (heap s)(b \<mapsto> x\<lparr>event_count := event_count x + int (length (g # gs))\<rparr>)"
          using s'(6) s1(6) by (simp add: add.assoc)
      qed (use s1 s' in simp_all)
    qed (use Cons.prems s1 in simp_all)
  qed
  then show ?case by (simp add: wp_simps)
qed

lemma wp_insert_events:
  assumes T: "good_runtime (runtime E) live cur n" and X: "\<And>e s'. gcu_error e \<Longrightarrow> X e s'"
    and I: "dinv E live cur n {} {} (b # D) s" and b: "b \<in> set (active_blocks s)"
    and Q: "\<And>s'. dinv E live cur n {} {} D s' \<Longrightarrow> same_frame s s' \<Longrightarrow> deferred s' = deferred s \<Longrightarrow>
      (events_there (gcu_events s) \<Longrightarrow> events_there (gcu_events s')) \<Longrightarrow> active_blocks s' = active_blocks s \<Longrightarrow> Q () s'"
  shows "wp (insert_events E b) Q X s"
proof -
  have ev: "events_ok n (heap s) (b # D) (gcu_events s)" using I by (simp add: dinv_def)
  obtain x where x: "heap s b = Some x" "\<not> allocated x" "stream_uses x \<noteq> []" using events_okD(6) [OF ev, of b] by auto
  have w: "event_count x = 0" "\<forall>g\<in>set (stream_uses x). valid_stream n g" "ev_count (gcu_events s) b = 0"
    using events_okD(4) [OF ev x(1)] x by (auto simp: waits_ok_def)
  define x' where "x' = x\<lparr>stream_uses := []\<rparr>"
  let ?body = "\<lambda>err prev. seq (gcu_check err)
     (bnd (deref b) (\<lambda>x.
      seq (modify b (\<lambda>x. x\<lparr>stream_uses := []\<rparr>))
      (seq (bnd (deref b) (\<lambda>y. require InternalAssert (stream_uses y = [])))
      (seq (for_each (insert_event E b) (stream_uses x))
        (in_ctx (bnd (MaybeSetDevice (runtime E) prev) gcu_check))))))"
  have "wp (in_ctx (GetDevice (runtime E))) (\<lambda>p. wp (?body (fst p) (snd p)) Q X) X s"
  proof (rule wp_in_ctx [OF GetDevice_csafe [OF T] dinv_ctx_ok [OF I] X])
    fix p c assume p: "case p of (err, d) \<Rightarrow> err = topsSuccess \<and> 0 \<le> d \<and> d < n"
      and c: "ctx_ok cur n c" "live (drv c) = live (drv (ctx s))"
    define prev where "prev = snd p"
    have d: "0 \<le> prev" "prev < n" "fst p = topsSuccess" using p by (auto simp: prev_def split: prod.splits)
    let ?s = "s\<lparr>ctx := c\<rparr>"
    have I1: "dinv E live cur n {} {} (b # D) ?s" by (rule dinv_ctx [OF I c])
    have ev1: "events_ok n ((heap s)(b \<mapsto> x')) D (gcu_events s)"
    proof (rule events_okI)
      show "distinct D" using events_okD(1) [OF ev] by simp
      show "waits_ok n D (gcu_events s) c y" if "((heap s)(b \<mapsto> x')) c = Some y" for c y
        using that events_okD(4) [OF ev, of c y] x w by (auto simp: waits_ok_def x'_def split: if_splits)
      show "\<exists>y. ((heap s)(b \<mapsto> x')) c = Some y \<and> \<not> allocated y \<and> stream_uses y \<noteq> []" if "c \<in> set D" for c
        using events_okD(1) [OF ev] events_okD(6) [OF ev, of c] that by auto
    qed (use events_okD(2,3,5) [OF ev] in \<open>auto split: if_splits\<close>)
    have I2: "dinv E live cur n {} {b} D (?s\<lparr>heap := (heap ?s)(b \<mapsto> x'), gcu_events := gcu_events s\<rparr>)"
      by (rule dinv_update [OF I1, where x = x]) (use b x ev1 in \<open>simp_all add: x'_def geometry_def\<close>)
    let ?s2 = "?s\<lparr>heap := (heap s)(b \<mapsto> x')\<rparr>"
    have I2': "dinv E live cur n {} {b} D ?s2" using I2 by simp
    have ms: "csafe cur n live (bnd (MaybeSetDevice (runtime E) prev) gcu_check) (\<lambda>_. True)"
      by (rule csafe_bnd [OF MaybeSetDevice_csafe [OF T d(1,2)]]) (rule csafe_gcu_check)
    have "wp (for_each (insert_event E b) (stream_uses x))
        (\<lambda>_. wp (in_ctx (bnd (MaybeSetDevice (runtime E) prev) gcu_check)) Q X) X ?s2"
    proof (rule wp_insert_uses [OF T X I2', where x = x'])
      fix s3 assume s3: "dinv E live cur n {} {b} D s3" "same_frame ?s2 s3" "deferred s3 = deferred ?s2"
        "events_there (gcu_events ?s2) \<Longrightarrow> events_there (gcu_events s3)" "active_blocks s3 = active_blocks ?s2"
        "heap s3 = (heap ?s2)(b \<mapsto> x'\<lparr>event_count := event_count x' + int (length (stream_uses x))\<rparr>)"
      let ?y = "x'\<lparr>event_count := event_count x' + int (length (stream_uses x))\<rparr>"
      have y: "heap s3 b = Some ?y" "busy ?y" using s3(6) w x(3) by (simp_all add: busy_def x'_def)
      have "(heap s3)(b \<mapsto> ?y) = heap s3" using y(1) by auto
      then have I3: "dinv E live cur n {} {} D s3"
        using dinv_update [OF s3(1) _ y(1), where x' = ?y and N' = "{}" and D' = D and ev' = "gcu_events s3"]
          s3(1,5) b y(2) by (simp add: dinv_def)
      show "wp (in_ctx (bnd (MaybeSetDevice (runtime E) prev) gcu_check)) Q X s3"
      proof (rule wp_in_ctx [OF ms dinv_ctx_ok [OF I3] X])
        fix u c4 assume c4: "ctx_ok cur n c4" "live (drv c4) = live (drv (ctx s3))"
        have "Q () (s3\<lparr>ctx := c4\<rparr>)" by (rule Q [OF dinv_ctx [OF I3 c4]]) (use s3 in simp_all)
        then show "Q u (s3\<lparr>ctx := c4\<rparr>)" by simp
      qed
    qed (use b x w in \<open>simp_all add: x'_def\<close>)
    then show "wp (?body (fst p) (snd p)) Q X ?s"
      using x d(3) by (simp add: wp_simps x'_def prev_def)
  qed
  then show ?thesis unfolding insert_events_def by (simp add: wp_simps case_prod_beta)
qed

end
