(* ===== verification/AllocSync.thy ===== *)
theory AllocSync
  imports AllocEvents
begin

text \<open>
  The loops over the outstanding events: \<open>process_events\<close> frees the blocks whose events have
  completed, \<open>synchronize_and_free_events\<close> waits for all of them and leaves no event behind.
\<close>

section \<open>Deferred events\<close>

lemma dinv_deferred [simp]:
  "dinv E live cur n H N D (s\<lparr>needs_events_deferred_until_no_capture := d\<rparr>) = dinv E live cur n H N D s"
  by (simp add: dinv_def side_ok_def)

lemma wp_insert_each_deferred:
  assumes T: "good_runtime (runtime E) live cur n" and X: "\<And>e s'. gcu_error e \<Longrightarrow> X e s'"
    and I: "dinv E live cur n {} {} bs s" "events_there (gcu_events s)"
    and Q: "\<And>s'. dinv E live cur n {} {} [] s' \<Longrightarrow> events_there (gcu_events s') \<Longrightarrow> same_frame s s' \<Longrightarrow> Q () s'"
  shows "wp (for_each (\<lambda>b. seq (bnd (deref b) (\<lambda>x. require InternalAssert (stream_uses x \<noteq> [])))
     (insert_events E b)) bs) Q X s"
  using I Q
proof (induction bs arbitrary: s)
  case Nil
  then show ?case by (simp add: wp_simps)
next
  case (Cons b bs)
  have ev: "events_ok n (heap s) (b # bs) (gcu_events s)"
    and P: "parts_ok {} {} (heap s) (blocks_of s) (active_blocks s)" using Cons.prems(1) by (simp_all add: dinv_def)
  obtain x where x: "heap s b = Some x" "stream_uses x \<noteq> []" using events_okD(6) [OF ev, of b] by auto
  have bA: "b \<in> set (active_blocks s)"
    using parts_okD(9) [OF P x(1)] parts_okD(3) [OF P, of b] x by (auto simp: unused_def)
  have "wp (insert_events E b) (\<lambda>_. wp (for_each (\<lambda>b. seq (bnd (deref b) (\<lambda>x. require InternalAssert (stream_uses x \<noteq> [])))
     (insert_events E b)) bs) Q X) X s"
  proof (rule wp_insert_events [OF T X Cons.prems(1) bA])
    fix s1 assume s1: "dinv E live cur n {} {} bs s1" "same_frame s s1"
      "events_there (gcu_events s) \<Longrightarrow> events_there (gcu_events s1)"
    show "wp (for_each (\<lambda>b. seq (bnd (deref b) (\<lambda>x. require InternalAssert (stream_uses x \<noteq> [])))
     (insert_events E b)) bs) Q X s1"
      by (rule Cons.IH [OF s1(1) s1(3) [OF Cons.prems(2)]])
        (rule Cons.prems(3), assumption+, rule same_frame_trans [OF s1(2)])
  qed
  then show ?case using x by (simp add: wp_simps)
qed

lemma wp_insert_deferred:
  assumes T: "good_runtime (runtime E) live cur n" and X: "\<And>e s'. gcu_error e \<Longrightarrow> X e s'"
    and I: "alloc_inv E live cur n s"
    and Q: "\<And>s'. alloc_inv E live cur n s' \<Longrightarrow> deferred s' = [] \<Longrightarrow> same_frame s s' \<Longrightarrow> Q () s'"
  shows "wp (insert_events_deferred_until_no_capture E) Q X s"
proof (cases "deferred s = []")
  case True
  then show ?thesis
    using Q [OF I True] by (simp add: insert_events_deferred_until_no_capture_def wp_simps)
next
  case False
  have "wp (for_each (\<lambda>b. seq (bnd (deref b) (\<lambda>x. require InternalAssert (stream_uses x \<noteq> [])))
     (insert_events E b)) (deferred s)) (\<lambda>_. wp (upd (\<lambda>s. s\<lparr>needs_events_deferred_until_no_capture := []\<rparr>)) Q X) X s"
    by (rule wp_insert_each_deferred [OF T X])
      (use I Q in \<open>auto simp: alloc_inv_def wp_simps\<close>)
  then show ?thesis using False by (simp add: insert_events_deferred_until_no_capture_def wp_simps)
qed

section \<open>\<open>process_events\<close>\<close>

lemma wp_process_queues:
  assumes T: "good_runtime (runtime E) live cur n" and X: "\<And>e s'. gcu_error e \<Longrightarrow> X e s'"
    and I: "alloc_inv E live cur n s" and kqs: "set kqs \<subseteq> set (gcu_events s)" "distinct (map fst kqs)"
    and Q: "\<And>s'. alloc_inv E live cur n s' \<Longrightarrow> deferred s' = deferred s \<Longrightarrow> same_frame s s' \<Longrightarrow> Q () s'"
  shows "wp (for_each (\<lambda>(k, q). process_queue E k q) kqs) Q X s"
  using I kqs Q
proof (induction kqs arbitrary: s)
  case Nil
  then show ?case by (simp add: wp_simps)
next
  case (Cons kq kqs)
  obtain k q where kq: "kq = (k, q)" by fastforce
  have k: "(k, q) \<in> set (gcu_events s)" using Cons.prems(2) kq by simp
  have I: "dinv E live cur n {} {} (deferred s) s" and th: "events_there (gcu_events s)"
    using Cons.prems(1) by (simp_all add: alloc_inv_def)
  have q: "all_there q" using th k by (auto simp: events_there_def all_there_def)
  have "wp (process_queue E k q) (\<lambda>_. wp (for_each (\<lambda>(k, q). process_queue E k q) kqs) Q X) X s"
  proof (rule wp_process_queue [OF T X I k q])
    fix s1 assume s1: "dinv E live cur n {} {} (deferred s) s1" "same_frame s s1" "deferred s1 = deferred s"
      "other_queues k s s1" "\<And>q'. (k, q') \<in> set (gcu_events s1) \<Longrightarrow> all_there q'"
    have "all_there q'" if "(k', q') \<in> set (gcu_events s1)" for k' q'
      using that s1(4,5) th by (cases "k' = k") (auto simp: other_queues_def events_there_def all_there_def)
    then have "events_there (gcu_events s1)" by (force simp: events_there_def all_there_def)
    then have I1: "alloc_inv E live cur n s1" using s1 by (simp add: alloc_inv_def)
    have sub: "set kqs \<subseteq> set (gcu_events s1)"
    proof
      fix e assume e: "e \<in> set kqs"
      then have "fst e \<noteq> k" using Cons.prems(3) kq by force
      then show "e \<in> set (gcu_events s1)" using e s1(4) Cons.prems(2) by (cases e) (auto simp: other_queues_def)
    qed
    show "wp (for_each (\<lambda>(k, q). process_queue E k q) kqs) Q X s1"
    proof (rule Cons.IH [OF I1 sub])
      fix s' assume "alloc_inv E live cur n s'" "deferred s' = deferred s1" "same_frame s1 s'"
      then show "Q () s'" using s1(2,3) by (intro Cons.prems(4)) (auto intro: same_frame_trans)
    qed (use Cons.prems(3) in simp)
  qed
  then show ?case using kq by (simp add: wp_simps)
qed

lemma wp_process_events:
  assumes T: "good_runtime (runtime E) live cur n" and X: "\<And>e s'. gcu_error e \<Longrightarrow> X e s'"
    and I: "alloc_inv E live cur n s"
    and Q: "\<And>s'. alloc_inv E live cur n s' \<Longrightarrow> deferred s' = [] \<Longrightarrow> same_frame s s' \<Longrightarrow> Q () s'"
  shows "wp (process_events E) Q X s"
proof -
  have "wp (insert_events_deferred_until_no_capture E)
    (\<lambda>_ s. wp (for_each (\<lambda>(k, q). process_queue E k q) (gcu_events s)) Q X s) X s"
  proof (rule wp_insert_deferred [OF T X I])
    fix s1 assume s1: "alloc_inv E live cur n s1" "deferred s1 = []" "same_frame s s1"
    then show "wp (for_each (\<lambda>(k, q). process_queue E k q) (gcu_events s1)) Q X s1"
      by (intro wp_process_queues [OF T X s1(1)])
        (auto simp: alloc_inv_def dinv_def events_ok_def intro!: Q intro: same_frame_trans)
  qed
  then show ?thesis unfolding process_events_def by (simp add: wp_simps)
qed

section \<open>\<open>synchronize_and_free_events\<close>\<close>

lemma wp_sync_queue:
  assumes T: "good_runtime (runtime E) live cur n" and X: "\<And>e s'. gcu_error e \<Longrightarrow> X e s'"
    and I: "dinv E live cur n {} {} D s" and k: "(k, pre @ es) \<in> set (gcu_events s)" "\<And>c. cnt pre c = 0" "all_there es"
    and Q: "\<And>s' q'. dinv E live cur n {} {} D s' \<Longrightarrow> same_frame s s' \<Longrightarrow> deferred s' = deferred s \<Longrightarrow>
      other_queues k s s' \<Longrightarrow> (k, q') \<in> set (gcu_events s') \<Longrightarrow> (\<And>c. cnt q' c = 0) \<Longrightarrow> Q () s'"
  shows "wp (for_each (\<lambda>(i, e). sync_event E k i e) (enumerate (length pre) es)) Q X s"
  using I k Q
proof (induction es arbitrary: s pre)
  case Nil
  have "Q () s" by (rule Nil.prems(5)) (use Nil.prems in \<open>auto simp: other_queues_def\<close>)
  then show ?case by (simp add: wp_simps)
next
  case (Cons e es)
  note I = Cons.prems(1) and k = Cons.prems(2) and Q = Cons.prems(5)
  obtain event b where e: "e = (Some event, b)" using Cons.prems(4) by (cases e) (auto simp: all_there_def)
  note keys = dinv_keys [OF I]
  let ?f = "\<lambda>q. q[length pre := (None, b)]"
  let ?s1 = "s\<lparr>gcu_events := mapq k ?f (gcu_events s)\<rparr>"
  have cnt1: "ev_count (gcu_events s) c = ev_count (gcu_events ?s1) c + (if c = b then 1 else 0)" for c
    using ev_count_mapq [OF keys k, of ?f c] e by (auto simp: list_update_append)
  have k1: "(k, (pre @ [(None, b)]) @ es) \<in> set (gcu_events ?s1)"
    using mapq_same [OF k, of ?f] e by (simp add: list_update_append)
  have sy: "csafe cur n live (bnd (call (topsEventSynchronize (runtime E) event)) gcu_check) (\<lambda>_. True)"
    by (rule csafe_bnd [OF call_others_csafe(3) [OF T]]) (rule csafe_gcu_check)
  let ?rest = "wp (for_each (\<lambda>(i, e). sync_event E k i e) (enumerate (Suc (length pre)) es)) Q X"
  let ?ret = "in_ctx (event_pool_return (gs_device k) event)"
  have "wp (in_ctx (bnd (call (topsEventSynchronize (runtime E) event)) gcu_check))
      (\<lambda>_. wp (event_done b) (\<lambda>_. wp ?ret (\<lambda>_. ?rest) X) (\<lambda>e. wp ?ret (\<lambda>_. X e) X)) (\<lambda>e. wp ?ret (\<lambda>_. X e) X) ?s1"
  proof (rule wp_in_ctx [OF sy])
    show "ctx_ok cur n (ctx ?s1)" using dinv_ctx_ok [OF I] by simp
    show "wp ?ret (\<lambda>_. X e) X s'" if "gcu_error e" for e s'
      using X [OF that] by (simp add: wp_def in_ctx_def event_pool_return_def upd_apply)
    fix u c assume c: "ctx_ok cur n c" "live (drv c) = live (drv (ctx ?s1))"
    have I2: "dinv E live cur n {} {} D ((?s1\<lparr>ctx := c\<rparr>)\<lparr>gcu_events := gcu_events s\<rparr>)"
      using dinv_ctx [OF I c(1)] c(2) by simp
    show "wp (event_done b) (\<lambda>_. wp ?ret (\<lambda>_. ?rest) X) (\<lambda>e. wp ?ret (\<lambda>_. X e) X) (?s1\<lparr>ctx := c\<rparr>)"
    proof (rule wp_event_done [OF I2])
      fix s3 assume I3: "dinv E live cur n {} {} D s3" and ev3: "gcu_events s3 = gcu_events (?s1\<lparr>ctx := c\<rparr>)"
        and fr3: "same_frame (?s1\<lparr>ctx := c\<rparr>) s3" "deferred s3 = deferred (?s1\<lparr>ctx := c\<rparr>)"
      show "wp ?ret (\<lambda>_. ?rest) X s3"
      proof (rule wp_in_ctx [OF event_pool_return_csafe dinv_ctx_ok [OF I3] X])
        fix c5 assume c5: "ctx_ok cur n c5" "live (drv c5) = live (drv (ctx s3))"
        have "wp (for_each (\<lambda>(i, e). sync_event E k i e) (enumerate (length (pre @ [(None, b)])) es)) Q X (s3\<lparr>ctx := c5\<rparr>)"
        proof (rule Cons.IH)
          show "dinv E live cur n {} {} D (s3\<lparr>ctx := c5\<rparr>)" by (rule dinv_ctx [OF I3 c5])
          show "(k, (pre @ [(None, b)]) @ es) \<in> set (gcu_events (s3\<lparr>ctx := c5\<rparr>))" using k1 ev3 by simp
          show "cnt (pre @ [(None, b)]) c = 0" for c using Cons.prems(3) by simp
          show "all_there es" using Cons.prems(4) by (auto simp: all_there_def)
          fix s' q' assume s': "dinv E live cur n {} {} D s'" "same_frame (s3\<lparr>ctx := c5\<rparr>) s'"
            "deferred s' = deferred (s3\<lparr>ctx := c5\<rparr>)" "other_queues k (s3\<lparr>ctx := c5\<rparr>) s'"
            "(k, q') \<in> set (gcu_events s')" "\<And>c. cnt q' c = 0"
          show "Q () s'"
          proof (rule Q [OF s'(1) _ _ _ s'(5,6)])
            show "same_frame s s'" using fr3(1) s'(2) by (simp add: same_frame_trans)
            show "deferred s' = deferred s" using fr3(2) s'(3) by simp
            show "other_queues k s s'" using s'(4) ev3 by (simp add: other_queues_def mapq_other)
          qed
        qed
        then show "?rest (s3\<lparr>ctx := c5\<rparr>)" by simp
      qed
    qed (use cnt1 keys in simp_all)
  qed
  then show ?case using e by (simp add: wp_simps sync_event_def)
qed

lemma wp_sync_queues:
  assumes T: "good_runtime (runtime E) live cur n" and X: "\<And>e s'. gcu_error e \<Longrightarrow> X e s'"
    and I: "dinv E live cur n {} {} D s" and kqs: "set kqs \<subseteq> set (gcu_events s)" "distinct (map fst kqs)"
      "\<And>k q. (k, q) \<in> set kqs \<Longrightarrow> all_there q"
    and past: "\<And>k q c. (k, q) \<in> set (gcu_events s) \<Longrightarrow> k \<notin> fst ` set kqs \<Longrightarrow> cnt q c = 0"
    and Q: "\<And>s'. dinv E live cur n {} {} D s' \<Longrightarrow> same_frame s s' \<Longrightarrow> deferred s' = deferred s \<Longrightarrow>
      (\<And>k q c. (k, q) \<in> set (gcu_events s') \<Longrightarrow> cnt q c = 0) \<Longrightarrow> Q () s'"
  shows "wp (for_each (\<lambda>(k, q). for_each (\<lambda>(i, e). sync_event E k i e) (enumerate 0 q)) kqs) Q X s"
  using I kqs past Q
proof (induction kqs arbitrary: s)
  case Nil
  then show ?case by (simp add: wp_simps)
next
  case (Cons kq kqs)
  obtain k q where kq: "kq = (k, q)" by fastforce
  have k: "(k, [] @ q) \<in> set (gcu_events s)" "all_there q" using Cons.prems(2,4) kq by auto
  let ?rest = "wp (for_each (\<lambda>(k, q). for_each (\<lambda>(i, e). sync_event E k i e) (enumerate 0 q)) kqs) Q X"
  have "wp (for_each (\<lambda>(i, e). sync_event E k i e) (enumerate (length ([] :: event_queue)) q)) (\<lambda>_. ?rest) X s"
  proof (rule wp_sync_queue [OF T X Cons.prems(1) k(1) _ k(2)])
    fix s1 q1 assume s1: "dinv E live cur n {} {} D s1" "same_frame s s1" "deferred s1 = deferred s"
      "other_queues k s s1" "(k, q1) \<in> set (gcu_events s1)" "\<And>c. cnt q1 c = 0"
    have notk: "fst e \<noteq> k" if "e \<in> set kqs" for e using Cons.prems(3) kq that by force
    show "?rest s1"
    proof (rule Cons.IH [OF s1(1)])
      show "set kqs \<subseteq> set (gcu_events s1)"
      proof
        fix e assume e: "e \<in> set kqs"
        obtain k' q' where "e = (k', q')" by fastforce
        then show "e \<in> set (gcu_events s1)"
          using e notk [OF e] s1(4) Cons.prems(2) by (auto simp: other_queues_def)
      qed
      show "cnt q' c = 0" if "(k', q') \<in> set (gcu_events s1)" "k' \<notin> fst ` set kqs" for k' q' c
      proof (cases "k' = k")
        case True
        then show ?thesis using queue_unique [OF dinv_keys [OF s1(1)] s1(5), of q'] that(1) s1(6) by simp
      next
        case False
        then show ?thesis using that s1(4) Cons.prems(5) [of k' q'] kq by (auto simp: other_queues_def)
      qed
      fix s' assume s': "dinv E live cur n {} {} D s'" "same_frame s1 s'" "deferred s' = deferred s1"
        "\<And>k q c. (k, q) \<in> set (gcu_events s') \<Longrightarrow> cnt q c = 0"
      show "Q () s'" by (rule Cons.prems(6) [OF s'(1) same_frame_trans [OF s1(2) s'(2)] _ s'(4)]) (use s1 s' in simp)
    qed (use Cons.prems(3,4) in auto)
  qed simp_all
  then show ?case using kq by (simp add: wp_simps)
qed

lemma acct_other_stats [simp]:
  "acct_ok (st\<lparr>num_sync_all_streams := a\<rparr>) h A = acct_ok st h A" "acct_ok (st\<lparr>num_ooms := a\<rparr>) h A = acct_ok st h A"
  "acct_ok (st\<lparr>num_device_free := a\<rparr>) h A = acct_ok st h A" "acct_ok (st\<lparr>num_device_alloc := a\<rparr>) h A = acct_ok st h A"
  "acct_ok (st\<lparr>num_alloc_retries := a\<rparr>) h A = acct_ok st h A"
  "acct_ok (st\<lparr>oversize_segments := o1\<rparr>) h A = acct_ok st h A"
  "acct_ok (st\<lparr>oversize_allocations := o1\<rparr>) h A = acct_ok st h A"
  by (simp_all add: acct_ok_def)

lemma dinv_stats:
  "dinv E live cur n H N D s \<Longrightarrow> acct_ok st (heap s) (active_blocks s) \<Longrightarrow> dinv E live cur n H N D (s\<lparr>stats := st\<rparr>)"
  by (simp add: dinv_def side_ok_def)

lemma dinv_acct: "dinv E live cur n H N D s \<Longrightarrow> acct_ok (stats s) (heap s) (active_blocks s)"
  by (simp add: dinv_def)

lemma ev_count_zero: "(\<And>k q. (k, q) \<in> set ev \<Longrightarrow> cnt q c = 0) \<Longrightarrow> ev_count ev c = 0"
proof (induction ev)
  case (Cons kq ev)
  then show ?case by (cases kq) (auto simp: ev_count_Cons)
qed simp

text \<open>
  Waiting for all events needs that no capture is underway. Afterwards no block waits: every
  active block is allocated.
\<close>

lemma wp_synchronize:
  assumes T: "good_runtime (runtime E) live cur n" and X: "\<And>e s'. gcu_error e \<Longrightarrow> X e s'"
    and I: "alloc_inv E live cur n s" and idle: "captures_underway s = []"
    and Q: "\<And>s'. alloc_inv E live cur n s' \<Longrightarrow> deferred s' = [] \<Longrightarrow> gcu_events s' = [] \<Longrightarrow> same_frame s s' \<Longrightarrow> Q () s'"
  shows "wp (synchronize_and_free_events E) Q X s"
proof -
  let ?s0 = "s\<lparr>stats := (stats s)\<lparr>num_sync_all_streams := num_sync_all_streams (stats s) + 1\<rparr>\<rparr>"
  have I0: "alloc_inv E live cur n ?s0"
    using I dinv_acct [of E live cur n "{}" "{}" "deferred s" s] by (auto simp: alloc_inv_def intro: dinv_stats)
  have "wp (insert_events_deferred_until_no_capture E) (\<lambda>_ s. wp (for_each (\<lambda>(k, q).
      for_each (\<lambda>(i, e). sync_event E k i e) (enumerate 0 q)) (gcu_events s))
      (\<lambda>_ s. Q () (s\<lparr>gcu_events := []\<rparr>)) X s) X ?s0"
  proof (rule wp_insert_deferred [OF T X I0])
    fix s1 assume s1: "alloc_inv E live cur n s1" "deferred s1 = []" "same_frame ?s0 s1"
    have I1: "dinv E live cur n {} {} [] s1" and th: "events_there (gcu_events s1)"
      using s1(1,2) by (simp_all add: alloc_inv_def)
    show "wp (for_each (\<lambda>(k, q). for_each (\<lambda>(i, e). sync_event E k i e) (enumerate 0 q)) (gcu_events s1))
        (\<lambda>_ s. Q () (s\<lparr>gcu_events := []\<rparr>)) X s1"
    proof (rule wp_sync_queues [OF T X I1])
      show "all_there q" if "(k, q) \<in> set (gcu_events s1)" for k q
        using th that by (auto simp: events_there_def all_there_def)
      show "cnt q c = 0" if "(k, q) \<in> set (gcu_events s1)" "k \<notin> fst ` set (gcu_events s1)" for k q c
        using that by force
      fix s2 assume s2: "dinv E live cur n {} {} [] s2" "same_frame s1 s2" "deferred s2 = deferred s1"
        "\<And>k q c. (k, q) \<in> set (gcu_events s2) \<Longrightarrow> cnt q c = 0"
      have "dinv E live cur n {} {} [] (s2\<lparr>gcu_events := []\<rparr>)"
        by (rule dinv_events [OF s2(1)]) (use ev_count_zero s2(4) in \<open>fastforce+\<close>)
      then show "Q () (s2\<lparr>gcu_events := []\<rparr>)"
        using s1 s2 by (intro Q) (auto simp: alloc_inv_def events_there_def intro: same_frame_trans)
    qed (use dinv_keys [OF I1] in auto)
  qed
  then show ?thesis using idle by (simp add: synchronize_and_free_events_def wp_simps case_prod_beta)
qed

section \<open>\<open>free\<close>\<close>

lemma selected_stats2:
  assumes "st' = for_each_selected_stat_type (get_stat_types_for_pool pl) (\<lambda>t st. st\<lparr>
      allocation := stat_at (decrease_stat 1) t (allocation st),
      allocated_bytes := stat_at (decrease_stat z) t (allocated_bytes st)\<rparr>) st"
  shows "current (segment st' t) = current (segment st t) + (if of_type t pl then 0 else 0)"
    "current (reserved_bytes st' t) = current (reserved_bytes st t) + (if of_type t pl then 0 else 0)"
    "current (allocation st' t) = current (allocation st t) + (if of_type t pl then - 1 else 0)"
    "current (allocated_bytes st' t) = current (allocated_bytes st t) + (if of_type t pl then - z else 0)"
    "current (active st' t) = current (active st t) + (if of_type t pl then 0 else 0)"
    "current (active_bytes st' t) = current (active_bytes st t) + (if of_type t pl then 0 else 0)"
    "current (requested_bytes st' t) = current (requested_bytes st t) + (if of_type t pl then 0 else 0)"
    "current (inactive_split st' t) = current (inactive_split st t) + (if of_type t pl then 0 else 0)"
    "current (inactive_split_bytes st' t) = current (inactive_split_bytes st t) + (if of_type t pl then 0 else 0)"
  unfolding assms get_stat_types_for_pool_def
  by (rule selected_current; simp add: current_stat_at)+

lemma tot_weigh_upd:
  assumes "finite (dom h)" "h b = Some x" "pool x' = pool x"
  shows "tot (weigh p C w) (h(b \<mapsto> x')) = tot (weigh p C w) h +
    (if p (pool x) then (if C b x' then w x' else 0) - (if C b x then w x else 0) else 0)"
  using assms(3) by (simp add: tot_upd [OF assms(1,2)] weigh_def)

text \<open>The block is no longer allocated; it stays active until nothing waits for it.\<close>

lemma acct_free_mark:
  assumes a: "acct_ok st h A" and fin: "finite (dom h)" and b: "h b = Some x" and al: "allocated x"
    and st': "st' = for_each_selected_stat_type (get_stat_types_for_pool (pool x)) (\<lambda>t st. st\<lparr>
      allocation := stat_at (decrease_stat 1) t (allocation st),
      allocated_bytes := stat_at (decrease_stat (bytes x)) t (allocated_bytes st)\<rparr>) st"
  shows "acct_ok st' (h(b \<mapsto> x\<lparr>allocated := False\<rparr>)) A"
  unfolding acct_ok_def
proof (intro allI conjI)
  fix t
  note sel = selected_stats2 [OF st'] and W = tot_weigh_upd [OF fin b, of "x\<lparr>allocated := False\<rparr>"]
  let ?h = "h(b \<mapsto> x\<lparr>allocated := False\<rparr>)"
  show "current (segment st' t) = tot (weigh (of_type t) (\<lambda>_ x. prv x = None) (\<lambda>_. 1)) ?h"
    by (rule bookI [OF acct_okD(1) [OF a] sel(1) W]) simp_all
  show "current (reserved_bytes st' t) = tot (weigh (of_type t) (\<lambda>_ _. True) bytes) ?h"
    by (rule bookI [OF acct_okD(2) [OF a] sel(2) W]) simp_all
  show "current (allocation st' t) = tot (weigh (of_type t) (\<lambda>_ x. allocated x) (\<lambda>_. 1)) ?h"
    by (rule bookI [OF acct_okD(3) [OF a] sel(3) W]) (simp_all add: al)
  show "current (allocated_bytes st' t) = tot (weigh (of_type t) (\<lambda>_ x. allocated x) bytes) ?h"
    by (rule bookI [OF acct_okD(4) [OF a] sel(4) W]) (simp_all add: al)
  show "current (active st' t) = tot (weigh (of_type t) (\<lambda>b _. b \<in> set A) (\<lambda>_. 1)) ?h"
    by (rule bookI [OF acct_okD(5) [OF a] sel(5) W]) simp_all
  show "current (active_bytes st' t) = tot (weigh (of_type t) (\<lambda>b _. b \<in> set A) bytes) ?h"
    by (rule bookI [OF acct_okD(6) [OF a] sel(6) W]) simp_all
  show "current (requested_bytes st' t) = tot (weigh (of_type t) (\<lambda>b _. b \<in> set A) (\<lambda>x. int (requested_size x))) ?h"
    by (rule bookI [OF acct_okD(7) [OF a] sel(7) W]) simp_all
  show "current (inactive_split st' t) = tot (weigh (of_type t) (\<lambda>b x. b \<notin> set A \<and> is_split x) (\<lambda>_. 1)) ?h"
    by (rule bookI [OF acct_okD(8) [OF a] sel(8) W]) (simp_all add: is_split_def)
  show "current (inactive_split_bytes st' t) = tot (weigh (of_type t) (\<lambda>b x. b \<notin> set A \<and> is_split x) bytes) ?h"
    by (rule bookI [OF acct_okD(9) [OF a] sel(9) W]) (simp_all add: is_split_def)
qed

lemma not_unused_active:
  assumes "dinv E live cur n {} N D s" "heap s b = Some x" "\<not> unused x"
  shows "b \<in> set (active_blocks s)"
  using assms parts_okD(3,9) [of "{}" N "heap s" "blocks_of s" "active_blocks s" b] by (fastforce simp: dinv_def)

lemma dinv_free_mark:
  assumes I: "dinv E live cur n {} {} D s" and b: "heap s b = Some x" "allocated x"
    and st': "st' = for_each_selected_stat_type (get_stat_types_for_pool (pool x)) (\<lambda>t st. st\<lparr>
      allocation := stat_at (decrease_stat 1) t (allocation st),
      allocated_bytes := stat_at (decrease_stat (bytes x)) t (allocated_bytes st)\<rparr>) (stats s)"
  shows "b \<in> set (active_blocks s)" "event_count x = 0" "b \<notin> set D"
    and "stream_uses x = [] \<Longrightarrow> dinv E live cur n {} {b} D (s\<lparr>heap := (heap s)(b \<mapsto> x\<lparr>allocated := False\<rparr>), stats := st'\<rparr>)"
    and "stream_uses x \<noteq> [] \<Longrightarrow> dinv E live cur n {} {} (b # D) (s\<lparr>heap := (heap s)(b \<mapsto> x\<lparr>allocated := False\<rparr>), stats := st'\<rparr>)"
proof -
  show bA: "b \<in> set (active_blocks s)" by (rule not_unused_active [OF I b(1)]) (simp add: unused_def b)
  have ev: "events_ok n (heap s) D (gcu_events s)" using I by (simp add: dinv_def)
  have w: "waits_ok n D (gcu_events s) b x" by (rule events_okD(4) [OF ev b(1)])
  then show ec: "event_count x = 0" using b(2) by (simp add: waits_ok_def)
  show bD: "b \<notin> set D" using events_okD(6) [OF ev, of b] b by auto
  have fin: "finite (dom (heap s))" using I finite_heap by (auto simp: dinv_def)
  let ?x = "x\<lparr>allocated := False\<rparr>" and ?s = "s\<lparr>heap := (heap s)(b \<mapsto> x\<lparr>allocated := False\<rparr>), stats := st'\<rparr>"
  have dinvI: "dinv E live cur n {} N' D' ?s"
    if N: "\<not> busy ?x \<Longrightarrow> b \<in> N'" and e: "events_ok n ((heap s)(b \<mapsto> ?x)) D' (gcu_events s)" for N' D'
  proof -
    have parts: "parts_ok {} N' ((heap s)(b \<mapsto> ?x)) (blocks_of s) (active_blocks s)"
      by (rule parts_update [where N = "{}", OF _ bA N]) (use I in \<open>simp_all add: dinv_def\<close>)
    obtain seg where seg: "heap_ok seg (live (drv (ctx s))) (heap s)" "over_ok seg (max_split E) (heap s)"
      using I by (auto simp: dinv_def)
    have "heap_ok seg (live (drv (ctx s))) ((heap s)(b \<mapsto> ?x))"
      by (rule heap_ok_geometry [OF seg(1)]) (use b in \<open>simp add: geometry_def\<close>)
    moreover have "over_ok seg (max_split E) ((heap s)(b \<mapsto> ?x))"
      using seg(2) b(1) unfolding over_ok_def by (auto simp: is_split_def)
    moreover have "priv_ok ((heap s)(b \<mapsto> ?x)) (graph_pools s)"
    proof -
      have "tot (weigh p (\<lambda>_ x. prv x = None) (\<lambda>_. 1)) ((heap s)(b \<mapsto> ?x)) =
          tot (weigh p (\<lambda>_ x. prv x = None) (\<lambda>_. 1)) (heap s)" for p
        by (rule tot_update_same [OF fin b(1)]) (simp add: weigh_def)
      then show ?thesis using I b(1) by (auto simp: dinv_def priv_ok_def split: if_splits)
    qed
    moreover have "mem_ok (total_allocated_memory s) ((heap s)(b \<mapsto> ?x))"
      using I by (simp add: dinv_def mem_ok_def tot_update_same [OF fin b(1)])
    moreover have "acct_ok st' ((heap s)(b \<mapsto> ?x)) (active_blocks s)"
      by (rule acct_free_mark [OF dinv_acct [OF I] fin b st'])
    moreover have "dom ((heap s)(b \<mapsto> ?x)) \<subseteq> {..<next_bid s}" using I b(1) by (auto simp: dinv_def side_ok_def)
    then have "side_ok live cur n ?s" using I by (simp add: dinv_def side_ok_def)
    ultimately show ?thesis using parts e unfolding dinv_def by auto
  qed
  have evI: "events_ok n ((heap s)(b \<mapsto> ?x)) D' (gcu_events s)"
    if D': "distinct D'" "set D' = set D \<or> set D' = insert b (set D) \<and> stream_uses x \<noteq> []"
      "stream_uses x \<noteq> [] \<Longrightarrow> b \<in> set D'" for D'
  proof (rule events_okI)
    show "waits_ok n D' (gcu_events s) c y" if "((heap s)(b \<mapsto> ?x)) c = Some y" for c y
      using that events_okD(4) [OF ev, of c y] w D' ec by (auto simp: waits_ok_def split: if_splits)
    show "\<exists>y. ((heap s)(b \<mapsto> ?x)) c = Some y \<and> \<not> allocated y \<and> stream_uses y \<noteq> []" if "c \<in> set D'" for c
      using events_okD(6) [OF ev, of c] that D'(2) bD by auto
  qed (use events_okD(2,3,5) [OF ev] D'(1) in \<open>auto split: if_splits\<close>)
  show "dinv E live cur n {} {b} D ?s" if "stream_uses x = []"
    by (rule dinvI) (use that events_okD(1) [OF ev] in \<open>auto intro: evI\<close>)
  show "dinv E live cur n {} {} (b # D) ?s" if "stream_uses x \<noteq> []"
    by (rule dinvI) (use that bD events_okD(1) [OF ev] in \<open>auto simp: busy_def intro!: evI\<close>)
qed

lemma dinv_perm:
  assumes "dinv E live cur n H N D s" "set D' = set D" "distinct D'"
  shows "dinv E live cur n H N D' s"
proof -
  have ev: "events_ok n (heap s) D (gcu_events s)" using assms(1) by (simp add: dinv_def)
  have "events_ok n (heap s) D' (gcu_events s)"
  proof (rule events_okI)
    show "waits_ok n D' (gcu_events s) b x" if "heap s b = Some x" for b x
      using events_okD(4) [OF ev that] assms(2) unfolding waits_ok_def by metis
  qed (use events_okD [OF ev] assms(2,3) in simp_all)
  then show ?thesis using assms(1) by (simp add: dinv_def)
qed

lemma dinv_trace: "dinv E live cur n H N D s \<Longrightarrow> trace_ok tr \<Longrightarrow> dinv E live cur n H N D (s\<lparr>tracing := tr\<rparr>)"
  by (simp add: dinv_def side_ok_def)

lemma wp_whenM_stats:
  "wp (whenM c (upd_stats f)) (\<lambda>_. R) X s = R (s\<lparr>stats := if c then f (stats s) else stats s\<rparr>)"
  by (simp add: wp_simps)

text \<open>
  Freeing an allocated block keeps the invariant. The block is no longer allocated: it is in its
  pool, or waits for the streams that used it.
\<close>

lemma wp_free:
  assumes T: "good_runtime (runtime E) live cur n" and X: "\<And>e s'. gcu_error e \<Longrightarrow> X e s'"
    and I: "alloc_inv E live cur n s" and b: "heap s b = Some x" "allocated x"
    and Q: "\<And>s'. alloc_inv E live cur n s' \<Longrightarrow> same_frame s s' \<Longrightarrow> Q () s'"
  shows "wp (free E b) Q X s"
proof -
  have I0: "dinv E live cur n {} {} (deferred s) s" and th: "events_there (gcu_events s)"
    using I by (simp_all add: alloc_inv_def)
  define st where "st = for_each_selected_stat_type (get_stat_types_for_pool (pool x)) (\<lambda>t st. st\<lparr>
      allocation := stat_at (decrease_stat 1) t (allocation st),
      allocated_bytes := stat_at (decrease_stat (bytes x)) t (allocated_bytes st)\<rparr>) (stats s)"
  let ?s1 = "s\<lparr>heap := (heap s)(b \<mapsto> x\<lparr>allocated := False\<rparr>), stats := st\<rparr>"
  note M = dinv_free_mark [OF I0 b st_def]
  define st2 where "st2 = (if max_split E \<le> bsize x then st\<lparr>oversize_allocations := decrease_stat 1 (oversize_allocations st)\<rparr> else st)"
  let ?last = "if stream_uses x \<noteq> [] then
          bnd (gets captures_underway) (\<lambda>cs.
            if cs \<noteq> [] then
              upd (\<lambda>s. s\<lparr>needs_events_deferred_until_no_capture :=
                     needs_events_deferred_until_no_capture s @ [b]\<rparr>)
            else insert_events E b)
        else free_block b"
  have "wp (record_trace FREE_REQUESTED (int (ptr x)) (int (requested_size x)) (b_stream x) (b_device x))
     (\<lambda>_. wp (whenM (max_split E \<le> bsize x)
        (upd_stats (\<lambda>st. st\<lparr>oversize_allocations := decrease_stat 1 (oversize_allocations st)\<rparr>))) (\<lambda>_. wp ?last Q X) X) X ?s1"
  proof (rule wp_record_trace)
    show "trace_ok (tracing ?s1)" using I0 by (simp add: dinv_def side_ok_def)
    fix tr assume tr: "trace_ok tr"
    let ?s2 = "?s1\<lparr>tracing := tr, stats := st2\<rparr>"
    have up: "dinv E live cur n H N D ?s2" if "dinv E live cur n H N D ?s1" for H N D
    proof -
      have "acct_ok st2 (heap (?s1\<lparr>tracing := tr\<rparr>)) (active_blocks (?s1\<lparr>tracing := tr\<rparr>))"
        using dinv_acct [OF that] by (simp add: st2_def)
      from dinv_stats [OF dinv_trace [OF that tr] this] show ?thesis by simp
    qed
    have "wp ?last Q X ?s2"
    proof (cases "stream_uses x = []")
      case True
      have "wp (free_block b) Q X ?s2"
      proof (rule wp_free_block [OF up [OF M(4) [OF True]]])
        fix s' assume s': "dinv E live cur n {} {} (deferred s) s'" "freed_state b (x\<lparr>allocated := False\<rparr>) ?s2 s'"
        show "Q () s'" by (rule Q) (use s'(1) freed_frame [OF s'(2)] th in \<open>simp_all add: alloc_inv_def\<close>)
      qed (use M(1,2) True in \<open>simp_all add: unused_def\<close>)
      then show ?thesis using True by simp
    next
      case False
      note I2 = up [OF M(5) [OF False]]
      show ?thesis
      proof (cases "captures_underway s = []")
        case True
        have "wp (insert_events E b) Q X ?s2"
        proof (rule wp_insert_events [OF T X I2])
          fix s' assume "dinv E live cur n {} {} (deferred s) s'" "same_frame ?s2 s'" "deferred s' = deferred ?s2"
            "events_there (gcu_events ?s2) \<Longrightarrow> events_there (gcu_events s')"
          then show "Q () s'" using th by (intro Q) (simp_all add: alloc_inv_def)
        qed (use M(1) in \<open>simp_all\<close>)
        then show ?thesis using True False by (simp add: wp_simps)
      next
        case capture: False
        have "dinv E live cur n {} {} (deferred s @ [b]) ?s2"
          by (rule dinv_perm [OF I2]) (use M(3) I0 in \<open>auto simp: dinv_def events_ok_def\<close>)
        then have "Q () (?s2\<lparr>needs_events_deferred_until_no_capture := deferred s @ [b]\<rparr>)"
          using th by (intro Q) (simp_all add: alloc_inv_def)
        then show ?thesis using capture False by (simp add: wp_simps)
      qed
    qed
    then show "wp (whenM (max_split E \<le> bsize x)
        (upd_stats (\<lambda>st. st\<lparr>oversize_allocations := decrease_stat 1 (oversize_allocations st)\<rparr>))) (\<lambda>_. wp ?last Q X) X (?s1\<lparr>tracing := tr\<rparr>)"
      by (simp add: wp_whenM_stats st2_def split del: if_split cong: if_cong)
  qed
  then show ?thesis using b by (simp add: free_def wp_simps st_def cong: if_cong)
qed

end
