(* ===== verification/AllocRelease.thy ===== *)
theory AllocRelease
  imports AllocSync
begin

text \<open>
  Giving segments back to the device: \<open>release_block\<close> frees exactly the segment of a block that
  is a whole segment, and the loops over the pools keep the invariant.
\<close>

section \<open>One segment\<close>

lemma wp_topsFree:
  assumes T: "good_runtime T live cur n" and c: "ctx_ok cur n (ctx s)" and L: "live_ok (live (drv (ctx s)))"
    and p: "(p, m) \<in> live (drv (ctx s))" and X: "\<And>e s'. gcu_error e \<Longrightarrow> X e s'"
    and Q: "\<And>c. ctx_ok cur n c \<Longrightarrow> live (drv c) = live (drv (ctx s)) - {(p, m)} \<Longrightarrow> Q () (s\<lparr>ctx := c\<rparr>)"
  shows "wp (in_ctx (bnd (call (topsFree T p)) gcu_check)) Q X s"
proof -
  obtain err d where f: "topsFree T p (drv (ctx s)) = (err, d)" by fastforce
  have cur: "cur d = cur (drv (ctx s))"
    using good_runtimeD(8) [OF T, of p] f unfolding quiet_def by (metis snd_conv)
  have ok: "ctx_ok cur n ((ctx s)\<lparr>drv := d\<rparr>)"
    using c cur by (intro ctx_ok_frame [OF c]) (auto simp: ctx_ok_def device_ok_def)
  show ?thesis
  proof (cases "err = topsSuccess")
    case True
    then have "live d = live (drv (ctx s)) - {(p, m)}"
      using good_runtimeD(5) [OF T] L p f unfolding memory_runtime_def by (metis fst_conv snd_conv)
    then show ?thesis using Q [OF ok] f True by (simp add: wp_def in_ctx_def act_simps call_def)
  qed (use X f in \<open>simp add: wp_def in_ctx_def act_simps call_def gcu_error_def\<close>)
qed

lemma selected_segment:
  assumes "st' = for_each_selected_stat_type (get_stat_types_for_pool pl) g st"
    and "\<And>u st t. current (segment (g u st) t) = current (segment st t) + (if t = u then d1 else 0)"
    and "\<And>u st t. current (reserved_bytes (g u st) t) = current (reserved_bytes st t) + (if t = u then d2 else 0)"
    and "\<And>u st. allocation (g u st) = allocation st" "\<And>u st. allocated_bytes (g u st) = allocated_bytes st"
    and "\<And>u st. active (g u st) = active st" "\<And>u st. active_bytes (g u st) = active_bytes st"
    and "\<And>u st. requested_bytes (g u st) = requested_bytes st"
    and "\<And>u st. inactive_split (g u st) = inactive_split st"
    and "\<And>u st. inactive_split_bytes (g u st) = inactive_split_bytes st"
  shows "current (segment st' t) = current (segment st t) + (if of_type t pl then d1 else 0)"
    "current (reserved_bytes st' t) = current (reserved_bytes st t) + (if of_type t pl then d2 else 0)"
    "current (allocation st' t) = current (allocation st t) + (if of_type t pl then 0 else 0)"
    "current (allocated_bytes st' t) = current (allocated_bytes st t) + (if of_type t pl then 0 else 0)"
    "current (active st' t) = current (active st t) + (if of_type t pl then 0 else 0)"
    "current (active_bytes st' t) = current (active_bytes st t) + (if of_type t pl then 0 else 0)"
    "current (requested_bytes st' t) = current (requested_bytes st t) + (if of_type t pl then 0 else 0)"
    "current (inactive_split st' t) = current (inactive_split st t) + (if of_type t pl then 0 else 0)"
    "current (inactive_split_bytes st' t) = current (inactive_split_bytes st t) + (if of_type t pl then 0 else 0)"
  unfolding assms(1) get_stat_types_for_pool_def
  by (rule selected_current; simp add: assms(2-))+

lemma tot_weigh_del:
  assumes "finite (dom h)" "h b = Some x"
  shows "tot (weigh p C w) (h(b := None)) = tot (weigh p C w) h +
    (if p (pool x) then - (if C b x then w x else 0) else 0)"
  by (simp add: tot_del [OF assms] weigh_def)

lemma tot_weigh_new:
  assumes "finite (dom h)" "h b = None"
  shows "tot (weigh p C w) (h(b \<mapsto> x)) = tot (weigh p C w) h +
    (if p (pool x) then (if C b x then w x else 0) else 0)"
  by (simp add: tot_new [OF assms] weigh_def)

text \<open>The accounts when a whole segment comes (\<open>g = 1\<close>) or goes (\<open>g = -1\<close>).\<close>

lemma acct_segment:
  assumes a: "acct_ok st h A" and x: "\<not> allocated x" "b \<notin> set A" "\<not> is_split x"
    and W: "\<And>p C w. tot (weigh p C w) h' = tot (weigh p C w) h + (if p (pool x) then g * (if C b x then w x else 0) else 0)"
    and sel: "\<And>t. current (segment st' t) = current (segment st t) + (if of_type t (pool x) then g else 0)"
      "\<And>t. current (reserved_bytes st' t) = current (reserved_bytes st t) + (if of_type t (pool x) then g * bytes x else 0)"
      "\<And>t. current (allocation st' t) = current (allocation st t) + (if of_type t (pool x) then 0 else 0)"
      "\<And>t. current (allocated_bytes st' t) = current (allocated_bytes st t) + (if of_type t (pool x) then 0 else 0)"
      "\<And>t. current (active st' t) = current (active st t) + (if of_type t (pool x) then 0 else 0)"
      "\<And>t. current (active_bytes st' t) = current (active_bytes st t) + (if of_type t (pool x) then 0 else 0)"
      "\<And>t. current (requested_bytes st' t) = current (requested_bytes st t) + (if of_type t (pool x) then 0 else 0)"
      "\<And>t. current (inactive_split st' t) = current (inactive_split st t) + (if of_type t (pool x) then 0 else 0)"
      "\<And>t. current (inactive_split_bytes st' t) = current (inactive_split_bytes st t) + (if of_type t (pool x) then 0 else 0)"
  shows "acct_ok st' h' A"
  unfolding acct_ok_def
proof (intro allI conjI)
  fix t
  show "current (segment st' t) = tot (weigh (of_type t) (\<lambda>_ x. prv x = None) (\<lambda>_. 1)) h'"
    by (rule bookI [OF acct_okD(1) [OF a] sel(1) W]) (use x in \<open>simp_all add: is_split_def\<close>)
  show "current (reserved_bytes st' t) = tot (weigh (of_type t) (\<lambda>_ _. True) bytes) h'"
    by (rule bookI [OF acct_okD(2) [OF a] sel(2) W]) simp_all
  show "current (allocation st' t) = tot (weigh (of_type t) (\<lambda>_ x. allocated x) (\<lambda>_. 1)) h'"
    by (rule bookI [OF acct_okD(3) [OF a] sel(3) W]) (use x in simp_all)
  show "current (allocated_bytes st' t) = tot (weigh (of_type t) (\<lambda>_ x. allocated x) bytes) h'"
    by (rule bookI [OF acct_okD(4) [OF a] sel(4) W]) (use x in simp_all)
  show "current (active st' t) = tot (weigh (of_type t) (\<lambda>b _. b \<in> set A) (\<lambda>_. 1)) h'"
    by (rule bookI [OF acct_okD(5) [OF a] sel(5) W]) (use x in simp_all)
  show "current (active_bytes st' t) = tot (weigh (of_type t) (\<lambda>b _. b \<in> set A) bytes) h'"
    by (rule bookI [OF acct_okD(6) [OF a] sel(6) W]) (use x in simp_all)
  show "current (requested_bytes st' t) = tot (weigh (of_type t) (\<lambda>b _. b \<in> set A) (\<lambda>x. int (requested_size x))) h'"
    by (rule bookI [OF acct_okD(7) [OF a] sel(7) W]) (use x in simp_all)
  show "current (inactive_split st' t) = tot (weigh (of_type t) (\<lambda>b x. b \<notin> set A \<and> is_split x) (\<lambda>_. 1)) h'"
    by (rule bookI [OF acct_okD(8) [OF a] sel(8) W]) (use x in simp_all)
  show "current (inactive_split_bytes st' t) = tot (weigh (of_type t) (\<lambda>b x. b \<notin> set A \<and> is_split x) bytes) h'"
    by (rule bookI [OF acct_okD(9) [OF a] sel(9) W]) (use x in simp_all)
qed

text \<open>The counter of the graph pool that owns the segment.\<close>

abbreviation count_of :: "mempool_id \<Rightarrow> (bid \<Rightarrow> block option) \<Rightarrow> int" where
  "count_of i \<equiv> tot (weigh (\<lambda>pl. owner_PrivatePool pl = Some i) (\<lambda>_ x. prv x = None) (\<lambda>_. 1))"

definition add_count :: "int \<Rightarrow> pool_ref \<Rightarrow> (mempool_id \<times> private_pool) list \<Rightarrow> (mempool_id \<times> private_pool) list" where
  "add_count d pl gp = (case owner_PrivatePool pl of None \<Rightarrow> gp
     | Some i \<Rightarrow> map (\<lambda>(j, p). (j, if j = i then p\<lparr>topsMalloc_count := topsMalloc_count p + d\<rparr> else p)) gp)"

lemma map_of_add_count:
  "map_of (add_count d pl gp) i = map_option (\<lambda>p. if owner_PrivatePool pl = Some i
     then p\<lparr>topsMalloc_count := topsMalloc_count p + d\<rparr> else p) (map_of gp i)"
proof (cases "owner_PrivatePool pl")
  case None
  then show ?thesis by (simp add: add_count_def option.map_ident)
next
  case (Some k)
  then show ?thesis by (induction gp) (auto simp: add_count_def)
qed

lemma add_count_keys [simp]: "map fst (add_count d pl gp) = map fst gp"
  by (induction gp) (auto simp: add_count_def split: option.splits)

lemma priv_okD:
  assumes "priv_ok h gp"
  shows "distinct (map fst gp)"
    and "h b = Some x \<Longrightarrow> owner_PrivatePool (pool x) = Some i \<Longrightarrow> map_of gp i \<noteq> None"
    and "map_of gp i = Some pp \<Longrightarrow> topsMalloc_count pp = count_of i h"
  using assms unfolding priv_ok_def by blast+

lemma priv_add_count:
  assumes p: "priv_ok h gp" and W: "\<And>i. count_of i h' = count_of i h + (if owner_PrivatePool pl = Some i then d else 0)"
    and ex: "\<And>b x i. h' b = Some x \<Longrightarrow> owner_PrivatePool (pool x) = Some i \<Longrightarrow> map_of gp i \<noteq> None"
  shows "priv_ok h' (add_count d pl gp)"
  unfolding priv_ok_def
proof (intro conjI allI impI)
  show "distinct (map fst (add_count d pl gp))" using p by (simp add: priv_ok_def)
  show "map_of (add_count d pl gp) i \<noteq> None" if "h' b = Some x" "owner_PrivatePool (pool x) = Some i" for b x i
    using ex [OF that] by (simp add: map_of_add_count)
  show "topsMalloc_count pp = count_of i h'" if pp: "map_of (add_count d pl gp) i = Some pp" for i pp
  proof -
    obtain p0 where p0: "map_of gp i = Some p0" using pp by (auto simp: map_of_add_count)
    then show ?thesis using pp priv_okD(3) [OF p p0] W [of i] by (auto simp: map_of_add_count)
  qed
qed

lemma wp_get_private_pool [wp_simps]: "wp (get_private_pool i) Q X = (\<lambda>s.
    case map_of (graph_pools s) i of None \<Rightarrow> X UndefinedBehaviour s | Some p \<Rightarrow> Q p s)"
  by (simp add: fun_eq_iff wp_def get_private_pool_def split: option.splits)

definition released :: "bid \<Rightarrow> block \<Rightarrow> ('d \<Rightarrow> (addr \<times> nat) set) \<Rightarrow> 'd dca \<Rightarrow> 'd dca \<Rightarrow> bool" where
  "released b x live s s' \<longleftrightarrow> (\<exists>tr c st m. live (drv c) = live (drv (ctx s)) - {(ptr x, bsize x)} \<and>
     s' = s\<lparr>tracing := tr, ctx := c, total_allocated_memory := m, graph_pools := add_count (-1) (pool x) (graph_pools s),
       stats := st, pools := pools (set_blocks (pool x) (remove1 b (blocks_of s (pool x))) s),
       heap := (heap s)(b := None)\<rparr>)"

lemma events_remove:
  assumes ev: "events_ok n h D ev" and b: "h b = Some x" "unused x"
  shows "events_ok n (h(b := None)) D ev"
proof (rule events_okI)
  have w: "waits_ok n D ev b x" by (rule events_okD(4) [OF ev b(1)])
  show "waits_ok n D ev c y" if "(h(b := None)) c = Some y" for c y
    using that events_okD(4) [OF ev] by (auto split: if_splits)
  show "ev_count ev c = 0" if "(h(b := None)) c = None" for c
    using that events_okD(5) [OF ev, of c] w b(2) by (auto simp: waits_ok_def unused_def split: if_splits)
  show "\<exists>y. (h(b := None)) c = Some y \<and> \<not> allocated y \<and> stream_uses y \<noteq> []" if "c \<in> set D" for c
    using events_okD(6) [OF ev that] b by (auto simp: unused_def)
qed (use events_okD [OF ev] in auto)

lemma released_inv:
  assumes I: "dinv E live cur n {} {} D s" and b: "b \<in> set (blocks_of s (pool x))" "heap s b = Some x" "\<not> is_split x"
    and tr: "trace_ok tr" and c: "ctx_ok cur n c" "live (drv c) = live (drv (ctx s)) - {(ptr x, bsize x)}"
    and m: "m = total_allocated_memory s - word_of_nat (bsize x)"
    and st: "acct_ok st ((heap s)(b := None)) (active_blocks s)"
    and s': "s' = s\<lparr>tracing := tr, ctx := c, total_allocated_memory := m,
       graph_pools := add_count (-1) (pool x) (graph_pools s), stats := st,
       pools := pools (set_blocks (pool x) (remove1 b (blocks_of s (pool x))) s), heap := (heap s)(b := None)\<rparr>"
  shows "dinv E live cur n {} {} D s'"
proof -
  have side: "side_ok live cur n s" and P: "parts_ok {} {} (heap s) (blocks_of s) (active_blocks s)"
    and ev: "events_ok n (heap s) D (gcu_events s)" and priv: "priv_ok (heap s) (graph_pools s)"
    and mem: "mem_ok (total_allocated_memory s) (heap s)"
    using I by (simp_all add: dinv_def)
  note fin = finite_heap [OF side]
  obtain seg where H: "heap_ok seg (live (drv (ctx s))) (heap s)" and over: "over_ok seg (max_split E) (heap s)"
    using I by (auto simp: dinv_def)
  have un: "unused x" using parts_okD(3) [OF P b(1)] b(2) by auto
  have "heap_ok seg (live (drv c)) ((heap s)(b := None))"
    using heap_ok_free [OF H b(2,3)] unsplit_segment [OF H b(2,3)] c(2) by simp
  moreover have "over_ok seg (max_split E) ((heap s)(b := None))"
    using over unfolding over_ok_def by (auto split: if_splits)
  moreover have "events_ok n ((heap s)(b := None)) D (gcu_events s)" by (rule events_remove [OF ev b(2) un])
  moreover have "priv_ok ((heap s)(b := None)) (add_count (-1) (pool x) (graph_pools s))"
  proof (rule priv_add_count [OF priv])
    show "count_of i ((heap s)(b := None)) = count_of i (heap s) + (if owner_PrivatePool (pool x) = Some i then - 1 else 0)" for i
      using b(3) by (simp add: tot_weigh_del [OF fin b(2)] is_split_def)
    show "map_of (graph_pools s) i \<noteq> None" if "((heap s)(b := None)) d = Some y" "owner_PrivatePool (pool y) = Some i" for d y i
      by (rule priv_okD(2) [OF priv _ that(2)]) (use that(1) in \<open>auto split: if_splits\<close>)
  qed
  moreover have "mem_ok m ((heap s)(b := None))"
    using mem by (simp add: mem_ok_def m tot_del [OF fin b(2)])
  moreover have "parts_ok {} {} ((heap s)(b := None)) ((blocks_of s)(pool x := remove1 b (blocks_of s (pool x)))) (active_blocks s)"
    by (rule parts_remove [OF P b(1)])
  then have "parts_ok {} {} ((heap s)(b := None)) (blocks_of s') (active_blocks s)"
    using blocks_of_set_blocks [of "pool x" "remove1 b (blocks_of s (pool x))" s] s' by simp
  moreover have "side_ok live cur n s'"
  proof -
    have "live_ok (live (drv c))" using side c(2) unfolding side_ok_def live_ok_def by auto
    moreover have "dom (map_of (graph_pools s')) = dom (map_of (graph_pools s))"
      by (simp add: s' dom_map_of_conv_image_fst map_of_add_count dom_def)
    moreover have "\<exists>pp. map_of (graph_pools s') i = Some pp \<and> use_count pp = 0"
      if i: "i \<in> set (graph_pools_freeable s)" for i
    proof -
      obtain pp where "map_of (graph_pools s) i = Some pp" "use_count pp = 0"
        using side i unfolding side_ok_def by blast
      then show ?thesis by (simp add: s' map_of_add_count)
    qed
    moreover have "dom ((heap s)(b := None)) \<subseteq> {..<next_bid s}" using side by (auto simp: side_ok_def)
    ultimately show ?thesis using side tr c(1) unfolding side_ok_def by (simp add: s')
  qed
  ultimately show ?thesis using st unfolding dinv_def by (auto simp: s')
qed

lemma release_acct:
  assumes I: "dinv E live cur n {} {} D s" and b: "b \<in> set (blocks_of s (pool x))" "heap s b = Some x" "\<not> is_split x"
    and a: "acct_ok st (heap s) (active_blocks s)"
    and st': "st' = for_each_selected_stat_type (get_stat_types_for_pool (pool x)) (\<lambda>t st. st\<lparr>
        segment := stat_at (decrease_stat 1) t (segment st),
        reserved_bytes := stat_at (decrease_stat (int (bsize x))) t (reserved_bytes st)\<rparr>) st"
  shows "acct_ok st' ((heap s)(b := None)) (active_blocks s)"
proof -
  have side: "side_ok live cur n s" and P: "parts_ok {} {} (heap s) (blocks_of s) (active_blocks s)"
    using I by (simp_all add: dinv_def)
  have x: "\<not> allocated x" "b \<notin> set (active_blocks s)"
    using parts_okD(3,4) [OF P b(1)] b(2) by (auto simp: unused_def)
  note W = tot_weigh_del [OF finite_heap [OF side] b(2)]
  show ?thesis
    by (rule acct_segment [where g = "-1", OF a x b(3)])
      (simp_all add: W selected_segment [OF st', where ?d1.0 = "-1" and ?d2.0 = "- bytes x"] current_stat_at)
qed

lemma wp_release_block:
  assumes T: "good_runtime (runtime E) live cur n" and X: "\<And>e s'. gcu_error e \<Longrightarrow> X e s'"
    and I: "dinv E live cur n {} {} D s" and b: "b \<in> set (blocks_of s (pool x))" "heap s b = Some x" "\<not> is_split x"
    and Q: "\<And>s'. dinv E live cur n {} {} D s' \<Longrightarrow> released b x live s s' \<Longrightarrow> Q () s'"
  shows "wp (release_block E b) Q X s"
proof -
  let ?s0 = "s\<lparr>stats := (stats s)\<lparr>num_device_free := num_device_free (stats s) + 1\<rparr>\<rparr>"
  have side: "side_ok live cur n s" and P: "parts_ok {} {} (heap s) (blocks_of s) (active_blocks s)"
    and priv: "priv_ok (heap s) (graph_pools s)"
    using I by (simp_all add: dinv_def)
  obtain seg where H: "heap_ok seg (live (drv (ctx s))) (heap s)" using I by (auto simp: dinv_def)
  have L: "(ptr x, bsize x) \<in> live (drv (ctx s))"
    using heap_okD(1) [OF H b(2)] unsplit_segment [OF H b(2,3)] by (simp add: node_ok_def)
  note ex = priv_exists [OF priv b(2)]
  define st1 where "st1 = for_each_selected_stat_type (get_stat_types_for_pool (pool x)) (\<lambda>t st. st\<lparr>
        segment := stat_at (decrease_stat 1) t (segment st),
        reserved_bytes := stat_at (decrease_stat (int (bsize x))) t (reserved_bytes st)\<rparr>) (stats ?s0)"
  define st2 where "st2 = (if max_split E \<le> bsize x then st1\<lparr>oversize_segments := decrease_stat 1 (oversize_segments st1)\<rparr> else st1)"
  have a1: "acct_ok st1 ((heap s)(b := None)) (active_blocks s)"
    by (rule release_acct [OF I b _ st1_def]) (use dinv_acct [OF I] in simp)
  then have a2: "acct_ok st2 ((heap s)(b := None)) (active_blocks s)" by (simp add: st2_def)
  define priv_step :: "('a, unit) dact" where "priv_step = (case owner_PrivatePool (pool x) of None \<Rightarrow> ret ()
            | Some i \<Rightarrow>
                bnd (get_private_pool i) (\<lambda>pp.
                seq (require InternalAssert (0 < topsMalloc_count pp))
                  (set_private_pool i (\<lambda>pp. pp\<lparr>topsMalloc_count := topsMalloc_count pp - 1\<rparr>))))"
  have priv_wp: "wp priv_step R X t \<longleftrightarrow> R () (t\<lparr>graph_pools := add_count (-1) (pool x) (graph_pools s)\<rparr>)"
    if t: "graph_pools t = graph_pools s" for R t
  proof (cases "owner_PrivatePool (pool x)")
    case None
    then have "t\<lparr>graph_pools := add_count (-1) (pool x) (graph_pools s)\<rparr> = t" using t by (simp add: add_count_def)
    then show ?thesis using None by (simp add: priv_step_def wp_simps)
  next
    case (Some i)
    then obtain pp where pp: "map_of (graph_pools s) i = Some pp" using priv_okD(2) [OF priv b(2)] by blast
    have "weigh (\<lambda>pl. owner_PrivatePool pl = Some i) (\<lambda>_ x. prv x = None) (\<lambda>_. 1) b x \<le> count_of i (heap s)"
      by (rule tot_ge [OF finite_heap [OF side] b(2)]) (simp add: weigh_def)
    then have "0 < topsMalloc_count pp"
      using priv_okD(3) [OF priv pp] Some b(3) by (simp add: weigh_def is_split_def)
    then show ?thesis
      using pp t Some by (simp add: priv_step_def wp_simps set_private_pool_def add_count_def cong: if_cong)
  qed
  let ?fin = "bnd (pool_erase (pool x) b) (\<lambda>_. delete_block b)"
  have fin: "wp ?fin Q X t" if t: "t = s\<lparr>tracing := tr, ctx := c, total_allocated_memory :=
      total_allocated_memory s - word_of_nat (bsize x), graph_pools := add_count (-1) (pool x) (graph_pools s),
      stats := st2\<rparr>" and tr: "trace_ok tr" and c: "ctx_ok cur n c" "live (drv c) = live (drv (ctx s)) - {(ptr x, bsize x)}"
    for t tr c
  proof -
    define s' where "s' = s\<lparr>tracing := tr, ctx := c, total_allocated_memory :=
        total_allocated_memory s - word_of_nat (bsize x), graph_pools := add_count (-1) (pool x) (graph_pools s),
        stats := st2, pools := pools (set_blocks (pool x) (remove1 b (blocks_of s (pool x))) s),
        heap := (heap s)(b := None)\<rparr>"
    have "dinv E live cur n {} {} D s'" by (rule released_inv [OF I b tr c refl a2 s'_def])
    moreover have "released b x live s s'" unfolding released_def s'_def using c(2) by blast
    ultimately have "Q () s'" by (rule Q)
    moreover have "s' = (set_blocks (pool x) (remove1 b (blocks_of t (pool x))) t)\<lparr>heap := (heap t)(b := None)\<rparr>"
      by (simp add: s'_def t set_blocks_def)
    moreover have "wp (pool_erase (pool x) b) R X t \<longleftrightarrow> R 1 (set_blocks (pool x) (remove1 b (blocks_of t (pool x))) t)" for R
    proof (rule wp_pool_erase)
      show "pool_exists t (pool x)"
        using ex by (auto simp: pool_exists_def t map_of_add_count split: option.splits)
      show "heap t c \<noteq> None" if "c \<in> set (blocks_of t (pool x))" for c
        using that parts_okD(3) [OF P] by (auto simp: t)
      show "sorted_wrt BlockComparatorSize (map (key_of t) (blocks_of t (pool x)))"
        using parts_okD(2) [OF P, of "pool x"] unfolding t key_of_def by simp
    qed (use b(1) in \<open>simp add: t\<close>)
    ultimately show ?thesis by (simp add: wp_simps)
  qed
  have "wp (record_trace SEGMENT_FREE (int (ptr x)) (int (bsize x)) (b_stream x) (b_device x))
     (\<lambda>_. wp (in_ctx (bnd (call (topsFree (runtime E) (ptr x))) gcu_check))
       (\<lambda>_ s. wp priv_step (\<lambda>_ s. wp (whenM (max_split E \<le> bsize x)
             (upd_stats (\<lambda>st. st\<lparr>oversize_segments := decrease_stat 1 (oversize_segments st)\<rparr>)))
          (\<lambda>_. wp ?fin Q X) X (s\<lparr>stats := for_each_selected_stat_type (get_stat_types_for_pool (pool x)) (\<lambda>t st. st\<lparr>
        segment := stat_at (decrease_stat 1) t (segment st),
        reserved_bytes := stat_at (decrease_stat (int (bsize x))) t (reserved_bytes st)\<rparr>) (stats s)\<rparr>)) X
          (s\<lparr>total_allocated_memory := total_allocated_memory s - word_of_nat (bsize x)\<rparr>)) X) X ?s0"
  proof (rule wp_record_trace)
    show "trace_ok (tracing ?s0)" using side by (simp add: side_ok_def)
    fix tr assume tr: "trace_ok tr"
    show "wp (in_ctx (bnd (call (topsFree (runtime E) (ptr x))) gcu_check))
       (\<lambda>_ s. wp priv_step (\<lambda>_ s. wp (whenM (max_split E \<le> bsize x)
             (upd_stats (\<lambda>st. st\<lparr>oversize_segments := decrease_stat 1 (oversize_segments st)\<rparr>)))
          (\<lambda>_. wp ?fin Q X) X (s\<lparr>stats := for_each_selected_stat_type (get_stat_types_for_pool (pool x)) (\<lambda>t st. st\<lparr>
        segment := stat_at (decrease_stat 1) t (segment st),
        reserved_bytes := stat_at (decrease_stat (int (bsize x))) t (reserved_bytes st)\<rparr>) (stats s)\<rparr>)) X
          (s\<lparr>total_allocated_memory := total_allocated_memory s - word_of_nat (bsize x)\<rparr>)) X (?s0\<lparr>tracing := tr\<rparr>)"
    proof (rule wp_topsFree [OF T, where m = "bsize x"])
      fix c assume c: "ctx_ok cur n c" "live (drv c) = live (drv (ctx (?s0\<lparr>tracing := tr\<rparr>))) - {(ptr x, bsize x)}"
      let ?t = "s\<lparr>tracing := tr, ctx := c, total_allocated_memory :=
        total_allocated_memory s - word_of_nat (bsize x), graph_pools := add_count (-1) (pool x) (graph_pools s),
        stats := st2\<rparr>"
      have "wp ?fin Q X ?t" by (rule fin [OF refl tr c(1)]) (use c(2) in simp)
      then show "wp priv_step (\<lambda>_ s. wp (whenM (max_split E \<le> bsize x)
             (upd_stats (\<lambda>st. st\<lparr>oversize_segments := decrease_stat 1 (oversize_segments st)\<rparr>)))
          (\<lambda>_. wp ?fin Q X) X (s\<lparr>stats := for_each_selected_stat_type (get_stat_types_for_pool (pool x)) (\<lambda>t st. st\<lparr>
        segment := stat_at (decrease_stat 1) t (segment st),
        reserved_bytes := stat_at (decrease_stat (int (bsize x))) t (reserved_bytes st)\<rparr>) (stats s)\<rparr>)) X
          (?s0\<lparr>tracing := tr, ctx := c, total_allocated_memory :=
            total_allocated_memory (?s0\<lparr>tracing := tr, ctx := c\<rparr>) - word_of_nat (bsize x)\<rparr>)"
        by (simp add: priv_wp wp_whenM_stats st2_def st1_def split del: if_split cong: if_cong)
    qed (use side L X in \<open>simp_all add: side_ok_def\<close>)
  qed
  then show ?thesis using b(2) by (simp add: release_block_def wp_simps priv_step_def)
qed

section \<open>The loops\<close>

lemma dinv_pool_heap: "dinv E live cur n H N D s \<Longrightarrow> b \<in> set (blocks_of s pl) \<Longrightarrow> heap s b \<noteq> None"
  using parts_okD(3) [of H N "heap s" "blocks_of s" "active_blocks s" b pl] by (auto simp: dinv_def)

lemma dinv_check_pool:
  "dinv E live cur n H N D s \<Longrightarrow> pool_exists s pl \<Longrightarrow> wp (check_pool pl) Q X s = Q () s"
  by (rule wp_check_pool) (auto dest: dinv_pool_heap)

text \<open>What releasing segments leaves alone: every remaining block is as it was.\<close>

definition shrunk :: "'d dca \<Rightarrow> 'd dca \<Rightarrow> bool" where
  "shrunk s s' \<longleftrightarrow> captures_underway s' = captures_underway s \<and> gcu_events s' = gcu_events s \<and>
     deferred s' = deferred s \<and> active_blocks s' = active_blocks s \<and>
     graph_pools_freeable s' = graph_pools_freeable s \<and> next_bid s' = next_bid s \<and>
     set_fraction s' = set_fraction s \<and> allowed_memory_maximum s' = allowed_memory_maximum s \<and>
     map_option use_count \<circ> map_of (graph_pools s') = map_option use_count \<circ> map_of (graph_pools s) \<and>
     heap s' \<subseteq>\<^sub>m heap s \<and>
     (\<forall>b x. heap s b = Some x \<longrightarrow> is_split x \<or> b \<in> set (active_blocks s) \<longrightarrow> heap s' b = Some x) \<and>
     (\<forall>pl. set (blocks_of s' pl) = set (blocks_of s pl) \<inter> dom (heap s'))"

lemma shrunkD:
  assumes "shrunk s s'"
  shows "captures_underway s' = captures_underway s" "gcu_events s' = gcu_events s" "deferred s' = deferred s"
    "active_blocks s' = active_blocks s" "graph_pools_freeable s' = graph_pools_freeable s"
    and "map_option use_count (map_of (graph_pools s') i) = map_option use_count (map_of (graph_pools s) i)"
    and "heap s' b = Some x \<Longrightarrow> heap s b = Some x"
    and "heap s b = Some x \<Longrightarrow> is_split x \<Longrightarrow> heap s' b = Some x"
    and "heap s b = Some x \<Longrightarrow> b \<in> set (active_blocks s) \<Longrightarrow> heap s' b = Some x"
    and "set (blocks_of s' pl) = set (blocks_of s pl) \<inter> dom (heap s')"
proof -
  have u: "map_option use_count \<circ> map_of (graph_pools s') = map_option use_count \<circ> map_of (graph_pools s)"
    and h: "heap s' \<subseteq>\<^sub>m heap s" using assms by (simp_all add: shrunk_def)
  show "map_option use_count (map_of (graph_pools s') i) = map_option use_count (map_of (graph_pools s) i)"
    using fun_cong [OF u, of i] by simp
  show "heap s' b = Some x \<Longrightarrow> heap s b = Some x" using h by (auto simp: map_le_def dom_def)
qed (use assms in \<open>simp_all add: shrunk_def\<close>)

lemma shrunk_refl:
  assumes "dinv E live cur n {} {} D s"
  shows "shrunk s s"
proof -
  have P: "parts_ok {} {} (heap s) (blocks_of s) (active_blocks s)" using assms by (simp add: dinv_def)
  have "set (blocks_of s pl) \<subseteq> dom (heap s)" for pl using parts_okD(3) [OF P, of _ pl] by blast
  then show ?thesis by (auto simp: shrunk_def)
qed

lemma shrunk_trans:
  assumes "shrunk s t" "shrunk t u"
  shows "shrunk s u"
proof -
  note 1 = shrunkD [OF assms(1)] and 2 = shrunkD [OF assms(2)]
  have "heap u \<subseteq>\<^sub>m heap s" using assms unfolding shrunk_def by (meson map_le_trans)
  moreover have "set (blocks_of u pl) = set (blocks_of s pl) \<inter> dom (heap u)" for pl
    using 1(10) [of pl] 2(10) [of pl] 2(7) by auto
  moreover have "heap u b = Some x" if "heap s b = Some x" "is_split x \<or> b \<in> set (active_blocks s)" for b x
    using that 1(4,8,9) 2(8,9) by metis
  ultimately show ?thesis using assms unfolding shrunk_def by simp
qed

lemma released_shrunk:
  assumes r: "released b x live s s'" and I: "dinv E live cur n {} {} D s"
    and b: "b \<in> set (blocks_of s (pool x))" "heap s b = Some x" "\<not> is_split x"
  shows "shrunk s s'" "heap s' = (heap s)(b := None)"
proof -
  obtain tr c st m where s': "s' = s\<lparr>tracing := tr, ctx := c, total_allocated_memory := m,
       graph_pools := add_count (-1) (pool x) (graph_pools s), stats := st,
       pools := pools (set_blocks (pool x) (remove1 b (blocks_of s (pool x))) s), heap := (heap s)(b := None)\<rparr>"
    using r unfolding released_def by blast
  show h: "heap s' = (heap s)(b := None)" by (simp add: s')
  have P: "parts_ok {} {} (heap s) (blocks_of s) (active_blocks s)" using I by (simp add: dinv_def)
  have B: "blocks_of s' pl = (if pl = pool x then remove1 b (blocks_of s pl) else blocks_of s pl)" for pl
    by (simp add: s' set_blocks_def)
  have "set (blocks_of s' pl) = set (blocks_of s pl) \<inter> dom (heap s')" for pl
    using parts_okD(3) [OF P, of _ pl] parts_okD(3) [OF P, of b pl] b(2) pool_distinct [OF P, of pl]
    by (cases "pl = pool x") (auto simp: B h)
  moreover have "map_option use_count \<circ> map_of (graph_pools s') = map_option use_count \<circ> map_of (graph_pools s)"
    by (auto simp: s' fun_eq_iff map_of_add_count option.map_comp comp_def intro!: arg_cong2 [where f = map_option])
  moreover have "heap s' \<subseteq>\<^sub>m heap s" by (auto simp: map_le_def h)
  moreover have "b \<notin> set (active_blocks s)" by (rule parts_okD(4) [OF P b(1)])
  ultimately show "shrunk s s'" using b(2,3) by (auto simp: shrunk_def s')
qed

lemma wp_release_each:
  assumes T: "good_runtime (runtime E) live cur n" and X: "\<And>e s'. gcu_error e \<Longrightarrow> X e s'"
    and I: "dinv E live cur n {} {} D s" and bs: "set bs \<subseteq> set (blocks_of s pl)" "distinct bs"
    and Q: "\<And>s'. dinv E live cur n {} {} D s' \<Longrightarrow> shrunk s s' \<Longrightarrow>
      (\<And>b x. b \<in> set bs \<Longrightarrow> heap s' b = Some x \<Longrightarrow> is_split x) \<Longrightarrow> Q () s'"
  shows "wp (for_each (\<lambda>b. bnd (deref b) (\<lambda>x. whenM (prv x = None \<and> nxt x = None) (release_block E b))) bs) Q X s"
  using I bs Q
proof (induction bs arbitrary: s)
  case Nil
  then show ?case using shrunk_refl [OF Nil(1)] by (simp add: wp_simps)
next
  case (Cons b bs)
  note I = Cons.prems(1) and Q = Cons.prems(4)
  have P: "parts_ok {} {} (heap s) (blocks_of s) (active_blocks s)" using I by (simp add: dinv_def)
  have b: "b \<in> set (blocks_of s pl)" "b \<notin> set bs" using Cons.prems(2,3) by auto
  obtain x where x: "heap s b = Some x" "pool x = pl" using parts_okD(3) [OF P b(1)] by blast
  have c: "(prv x = None \<and> nxt x = None) \<longleftrightarrow> \<not> is_split x" by (auto simp: is_split_def)
  let ?rest = "wp (for_each (\<lambda>b. bnd (deref b) (\<lambda>x. whenM (prv x = None \<and> nxt x = None) (release_block E b))) bs) Q X"
  show ?case
  proof (cases "is_split x")
    case True
    have "?rest s"
    proof (rule Cons.IH [OF I])
      fix s' assume s': "dinv E live cur n {} {} D s'" "shrunk s s'"
        and done0: "\<And>b x. b \<in> set bs \<Longrightarrow> heap s' b = Some x \<Longrightarrow> is_split x"
      show "Q () s'" by (rule Q [OF s']) (use done0 shrunkD(8) [OF s'(2) x(1) True] True in auto)
    qed (use Cons.prems(2,3) in auto)
    then show ?thesis using x True by (simp add: wp_simps c)
  next
    case False
    have "wp (release_block E b) (\<lambda>_. ?rest) X s"
    proof (rule wp_release_block [OF T X I _ x(1) False])
      fix s1 assume s1: "dinv E live cur n {} {} D s1" "released b x live s s1"
      note r = released_shrunk [OF s1(2) I b(1) [folded x(2)] x(1) False]
      have sub: "set bs \<subseteq> set (blocks_of s1 pl)"
        using Cons.prems(2) b(2) r(2) shrunkD(10) [OF r(1), of pl] dinv_pool_heap [OF I, of _ pl] by fastforce
      show "?rest s1"
      proof (rule Cons.IH [OF s1(1) sub])
        fix s' assume s': "dinv E live cur n {} {} D s'" "shrunk s1 s'"
          and done0: "\<And>b x. b \<in> set bs \<Longrightarrow> heap s' b = Some x \<Longrightarrow> is_split x"
        have "heap s' b = None" using shrunkD(7) [OF s'(2), of b] r(2) by (cases "heap s' b") auto
        then show "Q () s'" by (intro Q s'(1) shrunk_trans [OF r(1) s'(2)]) (use done0 in auto)
      qed (use Cons.prems(3) in auto)
    qed (use b x in auto)
    then show ?thesis using x False by (simp add: wp_simps c)
  qed
qed

lemma wp_release_blocks:
  assumes T: "good_runtime (runtime E) live cur n" and X: "\<And>e s'. gcu_error e \<Longrightarrow> X e s'"
    and I: "dinv E live cur n {} {} D s" and ex: "pool_exists s pl"
    and Q: "\<And>s'. dinv E live cur n {} {} D s' \<Longrightarrow> shrunk s s' \<Longrightarrow>
      (\<And>b x. b \<in> set (blocks_of s' pl) \<Longrightarrow> heap s' b = Some x \<Longrightarrow> is_split x) \<Longrightarrow> Q () s'"
  shows "wp (release_blocks E pl) Q X s"
proof -
  have P: "parts_ok {} {} (heap s) (blocks_of s) (active_blocks s)" using I by (simp add: dinv_def)
  have "wp (for_each (\<lambda>b. bnd (deref b) (\<lambda>x. whenM (prv x = None \<and> nxt x = None) (release_block E b)))
      (blocks_of s pl)) Q X s"
  proof (rule wp_release_each [OF T X I order_refl pool_distinct [OF P]])
    fix s' assume s': "dinv E live cur n {} {} D s'" "shrunk s s'"
      and sp: "\<And>b x. b \<in> set (blocks_of s pl) \<Longrightarrow> heap s' b = Some x \<Longrightarrow> is_split x"
    show "Q () s'" by (rule Q [OF s']) (use sp shrunkD(10) [OF s'(2), of pl] in blast)
  qed
  then show ?thesis
    using dinv_check_pool [OF I ex] by (simp add: release_blocks_def wp_simps)
qed

end
