(* ===== verification/AllocCache.thy ===== *)
theory AllocCache
  imports AllocRelease
begin

text \<open>
  Emptying the cache: garbage collection, giving back oversize blocks before an allocation is
  retried, the pools of captured graphs, and \<open>release_cached_blocks\<close>. Each keeps the invariant; the
  loop of the garbage collector ends within the fuel it is given.
\<close>

section \<open>Garbage collection\<close>

lemma dinv_released_pool:
  assumes r: "released b x live s s'" and I: "dinv E live cur n {} {} D s"
    and b: "b \<in> set (blocks_of s pl)" "heap s b = Some x" "pool x = pl" "\<not> is_split x"
    and bs: "set bs \<subseteq> set (blocks_of s pl)" "b \<notin> set bs"
  shows "shrunk s s'" "set bs \<subseteq> set (blocks_of s' pl)"
proof -
  note R = released_shrunk [OF r I b(1) [folded b(3)] b(2,4)]
  show "shrunk s s'" by (rule R(1))
  show "set bs \<subseteq> set (blocks_of s' pl)"
    using bs R(2) shrunkD(10) [OF R(1), of pl] dinv_pool_heap [OF I, of _ pl] by fastforce
qed

text \<open>A pass that releases a block lowers the count.\<close>

lemma wp_gc_pass:
  assumes T: "good_runtime (runtime E) live cur n" and X: "\<And>e s'. gcu_error e \<Longrightarrow> X e s'"
    and I: "dinv E live cur n {} {} D s" and bs: "set bs \<subseteq> set (blocks_of s pl)" "distinct bs"
    and Q: "\<And>s' r a c' f'. dinv E live cur n {} {} D s' \<Longrightarrow> shrunk s s' \<Longrightarrow> c' \<le> c \<Longrightarrow>
      (f' \<longrightarrow> f \<or> c' < c) \<Longrightarrow> Q (r, a, c', f') s'"
  shows "wp (gc_pass E th bs (r, a, c, f)) Q X s"
  using I bs Q
proof (induction bs arbitrary: s r a c f)
  case Nil
  then show ?case using shrunk_refl [OF Nil(1)] by (simp add: wp_simps)
next
  case (Cons b bs)
  note I = Cons.prems(1) and Q = Cons.prems(4)
  have P: "parts_ok {} {} (heap s) (blocks_of s) (active_blocks s)" using I by (simp add: dinv_def)
  have b: "b \<in> set (blocks_of s pl)" "b \<notin> set bs" "set bs \<subseteq> set (blocks_of s pl)" "distinct bs"
    using Cons.prems(2,3) by auto
  obtain x where x: "heap s b = Some x" "pool x = pl" using parts_okD(3) [OF P b(1)] by blast
  let ?k = "gc_count s x"
  show ?case
  proof (cases "\<not> is_split x \<and> th \<le> of_nat ?k")
    case True
    have "wp (release_block E b) (\<lambda>_. wp (gc_pass E th bs (add64 r (bsize x), a - of_nat ?k, c - 1, True)) Q X) X s"
    proof (rule wp_release_block [OF T X I _ x(1)])
      fix s1 assume s1: "dinv E live cur n {} {} D s1" "released b x live s s1"
      note r1 = dinv_released_pool [OF s1(2) I b(1) x _ b(3,2)]
      show "wp (gc_pass E th bs (add64 r (bsize x), a - of_nat ?k, c - 1, True)) Q X s1"
      proof (rule Cons.IH [OF s1(1) r1(2) b(4)])
        fix s' r' a' c' f' assume s': "dinv E live cur n {} {} D s'" "shrunk s1 s'" "c' \<le> c - 1"
        show "Q (r', a', c', f') s'"
          by (rule Q [OF s'(1) shrunk_trans [OF r1(1) s'(2)]]) (use s'(3) True in auto)
      qed (use True in simp)
    qed (use True b x in auto)
    then show ?thesis using x True by (simp add: wp_simps)
  next
    case False
    have "wp (gc_pass E th bs (r, a, c, f)) Q X s" by (rule Cons.IH [OF I b(3,4)]) (rule Q)
    then show ?thesis using x False by (auto simp: wp_simps)
  qed
qed

lemma wp_gc_loop:
  assumes T: "good_runtime (runtime E) live cur n" and X: "\<And>e s'. gcu_error e \<Longrightarrow> X e s'"
    and I: "dinv E live cur n {} {} D s"
    and fuel: "0 < fuel" "f \<Longrightarrow> 0 < c \<Longrightarrow> nat c + 1 < fuel"
    and Q: "\<And>s'. dinv E live cur n {} {} D s' \<Longrightarrow> shrunk s s' \<Longrightarrow> Q () s'"
  shows "wp (gc_loop fuel E target (r, a, c, f)) Q X s"
  using I fuel Q
proof (induction fuel arbitrary: s r a c f)
  case (Suc fuel)
  note I = Suc.prems(1) and Q = Suc.prems(4)
  have P: "parts_ok {} {} (heap s) (blocks_of s) (active_blocks s)" using I by (simp add: dinv_def)
  have ck: "wp (check_pool large_blocks) R X s = R () s" for R
    by (rule dinv_check_pool [OF I]) (simp add: pool_exists_def)
  show ?case
  proof (cases "r < target \<and> f \<and> 0 < c")
    case True
    have "wp (gc_pass E (a / of_int c) (blocks_of s large_blocks) (r, a, c, False)) (\<lambda>g. wp (gc_loop fuel E target g) Q X) X s"
    proof (rule wp_gc_pass [OF T X I order_refl pool_distinct [OF P]])
      fix s1 r1 a1 c1 f1 assume s1: "dinv E live cur n {} {} D s1" "shrunk s s1" "c1 \<le> c" "f1 \<longrightarrow> False \<or> c1 < c"
      show "wp (gc_loop fuel E target (r1, a1, c1, f1)) Q X s1"
      proof (rule Suc.IH [OF s1(1)])
        show "0 < fuel" "f1 \<Longrightarrow> 0 < c1 \<Longrightarrow> nat c1 + 1 < fuel" using True Suc.prems(3) s1(4) by auto
        show "Q () s'" if "dinv E live cur n {} {} D s'" "shrunk s1 s'" for s'
          by (rule Q [OF that(1) shrunk_trans [OF s1(2) that(2)]])
      qed
    qed
    then show ?thesis using True by (simp add: wp_simps ck)
  next
    case False
    then show ?thesis using Q [OF I shrunk_refl [OF I]] by (auto simp: wp_simps)
  qed
qed simp

lemma wp_garbage_collect:
  assumes T: "good_runtime (runtime E) live cur n" and X: "\<And>e s'. gcu_error e \<Longrightarrow> X e s'"
    and I: "dinv E live cur n {} {} D s"
    and Q: "\<And>s'. dinv E live cur n {} {} D s' \<Longrightarrow> shrunk s s' \<Longrightarrow> Q () s'"
  shows "wp (garbage_collect_cached_blocks E) Q X s"
proof -
  have ck: "wp (check_pool large_blocks) R X s = R () s" for R
    by (rule dinv_check_pool [OF I]) (simp add: pool_exists_def)
  have loop: "wp (gc_loop (length ages + 2) E target (0, a, int (length ages), True)) Q X s" for ages :: "nat list" and target a
    by (rule wp_gc_loop [OF T X I]) (simp_all add: Q)
  have done0: "Q () s" by (rule Q [OF I shrunk_refl [OF I]])
  show ?thesis using loop done0 by (simp add: garbage_collect_cached_blocks_def wp_simps ck del: gc_loop.simps)
qed

section \<open>Oversize blocks\<close>

text \<open>A cached block as large as the maximum split size is a whole segment.\<close>

lemma max_split_large: "cfg_ok M c \<Longrightarrow> 20971520 < unat (max_split_size c)"
  by (simp add: cfg_ok_def kLargeBuffer_def word_less_nat_alt max_split_size_def)

lemma oversize_unsplit:
  assumes C: "cfg_ok M (cfg E)" and I: "dinv E live cur n H N D s" and b: "heap s b = Some x" "max_split E \<le> bsize x"
  shows "\<not> is_split x"
proof
  assume sp: "is_split x"
  obtain seg where H: "heap_ok seg (live (drv (ctx s))) (heap s)" and over: "over_ok seg (max_split E) (heap s)"
    using I by (auto simp: dinv_def)
  have big: "20971520 < max_split E" by (rule max_split_large [OF C])
  note nb = heap_okD(1) [OF H b(1)]
  have ov: "if is_small (pool y) then snd (seg c) \<le> 2097152
      else 1048576 < bsize y \<and> (is_split y \<longrightarrow> snd (seg c) \<le> max_split E + 1048576)" if "heap s c = Some y" for c y
    using over that by (auto simp: over_ok_def kSmallSize_def kSmallBuffer_def split: if_splits)
  have fits: "bsize x \<le> snd (seg b)" using nb by (simp add: node_ok_def)
  obtain c y where c: "heap s c = Some y" "pool y = pool x" "bsize x + bsize y \<le> snd (seg b)"
  proof (cases "nxt x")
    case None
    then obtain a where "prv x = Some a" using sp by (auto simp: is_split_def)
    then obtain y where y: "heap s a = Some y" "succ_ok seg a y b x" by (rule heap_ok_prv [OF H b(1)]) auto
    show thesis
      by (rule that [OF y(1)]) (use y(2) heap_okD(1) [OF H y(1)] nb in \<open>auto simp: node_ok_def succ_ok_def\<close>)
  next
    case (Some a)
    then obtain y where y: "heap s a = Some y" "succ_ok seg b x a y" using heap_okD(2) [OF H b(1)] by blast
    show thesis
      by (rule that [OF y(1)]) (use y(2) heap_okD(1) [OF H y(1)] nb in \<open>auto simp: node_ok_def succ_ok_def\<close>)
  qed
  show False using ov [OF b(1)] ov [OF c(1)] c(2,3) fits b(2) sp big by (auto split: if_splits)
qed

lemma wp_release_oversize:
  assumes C: "cfg_ok M (cfg E)" and T: "good_runtime (runtime E) live cur n" and X: "\<And>e s'. gcu_error e \<Longrightarrow> X e s'"
    and I: "dinv E live cur n {} {} D s" and bs: "set bs \<subseteq> set (blocks_of s pl)" "distinct bs"
    and Q: "\<And>s' m. dinv E live cur n {} {} D s' \<Longrightarrow> shrunk s s' \<Longrightarrow> Q m s'"
  shows "wp (release_oversize E p k m bs) Q X s"
  using I bs Q
proof (induction bs arbitrary: s m)
  case Nil
  then show ?case using shrunk_refl [OF Nil(1)] by (simp add: wp_simps)
next
  case (Cons b bs)
  note I = Cons.prems(1) and Q = Cons.prems(4)
  have P: "parts_ok {} {} (heap s) (blocks_of s) (active_blocks s)" using I by (simp add: dinv_def)
  have b: "b \<in> set (blocks_of s pl)" "b \<notin> set bs" "set bs \<subseteq> set (blocks_of s pl)" "distinct bs"
    using Cons.prems(2,3) by auto
  obtain x where x: "heap s b = Some x" "pool x = pl" using parts_okD(3) [OF P b(1)] by blast
  show ?case
  proof (cases "m < k \<and> max_split E \<le> bsize x \<and> b_stream x = p_stream p")
    case True
    have u: "\<not> is_split x" by (rule oversize_unsplit [OF C I x(1)]) (use True in simp)
    have "wp (release_block E b) (\<lambda>_. wp (release_oversize E p k (add64 m (bsize x)) bs) Q X) X s"
    proof (rule wp_release_block [OF T X I _ x(1) u])
      fix s1 assume s1: "dinv E live cur n {} {} D s1" "released b x live s s1"
      note r1 = dinv_released_pool [OF s1(2) I b(1) x u b(3,2)]
      show "wp (release_oversize E p k (add64 m (bsize x)) bs) Q X s1"
        by (rule Cons.IH [OF s1(1) r1(2) b(4)]) (rule Q [OF _ shrunk_trans [OF r1(1)]])
    qed (use b x in auto)
    then show ?thesis using x True by (simp add: wp_simps)
  next
    case False
    then show ?thesis using x Q [OF I shrunk_refl [OF I]] by (auto simp: wp_simps)
  qed
qed

lemma lower_bound_part:
  "set (lower_bound lt f k xs) \<subseteq> set xs" "set (rev (take n xs)) \<subseteq> set xs" "distinct xs \<Longrightarrow> distinct (rev (take n xs))"
  by (auto simp: lower_bound_def dest: set_dropWhileD in_set_takeD)

lemma wp_release_available:
  assumes C: "cfg_ok M (cfg E)" and T: "good_runtime (runtime E) live cur n" and X: "\<And>e s'. gcu_error e \<Longrightarrow> X e s'"
    and I: "dinv E live cur n {} {} D s" and ex: "pool_exists s (p_pool p)"
    and Q: "\<And>s' ok. dinv E live cur n {} {} D s' \<Longrightarrow> shrunk s s' \<Longrightarrow> Q ok s'"
  shows "wp (release_available_cached_blocks E p) Q X s"
proof (cases "max_split_size (cfg E) = -1")
  case True
  then show ?thesis using Q [OF I shrunk_refl [OF I]] by (simp add: release_available_cached_blocks_def wp_simps)
next
  case False
  define k where "k = (if p_size p < max_split E then max_split E else p_size p)"
  define bs where "bs = blocks_of s (p_pool p)"
  define it where "it = lower_bound BlockComparatorSize (key_of s) (p_stream p, k, 0) bs"
  have P: "parts_ok {} {} (heap s) (blocks_of s) (active_blocks s)" using I by (simp add: dinv_def)
  have part: "set it \<subseteq> set bs" "set (rev (take j bs)) \<subseteq> set (blocks_of s (p_pool p))" "distinct (rev (take j bs))" for j
    unfolding it_def bs_def by (rule lower_bound_part pool_distinct [OF P])+
  have over: "wp (if rev (take j bs) = [] then ret False
      else bnd (release_oversize E p k 0 (rev (take j bs))) (\<lambda>m. ret (k \<le> m))) Q X s" for j
    using wp_release_oversize [OF C T X I part(2,3)] Q Q [OF I shrunk_refl [OF I]] by (simp add: wp_simps)
  have here: "wp (case it of [] \<Rightarrow> ret None
      | b # _ \<Rightarrow> bnd (deref b) (\<lambda>x. ret (if b_stream x = p_stream p then Some b else None)))
     (\<lambda>found. wp (case found of None \<Rightarrow>
          if rev (take j bs) = [] then ret False
          else bnd (release_oversize E p k 0 (rev (take j bs))) (\<lambda>m. ret (k \<le> m))
        | Some b \<Rightarrow> seq (release_block E b) (ret True)) Q X) X s" for j
  proof (cases it)
    case Nil
    then show ?thesis using over by (simp add: wp_simps)
  next
    case (Cons b rest)
    then have b: "b \<in> set (blocks_of s (p_pool p))" using part(1) by (auto simp: bs_def)
    then obtain x where x: "heap s b = Some x" "pool x = p_pool p" using parts_okD(3) [OF P] by blast
    show ?thesis
    proof (cases "b_stream x = p_stream p")
      case True
      have "\<not> BlockComparatorSize (key_of s b) (p_stream p, k, 0)"
        using Cons unfolding it_def lower_bound_def by (metis (no_types, lifting) hd_dropWhile list.discI list.sel(1))
      then have "k \<le> bsize x" using x(1) True by (auto simp: key_of_def key_def split: if_splits)
      then have u: "\<not> is_split x" by (intro oversize_unsplit [OF C I x(1)]) (auto simp: k_def split: if_splits)
      have "wp (release_block E b) (\<lambda>_. Q True) X s"
        by (rule wp_release_block [OF T X I _ x(1) u])
          (use b x Q released_shrunk [OF _ I _ x(1) u] in auto)
      then show ?thesis using Cons x(1) True by (simp add: wp_simps)
    qed (use Cons x over in \<open>simp add: wp_simps\<close>)
  qed
  from here [of "length bs - length it"] show ?thesis
    using False dinv_check_pool [OF I ex] unfolding release_available_cached_blocks_def k_def [symmetric] it_def bs_def
    by (simp add: wp_simps Let_def split del: if_split del: rev_is_Nil_conv take_eq_Nil)
qed

section \<open>Graph pools that are no longer used\<close>

lemma heap_head:
  assumes H: "heap_ok seg L h" and b: "h b = Some x"
  shows "\<exists>c y. h c = Some y \<and> prv y = None \<and> pool y = pool x"
  using b
proof (induction "ptr x" arbitrary: b x rule: less_induct)
  case less
  show ?case
  proof (cases "prv x")
    case (Some a)
    then obtain y where y: "h a = Some y" "nxt y = Some b" "succ_ok seg a y b x"
      by (rule heap_ok_prv [OF H less.prems])
    then have "ptr y < ptr x" using succ_less(1) [OF H y(1,2) less.prems] by simp
    from less.hyps [OF this y(1)] y(3) show ?thesis by (auto simp: succ_ok_def)
  qed (use less.prems in auto)
qed

lemma count_zero:
  assumes H: "heap_ok seg L h" and fin: "finite (dom h)" and z: "count_of i h = 0" and b: "h b = Some x"
  shows "owner_PrivatePool (pool x) \<noteq> Some i"
proof
  assume o: "owner_PrivatePool (pool x) = Some i"
  obtain c y where c: "h c = Some y" "prv y = None" "pool y = pool x" using heap_head [OF H b] by blast
  have "weigh (\<lambda>pl. owner_PrivatePool pl = Some i) (\<lambda>_ x. prv x = None) (\<lambda>_. 1) c y \<le> count_of i h"
    by (rule tot_ge [OF fin c(1)]) (simp add: weigh_def)
  then show False using z c o by (simp add: weigh_def)
qed

lemma map_of_filter_neq:
  "map_of (filter (\<lambda>(j, _). j \<noteq> i) gp) j = (if j = i then None else map_of gp j)"
  by (induction gp) auto

lemma dinv_drop_pool:
  assumes I: "dinv E live cur n {} {} D s" and z: "map_of (graph_pools s) i = Some pp" "topsMalloc_count pp = 0"
    and idle: "captures_underway s = []"
  shows "dinv E live cur n {} {} D (s\<lparr>graph_pools := filter (\<lambda>(j, _). j \<noteq> i) (graph_pools s),
    graph_pools_freeable := remove1 i (graph_pools_freeable s)\<rparr>)" (is "dinv _ _ _ _ _ _ _ ?s")
proof -
  have side: "side_ok live cur n s" and priv: "priv_ok (heap s) (graph_pools s)" using I by (simp_all add: dinv_def)
  obtain seg where H: "heap_ok seg (live (drv (ctx s))) (heap s)" using I by (auto simp: dinv_def)
  have no: "owner_PrivatePool (pool x) \<noteq> Some i" if "heap s b = Some x" for b x
    by (rule count_zero [OF H finite_heap [OF side] _ that]) (use priv_okD(3) [OF priv z(1)] z(2) in simp)
  note mo = map_of_filter_neq [where gp = "graph_pools s" and i = i]
  have "priv_ok (heap s) (filter (\<lambda>(j, _). j \<noteq> i) (graph_pools s))"
    unfolding priv_ok_def
  proof (intro conjI allI impI)
    show "distinct (map fst (filter (\<lambda>(j, _). j \<noteq> i) (graph_pools s)))"
      using priv_okD(1) [OF priv] by (rule distinct_map_filter)
    show "map_of (filter (\<lambda>(j, _). j \<noteq> i) (graph_pools s)) j \<noteq> None"
      if "heap s b = Some x" "owner_PrivatePool (pool x) = Some j" for b x j
      using priv_okD(2) [OF priv that] no [OF that(1)] that(2) by (simp add: mo)
    show "topsMalloc_count qq = count_of j (heap s)" if "map_of (filter (\<lambda>(j, _). j \<noteq> i) (graph_pools s)) j = Some qq" for j qq
      by (rule priv_okD(3) [OF priv]) (use that in \<open>simp add: mo split: if_splits\<close>)
  qed
  moreover have "side_ok live cur n ?s"
    using side idle unfolding side_ok_def by (auto simp: mo)
  ultimately show ?thesis using I unfolding dinv_def by simp
qed

text \<open>What emptying pools leaves alone when no capture is underway.\<close>

definition quiet_frame :: "'d dca \<Rightarrow> 'd dca \<Rightarrow> bool" where
  "quiet_frame s s' \<longleftrightarrow> captures_underway s' = captures_underway s \<and> gcu_events s' = gcu_events s \<and>
     deferred s' = deferred s \<and> active_blocks s' = active_blocks s \<and> next_bid s' = next_bid s \<and>
     set_fraction s' = set_fraction s \<and> allowed_memory_maximum s' = allowed_memory_maximum s \<and>
     heap s' \<subseteq>\<^sub>m heap s \<and> (\<forall>pl. set (blocks_of s' pl) \<subseteq> set (blocks_of s pl))"

lemma shrunk_quiet: "shrunk s s' \<Longrightarrow> quiet_frame s s'"
  by (auto simp: shrunk_def quiet_frame_def)

lemma quiet_frame_trans: "quiet_frame s t \<Longrightarrow> quiet_frame t u \<Longrightarrow> quiet_frame s u"
  unfolding quiet_frame_def by (simp, meson map_le_trans subset_trans)

lemma quiet_frameD:
  assumes "quiet_frame s s'"
  shows "captures_underway s' = captures_underway s" "gcu_events s' = gcu_events s" "deferred s' = deferred s"
    "active_blocks s' = active_blocks s" "b \<in> set (blocks_of s' pl) \<Longrightarrow> b \<in> set (blocks_of s pl)"
    "heap s' b = Some x \<Longrightarrow> heap s b = Some x"
  using assms by (auto simp: quiet_frame_def map_le_def dom_def)

lemma wp_release_private_pool:
  assumes T: "good_runtime (runtime E) live cur n" and X: "\<And>e s'. gcu_error e \<Longrightarrow> X e s'"
    and I: "dinv E live cur n {} {} D s" and idle: "captures_underway s = []" and i: "i \<in> set (graph_pools_freeable s)"
    and Q: "\<And>s'. dinv E live cur n {} {} D s' \<Longrightarrow> quiet_frame s s' \<Longrightarrow>
      graph_pools_freeable s' = graph_pools_freeable s \<or> graph_pools_freeable s' = remove1 i (graph_pools_freeable s) \<Longrightarrow> Q () s'"
  shows "wp (release_private_pool E i) Q X s"
proof -
  obtain pp where pp: "map_of (graph_pools s) i = Some pp" "use_count pp = 0"
    using I i unfolding dinv_def side_ok_def by blast
  let ?last = "bnd (get_private_pool i) (\<lambda>pp. whenM (topsMalloc_count pp = 0)
       (seq (upd (\<lambda>s. s\<lparr>graph_pools := filter (\<lambda>(j, _). j \<noteq> i) (graph_pools s)\<rparr>))
         (upd (\<lambda>s. s\<lparr>graph_pools_freeable := remove1 i (graph_pools_freeable s)\<rparr>))))"
  have "wp (release_blocks E (private_small i)) (\<lambda>_. wp (release_blocks E (private_large i)) (\<lambda>_. wp ?last Q X) X) X s"
  proof (rule wp_release_blocks [OF T X I])
    show "pool_exists s (private_small i)" using pp by (simp add: pool_exists_def)
    fix s1 assume s1: "dinv E live cur n {} {} D s1" "shrunk s s1"
    have "map_of (graph_pools s1) i \<noteq> None" using shrunkD(6) [OF s1(2), of i] pp(1) by (cases "map_of (graph_pools s1) i") auto
    then have ex1: "pool_exists s1 (private_large i)" by (simp add: pool_exists_def)
    show "wp (release_blocks E (private_large i)) (\<lambda>_. wp ?last Q X) X s1"
    proof (rule wp_release_blocks [OF T X s1(1) ex1])
      fix s2 assume s2: "dinv E live cur n {} {} D s2" "shrunk s1 s2"
      note sh = shrunk_trans [OF s1(2) s2(2)]
      obtain p2 where p2: "map_of (graph_pools s2) i = Some p2"
        using shrunkD(6) [OF sh, of i] pp(1) by (cases "map_of (graph_pools s2) i") auto
      show "wp ?last Q X s2"
      proof (cases "topsMalloc_count p2 = 0")
        case True
        have "Q () (s2\<lparr>graph_pools := filter (\<lambda>(j, _). j \<noteq> i) (graph_pools s2),
            graph_pools_freeable := remove1 i (graph_pools_freeable s2)\<rparr>)"
        proof (rule Q [OF dinv_drop_pool [OF s2(1) p2 True]])
          show "captures_underway s2 = []" using shrunkD(1) [OF sh] idle by simp
        qed (use shrunkD(5) [OF sh] shrunk_quiet [OF sh] in \<open>simp_all add: quiet_frame_def\<close>)
        then show ?thesis using p2 True by (simp add: wp_simps)
      next
        case False
        have "Q () s2" by (rule Q [OF s2(1) shrunk_quiet [OF sh]]) (use shrunkD(5) [OF sh] in simp)
        then show ?thesis using p2 False by (simp add: wp_simps)
      qed
    qed
  qed
  then show ?thesis using pp by (simp add: release_private_pool_def wp_simps)
qed

lemma wp_release_private_pools:
  assumes T: "good_runtime (runtime E) live cur n" and X: "\<And>e s'. gcu_error e \<Longrightarrow> X e s'"
    and I: "dinv E live cur n {} {} D s" and idle: "captures_underway s = []"
    and ids: "set ids \<subseteq> set (graph_pools_freeable s)" "distinct ids"
    and Q: "\<And>s'. dinv E live cur n {} {} D s' \<Longrightarrow> quiet_frame s s' \<Longrightarrow> Q () s'"
  shows "wp (for_each (release_private_pool E) ids) Q X s"
  using I idle ids Q
proof (induction ids arbitrary: s)
  case Nil
  have "Q () s" by (rule Nil(5) [OF Nil(1)]) (simp add: quiet_frame_def)
  then show ?case by (simp add: wp_simps)
next
  case (Cons i ids)
  have "wp (release_private_pool E i) (\<lambda>_. wp (for_each (release_private_pool E) ids) Q X) X s"
  proof (rule wp_release_private_pool [OF T X Cons.prems(1,2)])
    fix s1 assume s1: "dinv E live cur n {} {} D s1" "quiet_frame s s1"
      and fr: "graph_pools_freeable s1 = graph_pools_freeable s \<or> graph_pools_freeable s1 = remove1 i (graph_pools_freeable s)"
    have "distinct (graph_pools_freeable s)" using Cons.prems(1) by (simp add: dinv_def side_ok_def)
    then have sub: "set ids \<subseteq> set (graph_pools_freeable s1)" using fr Cons.prems(3,4) by auto
    show "wp (for_each (release_private_pool E) ids) Q X s1"
      by (rule Cons.IH [OF s1(1) _ sub])
        (use Cons.prems quiet_frameD(1) [OF s1(2)] quiet_frame_trans [OF s1(2)] in auto)
  qed (use Cons.prems(3) in auto)
  then show ?case by (simp add: wp_simps)
qed

section \<open>The whole cache\<close>

text \<open>
  After \<open>release_cached_blocks\<close> no block waits for events and every block still cached in the two
  pools of the allocator is a part of a segment in use.
\<close>

lemma wp_release_cached:
  assumes T: "good_runtime (runtime E) live cur n" and X: "\<And>e s'. gcu_error e \<Longrightarrow> X e s'"
    and I: "alloc_inv E live cur n s" and idle: "captures_underway s = []"
    and Q: "\<And>s'. alloc_inv E live cur n s' \<Longrightarrow> captures_underway s' = [] \<Longrightarrow> gcu_events s' = [] \<Longrightarrow> deferred s' = [] \<Longrightarrow>
      next_bid s' = next_bid s \<Longrightarrow> set_fraction s' = set_fraction s \<Longrightarrow> allowed_memory_maximum s' = allowed_memory_maximum s \<Longrightarrow>
      (\<And>pl b x. pl = large_blocks \<or> pl = small_blocks \<Longrightarrow> b \<in> set (blocks_of s' pl) \<Longrightarrow> heap s' b = Some x \<Longrightarrow> is_split x) \<Longrightarrow>
      Q True s'"
  shows "wp (release_cached_blocks E) Q X s"
proof -
  let ?priv = "bnd (gets graph_pools_freeable) (for_each (release_private_pool E)) :: ('a, unit) dact"
  have "wp (synchronize_and_free_events E) (\<lambda>_. wp (release_blocks E large_blocks) (\<lambda>_. wp (release_blocks E small_blocks)
      (\<lambda>_. wp ?priv (\<lambda>_. Q True) X) X) X) X s"
  proof (rule wp_synchronize [OF T X I idle])
    fix s0 assume s0: "alloc_inv E live cur n s0" "deferred s0 = []" "gcu_events s0 = []" "same_frame s s0"
    have I0: "dinv E live cur n {} {} [] s0" using s0(1,2) by (simp add: alloc_inv_def)
    show "wp (release_blocks E large_blocks) (\<lambda>_. wp (release_blocks E small_blocks)
      (\<lambda>_. wp ?priv (\<lambda>_. Q True) X) X) X s0"
    proof (rule wp_release_blocks [OF T X I0])
      fix s1 assume s1: "dinv E live cur n {} {} [] s1" "shrunk s0 s1"
        and l1: "\<And>b x. b \<in> set (blocks_of s1 large_blocks) \<Longrightarrow> heap s1 b = Some x \<Longrightarrow> is_split x"
      show "wp (release_blocks E small_blocks) (\<lambda>_. wp ?priv (\<lambda>_. Q True) X) X s1"
      proof (rule wp_release_blocks [OF T X s1(1)])
        fix s2 assume s2: "dinv E live cur n {} {} [] s2" "shrunk s1 s2"
          and l2: "\<And>b x. b \<in> set (blocks_of s2 small_blocks) \<Longrightarrow> heap s2 b = Some x \<Longrightarrow> is_split x"
        note q2 = quiet_frame_trans [OF shrunk_quiet [OF s1(2)] shrunk_quiet [OF s2(2)]]
        have idle2: "captures_underway s2 = []" using q2 s0(4) idle by (simp add: quiet_frame_def same_frame_def)
        have "wp (for_each (release_private_pool E) (graph_pools_freeable s2)) (\<lambda>_. Q True) X s2"
        proof (rule wp_release_private_pools [OF T X s2(1) idle2])
          fix s3 assume s3: "dinv E live cur n {} {} [] s3" "quiet_frame s2 s3"
          note q3 = quiet_frame_trans [OF q2 s3(2)]
          show "Q True s3"
          proof (rule Q)
            show "alloc_inv E live cur n s3"
              using s3(1) q3 s0(2,3) by (simp add: alloc_inv_def quiet_frame_def events_there_def)
            fix pl b x assume pl: "pl = large_blocks \<or> pl = small_blocks" and b: "b \<in> set (blocks_of s3 pl)" "heap s3 b = Some x"
            note b2 = quiet_frameD(5,6) [OF s3(2)] and b1 = quiet_frameD(5,6) [OF shrunk_quiet [OF s2(2)]]
            show "is_split x" using pl
            proof
              assume "pl = large_blocks"
              then show ?thesis using b l1 [OF b1(1) b1(2)] b2 by blast
            next
              assume "pl = small_blocks"
              then show ?thesis using b l2 [OF b2(1) b2(2)] by blast
            qed
          qed (use q3 s0 idle in \<open>simp_all add: quiet_frame_def same_frame_def\<close>)
        qed (use s2(1) in \<open>simp_all add: dinv_def side_ok_def\<close>)
        then show "wp ?priv (\<lambda>_. Q True) X s2" by (simp add: wp_simps)
      qed (simp_all add: pool_exists_def)
    qed (simp_all add: pool_exists_def)
  qed
  then show ?thesis by (simp add: release_cached_blocks_def wp_simps)
qed

end
