(* ===== verification/AllocSegment.thy ===== *)
theory AllocSegment
  imports AllocCache
begin

text \<open>
  New segments: \<open>alloc_block\<close> asks the device for memory, possibly with the lock of the allocator
  released, and adds the segment to the heap as one block that is held for the request.
\<close>

section \<open>The request\<close>

text \<open>
  The parameters of an allocation: the pool fits the rounded size and belongs, if it is private,
  to a capture underway; the size to ask the device for is that of \<open>get_allocation_size\<close>.
\<close>

definition request_ok :: "'d dca \<Rightarrow> alloc_params \<Rightarrow> bool" where
  "request_ok s p \<longleftrightarrow> 0 < p_size p \<and> p_size p < 2 ^ 62 \<and> alloc_size p = alloc_spec (p_size p) \<and>
     (is_small (p_pool p) \<longleftrightarrow> p_size p \<le> unat kSmallSize) \<and>
     (\<forall>i. owner_PrivatePool (p_pool p) = Some i \<longrightarrow> i \<in> fst ` set (captures_underway s))"

lemma request_same: "captures_underway s' = captures_underway s \<Longrightarrow> request_ok s p \<Longrightarrow> request_ok s' p"
  and request_err [simp]: "request_ok s (p\<lparr>p_err := e\<rparr>) = request_ok s p"
  and request_block [simp]: "request_ok s (p\<lparr>p_block := b\<rparr>) = request_ok s p"
  by (simp_all add: request_ok_def)

lemma alloc_inv_dinv: "alloc_inv E live cur n s \<Longrightarrow> dinv E live cur n {} {} (deferred s) s"
  by (simp add: alloc_inv_def)

lemma request_pool:
  assumes "dinv E live cur n H N D s" "request_ok s p"
  shows "pool_exists s (p_pool p)"
proof (cases "owner_PrivatePool (p_pool p)")
  case (Some i)
  then have "i \<in> dom (map_of (graph_pools s))" using assms unfolding request_ok_def dinv_def side_ok_def by blast
  then show ?thesis using Some by (auto simp: pool_exists_def)
qed (simp add: pool_exists_def)

lemma request_bounds:
  assumes "request_ok s p"
  shows "p_size p \<le> alloc_size p" "alloc_size p < 2 ^ 63" "0 < alloc_size p"
    and "if is_small (p_pool p) then alloc_size p \<le> unat kSmallBuffer else unat kSmallSize < alloc_size p"
  using assms alloc_spec_bounds [of "p_size p"]
  by (auto simp: request_ok_def kSmallSize_def kSmallBuffer_def alloc_spec_def split: if_splits)

lemma alloc_spec_fit:
  assumes C: "cfg_ok M c" and n: "n < unat (max_split_size c)" "n < 2 ^ 62" "1048576 < n"
  shows "alloc_spec n \<le> unat (max_split_size c) + 1048576"
proof (cases "n < 10485760")
  case True
  then show ?thesis using n(3) max_split_large [OF C] by (simp add: alloc_spec_def)
next
  case False
  define q where "q = (n + 2097151) div 2097152"
  have a: "alloc_spec n = 2097152 * q" using False by (simp add: alloc_spec_def round_up_def q_def)
  have q: "2097152 * q \<le> n + 2097151" unfolding q_def by simp
  have "m_max_split_size c = -1 \<or> 1048576 dvd unat (m_max_split_size c)" using C by (simp add: cfg_ok_def)
  then show ?thesis
  proof
    assume "m_max_split_size c = -1"
    then have "unat (max_split_size c) = 2 ^ 64 - 1" by (simp add: max_split_size_def unsigned_minus_1_eq_mask mask_eq_exp_minus_1)
    then show ?thesis using a q n(2) by simp
  next
    assume "1048576 dvd unat (m_max_split_size c)"
    then obtain k where k: "unat (max_split_size c) = 1048576 * k" by (auto simp: max_split_size_def)
    then have "2 * q \<le> k + 1" using q n(1) by linarith
    then show ?thesis using a k by simp
  qed
qed

text \<open>What a block handed to a request has to be; \<open>held\<close> is the invariant while it is held.\<close>

definition serves :: "'d env \<Rightarrow> alloc_params \<Rightarrow> block \<Rightarrow> bool" where
  "serves E p x \<longleftrightarrow> pool x = p_pool p \<and> b_stream x = p_stream p \<and> p_size p \<le> bsize x \<and>
     (p_size p < max_split E \<and> \<not> is_small (p_pool p) \<longrightarrow> bsize x \<le> max_split E + unat kSmallSize)"

definition held :: "'d env \<Rightarrow> ('d \<Rightarrow> (addr \<times> nat) set) \<Rightarrow> ('d \<Rightarrow> int) \<Rightarrow> int \<Rightarrow> alloc_params \<Rightarrow> bid \<Rightarrow> 'd dca \<Rightarrow> bool" where
  "held E live cur n p b s \<longleftrightarrow> dinv E live cur n {b} {} (deferred s) s \<and> events_there (gcu_events s) \<and>
     (\<exists>x. heap s b = Some x \<and> serves E p x)"

section \<open>Memory that the device has handed out and no block uses\<close>

definition foreign :: "('d \<Rightarrow> (addr \<times> nat) set) \<Rightarrow> 'd dca \<Rightarrow> addr \<Rightarrow> nat \<Rightarrow> bool" where
  "foreign live s p m \<longleftrightarrow> (p, m) \<in> live (drv (ctx s)) \<and>
     (\<forall>b x. heap s b = Some x \<longrightarrow> ptr x + bsize x \<le> p \<or> p + m \<le> ptr x)"

text \<open>
  What is relied on of code that runs while the operation is underway: it keeps the invariant, does
  not begin or end a capture, and leaves memory alone that is not its own.
\<close>

definition rely :: "'d env \<Rightarrow> ('d \<Rightarrow> (addr \<times> nat) set) \<Rightarrow> ('d \<Rightarrow> int) \<Rightarrow> int \<Rightarrow> ('d dca \<Rightarrow> 'd dca) \<Rightarrow> bool" where
  "rely E live cur n f \<longleftrightarrow> (\<forall>s. alloc_inv E live cur n s \<longrightarrow> alloc_inv E live cur n (f s) \<and>
     captures_underway (f s) = captures_underway s \<and> (\<forall>p m. foreign live s p m \<longrightarrow> foreign live (f s) p m))"

lemma relyD:
  assumes "rely E live cur n f" "alloc_inv E live cur n s"
  shows "alloc_inv E live cur n (f s)" "captures_underway (f s) = captures_underway s"
    "foreign live s p m \<Longrightarrow> foreign live (f s) p m"
  using assms by (auto simp: rely_def)

definition good_env :: "'d env \<Rightarrow> ('d \<Rightarrow> (addr \<times> nat) set) \<Rightarrow> ('d \<Rightarrow> int) \<Rightarrow> int \<Rightarrow> bool" where
  "good_env E live cur n \<longleftrightarrow> good_runtime (runtime E) live cur n \<and> llvm_spec (llvm E) \<and> cfg_ok (llvm E) (cfg E) \<and>
     rely E live cur n (other_threads E) \<and> (\<forall>f\<in>set (callbacks E). rely E live cur n (\<lambda>s. snd (f s)))"

lemma good_envD:
  assumes "good_env E live cur n"
  shows "good_runtime (runtime E) live cur n" "llvm_spec (llvm E)" "cfg_ok (llvm E) (cfg E)"
    "rely E live cur n (other_threads E)" "f \<in> set (callbacks E) \<Longrightarrow> rely E live cur n (\<lambda>s. snd (f s))"
  using assms by (simp_all add: good_env_def)

lemma heap_ok_more: "heap_ok seg L h \<Longrightarrow> L \<subseteq> L' \<Longrightarrow> heap_ok seg L' h"
  unfolding heap_ok_def node_ok_def by blast

lemma heap_ok_new:
  assumes H: "heap_ok seg L h" and f: "h f = None" and x: "ptr x = p" "bsize x = n" "prv x = None" "nxt x = None"
    and n: "0 < n" "(p, n) \<in> L" and far: "\<And>b y. h b = Some y \<Longrightarrow> ptr y + bsize y \<le> p \<or> p + n \<le> ptr y"
  shows "heap_ok (seg(f := (p, n))) L (h(f \<mapsto> x))"
proof (rule heap_okI)
  have disj: "range_of x \<inter> range_of y = {}" if "h b = Some y" for b y
    using far [OF that] x by (auto simp: range_of_def)
  show "(h(f \<mapsto> x)) b = Some y \<Longrightarrow> (h(f \<mapsto> x)) c = Some z \<Longrightarrow> b \<noteq> c \<Longrightarrow> range_of y \<inter> range_of z = {}"
    for b y c z using disj heap_okD(4) [OF H] by (auto split: if_splits)
  show "(h(f \<mapsto> x)) b = Some y \<Longrightarrow> node_ok (seg(f := (p, n))) L b y" for b y
    using heap_okD(1) [OF H] x n by (auto simp: node_ok_def split: if_splits)
  show "(h(f \<mapsto> x)) b = Some y \<Longrightarrow> nxt y = Some c \<Longrightarrow>
      \<exists>z. (h(f \<mapsto> x)) c = Some z \<and> succ_ok (seg(f := (p, n))) b y c z" for b y c
    using heap_okD(2) [OF H] x f by (fastforce simp: succ_ok_def split: if_splits)
  show "(h(f \<mapsto> x)) b = Some y \<Longrightarrow> prv y = Some a \<Longrightarrow> \<exists>z. (h(f \<mapsto> x)) a = Some z \<and> nxt z = Some b" for b y a
    using heap_okD(3) [OF H] x f by (fastforce split: if_splits)
qed

text \<open>\<open>topsMalloc\<close>, with or without a change of the capture mode around it.\<close>

definition grown :: "nat \<Rightarrow> tops_error \<times> addr \<Rightarrow> (addr \<times> nat) set \<Rightarrow> (addr \<times> nat) set \<Rightarrow> bool" where
  "grown m r L L' \<longleftrightarrow> (if fst r = topsSuccess
     then snd r \<noteq> 0 \<and> snd r + m < 2 ^ 64 \<and> L' = insert (snd r, m) L \<and> (\<forall>(q, k)\<in>L. snd r + m \<le> q \<or> q + k \<le> snd r)
     else L' = L)"

lemma memory_runtime_grown:
  assumes T: "memory_runtime T live" and m: "0 < m" and f: "topsMalloc T m d = ((err, p), d')"
  shows "grown m (err, p) (live d) (live d')"
proof -
  have "\<forall>n d. 0 < n \<longrightarrow> (case topsMalloc T n d of ((err, p), d') \<Rightarrow>
           if err = topsSuccess
           then p \<noteq> 0 \<and> p + n < 2 ^ 64 \<and> live d' = insert (p, n) (live d) \<and>
                (\<forall>(q, m)\<in>live d. p + n \<le> q \<or> q + m \<le> p)
           else live d' = live d)"
    using T unfolding memory_runtime_def by (rule conjunct1)
  from this [rule_format, OF m, of d] show ?thesis by (cases "err = topsSuccess") (simp_all add: f grown_def)
qed

lemma wp_topsMalloc:
  assumes T: "good_runtime T live cur n" and c: "ctx_ok cur n c" and m: "0 < m"
    and Q: "\<And>r c'. ctx_ok cur n c' \<Longrightarrow> grown m r (live (drv c)) (live (drv c')) \<Longrightarrow> Q r c'"
  shows "wp (call (topsMalloc T m)) Q X c"
proof -
  obtain err p d where f: "topsMalloc T m (drv c) = ((err, p), d)" by (metis prod.collapse)
  have cur: "cur d = cur (drv c)" using good_runtimeD(7) [OF T, of m] f unfolding quiet_def by (metis snd_conv)
  have "ctx_ok cur n (c\<lparr>drv := d\<rparr>)"
    using c cur by (intro ctx_ok_frame [OF c]) (auto simp: ctx_ok_def device_ok_def)
  then have "Q (err, p) (c\<lparr>drv := d\<rparr>)"
    by (rule Q) (use memory_runtime_grown [OF good_runtimeD(5) [OF T] m f] in simp)
  then show ?thesis by (simp add: wp_def call_def f)
qed

lemma wp_csafe:
  assumes m: "csafe cur n live m R" and c: "ctx_ok cur n c" and X: "\<And>e c'. gcu_error e \<Longrightarrow> X e c'"
    and Q: "\<And>x c'. R x \<Longrightarrow> ctx_ok cur n c' \<Longrightarrow> live (drv c') = live (drv c) \<Longrightarrow> Q x c'"
  shows "wp m Q X c"
proof -
  obtain r c' where r: "m c = (r, c')" by fastforce
  show ?thesis using r csafeD [OF m c r] Q X by (cases r) (auto simp: wp_def)
qed

lemma clear_error_csafe:
  "good_runtime T live cur n \<Longrightarrow> csafe cur n live (bnd (call (topsGetLastError T)) (\<lambda>_. ret ())) (\<lambda>_. True)"
  by (rule csafe_bnd [OF call_others_csafe(1)]) (assumption, rule csafe_ret, simp)

lemma gcu_check_warn_csafe:
  "good_runtime T live cur n \<Longrightarrow> csafe cur n live (gcu_check_warn T err) (\<lambda>_. True)"
  using clear_error_csafe [of T live cur n]
  by (cases "err = topsSuccess") (simp_all add: gcu_check_warn_def whenM_def csafe_ret)

lemma wp_mallocMaybeCapturing:
  assumes T: "good_runtime (runtime E) live cur n" and c: "ctx_ok cur n c" and m: "0 < m"
    and X: "\<And>e c'. gcu_error e \<Longrightarrow> X e c'"
    and Q: "\<And>r c'. ctx_ok cur n c' \<Longrightarrow> grown m r (live (drv c)) (live (drv c')) \<Longrightarrow> Q r c'"
  shows "wp (topsMallocMaybeCapturing E m) Q X c"
proof -
  let ?T = "runtime E"
  note ex = quiet_othersD(12) [OF good_runtimeD(3) [OF T]] quiet_othersD(12) [OF good_runtimeD(4) [OF T]]
  have plain: "wp (call (topsMalloc ?T m)) Q X c1" if c1: "ctx_ok cur n c1" "live (drv c1) = live (drv c)" for c1
    by (rule wp_topsMalloc [OF T c1(1) m]) (simp add: Q c1(2))
  let ?restore = "\<lambda>st. bnd (call (topsThreadExchangeStreamCaptureMode ?T st)) (\<lambda>(err, _). gcu_check_warn ?T err)"
  have restore: "csafe cur n live (?restore st) (\<lambda>_. True)" for st
    unfolding case_prod_beta by (rule csafe_bnd [OF csafe_call [OF ex]]) (rule gcu_check_warn_csafe [OF T])
  have relaxed: "wp (with_capture_mode ?T topsStreamCaptureModeRelaxed (call (topsMalloc ?T m))) Q X c1"
    if c1: "ctx_ok cur n c1" "live (drv c1) = live (drv c)" for c1
  proof -
    have "wp (call_check (topsThreadExchangeStreamCaptureMode ?T topsStreamCaptureModeRelaxed))
        (\<lambda>st. wp (finallyM (call (topsMalloc ?T m)) (?restore st)) Q X) X c1"
    proof (rule wp_csafe [OF csafe_call_check [OF ex] c1(1) X])
      fix st c2 assume c2: "ctx_ok cur n c2" "live (drv c2) = live (drv c1)"
      have "wp (call (topsMalloc ?T m)) (\<lambda>r. wp (?restore st) (\<lambda>_. Q r) X) (\<lambda>e. wp (?restore st) (\<lambda>_. X e) X) c2"
      proof (rule wp_topsMalloc [OF T c2(1) m])
        fix r c3 assume c3: "ctx_ok cur n c3" "grown m r (live (drv c2)) (live (drv c3))"
        show "wp (?restore st) (\<lambda>_. Q r) X c3"
          by (rule wp_csafe [OF restore c3(1) X])
            (use c3(2) c2(2) c1(2) in \<open>auto intro: Q\<close>)
      qed
      then show "wp (finallyM (call (topsMalloc ?T m)) (?restore st)) Q X c2" by (simp add: wp_simps)
    qed
    then show ?thesis by (simp add: with_capture_mode_def wp_simps)
  qed
  have "wp (currentStreamCaptureStatusMayInitCtx ?T (use_default_stream E)) (\<lambda>status. wp (if status = 0
      then call (topsMalloc ?T m) else with_capture_mode ?T topsStreamCaptureModeRelaxed (call (topsMalloc ?T m))) Q X) X c"
    by (rule wp_csafe [OF captureStatus_csafe [OF T] c X]) (use plain relaxed in auto)
  then show ?thesis by (simp add: topsMallocMaybeCapturing_def wp_simps)
qed

section \<open>A new segment in the heap\<close>

lemma acct_new_segment:
  assumes a: "acct_ok st h A" and fin: "finite (dom h)" and f: "h f = None" and A: "f \<notin> set A"
    and x: "\<not> allocated x" "\<not> is_split x"
    and st': "st' = for_each_selected_stat_type (get_stat_types_for_pool (pool x)) (\<lambda>t st. st\<lparr>
        segment := stat_at (increase_stat 1) t (segment st),
        reserved_bytes := stat_at (increase_stat (int (bsize x))) t (reserved_bytes st)\<rparr>) st"
  shows "acct_ok st' (h(f \<mapsto> x)) A"
  by (rule acct_segment [where g = 1, OF a x(1) A x(2)])
    (simp_all add: tot_weigh_new [OF fin f] selected_segment [OF st', where ?d1.0 = 1 and ?d2.0 = "bytes x"] current_stat_at)

lemma new_segment_inv:
  assumes I: "dinv E live cur n {} {} D s" and F: "foreign live s a m" and m: "0 < m" "m < 2 ^ 63"
    and x: "x = Block dev str m pl a" and ex: "pool_exists s pl"
    and over: "if is_small pl then m \<le> unat kSmallBuffer else unat kSmallSize < m"
    and tr: "trace_ok tr" and st: "acct_ok st ((heap s)(next_bid s \<mapsto> x)) (active_blocks s)"
    and s': "s' = s\<lparr>graph_pools := add_count 1 pl (graph_pools s),
       total_allocated_memory := total_allocated_memory s + word_of_nat m,
       heap := (heap s)(next_bid s \<mapsto> x), next_bid := Suc (next_bid s), stats := st, tracing := tr\<rparr>"
  shows "dinv E live cur n {next_bid s} {} D s'"
proof -
  let ?f = "next_bid s" and ?h = "(heap s)(next_bid s \<mapsto> x)"
  have side: "side_ok live cur n s" and P: "parts_ok {} {} (heap s) (blocks_of s) (active_blocks s)"
    and ev: "events_ok n (heap s) D (gcu_events s)" and priv: "priv_ok (heap s) (graph_pools s)"
    and mem: "mem_ok (total_allocated_memory s) (heap s)"
    using I by (simp_all add: dinv_def)
  note fin = finite_heap [OF side]
  have f: "heap s ?f = None" using side by (auto simp: side_ok_def)
  obtain seg where H: "heap_ok seg (live (drv (ctx s))) (heap s)" and ov: "over_ok seg (max_split E) (heap s)"
    using I by (auto simp: dinv_def)
  have xs: "ptr x = a" "bsize x = m" "prv x = None" "nxt x = None" "unused x" "pool x = pl" "\<not> is_split x"
      "event_count x = 0" "stream_uses x = []" "\<not> allocated x"
    by (simp_all add: x Block_def unused_def is_split_def)
  have "parts_ok {?f} {} ?h (blocks_of s) (active_blocks s)" by (rule parts_new [OF P f xs(5,4)])
  moreover have "heap_ok (seg(?f := (a, m))) (live (drv (ctx s))) ?h"
    by (rule heap_ok_new [OF H f xs(1-4) m(1)]) (use F in \<open>auto simp: foreign_def\<close>)
  moreover have "over_ok (seg(?f := (a, m))) (max_split E) ?h"
    using ov over f xs(2,6,7) unfolding over_ok_def by (auto split: if_splits)
  moreover have "events_ok n ?h D (gcu_events s)"
  proof (rule events_okI)
    show "waits_ok n D (gcu_events s) c y" if "?h c = Some y" for c y
      using that events_okD(4) [OF ev, of c y] events_okD(5) [OF ev f] xs(8-) by (auto simp: waits_ok_def split: if_splits)
    show "\<exists>y. ?h c = Some y \<and> \<not> allocated y \<and> stream_uses y \<noteq> []" if "c \<in> set D" for c
      using events_okD(6) [OF ev that] f by auto
  qed (use events_okD [OF ev] in \<open>auto split: if_splits\<close>)
  moreover have "priv_ok ?h (add_count 1 pl (graph_pools s))"
  proof (rule priv_add_count [OF priv])
    show "count_of i ?h = count_of i (heap s) + (if owner_PrivatePool pl = Some i then 1 else 0)" for i
      using xs(3,6) by (simp add: tot_weigh_new [OF fin f])
    show "map_of (graph_pools s) i \<noteq> None" if "?h c = Some y" "owner_PrivatePool (pool y) = Some i" for c y i
      using that priv_okD(2) [OF priv] ex xs(6) by (cases "c = ?f") (auto simp: pool_exists_def)
  qed
  moreover have "mem_ok (total_allocated_memory s + word_of_nat m) ?h"
    using mem xs(2) by (simp add: mem_ok_def tot_new [OF fin f])
  moreover have "side_ok live cur n s'"
  proof -
    have "dom (map_of (graph_pools s')) = dom (map_of (graph_pools s))"
      by (simp add: s' map_of_add_count dom_def)
    moreover have "\<exists>pp. map_of (graph_pools s') i = Some pp \<and> use_count pp = 0"
      if i: "i \<in> set (graph_pools_freeable s)" for i
    proof -
      obtain pp where "map_of (graph_pools s) i = Some pp" "use_count pp = 0"
        using side i unfolding side_ok_def by blast
      then show ?thesis by (simp add: s' map_of_add_count)
    qed
    moreover have "dom ?h \<subseteq> {..<Suc (next_bid s)}" using side by (auto simp: side_ok_def)
    ultimately show ?thesis using side tr unfolding side_ok_def by (simp add: s')
  qed
  ultimately show ?thesis using st unfolding dinv_def by (auto simp: s')
qed

section \<open>\<open>alloc_block\<close>\<close>

lemma wp_in_ctx_wp: "wp (in_ctx m) Q X s = wp m (\<lambda>x c. Q x (s\<lparr>ctx := c\<rparr>)) (\<lambda>e c. X e (s\<lparr>ctx := c\<rparr>)) (ctx s)"
  by (auto simp: wp_def in_ctx_def split: prod.splits sum.splits)

lemma alloc_inv_ctx:
  "alloc_inv E live cur n s \<Longrightarrow> ctx_ok cur n c \<Longrightarrow> live (drv c) = live (drv (ctx s)) \<Longrightarrow> alloc_inv E live cur n (s\<lparr>ctx := c\<rparr>)"
  by (simp add: alloc_inv_def dinv_ctx)

text \<open>After a successful \<open>topsMalloc\<close> the invariant still holds, and the new memory is unused.\<close>

lemma alloc_inv_grown:
  assumes I: "alloc_inv E live cur n s" and c: "ctx_ok cur n c"
    and g: "grown m (topsSuccess, a) (live (drv (ctx s))) (live (drv c))" and m: "0 < m"
  shows "alloc_inv E live cur n (s\<lparr>ctx := c\<rparr>)" "foreign live (s\<lparr>ctx := c\<rparr>) a m"
proof -
  have D: "dinv E live cur n {} {} (deferred s) s" by (rule alloc_inv_dinv [OF I])
  have L: "live_ok (live (drv (ctx s)))" using D by (simp add: dinv_def side_ok_def)
  have new: "a \<noteq> 0" "a + m < 2 ^ 64" "live (drv c) = insert (a, m) (live (drv (ctx s)))"
      "\<And>q k. (q, k) \<in> live (drv (ctx s)) \<Longrightarrow> a + m \<le> q \<or> q + k \<le> a"
    using g by (auto simp: grown_def)
  have L': "live_ok (live (drv c))"
    using L new m unfolding live_ok_def new(3) by auto
  obtain seg where H: "heap_ok seg (live (drv (ctx s))) (heap s)" "over_ok seg (max_split E) (heap s)"
    using D by (auto simp: dinv_def)
  have H': "heap_ok seg (live (drv c)) (heap s)" by (rule heap_ok_more [OF H(1)]) (use new(3) in auto)
  show "alloc_inv E live cur n (s\<lparr>ctx := c\<rparr>)"
    using I L' c H' H(2) unfolding alloc_inv_def dinv_def side_ok_def by auto
  have "ptr x + bsize x \<le> a \<or> a + m \<le> ptr x" if "heap s b = Some x" for b x
    using heap_okD(1) [OF H(1) that] new(4) [of "fst (seg b)" "snd (seg b)"] by (auto simp: node_ok_def)
  then show "foreign live (s\<lparr>ctx := c\<rparr>) a m" using new(3) by (simp add: foreign_def)
qed

lemma wp_new_segment:
  assumes E: "good_env E live cur n" and I: "alloc_inv E live cur n s" and p: "request_ok s p"
    and F: "foreign live s a (alloc_size p)"
    and Q: "\<And>s' b. held E live cur n p b s' \<Longrightarrow> captures_underway s' = captures_underway s \<Longrightarrow>
      Q (True, p\<lparr>p_err := topsSuccess, p_block := Some b\<rparr>) s'"
  shows "wp (new_segment E p a) Q X s"
proof -
  let ?pl = "p_pool p" and ?m = "alloc_size p" and ?f = "next_bid s"
  have D: "dinv E live cur n {} {} (deferred s) s" by (rule alloc_inv_dinv [OF I])
  have side: "side_ok live cur n s" using D by (simp add: dinv_def)
  note ex = request_pool [OF D p] and bd = request_bounds [OF p]
  have f: "heap s ?f = None" using side by (auto simp: side_ok_def)
  have fA: "?f \<notin> set (active_blocks s)"
    using D f parts_okD(6) [of "{}" "{}" "heap s" "blocks_of s" "active_blocks s" ?f] by (auto simp: dinv_def)
  have a0: "a \<noteq> 0" using F side unfolding foreign_def side_ok_def live_ok_def by blast
  define x where "x = Block (p_device p) (p_stream p) ?m ?pl a"
  have x: "pool x = ?pl" "bsize x = ?m" "\<not> allocated x" "\<not> is_split x" "b_stream x = p_stream p"
    by (simp_all add: x_def Block_def is_split_def)
  define st1 where "st1 = for_each_selected_stat_type (get_stat_types_for_pool ?pl) (\<lambda>t st. st\<lparr>
        segment := stat_at (increase_stat 1) t (segment st),
        reserved_bytes := stat_at (increase_stat (int ?m)) t (reserved_bytes st)\<rparr>) (stats s)"
  define st2 where "st2 = (if max_split E \<le> ?m then st1\<lparr>oversize_segments := increase_stat 1 (oversize_segments st1)\<rparr> else st1)"
  define st3 where "st3 = st2\<lparr>num_device_alloc := num_device_alloc st2 + 1\<rparr>"
  have "acct_ok st1 ((heap s)(?f \<mapsto> x)) (active_blocks s)"
    by (rule acct_new_segment [OF dinv_acct [OF D] finite_heap [OF side] f fA x(3,4)]) (simp add: st1_def x)
  then have a3: "acct_ok st3 ((heap s)(?f \<mapsto> x)) (active_blocks s)" by (simp add: st2_def st3_def)
  have fit: "p_size p < max_split E \<Longrightarrow> \<not> is_small ?pl \<Longrightarrow> ?m \<le> max_split E + unat kSmallSize"
    using alloc_spec_fit [OF good_envD(3) [OF E], of "p_size p"] p by (simp add: request_ok_def kSmallSize_def)
  have priv: "wp (case owner_PrivatePool ?pl of None \<Rightarrow> ret ()
        | Some i \<Rightarrow> bnd (get_private_pool i) (\<lambda>_.
            set_private_pool i (\<lambda>pp. pp\<lparr>topsMalloc_count := topsMalloc_count pp + 1\<rparr>))) R X s \<longleftrightarrow> R () (s\<lparr>graph_pools := add_count 1 ?pl (graph_pools s)\<rparr>)" for R
    using ex by (auto simp: add_count_def wp_simps set_private_pool_def pool_exists_def split: option.splits)
  let ?t = "s\<lparr>graph_pools := add_count 1 ?pl (graph_pools s), total_allocated_memory := total_allocated_memory s + word_of_nat ?m,
      heap := (heap s)(?f \<mapsto> x), next_bid := Suc ?f, stats := st3\<rparr>"
  have "wp (record_trace SEGMENT_ALLOC (int a) (int ?m) (p_stream p) (p_device p))
      (\<lambda>_. Q (True, p\<lparr>p_err := topsSuccess, p_block := Some ?f\<rparr>)) X ?t"
  proof (rule wp_record_trace)
    show "trace_ok (tracing ?t)" using side by (simp add: side_ok_def)
    fix tr assume tr: "trace_ok tr"
    have "dinv E live cur n {?f} {} (deferred s) (?t\<lparr>tracing := tr\<rparr>)"
      by (rule new_segment_inv [OF D F bd(3,2) x_def ex bd(4) tr a3]) simp
    then have "held E live cur n p ?f (?t\<lparr>tracing := tr\<rparr>)"
      using I x bd(1) fit by (simp add: held_def alloc_inv_def serves_def)
    then show "Q (True, p\<lparr>p_err := topsSuccess, p_block := Some ?f\<rparr>) (?t\<lparr>tracing := tr\<rparr>)" by (rule Q) simp
  qed
  then show ?thesis
    using a0 by (cases "max_split E \<le> ?m") (simp_all add: new_segment_def wp_simps priv x_def [symmetric] st1_def st2_def st3_def)
qed

text \<open>
  A failed allocation reports that the device is out of memory and leaves the invariant; every
  other error is thrown.
\<close>

lemma wp_alloc_block:
  assumes E: "good_env E live cur n" and X: "\<And>e s'. gcu_error e \<Longrightarrow> X e s'"
    and I: "alloc_inv E live cur n s" and p: "request_ok s p"
    and no: "\<And>s'. alloc_inv E live cur n s' \<Longrightarrow> captures_underway s' = captures_underway s \<Longrightarrow>
      Q (False, p\<lparr>p_err := topsErrorMemoryAllocation\<rparr>) s'"
    and yes: "\<And>s' b. held E live cur n p b s' \<Longrightarrow> captures_underway s' = captures_underway s \<Longrightarrow>
      Q (True, p\<lparr>p_err := topsSuccess, p_block := Some b\<rparr>) s'"
  shows "wp (alloc_block E p retry) Q X s"
proof -
  note T = good_envD(1) [OF E] and R = good_envD(4) [OF E]
  let ?m = "alloc_size p"
  have others: "wp (whenM (release_lock_on_topsmalloc (cfg E)) (upd (other_threads E))) W X t"
    if "\<And>t'. alloc_inv E live cur n t' \<Longrightarrow> captures_underway t' = captures_underway t \<Longrightarrow>
        (\<And>q k. foreign live t q k \<Longrightarrow> foreign live t' q k) \<Longrightarrow> W () t'" "alloc_inv E live cur n t" for W t
    using that relyD [OF R that(2)] by (simp add: wp_simps)
  define rest where "rest = (\<lambda>(err, a).
            seq (whenM (release_lock_on_topsmalloc (cfg E)) (upd (other_threads E)))
             (if err \<noteq> topsSuccess then
                (if err = topsErrorMemoryAllocation then
                   seq (in_ctx (bnd (call (topsGetLastError (runtime E))) (\<lambda>_. ret ())))
                     (ret (False, p\<lparr>p_err := err\<rparr>))
                 else seq (gcu_check err) (ret (False, p\<lparr>p_err := err\<rparr>)))
              else new_segment E p a) :: ('a, bool \<times> alloc_params) dact)"
  have success: "wp (rest (topsSuccess, a)) Q X t" if t: "alloc_inv E live cur n t" "foreign live t a ?m"
      "captures_underway t = captures_underway s" for a t
  proof -
    have "wp (whenM (release_lock_on_topsmalloc (cfg E)) (upd (other_threads E))) (\<lambda>_. wp (new_segment E p a) Q X) X t"
    proof (rule others [OF _ t(1)])
      fix t' assume t': "alloc_inv E live cur n t'" "captures_underway t' = captures_underway t"
        "\<And>q k. foreign live t q k \<Longrightarrow> foreign live t' q k"
      have cs: "captures_underway t' = captures_underway s" using t'(2) t(3) by simp
      show "wp (new_segment E p a) Q X t'"
        by (rule wp_new_segment [OF E t'(1) request_same [OF cs p] t'(3) [OF t(2)]]) (simp add: yes cs)
    qed
    then show ?thesis by (simp add: rest_def wp_seq)
  qed
  have failure: "wp (rest (err, a)) Q X t" if err: "err \<noteq> topsSuccess" and t: "alloc_inv E live cur n t"
      "captures_underway t = captures_underway s" for err a t
  proof -
    have "wp (whenM (release_lock_on_topsmalloc (cfg E)) (upd (other_threads E)))
      (\<lambda>_. wp (if err = topsErrorMemoryAllocation then
                   seq (in_ctx (bnd (call (topsGetLastError (runtime E))) (\<lambda>_. ret ())))
                     (ret (False, p\<lparr>p_err := err\<rparr>))
                 else seq (gcu_check err) (ret (False, p\<lparr>p_err := err\<rparr>))) Q X) X t"
    proof (rule others [OF _ t(1)])
      fix t' assume t': "alloc_inv E live cur n t'" "captures_underway t' = captures_underway t"
      have "wp (in_ctx (bnd (call (topsGetLastError (runtime E))) (\<lambda>_. ret ())))
          (\<lambda>_. Q (False, p\<lparr>p_err := topsErrorMemoryAllocation\<rparr>)) X t'"
      proof (rule wp_in_ctx [OF clear_error_csafe [OF T] _ X])
        show "ctx_ok cur n (ctx t')" by (rule dinv_ctx_ok [OF alloc_inv_dinv [OF t'(1)]])
        fix u :: unit and c assume "ctx_ok cur n c" "live (drv c) = live (drv (ctx t'))"
        then show "Q (False, p\<lparr>p_err := topsErrorMemoryAllocation\<rparr>) (t'\<lparr>ctx := c\<rparr>)"
          using alloc_inv_ctx [OF t'(1)] t'(2) t(2) by (intro no) simp_all
      qed
      moreover have "X (GcuError err) t'" by (rule X) (simp add: gcu_error_def)
      ultimately show "wp (if err = topsErrorMemoryAllocation then
                   seq (in_ctx (bnd (call (topsGetLastError (runtime E))) (\<lambda>_. ret ())))
                     (ret (False, p\<lparr>p_err := err\<rparr>))
                 else seq (gcu_check err) (ret (False, p\<lparr>p_err := err\<rparr>))) Q X t'"
        using err by (simp add: wp_simps)
    qed
    then show ?thesis using err by (simp add: rest_def wp_seq)
  qed
  have ask: "wp (seq (whenM (release_lock_on_topsmalloc (cfg E)) (upd (other_threads E)))
      (bnd (in_ctx (topsMallocMaybeCapturing E ?m)) rest)) Q X t"
    if t: "alloc_inv E live cur n t" "captures_underway t = captures_underway s" for t
  proof -
    have "wp (whenM (release_lock_on_topsmalloc (cfg E)) (upd (other_threads E)))
      (\<lambda>_. wp (in_ctx (topsMallocMaybeCapturing E ?m)) (\<lambda>r. wp (rest r) Q X) X) X t"
    proof (rule others [OF _ t(1)])
      fix t' assume t': "alloc_inv E live cur n t'" "captures_underway t' = captures_underway t"
      show "wp (in_ctx (topsMallocMaybeCapturing E ?m)) (\<lambda>r. wp (rest r) Q X) X t'"
        unfolding wp_in_ctx_wp
      proof (rule wp_mallocMaybeCapturing [OF T dinv_ctx_ok [OF alloc_inv_dinv [OF t'(1)]] request_bounds(3) [OF p]])
        fix r c assume c: "ctx_ok cur n c" and g: "grown ?m r (live (drv (ctx t'))) (live (drv c))"
        obtain err a where r: "r = (err, a)" by fastforce
        have cs: "captures_underway (t'\<lparr>ctx := c\<rparr>) = captures_underway s" using t'(2) t(2) by simp
        show "wp (rest r) Q X (t'\<lparr>ctx := c\<rparr>)"
        proof (cases "err = topsSuccess")
          case True
          note G = alloc_inv_grown [OF t'(1) c, of ?m a]
          show ?thesis
            unfolding r True by (rule success [OF G cs]) (use g r True request_bounds(3) [OF p] in simp_all)
        next
          case False
          then have "live (drv c) = live (drv (ctx t'))" using g by (simp add: grown_def r)
          then show ?thesis unfolding r by (intro failure [OF False _ cs] alloc_inv_ctx [OF t'(1) c])
        qed
      qed (rule X)
    qed
    then show ?thesis by (simp add: wp_simps)
  qed
  have "wp (in_ctx (bnd (call (topsGetLastError (runtime E))) gcu_check)) (\<lambda>_. wp
     (seq (whenM retry (upd_stats (\<lambda>st. st\<lparr>num_alloc_retries := num_alloc_retries st + 1\<rparr>)))
      (bnd (gets (\<lambda>s. set_fraction s \<and>
               allowed_memory_maximum s < total_allocated_memory s + word_of_nat ?m))
        (\<lambda>exceeded.
         if exceeded then ret (False, p\<lparr>p_err := topsErrorMemoryAllocation\<rparr>)
         else seq (whenM (release_lock_on_topsmalloc (cfg E)) (upd (other_threads E)))
           (bnd (in_ctx (topsMallocMaybeCapturing E ?m)) rest)))) Q X) X s"
  proof (rule wp_in_ctx [OF csafe_bnd [OF call_others_csafe(1) [OF T] csafe_gcu_check] _ X])
    show "ctx_ok cur n (ctx s)" by (rule dinv_ctx_ok [OF alloc_inv_dinv [OF I]])
    fix u :: unit and c assume c: "ctx_ok cur n c" "live (drv c) = live (drv (ctx s))"
    let ?s1 = "s\<lparr>ctx := c\<rparr>"
    let ?s2 = "if retry then ?s1\<lparr>stats := (stats ?s1)\<lparr>num_alloc_retries := num_alloc_retries (stats ?s1) + 1\<rparr>\<rparr> else ?s1"
    have I1: "alloc_inv E live cur n ?s1" by (rule alloc_inv_ctx [OF I c])
    have "dinv E live cur n {} {} (deferred s) (?s1\<lparr>stats := (stats ?s1)\<lparr>num_alloc_retries := num_alloc_retries (stats ?s1) + 1\<rparr>\<rparr>)"
      using dinv_acct [OF alloc_inv_dinv [OF I1]] alloc_inv_dinv [OF I1] by (intro dinv_stats) simp_all
    then have I2: "alloc_inv E live cur n ?s2" "captures_underway ?s2 = captures_underway s"
      using I1 by (simp_all add: alloc_inv_def)
    show "wp (seq (whenM retry (upd_stats (\<lambda>st. st\<lparr>num_alloc_retries := num_alloc_retries st + 1\<rparr>)))
      (bnd (gets (\<lambda>s. set_fraction s \<and>
               allowed_memory_maximum s < total_allocated_memory s + word_of_nat ?m))
        (\<lambda>exceeded.
         if exceeded then ret (False, p\<lparr>p_err := topsErrorMemoryAllocation\<rparr>)
         else seq (whenM (release_lock_on_topsmalloc (cfg E)) (upd (other_threads E)))
           (bnd (in_ctx (topsMallocMaybeCapturing E ?m)) rest)))) Q X ?s1"
      using ask [OF I2] no [OF I2] by (cases retry) (auto simp: wp_seq wp_bnd wp_gets wp_ret wp_upd wp_whenM wp_upd_stats)
  qed
  then show ?thesis by (simp only: alloc_block_def wp_seq rest_def)
qed

end
