(* ===== verification/AllocObtain.thy ===== *)
theory AllocObtain
  imports AllocSegment
begin

text \<open>
  Finding a block for a request: from the pool (best fit), from the device, or from the device
  after parts of the cache have been given back.
\<close>

section \<open>A cached block\<close>

lemma dinv_same_blocks:
  assumes "dinv E live cur n H N D s" "\<And>q. blocks (P q) = blocks_of s q"
  shows "dinv E live cur n H N D (s\<lparr>pools := P\<rparr>)"
proof -
  have "(\<lambda>q. blocks (P q)) = blocks_of s" using assms(2) by (rule ext)
  then show ?thesis using assms(1) unfolding dinv_def side_ok_def by simp
qed

lemma dinv_take:
  assumes I: "dinv E live cur n {} {} D s" and b: "b \<in> set (blocks_of s pl)"
  shows "dinv E live cur n {b} {} D (set_blocks pl (remove1 b (blocks_of s pl)) s)"
proof -
  have "parts_ok {b} {} (heap s) ((blocks_of s)(pl := remove1 b (blocks_of s pl))) (active_blocks s)"
    by (rule parts_take [where P = "blocks_of s", OF _ b]) (use I in \<open>simp add: dinv_def\<close>)
  then show ?thesis
    using I unfolding dinv_def side_ok_def blocks_of_set_blocks by simp
qed

lemma wp_get_free_block:
  assumes I: "alloc_inv E live cur n s" and p: "request_ok s p" "p_err p = topsSuccess"
    and no: "\<And>s'. alloc_inv E live cur n s' \<Longrightarrow> captures_underway s' = captures_underway s \<Longrightarrow> Q (False, p) s'"
    and yes: "\<And>s' b. held E live cur n p b s' \<Longrightarrow> captures_underway s' = captures_underway s \<Longrightarrow>
      Q (True, p\<lparr>p_err := topsSuccess, p_block := Some b\<rparr>) s'"
  shows "wp (get_free_block E p) Q X s"
proof -
  let ?pl = "p_pool p"
  define rest where "rest = (seq (check_pool ?pl)
      (bnd (gets (\<lambda>s. lower_bound BlockComparatorSize (key_of s) (p_stream p, p_size p, 0)
                        (blocks_of s ?pl))) (\<lambda>it.
       case it of [] \<Rightarrow> ret (False, p)
       | b # _ \<Rightarrow>
           bnd (deref b) (\<lambda>x.
             if b_stream x \<noteq> p_stream p then ret (False, p)
             else if p_size p < max_split E \<and> max_split E \<le> bsize x then ret (False, p)
             else if max_split E \<le> p_size p \<and> add64 (p_size p) (unat kLargeBuffer) \<le> bsize x
               then ret (False, p)
             else
               seq (upd (\<lambda>s. set_blocks ?pl (remove1 b (blocks_of s ?pl)) s))
                 (ret (True, p\<lparr>p_block := Some b\<rparr>))))) :: ('a, bool \<times> alloc_params) dact)"
  have rest: "wp rest Q X t" if t: "alloc_inv E live cur n t" "captures_underway t = captures_underway s" for t
  proof -
    have D: "dinv E live cur n {} {} (deferred t) t" by (rule alloc_inv_dinv [OF t(1)])
    have P: "parts_ok {} {} (heap t) (blocks_of t) (active_blocks t)" using D by (simp add: dinv_def)
    note ck = dinv_check_pool [OF D request_pool [OF D request_same [OF t(2) p(1)]]]
    define it where "it = lower_bound BlockComparatorSize (key_of t) (p_stream p, p_size p, 0) (blocks_of t ?pl)"
    note no' = no [OF t]
    show ?thesis
    proof (cases it)
      case Nil
      then show ?thesis using no' unfolding rest_def by (simp add: wp_simps ck it_def [symmetric])
    next
      case (Cons b more)
      then have "b \<in> set (lower_bound BlockComparatorSize (key_of t) (p_stream p, p_size p, 0) (blocks_of t ?pl))"
        by (simp add: it_def)
      then have b: "b \<in> set (blocks_of t ?pl)" by (rule subsetD [OF lower_bound_subset])
      obtain x where x: "heap t b = Some x" "pool x = ?pl" using parts_okD(3) [OF P b] by blast
      have "\<not> BlockComparatorSize (key_of t b) (p_stream p, p_size p, 0)"
        using Cons unfolding it_def lower_bound_def by (metis (no_types, lifting) hd_dropWhile list.discI list.sel(1))
      then have size: "b_stream x = p_stream p \<Longrightarrow> p_size p \<le> bsize x"
        using x(1) by (auto simp: key_of_def key_def split: if_splits)
      let ?t = "set_blocks ?pl (remove1 b (blocks_of t ?pl)) t"
      have "dinv E live cur n {b} {} (deferred ?t) ?t" using dinv_take [OF D b] by simp
      then have "Q (True, p\<lparr>p_err := topsSuccess, p_block := Some b\<rparr>) ?t"
        if "b_stream x = p_stream p" "\<not> (p_size p < max_split E \<and> max_split E \<le> bsize x)"
        using that x size t by (intro yes) (auto simp: held_def serves_def alloc_inv_def)
      moreover have "p\<lparr>p_err := topsSuccess, p_block := Some b\<rparr> = p\<lparr>p_block := Some b\<rparr>" using p(2) by simp
      ultimately show ?thesis
        using no' x(1) Cons unfolding rest_def by (simp add: wp_simps ck it_def [symmetric])
    qed
  qed
  let ?s1 = "s\<lparr>pools := (pools s)(?pl := (pools s ?pl)
                 \<lparr>get_free_blocks_call_count := get_free_blocks_call_count (pools s ?pl) + 1\<rparr>)\<rparr>"
  have "alloc_inv E live cur n ?s1"
    using I dinv_same_blocks [OF alloc_inv_dinv [OF I]] by (simp add: alloc_inv_def)
  then have "wp rest Q X ?s1" "wp rest Q X s" using I by (simp_all add: rest)
  then show ?thesis unfolding get_free_block_def rest_def [symmetric] by (simp add: wp_simps)
qed

section \<open>Looking everywhere\<close>

lemma wp_trigger_callbacks:
  assumes E: "good_env E live cur n" and I: "alloc_inv E live cur n s"
    and Q: "\<And>b s'. alloc_inv E live cur n s' \<Longrightarrow> captures_underway s' = captures_underway s \<Longrightarrow> Q b s'"
  shows "wp (trigger_free_memory_callbacks E) Q X s"
proof -
  let ?step = "\<lambda>cb (freed, s). case cb s of (b, s) \<Rightarrow> (freed \<or> b, s)"
  have "alloc_inv E live cur n (snd (fold ?step cbs (f, t))) \<and>
      captures_underway (snd (fold ?step cbs (f, t))) = captures_underway t"
    if "set cbs \<subseteq> set (callbacks E)" "alloc_inv E live cur n t" for cbs f t
    using that
  proof (induction cbs arbitrary: f t)
    case (Cons cb cbs)
    have "rely E live cur n (\<lambda>s. snd (cb s))" using good_envD(5) [OF E] Cons.prems(1) by simp
    note R = relyD [OF this Cons.prems(2)]
    obtain b t' where cb: "cb t = (b, t')" by fastforce
    then show ?case using Cons.IH [of t' "f \<or> b"] Cons.prems(1) R by simp
  qed simp
  from this [OF order_refl I, of False] show ?thesis
    using Q unfolding trigger_free_memory_callbacks_def
    by (auto simp: wp_def split: prod.splits)
qed

lemma wp_or_else:
  "wp (or_else m k) Q X = wp m (\<lambda>r s. if fst r then Q (True, snd r) s else wp (k (snd r)) Q X s) X"
  by (rule ext) (auto simp: or_else_def wp_def act_simps split: prod.splits sum.splits)

lemma wp_find_block:
  assumes E: "good_env E live cur n" and I: "alloc_inv E live cur n s" and p: "request_ok s p" "p_err p = topsSuccess"
    and no: "\<And>s'. alloc_inv E live cur n s' \<Longrightarrow> captures_underway s' = captures_underway s \<Longrightarrow> Q (False, p) s'"
    and yes: "\<And>s' b. held E live cur n p b s' \<Longrightarrow> captures_underway s' = captures_underway s \<Longrightarrow>
      Q (True, p\<lparr>p_err := topsSuccess, p_block := Some b\<rparr>) s'"
  shows "wp (find_block E p) Q X s"
  unfolding find_block_def wp_or_else
proof (rule wp_get_free_block [OF I p])
  fix s1 assume s1: "alloc_inv E live cur n s1" "captures_underway s1 = captures_underway s"
  have "wp (trigger_free_memory_callbacks E) (\<lambda>freed. wp (if freed then get_free_block E p else ret (False, p)) Q X) X s1"
  proof (rule wp_trigger_callbacks [OF E s1(1)])
    fix freed s2 assume s2: "alloc_inv E live cur n s2" "captures_underway s2 = captures_underway s1"
    have cs: "captures_underway s2 = captures_underway s" using s1(2) s2(2) by simp
    have "wp (get_free_block E p) Q X s2"
      by (rule wp_get_free_block [OF s2(1) request_same [OF cs p(1)] p(2)]) (simp_all add: no yes cs)
    then show "wp (if freed then get_free_block E p else ret (False, p)) Q X s2"
      using no [OF s2(1) cs] by (simp add: wp_simps)
  qed
  then show "if fst (False, p) then Q (True, snd (False, p)) s1 else wp (bnd (trigger_free_memory_callbacks E)
      (\<lambda>freed. if freed then get_free_block E (snd (False, p)) else ret (False, snd (False, p)))) Q X s1"
    by (simp add: wp_simps cong: if_cong)
qed (simp add: yes)

lemma shrunk_alloc_inv:
  assumes "alloc_inv E live cur n s" "dinv E live cur n {} {} (deferred s) s'" "shrunk s s'"
  shows "alloc_inv E live cur n s'" "captures_underway s' = captures_underway s"
  using assms shrunkD(1-3) [OF assms(3)] by (simp_all add: alloc_inv_def)

lemma wp_obtain_block:
  assumes E: "good_env E live cur n" and X: "\<And>e s'. gcu_error e \<Longrightarrow> X e s'"
    and I: "alloc_inv E live cur n s" and p: "request_ok s p" "p_err p = topsSuccess"
    and no: "\<And>s'. alloc_inv E live cur n s' \<Longrightarrow> captures_underway s' = captures_underway s \<Longrightarrow>
      Q (False, p\<lparr>p_err := topsErrorMemoryAllocation\<rparr>) s'"
    and yes: "\<And>s' b. held E live cur n p b s' \<Longrightarrow> captures_underway s' = captures_underway s \<Longrightarrow>
      Q (True, p\<lparr>p_err := topsSuccess, p_block := Some b\<rparr>) s'"
  shows "wp (obtain_block E p) Q X s"
proof -
  note T = good_envD(1) [OF E] and C = good_envD(3) [OF E]
  let ?q = "p\<lparr>p_err := topsErrorMemoryAllocation\<rparr>"
  have held_err: "held E live cur n (p\<lparr>p_err := e\<rparr>) b t = held E live cur n p b t" for e b t
    by (simp add: held_def serves_def)
  text \<open>The last attempt: the whole cache.\<close>
  let ?last = "bnd (gets (\<lambda>s. captures_underway s = [])) (\<lambda>idle.
        if idle then seq (release_cached_blocks E) (alloc_block E ?q True) else ret (False, ?q))"
  have last: "wp ?last Q X t" if t: "alloc_inv E live cur n t" "captures_underway t = captures_underway s" for t
  proof (cases "captures_underway t = []")
    case True
    have "wp (release_cached_blocks E) (\<lambda>_. wp (alloc_block E ?q True) Q X) X t"
    proof (rule wp_release_cached [OF T X t(1) True])
      fix t' assume t': "alloc_inv E live cur n t'" "captures_underway t' = []"
      have cs: "captures_underway t' = captures_underway s" using t'(2) t(2) True by simp
      show "wp (alloc_block E ?q True) Q X t'"
        by (rule wp_alloc_block [OF E X t'(1)]) (use request_same [OF cs p(1)] no yes cs in \<open>simp_all add: held_err\<close>)
    qed
    then show ?thesis using True by (simp add: wp_simps)
  next
    case False
    then show ?thesis using no [OF t] by (simp add: wp_simps)
  qed
  let ?available = "bnd (release_available_cached_blocks E ?q) (\<lambda>released. if released then alloc_block E ?q False else ret (False, ?q))"
  have available: "wp (or_else ?available (\<lambda>p. bnd (gets (\<lambda>s. captures_underway s = [])) (\<lambda>idle.
        if idle then seq (release_cached_blocks E) (alloc_block E p True) else ret (False, p)))) Q X t"
    if t: "alloc_inv E live cur n t" "captures_underway t = captures_underway s" for t
    unfolding wp_or_else wp_bnd [of "release_available_cached_blocks E ?q"]
  proof (rule wp_release_available [OF C T X alloc_inv_dinv [OF t(1)]])
    show "pool_exists t (p_pool ?q)"
      using request_pool [OF alloc_inv_dinv [OF t(1)] request_same [OF t(2) p(1)]] by simp
    fix t' released assume t': "dinv E live cur n {} {} (deferred t) t'" "shrunk t t'"
    note I' = shrunk_alloc_inv [OF t(1) t']
    have cs: "captures_underway t' = captures_underway s" using I'(2) t(2) by simp
    let ?post = "\<lambda>r s. if fst r then Q (True, snd r) s else wp (bnd (gets (\<lambda>s. captures_underway s = [])) (\<lambda>idle.
        if idle then seq (release_cached_blocks E) (alloc_block E (snd r) True) else ret (False, snd r))) Q X s"
    have "wp (alloc_block E ?q False) ?post X t'"
      by (rule wp_alloc_block [OF E X I'(1)]) (use request_same [OF cs p(1)] yes cs last in \<open>simp_all add: held_err cong: if_cong\<close>)
    then show "wp (if released then alloc_block E ?q False else ret (False, ?q)) ?post X t'"
      using last [OF I'(1) cs] by (simp add: wp_ret cong: if_cong)
  qed
  show ?thesis
    unfolding obtain_block_def wp_or_else
  proof (rule wp_find_block [OF E I p])
    fix s1 assume s1: "alloc_inv E live cur n s1" "captures_underway s1 = captures_underway s"
    let ?post = "\<lambda>r s. if fst r then Q (True, snd r) s else wp (or_else (bnd (release_available_cached_blocks E (snd r))
        (\<lambda>released. if released then alloc_block E (snd r) False else ret (False, snd r))) (\<lambda>p.
      bnd (gets (\<lambda>s. captures_underway s = [])) (\<lambda>idle.
        if idle then seq (release_cached_blocks E) (alloc_block E p True) else ret (False, p)))) Q X s"
    have alloc: "wp (alloc_block E p False) ?post X t"
      if t: "alloc_inv E live cur n t" "captures_underway t = captures_underway s" for t
      by (rule wp_alloc_block [OF E X t(1) request_same [OF t(2) p(1)]]) (use yes available t(2) in \<open>simp_all cong: if_cong\<close>)
    have "wp (garbage_collect_cached_blocks E) (\<lambda>_. wp (alloc_block E p False) ?post X) X s1"
      by (rule wp_garbage_collect [OF T X alloc_inv_dinv [OF s1(1)]])
        (use shrunk_alloc_inv [OF s1(1)] s1(2) alloc in simp_all)
    then show "if fst (False, p) then Q (True, snd (False, p)) s1 else wp (seq (bnd (gets set_fraction) (\<lambda>f.
            whenM (f \<and> 0 < garbage_collection_threshold (cfg E)) (garbage_collect_cached_blocks E)))
     (or_else (alloc_block E (snd (False, p)) False) (\<lambda>p.
      or_else (bnd (release_available_cached_blocks E p) (\<lambda>released.
                 if released then alloc_block E p False else ret (False, p))) (\<lambda>p.
      bnd (gets (\<lambda>s. captures_underway s = [])) (\<lambda>idle.
        if idle then seq (release_cached_blocks E) (alloc_block E p True)
        else ret (False, p)))))) Q X s1"
      using alloc [OF s1] by (simp add: wp_seq wp_bnd wp_gets wp_whenM wp_or_else)
  qed (simp add: yes)
qed

end
