(* ===== verification/AllocMalloc.thy ===== *)
theory AllocMalloc
  imports AllocObtain
begin

text \<open>
  Handing out the block that was found, whole or split, and \<open>malloc\<close> as a whole.
\<close>

section \<open>The accounts of a block handed out\<close>

lemma tot_weigh_at:
  assumes "finite (dom h)" "h b = Some x" "pool x' = pool x" and C: "\<And>c y. c \<noteq> b \<Longrightarrow> C' c y = C c y"
  shows "tot (weigh p C' w) (h(b \<mapsto> x')) = tot (weigh p C w) h +
    (if p (pool x) then (if C' b x' then w x' else 0) - (if C b x then w x else 0) else 0)"
proof -
  let ?f = "weigh p C w" and ?g = "weigh p C' w"
  have 1: "tot ?g (h(b \<mapsto> x')) = tot ?f (h(b \<mapsto> x')) - ?f b x' + ?g b x'"
    by (rule tot_cong_at) (use assms in \<open>auto simp: weigh_def\<close>)
  have 2: "tot ?f (h(b \<mapsto> x')) = tot ?f h - ?f b x + ?f b x'"
    by (rule tot_upd [OF assms(1,2)])
  have "?f b x = (if p (pool x) \<and> C b x then w x else 0)" "?g b x' = (if p (pool x) \<and> C' b x' then w x' else 0)"
    using assms(3) by (simp_all add: weigh_def)
  then show ?thesis using 1 2 by (cases "p (pool x)") simp_all
qed

text \<open>
  \<open>shifted\<close>: how the nine accounts of the pool's types change.
\<close>

definition shifted :: "pool_ref \<Rightarrow> device_stats \<Rightarrow> device_stats \<Rightarrow>
    int \<Rightarrow> int \<Rightarrow> int \<Rightarrow> int \<Rightarrow> int \<Rightarrow> int \<Rightarrow> int \<Rightarrow> bool" where
  "shifted pl st st' d3 d4 d5 d6 d7 d8 d9 \<longleftrightarrow> (\<forall>t.
     current (segment st' t) = current (segment st t) \<and>
     current (reserved_bytes st' t) = current (reserved_bytes st t) \<and>
     current (allocation st' t) = current (allocation st t) + (if of_type t pl then d3 else 0) \<and>
     current (allocated_bytes st' t) = current (allocated_bytes st t) + (if of_type t pl then d4 else 0) \<and>
     current (active st' t) = current (active st t) + (if of_type t pl then d5 else 0) \<and>
     current (active_bytes st' t) = current (active_bytes st t) + (if of_type t pl then d6 else 0) \<and>
     current (requested_bytes st' t) = current (requested_bytes st t) + (if of_type t pl then d7 else 0) \<and>
     current (inactive_split st' t) = current (inactive_split st t) + (if of_type t pl then d8 else 0) \<and>
     current (inactive_split_bytes st' t) = current (inactive_split_bytes st t) + (if of_type t pl then d9 else 0))"

lemma shiftedD:
  assumes "shifted pl st st' d3 d4 d5 d6 d7 d8 d9"
  shows "current (segment st' t) = current (segment st t) + (if of_type t pl then 0 else 0)"
     "current (reserved_bytes st' t) = current (reserved_bytes st t) + (if of_type t pl then 0 else 0)"
     "current (allocation st' t) = current (allocation st t) + (if of_type t pl then d3 else 0)"
     "current (allocated_bytes st' t) = current (allocated_bytes st t) + (if of_type t pl then d4 else 0)"
     "current (active st' t) = current (active st t) + (if of_type t pl then d5 else 0)"
     "current (active_bytes st' t) = current (active_bytes st t) + (if of_type t pl then d6 else 0)"
     "current (requested_bytes st' t) = current (requested_bytes st t) + (if of_type t pl then d7 else 0)"
     "current (inactive_split st' t) = current (inactive_split st t) + (if of_type t pl then d8 else 0)"
     "current (inactive_split_bytes st' t) = current (inactive_split_bytes st t) + (if of_type t pl then d9 else 0)"
  using assms by (simp_all add: shifted_def)

lemma shifted_refl: "shifted pl st st 0 0 0 0 0 0 0"
  by (simp add: shifted_def)

lemma shifted_trans:
  assumes "shifted pl st st1 d3 d4 d5 d6 d7 d8 d9" "shifted pl st1 st2 e3 e4 e5 e6 e7 e8 e9"
  shows "shifted pl st st2 (d3 + e3) (d4 + e4) (d5 + e5) (d6 + e6) (d7 + e7) (d8 + e8) (d9 + e9)"
  unfolding shifted_def by (simp add: shiftedD [OF assms(1)] shiftedD [OF assms(2)])

lemma shifted_other [simp]:
  "shifted pl st (st'\<lparr>oversize_allocations := a\<rparr>) = shifted pl st st'"
  by (simp add: shifted_def fun_eq_iff)

lemma shifted_alloc:
  "shifted pl st (for_each_selected_stat_type (get_stat_types_for_pool pl) (alloc_stats y) st)
     1 (bytes y) 1 (bytes y) (int (requested_size y)) 0 0"
proof -
  let ?st = "for_each_selected_stat_type (get_stat_types_for_pool pl) (alloc_stats y) st"
  have "current (segment ?st t) = current (segment st t) + (if of_type t pl then 0 else 0)"
    "current (reserved_bytes ?st t) = current (reserved_bytes st t) + (if of_type t pl then 0 else 0)"
    "current (allocation ?st t) = current (allocation st t) + (if of_type t pl then 1 else 0)"
    "current (allocated_bytes ?st t) = current (allocated_bytes st t) + (if of_type t pl then bytes y else 0)"
    "current (active ?st t) = current (active st t) + (if of_type t pl then 1 else 0)"
    "current (active_bytes ?st t) = current (active_bytes st t) + (if of_type t pl then bytes y else 0)"
    "current (requested_bytes ?st t) = current (requested_bytes st t) + (if of_type t pl then int (requested_size y) else 0)"
    "current (inactive_split ?st t) = current (inactive_split st t) + (if of_type t pl then 0 else 0)"
    "current (inactive_split_bytes ?st t) = current (inactive_split_bytes st t) + (if of_type t pl then 0 else 0)" for t
    unfolding get_stat_types_for_pool_def by (rule selected_current; simp add: alloc_stats_def current_stat_at)+
  then show ?thesis by (simp add: shifted_def)
qed

lemma shifted_inactive:
  assumes "\<And>u st. segment (g u st) = segment st" "\<And>u st. reserved_bytes (g u st) = reserved_bytes st"
    "\<And>u st. allocation (g u st) = allocation st" "\<And>u st. allocated_bytes (g u st) = allocated_bytes st"
    "\<And>u st. active (g u st) = active st" "\<And>u st. active_bytes (g u st) = active_bytes st"
    "\<And>u st. requested_bytes (g u st) = requested_bytes st"
    and "\<And>u st t. current (inactive_split (g u st) t) = current (inactive_split st t) + (if t = u then d8 else 0)"
    and "\<And>u st t. current (inactive_split_bytes (g u st) t) = current (inactive_split_bytes st t) + (if t = u then d9 else 0)"
  shows "shifted pl st (for_each_selected_stat_type (get_stat_types_for_pool pl) g st) 0 0 0 0 0 d8 d9"
proof -
  let ?st = "for_each_selected_stat_type (get_stat_types_for_pool pl) g st"
  have "segment ?st = segment st" "reserved_bytes ?st = reserved_bytes st" "allocation ?st = allocation st"
      "allocated_bytes ?st = allocated_bytes st" "active ?st = active st" "active_bytes ?st = active_bytes st"
      "requested_bytes ?st = requested_bytes st"
    unfolding get_stat_types_for_pool_def for_each_selected by (simp_all add: assms)
  moreover have "current (inactive_split ?st t) = current (inactive_split st t) + (if of_type t pl then d8 else 0)"
    "current (inactive_split_bytes ?st t) = current (inactive_split_bytes st t) + (if of_type t pl then d9 else 0)" for t
    unfolding get_stat_types_for_pool_def by (rule selected_current; simp add: assms)+
  ultimately show ?thesis by (simp add: shifted_def)
qed

lemma shifted_bytes:
  "shifted pl st (st\<lparr>inactive_split_bytes := decrease_stat_array z (get_stat_types_for_pool pl) (inactive_split_bytes st)\<rparr>)
     0 0 0 0 0 0 (- z)"
  by (simp add: shifted_def get_stat_types_for_pool_def decrease_stat_array_apply)

text \<open>The whole block is handed out.\<close>

lemma acct_activate:
  assumes a: "acct_ok st h A" and fin: "finite (dom h)" and b: "h b = Some x" "b \<notin> set A" "\<not> allocated x"
    and x': "x' = x\<lparr>allocated := True, requested_size := z\<rparr>"
    and sh: "shifted (pool x) st st' 1 (bytes x) 1 (bytes x) (int z)
      (if is_split x then -1 else 0) (if is_split x then - bytes x else 0)"
  shows "acct_ok st' (h(b \<mapsto> x')) (List.insert b A)"
  unfolding acct_ok_def
proof (intro allI conjI)
  fix t
  let ?A = "set (List.insert b A)" and ?h = "h(b \<mapsto> x')"
  have in_A: "(c \<in> ?A) = (c \<in> set A)" if "c \<noteq> b" for c using that by simp
  note S = shiftedD [OF sh]
  have W: "tot (weigh p C' w) ?h = tot (weigh p C w) h +
    (if p (pool x) then (if C' b x' then w x' else 0) - (if C b x then w x else 0) else 0)"
    if "\<And>c y. c \<noteq> b \<Longrightarrow> C' c y = C c y" for p C C' w
    by (rule tot_weigh_at [OF fin b(1) _ that]) (simp_all add: x')
  show "current (segment st' t) = tot (weigh (of_type t) (\<lambda>_ x. prv x = None) (\<lambda>_. 1)) ?h"
    by (rule bookI [OF acct_okD(1) [OF a] S(1) W]) (simp_all add: x')
  show "current (reserved_bytes st' t) = tot (weigh (of_type t) (\<lambda>_ _. True) bytes) ?h"
    by (rule bookI [OF acct_okD(2) [OF a] S(2) W]) (simp_all add: x')
  show "current (allocation st' t) = tot (weigh (of_type t) (\<lambda>_ x. allocated x) (\<lambda>_. 1)) ?h"
    by (rule bookI [OF acct_okD(3) [OF a] S(3) W]) (use b in \<open>simp_all add: x'\<close>)
  show "current (allocated_bytes st' t) = tot (weigh (of_type t) (\<lambda>_ x. allocated x) bytes) ?h"
    by (rule bookI [OF acct_okD(4) [OF a] S(4) W]) (use b in \<open>simp_all add: x'\<close>)
  show "current (active st' t) = tot (weigh (of_type t) (\<lambda>b _. b \<in> ?A) (\<lambda>_. 1)) ?h"
    by (rule bookI [OF acct_okD(5) [OF a] S(5) W]) (use b in_A in \<open>simp_all add: x'\<close>)
  show "current (active_bytes st' t) = tot (weigh (of_type t) (\<lambda>b _. b \<in> ?A) bytes) ?h"
    by (rule bookI [OF acct_okD(6) [OF a] S(6) W]) (use b in_A in \<open>simp_all add: x'\<close>)
  show "current (requested_bytes st' t) = tot (weigh (of_type t) (\<lambda>b _. b \<in> ?A) (\<lambda>x. int (requested_size x))) ?h"
    by (rule bookI [OF acct_okD(7) [OF a] S(7) W]) (use b in_A in \<open>simp_all add: x'\<close>)
  show "current (inactive_split st' t) = tot (weigh (of_type t) (\<lambda>b x. b \<notin> ?A \<and> is_split x) (\<lambda>_. 1)) ?h"
    by (rule bookI [OF acct_okD(8) [OF a] S(8) W]) (use b in_A in \<open>simp_all add: x'\<close>)
  show "current (inactive_split_bytes st' t) = tot (weigh (of_type t) (\<lambda>b x. b \<notin> ?A \<and> is_split x) bytes) ?h"
    by (rule bookI [OF acct_okD(9) [OF a] S(9) W]) (use b in_A in \<open>simp_all add: x'\<close>)
qed

section \<open>The whole block\<close>

lemma dinv_heap_finite: "dinv E live cur n H N D s \<Longrightarrow> finite (dom (heap s))"
  using finite_heap by (auto simp: dinv_def)

lemma dinv_hand_out:
  assumes I: "dinv E live cur n {b} {} D s" and b: "heap s b = Some x"
    and y: "y = x\<lparr>allocated := True, requested_size := z\<rparr>" and tr: "trace_ok tr"
    and st: "shifted (pool x) (stats s) st 1 (bytes x) 1 (bytes x) (int z)
      (if is_split x then -1 else 0) (if is_split x then - bytes x else 0)"
  shows "dinv E live cur n {} {} D (s\<lparr>heap := (heap s)(b \<mapsto> y), tracing := tr,
    active_blocks := List.insert b (active_blocks s), stats := st\<rparr>)" (is "dinv _ _ _ _ _ _ _ ?s")
proof -
  let ?h = "(heap s)(b \<mapsto> y)"
  have side: "side_ok live cur n s" and P: "parts_ok {b} {} (heap s) (blocks_of s) (active_blocks s)"
    and ev: "events_ok n (heap s) D (gcu_events s)" and priv: "priv_ok (heap s) (graph_pools s)"
    and mem: "mem_ok (total_allocated_memory s) (heap s)"
    using I by (simp_all add: dinv_def)
  note fin = dinv_heap_finite [OF I]
  have un: "unused x" using parts_okD(8) [OF P, of b] b by auto
  have bA: "b \<notin> set (active_blocks s)" using parts_okD(7) [OF P, of b] by blast
  have parts: "parts_ok {} {} ?h (blocks_of s) (List.insert b (active_blocks s))"
    by (rule parts_activate [OF P]) (simp add: busy_def y)
  obtain seg where seg: "heap_ok seg (live (drv (ctx s))) (heap s)" "over_ok seg (max_split E) (heap s)"
    using I by (auto simp: dinv_def)
  have "heap_ok seg (live (drv (ctx s))) ?h"
    by (rule heap_ok_geometry [OF seg(1)]) (use b in \<open>simp add: geometry_def y\<close>)
  moreover have "over_ok seg (max_split E) ?h"
    using seg(2) b unfolding over_ok_def by (auto simp: is_split_def y)
  moreover have "priv_ok ?h (graph_pools s)"
  proof -
    have "tot (weigh p (\<lambda>_ x. prv x = None) (\<lambda>_. 1)) ?h =
        tot (weigh p (\<lambda>_ x. prv x = None) (\<lambda>_. 1)) (heap s)" for p
      by (rule tot_update_same [OF fin b]) (simp add: weigh_def y)
    then show ?thesis using priv b by (auto simp: priv_ok_def y split: if_splits)
  qed
  moreover have "mem_ok (total_allocated_memory s) ?h"
    using mem by (simp add: mem_ok_def tot_update_same [OF fin b] y)
  moreover have "acct_ok st ?h (List.insert b (active_blocks s))"
    by (rule acct_activate [OF dinv_acct [OF I] fin b bA _ y st]) (use un in \<open>simp add: unused_def\<close>)
  moreover have "side_ok live cur n ?s"
    using side tr b by (auto simp: side_ok_def)
  moreover have "events_ok n ?h D (gcu_events s)"
  proof (rule events_okI)
    show "waits_ok n D (gcu_events s) c w" if "?h c = Some w" for c w
      using that events_okD(4) [OF ev, of c] b un by (auto simp: waits_ok_def unused_def y split: if_splits)
    show "\<exists>w. ?h c = Some w \<and> \<not> allocated w \<and> stream_uses w \<noteq> []" if "c \<in> set D" for c
      using events_okD(6) [OF ev that] b un by (cases "c = b") (auto simp: unused_def)
  qed (use events_okD(1,2,3,5) [OF ev] in \<open>auto split: if_splits\<close>)
  ultimately show ?thesis using parts unfolding dinv_def by auto
qed

text \<open>The end of \<open>alloc_found_block\<close>, which both branches share.\<close>

definition hand_out :: "'d env \<Rightarrow> alloc_params \<Rightarrow> nat \<Rightarrow> bid \<Rightarrow> ('d, bid) dact" where
  "hand_out E p orig_size b =
     seq (modify b (\<lambda>y. y\<lparr>allocated := True, requested_size := orig_size\<rparr>))
           (bnd (deref b) (\<lambda>y.
            seq (record_trace ALLOC (int (ptr y)) (int orig_size) (b_stream y) (b_device y))
            (seq (upd (\<lambda>s. s\<lparr>active_blocks := List.insert b (active_blocks s)\<rparr>))
            (seq (selected (p_pool p) (alloc_stats y))
            (seq (whenM (max_split E \<le> bsize y)
                   (upd_stats (\<lambda>st. st\<lparr>oversize_allocations := increase_stat 1 (oversize_allocations st)\<rparr>)))
              (ret b))))))"

lemma wp_hand_out:
  assumes b: "heap s b = Some x" and y: "y = x\<lparr>allocated := True, requested_size := z\<rparr>" and tr: "trace_ok (tracing s)"
    and Q: "\<And>tr st. trace_ok tr \<Longrightarrow>
      shifted (p_pool p) (stats s) st 1 (bytes x) 1 (bytes x) (int z) 0 0 \<Longrightarrow>
      Q b (s\<lparr>heap := (heap s)(b \<mapsto> y), tracing := tr,
             active_blocks := List.insert b (active_blocks s), stats := st\<rparr>)"
  shows "wp (hand_out E p z b) Q X s"
proof -
  let ?s1 = "s\<lparr>heap := (heap s)(b \<mapsto> y)\<rparr>"
  let ?rest = "seq (upd (\<lambda>s. s\<lparr>active_blocks := List.insert b (active_blocks s)\<rparr>))
            (seq (selected (p_pool p) (alloc_stats y))
            (seq (whenM (max_split E \<le> bsize y)
                   (upd_stats (\<lambda>st. st\<lparr>oversize_allocations := increase_stat 1 (oversize_allocations st)\<rparr>)))
              (ret b))) :: ('a, bid) dact"
  have "wp (record_trace ALLOC (int (ptr y)) (int z) (b_stream y) (b_device y)) (\<lambda>_. wp ?rest Q X) X ?s1"
  proof (rule wp_record_trace)
    show "trace_ok (tracing ?s1)" using tr by simp
    fix t assume t: "trace_ok t"
    have sh: "shifted (p_pool p) (stats s)
        (for_each_selected_stat_type (get_stat_types_for_pool (p_pool p)) (alloc_stats y) (stats s))
        1 (bytes x) 1 (bytes x) (int z) 0 0"
      using shifted_alloc [of "p_pool p" "stats s" y] by (simp add: y)
    show "wp ?rest Q X (?s1\<lparr>tracing := t\<rparr>)"
      using Q [OF t sh] Q [OF t, of "(for_each_selected_stat_type (get_stat_types_for_pool (p_pool p)) (alloc_stats y) (stats s))
        \<lparr>oversize_allocations := increase_stat 1 (oversize_allocations (for_each_selected_stat_type (get_stat_types_for_pool (p_pool p)) (alloc_stats y) (stats s)))\<rparr>"] sh
      by (simp add: wp_simps)
  qed
  then show ?thesis using b by (simp add: hand_out_def wp_simps y [symmetric])
qed

lemma alloc_found_block_eq:
  "alloc_found_block E p orig_size split_remainder =
     (case p_block p of None \<Rightarrow> throw InternalAssert
      | Some found \<Rightarrow>
          bnd (deref found) (\<lambda>x.
          seq (require InternalAssert (p_err p = topsSuccess \<and> ptr x \<noteq> 0))
          (bnd (if split_remainder then split_block p found
                else
                  seq (whenM (is_split x) (selected (p_pool p) (\<lambda>t st. st\<lparr>
                         inactive_split_bytes := stat_at (decrease_stat (int (bsize x))) t (inactive_split_bytes st),
                         inactive_split := stat_at (decrease_stat 1) t (inactive_split st)\<rparr>)))
                    (ret found)) (hand_out E p orig_size))))"
  by (simp only: alloc_found_block_def hand_out_def [abs_def])

text \<open>What a caller of \<open>malloc\<close> gets: a block in use that fits the request.\<close>

definition handed :: "alloc_params \<Rightarrow> nat \<Rightarrow> bid \<Rightarrow> 'd dca \<Rightarrow> bool" where
  "handed p z b s \<longleftrightarrow> (\<exists>x. heap s b = Some x \<and> allocated x \<and> p_size p \<le> bsize x \<and> requested_size x = z \<and>
     b_stream x = p_stream p \<and> pool x = p_pool p \<and> stream_uses x = [])"

lemma wp_found_whole:
  assumes hd: "held E live cur n p b s" and p: "p_err p = topsSuccess" "p_block p = Some b"
    and Q: "\<And>s'. alloc_inv E live cur n s' \<Longrightarrow> captures_underway s' = captures_underway s \<Longrightarrow> handed p z b s' \<Longrightarrow> Q b s'"
  shows "wp (alloc_found_block E p z False) Q X s"
proof -
  obtain x where x: "heap s b = Some x" "serves E p x" and I: "dinv E live cur n {b} {} (deferred s) s"
    and th: "events_there (gcu_events s)" using hd by (auto simp: held_def)
  have side: "side_ok live cur n s" using I by (simp add: dinv_def)
  obtain seg where seg: "heap_ok seg (live (drv (ctx s))) (heap s)" using I by (auto simp: dinv_def)
  have a0: "ptr x \<noteq> 0"
    using heap_okD(1) [OF seg x(1)] side unfolding node_ok_def side_ok_def live_ok_def by fastforce
  have un: "unused x" using I x(1) parts_okD(8) [of "{b}" "{}" "heap s" "blocks_of s" "active_blocks s" b] by (auto simp: dinv_def)
  define sp where "sp = (if is_split x then for_each_selected_stat_type (get_stat_types_for_pool (p_pool p)) (\<lambda>t st. st\<lparr>
       inactive_split_bytes := stat_at (decrease_stat (bytes x)) t (inactive_split_bytes st),
       inactive_split := stat_at (decrease_stat 1) t (inactive_split st)\<rparr>) (stats s) else stats s)"
  have sp: "shifted (p_pool p) (stats s) sp 0 0 0 0 0 (if is_split x then -1 else 0) (if is_split x then - bytes x else 0)"
  proof (cases "is_split x")
    case True
    show ?thesis unfolding sp_def if_P [OF True] by (rule shifted_inactive) (simp_all add: current_stat_at)
  qed (simp add: sp_def shifted_refl)
  have "wp (hand_out E p z b) Q X (s\<lparr>stats := sp\<rparr>)"
  proof (rule wp_hand_out [OF _ refl])
    show "trace_ok (tracing (s\<lparr>stats := sp\<rparr>))" using side by (simp add: side_ok_def)
    show "heap (s\<lparr>stats := sp\<rparr>) b = Some x" using x(1) by simp
    fix tr st assume tr: "trace_ok tr" and st: "shifted (p_pool p) (stats (s\<lparr>stats := sp\<rparr>)) st 1 (bytes x) 1 (bytes x) (int z) 0 0"
    have "shifted (pool x) (stats s) st 1 (bytes x) 1 (bytes x) (int z)
      (if is_split x then -1 else 0) (if is_split x then - bytes x else 0)"
      using shifted_trans [OF sp, of st 1 "bytes x" 1 "bytes x" "int z" 0 0] st x(2) by (simp add: serves_def)
    note D = dinv_hand_out [OF I x(1) refl tr this]
    show "Q b (s\<lparr>stats := sp, heap := (heap (s\<lparr>stats := sp\<rparr>))(b \<mapsto> x\<lparr>allocated := True, requested_size := z\<rparr>),
      tracing := tr, active_blocks := List.insert b (active_blocks (s\<lparr>stats := sp\<rparr>)), stats := st\<rparr>)"
      by (rule Q) (use D th x un in \<open>simp_all add: alloc_inv_def handed_def serves_def unused_def\<close>)
  qed
  then show ?thesis
    using p x(1) a0 by (cases "is_split x") (simp_all add: alloc_found_block_eq wp_simps sp_def)
qed

section \<open>Splitting\<close>

lemma tot_split:
  assumes m: "split_at h r xr f xf n h1" and H: "heap_ok seg L h" and fin: "finite (dom h)" and F: "link_free F"
    and G: "\<And>c y. c \<noteq> f \<Longrightarrow> G c y = F c y"
  shows "tot G (h1(f \<mapsto> yf, r \<mapsto> yr)) = tot F h - F r xr + F r yr + G f yf"
proof -
  note S = split_atD [OF m]
  define h0 where "h0 = (\<lambda>b. if b = r \<or> b = f then h b else h1 b)"
  have at: "map_option (F b) (h0 b) = map_option (F b) (h b)" for b
  proof (cases "b = r \<or> b = f")
    case False
    show ?thesis
    proof (cases "h b")
      case None
      then show ?thesis using False S(15) [of b] by (cases "h1 b") (auto simp: h0_def)
    next
      case (Some y)
      have "F b (y\<lparr>nxt := Some f\<rparr>) = F b y" if pr: "prv xr = Some b"
      proof -
        have "nxt y = Some r" using heap_okD(3) [OF H S(1) pr] Some by auto
        then show ?thesis using F by (simp add: link_free_def)
      qed
      then show ?thesis using S(14) [OF Some] False Some by (simp add: h0_def)
    qed
  qed (auto simp: h0_def)
  have e0: "tot F h0 = tot F h" by (rule tot_pointwise) (rule at)
  have "h0 b = None \<longleftrightarrow> h b = None" for b using at [of b] by (cases "h0 b"; cases "h b") auto
  then have fin0: "finite (dom h0)" using fin by (simp add: dom_def)
  have r0: "h0 r = Some xr" "h0 f = None" using S(1,2) by (simp_all add: h0_def)
  have e: "h1(f \<mapsto> yf, r \<mapsto> yr) = (h0(r \<mapsto> yr))(f \<mapsto> yf)" using S(13) by (auto simp: h0_def fun_eq_iff)
  have "tot G ((h0(r \<mapsto> yr))(f \<mapsto> yf)) = tot G (h0(r \<mapsto> yr)) + G f yf"
    by (rule tot_new) (use fin0 r0 S(13) in simp_all)
  moreover have "tot G (h0(r \<mapsto> yr)) = tot F (h0(r \<mapsto> yr))"
  proof (rule tot_cong)
    fix c y assume "(h0(r \<mapsto> yr)) c = Some y"
    then have "c \<noteq> f" using r0(2) S(13) by (auto split: if_splits)
    then show "G c y = F c y" by (rule G)
  qed
  moreover have "tot F (h0(r \<mapsto> yr)) = tot F h0 - F r xr + F r yr" by (rule tot_upd [OF fin0 r0(1)])
  ultimately show ?thesis using e0 e by simp
qed

lemma weigh_split:
  assumes m: "split_at h r xr f xf n h1" and H: "heap_ok seg L h" and fin: "finite (dom h)" and F: "link_free (weigh p C w)"
    and C: "\<And>c y. c \<noteq> f \<Longrightarrow> C' c y = C c y" and pl: "pool yf = pool xr" "pool yr = pool xr"
  shows "tot (weigh p C' w) (h1(f \<mapsto> yf, r \<mapsto> yr)) = tot (weigh p C w) h + (if p (pool xr) then
    (if C r yr then w yr else 0) - (if C r xr then w xr else 0) + (if C' f yf then w yf else 0) else 0)"
proof -
  let ?f = "weigh p C w" and ?g = "weigh p C' w"
  have 1: "tot ?g (h1(f \<mapsto> yf, r \<mapsto> yr)) = tot ?f h - ?f r xr + ?f r yr + ?g f yf"
    by (rule tot_split [OF m H fin F]) (simp add: weigh_def C)
  have "?f r xr = (if p (pool xr) \<and> C r xr then w xr else 0)" "?f r yr = (if p (pool xr) \<and> C r yr then w yr else 0)"
      "?g f yf = (if p (pool xr) \<and> C' f yf then w yf else 0)"
    using pl by (simp_all add: weigh_def)
  then show ?thesis using 1 by (cases "p (pool xr)") simp_all
qed

lemma acct_split:
  assumes a: "acct_ok st h A" and m: "split_at h r xr f xf n h1" and H: "heap_ok seg L h" and fin: "finite (dom h)"
    and A: "r \<notin> set A" "f \<notin> set A" and al: "\<not> allocated xr"
    and yf: "yf = xf\<lparr>allocated := True, requested_size := z\<rparr>"
    and yr: "yr = xr\<lparr>prv := Some f, ptr := ptr xr + n, bsize := bsize xr - n, gc_count_base := g\<rparr>"
    and sh: "shifted (pool xr) st st' 1 (int n) 1 (int n) (int z)
      (if is_split xr then 0 else 1) (if is_split xr then - int n else bytes xr - int n)"
  shows "acct_ok st' (h1(f \<mapsto> yf, r \<mapsto> yr)) (List.insert f A)"
  unfolding acct_ok_def
proof (intro allI conjI)
  fix t
  let ?A = "set (List.insert f A)" and ?h = "h1(f \<mapsto> yf, r \<mapsto> yr)"
  note S = shiftedD [OF sh] and M = split_atD [OF m]
  have W: "tot (weigh p C' w) ?h = tot (weigh p C w) h + (if p (pool xr) then
    (if C r yr then w yr else 0) - (if C r xr then w xr else 0) + (if C' f yf then w yf else 0) else 0)"
    if "link_free (weigh p C w)" "\<And>c y. c \<noteq> f \<Longrightarrow> C' c y = C c y" for p C C' w
    by (rule weigh_split [OF m H fin that]) (simp_all add: yf yr M(10))
  have in_A: "(c \<in> ?A) = (c \<in> set A)" if "c \<noteq> f" for c using that by simp
  have N: "int (bsize xr - n) = bytes xr - int n" using M(4) by simp
  then have by_r: "bytes yr = bytes xr - int n" by (simp add: yr)
  have sp: "is_split yr" "is_split yf" by (simp_all add: yr yf is_split_def M(9))
  note facts = M(7,8) N sp A al
  show "current (segment st' t) = tot (weigh (of_type t) (\<lambda>_ x. prv x = None) (\<lambda>_. 1)) ?h"
    by (rule bookI [OF acct_okD(1) [OF a] S(1) W [OF weights_link_free(1)]]) (simp_all add: yf yr facts)
  show "current (reserved_bytes st' t) = tot (weigh (of_type t) (\<lambda>_ _. True) bytes) ?h"
    by (rule bookI [OF acct_okD(2) [OF a] S(2) W [OF weights_link_free(2)]]) (simp_all add: yf yr facts)
  show "current (allocation st' t) = tot (weigh (of_type t) (\<lambda>_ x. allocated x) (\<lambda>_. 1)) ?h"
    by (rule bookI [OF acct_okD(3) [OF a] S(3) W [OF weights_link_free(3)]]) (simp_all add: yf yr facts)
  show "current (allocated_bytes st' t) = tot (weigh (of_type t) (\<lambda>_ x. allocated x) bytes) ?h"
    by (rule bookI [OF acct_okD(4) [OF a] S(4) W [OF weights_link_free(4)]]) (simp_all add: yf yr facts)
  show "current (active st' t) = tot (weigh (of_type t) (\<lambda>b _. b \<in> ?A) (\<lambda>_. 1)) ?h"
    by (rule bookI [OF acct_okD(5) [OF a] S(5) W [OF weights_link_free(5)]]) (simp_all add: in_A facts)
  show "current (active_bytes st' t) = tot (weigh (of_type t) (\<lambda>b _. b \<in> ?A) bytes) ?h"
    by (rule bookI [OF acct_okD(6) [OF a] S(6) W [OF weights_link_free(6)]]) (simp_all add: in_A yf facts)
  show "current (requested_bytes st' t) = tot (weigh (of_type t) (\<lambda>b _. b \<in> ?A) (\<lambda>x. int (requested_size x))) ?h"
    by (rule bookI [OF acct_okD(7) [OF a] S(7) W [OF weights_link_free(7)]]) (simp_all add: in_A yf facts)
  show "current (inactive_split st' t) = tot (weigh (of_type t) (\<lambda>b x. b \<notin> ?A \<and> is_split x) (\<lambda>_. 1)) ?h"
    by (rule bookI [OF acct_okD(8) [OF a] S(8) W [OF weights_link_free(8)]]) (simp_all add: in_A facts)
  show "current (inactive_split_bytes st' t) = tot (weigh (of_type t) (\<lambda>b x. b \<notin> ?A \<and> is_split x) bytes) ?h"
    by (rule bookI [OF acct_okD(9) [OF a] S(9) W [OF weights_link_free(9)]]) (simp_all add: in_A by_r facts)
qed

lemma split_came:
  assumes m: "split_at h r xr f xf n h1" and c: "(h1(f \<mapsto> yf, r \<mapsto> yr)) c = Some w" "c \<noteq> f" "c \<noteq> r"
  shows "\<exists>y. h c = Some y \<and> (w = y \<or> nxt y = Some r \<and> w = y\<lparr>nxt := Some f\<rparr> \<or> prv xr = Some c \<and> w = y\<lparr>nxt := Some f\<rparr>)"
  using split_atD(15) [OF m, of c w] c by auto

lemma dinv_split:
  assumes I: "dinv E live cur n {r} {} D s" and ex: "pool_exists s (pool xr)" and m: "split_at (heap s) r xr f xf k h1"
    and f: "f = next_bid s" and un: "unused xf" "stream_uses xf = []"
    and yf: "yf = xf\<lparr>allocated := True, requested_size := z\<rparr>"
    and yr: "yr = xr\<lparr>prv := Some f, ptr := ptr xr + k, bsize := bsize xr - k, gc_count_base := g\<rparr>"
    and big: "\<not> is_small (pool xr) \<Longrightarrow> unat kSmallSize < k \<and> unat kSmallSize < bsize xr - k \<and> bsize xr \<le> max_split E + unat kSmallSize"
    and bs: "set bs = insert r (set (blocks_of s (pool xr)))"
      "sorted_wrt BlockComparatorSize (map (\<lambda>c. key (the ((h1(f \<mapsto> yf, r \<mapsto> yr)) c))) bs)"
    and tr: "trace_ok tr"
    and st: "shifted (pool xr) (stats s) st 1 (int k) 1 (int k) (int z)
      (if is_split xr then 0 else 1) (if is_split xr then - int k else bytes xr - int k)"
  shows "dinv E live cur n {} {} D (set_blocks (pool xr) bs (s\<lparr>heap := h1(f \<mapsto> yf, r \<mapsto> yr), next_bid := Suc (next_bid s),
    tracing := tr, active_blocks := List.insert f (active_blocks s), stats := st\<rparr>))" (is "dinv _ _ _ _ _ _ _ ?s")
proof -
  let ?h = "h1(f \<mapsto> yf, r \<mapsto> yr)"
  note M = split_atD [OF m]
  have side: "side_ok live cur n s" and P: "parts_ok {r} {} (heap s) (blocks_of s) (active_blocks s)"
    and ev: "events_ok n (heap s) D (gcu_events s)" and priv: "priv_ok (heap s) (graph_pools s)"
    and mem: "mem_ok (total_allocated_memory s) (heap s)"
    using I by (simp_all add: dinv_def)
  note fin = dinv_heap_finite [OF I]
  have ur: "unused xr" using parts_okD(8) [OF P, of r] M(1) by auto
  have rA: "r \<notin> set (active_blocks s)" using parts_okD(7) [OF P, of r] by blast
  have fA: "f \<notin> set (active_blocks s)" using parts_okD(6) [OF P, of f] M(2) by auto
  obtain seg where H: "heap_ok seg (live (drv (ctx s))) (heap s)" and ov: "over_ok seg (max_split E) (heap s)"
    using I by (auto simp: dinv_def)
  have parts: "parts_ok {} {} ?h ((blocks_of s)(pool xr := bs)) (List.insert f (active_blocks s))"
    by (rule parts_split [OF P m H]) (use bs in \<open>simp_all add: busy_def yf yr use_def M(9)\<close>)
  let ?seg = "seg(f := seg r)"
  have "heap_ok ?seg (live (drv (ctx s))) h1" by (rule split_ok [OF m H])
  then have heap: "heap_ok ?seg (live (drv (ctx s))) ?h"
    by (rule heap_ok_geometry) (use M(5,12,13) in \<open>auto simp: geometry_def yf yr\<close>)
  have seg_r: "\<not> is_small (pool xr) \<Longrightarrow> snd (seg r) \<le> max_split E + unat kSmallSize"
  proof (cases "is_split xr")
    case True
    then show "\<not> is_small (pool xr) \<Longrightarrow> ?thesis" using ov M(1) unfolding over_ok_def by simp
  next
    case False
    then show "\<not> is_small (pool xr) \<Longrightarrow> ?thesis" using unsplit_segment [OF H M(1) False] big by simp
  qed
  have over: "over_ok ?seg (max_split E) ?h"
    unfolding over_ok_def
  proof (intro allI impI)
    fix c w assume c: "?h c = Some w"
    consider "c = f" | "c = r" | "c \<noteq> f" "c \<noteq> r" by blast
    then show "if is_small (pool w) then snd (?seg c) \<le> unat kSmallBuffer
      else unat kSmallSize < bsize w \<and> (is_split w \<longrightarrow> snd (?seg c) \<le> max_split E + unat kSmallSize)"
    proof cases
      case 1
      then have "w = yf" using c M(13) by simp
      then show ?thesis using 1 ov M(1) big seg_r by (auto simp: over_ok_def yf M(7,10))
    next
      case 2
      then have "w = yr" using c by simp
      then show ?thesis using 2 ov M(1,13) big seg_r by (auto simp: over_ok_def yr)
    next
      case 3
      obtain y where y: "heap s c = Some y" "w = y \<or> nxt y = Some r \<and> w = y\<lparr>nxt := Some f\<rparr> \<or> prv xr = Some c \<and> w = y\<lparr>nxt := Some f\<rparr>"
        using split_came [OF m c 3] by blast
      have "nxt y = Some r" if "prv xr = Some c" using heap_okD(3) [OF H M(1) that] y(1) by auto
      then have "pool w = pool y" "bsize w = bsize y" "is_split w = is_split y" using y(2) by (auto simp: is_split_def)
      then show ?thesis using ov y(1) 3 unfolding over_ok_def by (metis fun_upd_apply)
    qed
  qed
  have events: "events_ok n ?h D (gcu_events s)"
  proof (rule events_okI)
    show "waits_ok n D (gcu_events s) c w" if c: "?h c = Some w" for c w
    proof -
      consider "c = f" | "c = r" | "c \<noteq> f" "c \<noteq> r" by blast
      then show ?thesis
      proof cases
        case 1
        then have "w = yf" using c M(13) by simp
        then show ?thesis using 1 un events_okD(5) [OF ev M(2)] by (simp add: waits_ok_def yf unused_def)
      next
        case 2
        then have "w = yr" using c by simp
        then show ?thesis using 2 events_okD(4) [OF ev M(1)] by (auto simp: waits_ok_def yr)
      next
        case 3
        then show ?thesis using split_came [OF m c 3] events_okD(4) [OF ev, of c] by (auto simp: waits_ok_def)
      qed
    qed
    show "ev_count (gcu_events s) c = 0" if c: "?h c = None" for c
    proof -
      have "c \<noteq> f" "c \<noteq> r" "h1 c = None" using c by (auto split: if_splits)
      then show ?thesis using M(14) [of c] events_okD(5) [OF ev, of c] by (cases "heap s c") auto
    qed
    show "\<exists>w. ?h c = Some w \<and> \<not> allocated w \<and> stream_uses w \<noteq> []" if c: "c \<in> set D" for c
    proof -
      obtain y where y: "heap s c = Some y" "\<not> allocated y" "stream_uses y \<noteq> []" using events_okD(6) [OF ev c] by blast
      have "c \<noteq> r" "c \<noteq> f" using y M(1,2) ur by (auto simp: unused_def)
      then show ?thesis using M(14) [OF y(1)] y by auto
    qed
  qed (use events_okD(1,2,3) [OF ev] in auto)
  have pools: "pool yf = pool xr" "pool yr = pool xr" by (simp_all add: yf yr M(10))
  have priv': "priv_ok ?h (graph_pools s)"
  proof -
    have "tot (weigh p (\<lambda>_ x. prv x = None) (\<lambda>_. 1)) ?h = tot (weigh p (\<lambda>_ x. prv x = None) (\<lambda>_. 1)) (heap s)" for p
      by (simp add: weigh_split [OF m H fin weights_link_free(1) _ pools, where C' = "\<lambda>_ x. prv x = None"]) (auto simp: yf yr M(8))
    moreover have "map_of (graph_pools s) i \<noteq> None" if c: "?h c = Some w" and i: "owner_PrivatePool (pool w) = Some i" for c w i
    proof (cases "c = f \<or> c = r")
      case True
      then have "pool w = pool xr" using c pools M(13) by (auto split: if_splits)
      then show ?thesis using ex i by (simp add: pool_exists_def)
    next
      case False
      then obtain y where "heap s c = Some y" "pool w = pool y" using split_came [OF m c] by auto
      then show ?thesis using priv_okD(2) [OF priv] i by metis
    qed
    ultimately show ?thesis using priv by (simp add: priv_ok_def)
  qed
  have "tot (\<lambda>_. bytes) ?h = tot (\<lambda>_. bytes) (heap s)"
    using tot_split [OF m H fin weights_link_free(10), of "\<lambda>_. bytes" yf yr] M(4,7) by (simp add: yf yr)
  then have mem': "mem_ok (total_allocated_memory s) ?h" using mem by (simp add: mem_ok_def)
  have acct: "acct_ok st ?h (List.insert f (active_blocks s))"
    by (rule acct_split [OF dinv_acct [OF I] m H fin rA fA _ yf yr st]) (use ur in \<open>simp add: unused_def\<close>)
  have "dom ?h \<subseteq> {..<Suc (next_bid s)}"
  proof
    fix c assume "c \<in> dom ?h"
    then obtain w where c: "?h c = Some w" by blast
    have old: "heap s e \<noteq> None \<Longrightarrow> e < next_bid s" for e using side by (auto simp: side_ok_def)
    show "c \<in> {..<Suc (next_bid s)}"
      using split_came [OF m c] old [of c] old [of r] M(1) f by (cases "c = f \<or> c = r") auto
  qed
  then have "side_ok live cur n ?s" using side tr unfolding side_ok_def by simp
  then show ?thesis
    using parts heap over events priv' mem' acct unfolding dinv_def by (auto simp: blocks_of_set_blocks)
qed

text \<open>What \<open>should_split\<close> has to have checked.\<close>

definition may_split :: "'d env \<Rightarrow> alloc_params \<Rightarrow> block \<Rightarrow> bool" where
  "may_split E p x \<longleftrightarrow> 0 < p_size p \<and> p_size p < bsize x \<and>
     (\<not> is_small (p_pool p) \<longrightarrow> unat kSmallSize < p_size p \<and> p_size p < max_split E \<and> p_size p + unat kSmallSize < bsize x)"

lemma wp_found_split:
  assumes hd: "held E live cur n p b s" and ex: "pool_exists s (p_pool p)" and p: "p_err p = topsSuccess" "p_block p = Some b"
    and sp: "\<And>x. heap s b = Some x \<Longrightarrow> may_split E p x"
    and Q: "\<And>s' f. alloc_inv E live cur n s' \<Longrightarrow> captures_underway s' = captures_underway s \<Longrightarrow> handed p z f s' \<Longrightarrow> Q f s'"
  shows "wp (alloc_found_block E p z True) Q X s"
proof -
  obtain x where x: "heap s b = Some x" "serves E p x" and I: "dinv E live cur n {b} {} (deferred s) s"
    and th: "events_there (gcu_events s)" using hd by (auto simp: held_def)
  note may = sp [OF x(1)]
  have pl: "pool x = p_pool p" "b_stream x = p_stream p" using x(2) by (simp_all add: serves_def)
  have side: "side_ok live cur n s" and P: "parts_ok {b} {} (heap s) (blocks_of s) (active_blocks s)"
    using I by (simp_all add: dinv_def)
  obtain seg where H: "heap_ok seg (live (drv (ctx s))) (heap s)" using I by (auto simp: dinv_def)
  have seg_b: "seg b \<in> live (drv (ctx s))" "fst (seg b) \<le> ptr x" "ptr x + bsize x \<le> fst (seg b) + snd (seg b)"
    using heap_okD(1) [OF H x(1)] by (auto simp: node_ok_def)
  have "live_ok (live (drv (ctx s)))" using side by (simp add: side_ok_def)
  then have "\<forall>q\<in>live (drv (ctx s)). fst q \<noteq> 0 \<and> fst q + snd q < 2 ^ 64" unfolding live_ok_def by auto
  then have lim: "fst (seg b) \<noteq> 0" "fst (seg b) + snd (seg b) < 2 ^ 64" using seg_b(1) by blast+
  have a0: "ptr x \<noteq> 0" "ptr x + bsize x < 2 ^ 64" using seg_b lim by linarith+
  define f where "f = next_bid s"
  have fn: "heap s f = None" using side by (auto simp: side_ok_def f_def)
  have fb: "f \<noteq> b" using fn x(1) by auto
  define xf where "xf = (Block (p_device p) (p_stream p) (p_size p) (p_pool p) (ptr x))\<lparr>prv := prv x, nxt := Some b\<rparr>"
  define xr where "xr = x\<lparr>prv := Some f, ptr := ptr x + p_size p, bsize := bsize x - p_size p\<rparr>"
  have k: "0 < p_size p" "p_size p < bsize x" using may by (simp_all add: may_split_def)
  have ar: "add64 (ptr x) (p_size p) = ptr x + p_size p" "sub64 (bsize x) (p_size p) = bsize x - p_size p"
    using a0 k by (simp_all add: add64_small sub64_small)
  define h1 where "h1 = ((case prv x of None \<Rightarrow> (heap s)(f \<mapsto> xf)
     | Some a \<Rightarrow> (heap s)(f \<mapsto> (Block (p_device p) (p_stream p) (p_size p) (p_pool p) (ptr x))\<lparr>prv := prv x\<rparr>,
         a \<mapsto> (the (heap s a))\<lparr>nxt := Some f\<rparr>, f \<mapsto> xf))(b \<mapsto> xr))"
  have pred: "\<exists>y. heap s a = Some y \<and> nxt y = Some b" if "prv x = Some a" for a by (rule heap_okD(3) [OF H x(1) that])
  have pn: "prv x \<noteq> Some f" "prv x \<noteq> Some b"
    using pred [of f] fn heap_ok_prv [OF H x(1), of b] x(1) succ_less(1) [OF H x(1) _ x(1)] pred [of b] by auto
  have m: "split_at (heap s) b x f xf (p_size p) h1"
  proof -
    have "h1 c = map_option (\<lambda>y. if prv x = Some c then y\<lparr>nxt := Some f\<rparr> else y) (heap s c)" if "c \<noteq> b" "c \<noteq> f" for c
      using that pred [of c] by (cases "prv x"; cases "heap s c") (auto simp: h1_def)
    then show ?thesis
      using x(1) fn k fb pn pl unfolding split_at_def
      by (auto simp: h1_def xf_def xr_def Block_def split: option.splits)
  qed
  have H1: "heap_ok (seg(f := seg b)) (live (drv (ctx s))) h1" by (rule split_ok [OF m H])
  let ?s1 = "s\<lparr>heap := h1, next_bid := Suc f\<rparr>"
  have h1b: "h1 b = Some xr" "h1 f = Some xf" using split_atD(12,5) [OF m] by (simp_all add: xr_def)
  define st where "st = (\<lambda>st. if is_split x then st\<lparr>inactive_split_bytes :=
               decrease_stat_array (int (p_size p)) (get_stat_types_for_pool (p_pool p)) (inactive_split_bytes st)\<rparr>
     else for_each_selected_stat_type (get_stat_types_for_pool (p_pool p)) (\<lambda>t st. st\<lparr>
               inactive_split_bytes := stat_at (increase_stat (bytes xr)) t (inactive_split_bytes st),
               inactive_split := stat_at (increase_stat 1) t (inactive_split st)\<rparr>) st)"
  have sh: "shifted (p_pool p) (stats s) (st (stats s)) 0 0 0 0 0
     (if is_split x then 0 else 1) (if is_split x then - int (p_size p) else bytes x - int (p_size p))"
  proof (cases "is_split x")
    case True
    then show ?thesis by (simp add: st_def shifted_bytes)
  next
    case False
    have "bytes xr = bytes x - int (p_size p)" using k by (simp add: xr_def)
    then have "shifted (p_pool p) (stats s) (st (stats s)) 0 0 0 0 0 1 (bytes x - int (p_size p))"
      unfolding st_def if_not_P [OF False] by (intro shifted_inactive) (simp_all add: current_stat_at)
    then show ?thesis using False by simp
  qed
  let ?rest = "\<lambda>_::bool. (if is_split x then
        seq (bnd (deref f) (\<lambda>x. upd_stats (\<lambda>st. st\<lparr>inactive_split_bytes :=
               decrease_stat_array (int (bsize x)) (get_stat_types_for_pool (p_pool p))
                 (inactive_split_bytes st)\<rparr>))) (ret f)
      else
        seq (bnd (deref b) (\<lambda>y. selected (p_pool p) (\<lambda>t st. st\<lparr>
               inactive_split_bytes := stat_at (increase_stat (int (bsize y))) t (inactive_split_bytes st),
               inactive_split := stat_at (increase_stat 1) t (inactive_split st)\<rparr>))) (ret f)) :: ('a, bid) dact"
  have main: "wp (insert_into_blocks (p_pool p) b) (\<lambda>i. wp (?rest i) (\<lambda>f. wp (hand_out E p z f) Q X) X) X ?s1"
  proof (rule wp_insert_into_blocks [where x = xr])
    show "heap_ok (seg(f := seg b)) (live (drv (ctx s))) (heap ?s1)" using H1 by simp
    show "heap ?s1 b = Some xr" using h1b by simp
    show "pool_exists ?s1 (p_pool p)" using ex by (auto simp: pool_exists_def split: option.splits)
    have old: "\<exists>y. heap s c = Some y \<and> (\<exists>y'. h1 c = Some y' \<and> key y' = key y) \<and> c \<noteq> b \<and> c \<noteq> f"
      if c: "c \<in> set (blocks_of s (p_pool p))" for c
    proof -
      obtain y where y: "heap s c = Some y" using parts_okD(3) [OF P c] by blast
      moreover have "c \<noteq> b" using parts_okD(5) [OF P c] by blast
      ultimately show ?thesis using split_atD(14) [OF m y] fn by (auto simp: key_def)
    qed
    then show "heap ?s1 c \<noteq> None \<and> c \<noteq> b" if "c \<in> set (blocks_of ?s1 (p_pool p))" for c using that by fastforce
    show "sorted_wrt BlockComparatorSize (map (\<lambda>c. key (the (heap ?s1 c))) (blocks_of ?s1 (p_pool p)))"
    proof -
      have "sorted_wrt BlockComparatorSize (map (\<lambda>c. key (the (h1 c))) (blocks_of s (p_pool p)))"
        by (rule sorted_same_keys [OF _ parts_okD(2) [OF P]]) (use old in fastforce)
      then show ?thesis by simp
    qed
    fix g bs assume bs: "set bs = insert b (set (blocks_of ?s1 (p_pool p)))"
      "sorted_wrt BlockComparatorSize (map (\<lambda>c. key (the (((heap ?s1)(b \<mapsto> xr\<lparr>gc_count_base := g\<rparr>)) c))) bs)"
    let ?s2 = "set_blocks (p_pool p) bs (?s1\<lparr>heap := (heap ?s1)(b \<mapsto> xr\<lparr>gc_count_base := g\<rparr>)\<rparr>)"
    have s2: "stats ?s2 = stats s" "heap ?s2 = h1(b \<mapsto> xr\<lparr>gc_count_base := g\<rparr>)" by simp_all
    have "wp (hand_out E p z f) Q X (?s2\<lparr>stats := st (stats s)\<rparr>)"
    proof (rule wp_hand_out [OF _ refl])
      show "heap (?s2\<lparr>stats := st (stats s)\<rparr>) f = Some xf" using h1b fb by simp
      show "trace_ok (tracing (?s2\<lparr>stats := st (stats s)\<rparr>))" using side by (simp add: side_ok_def)
      fix tr st' assume tr: "trace_ok tr"
        and st': "shifted (p_pool p) (stats (?s2\<lparr>stats := st (stats s)\<rparr>)) st' 1 (bytes xf) 1 (bytes xf) (int z) 0 0"
      let ?yf = "xf\<lparr>allocated := True, requested_size := z\<rparr>" and ?yr = "xr\<lparr>gc_count_base := g\<rparr>"
      have yr: "?yr = x\<lparr>prv := Some f, ptr := ptr x + p_size p, bsize := bsize x - p_size p, gc_count_base := g\<rparr>"
        by (simp add: xr_def)
      have sh': "shifted (pool x) (stats s) st' 1 (int (p_size p)) 1 (int (p_size p)) (int z)
          (if is_split x then 0 else 1) (if is_split x then - int (p_size p) else bytes x - int (p_size p))"
        using shifted_trans [OF sh, of st' 1 "bytes xf" 1 "bytes xf" "int z" 0 0] st' pl by (simp add: xf_def Block_def)
      have comm: "h1(b \<mapsto> ?yr, f \<mapsto> ?yf) = h1(f \<mapsto> ?yf, b \<mapsto> ?yr)" using fb by (rule fun_upd_twist [OF not_sym])
      have keys: "(\<lambda>c. key (the ((h1(f \<mapsto> ?yf, b \<mapsto> ?yr)) c))) = (\<lambda>c. key (the ((h1(b \<mapsto> ?yr)) c)))"
        using h1b fb by (auto simp: fun_eq_iff key_def)
      have fin: "dinv E live cur n {} {} (deferred s) (set_blocks (pool x) bs (s\<lparr>heap := h1(f \<mapsto> ?yf, b \<mapsto> ?yr),
          next_bid := Suc (next_bid s), tracing := tr, active_blocks := List.insert f (active_blocks s), stats := st'\<rparr>))"
      proof (rule dinv_split [OF I _ m f_def _ _ refl yr _ _ _ tr sh'])
        show "pool_exists s (pool x)" using ex pl by simp
        show "unused xf" "stream_uses xf = []" by (simp_all add: xf_def Block_def unused_def)
        show "unat kSmallSize < p_size p \<and> unat kSmallSize < bsize x - p_size p \<and> bsize x \<le> max_split E + unat kSmallSize"
          if "\<not> is_small (pool x)" using that may x(2) pl by (auto simp: may_split_def serves_def)
        show "set bs = insert b (set (blocks_of s (pool x)))" using bs(1) pl by simp
        show "sorted_wrt BlockComparatorSize (map (\<lambda>c. key (the ((h1(f \<mapsto> ?yf, b \<mapsto> ?yr)) c))) bs)"
          using bs(2) unfolding keys by simp
      qed
      have same: "?s2\<lparr>stats := st (stats s), heap := (heap (?s2\<lparr>stats := st (stats s)\<rparr>))(f \<mapsto> ?yf), tracing := tr,
          active_blocks := List.insert f (active_blocks (?s2\<lparr>stats := st (stats s)\<rparr>)), stats := st'\<rparr> =
        set_blocks (pool x) bs (s\<lparr>heap := h1(f \<mapsto> ?yf, b \<mapsto> ?yr),
          next_bid := Suc (next_bid s), tracing := tr, active_blocks := List.insert f (active_blocks s), stats := st'\<rparr>)"
        using comm pl by (simp add: set_blocks_def f_def)
      show "Q f (?s2\<lparr>stats := st (stats s), heap := (heap (?s2\<lparr>stats := st (stats s)\<rparr>))(f \<mapsto> ?yf), tracing := tr,
          active_blocks := List.insert f (active_blocks (?s2\<lparr>stats := st (stats s)\<rparr>)), stats := st'\<rparr>)"
        unfolding same
        by (rule Q) (use fin th fb in \<open>simp_all add: alloc_inv_def handed_def set_blocks_def h1b xf_def Block_def\<close>)
    qed
    then show "wp (?rest True) (\<lambda>f. wp (hand_out E p z f) Q X) X ?s2"
      using h1b fb by (cases "is_split x") (simp_all add: wp_simps st_def s2 xf_def Block_def)
  qed
  have links: "(case prv x of None \<Rightarrow> True | Some a \<Rightarrow> a \<noteq> b \<and> a \<noteq> f \<and> heap s a \<noteq> None)"
    using pn pred by (auto split: option.splits)
  have ord: "s\<lparr>next_bid := Suc f, heap := h\<rparr> = s\<lparr>heap := h, next_bid := Suc f\<rparr>" for h by simp
  show ?thesis
    using p x(1) a0 main links fb fn
    by (cases "prv x") (auto simp: alloc_found_block_eq split_block_def wp_simps f_def [symmetric] h1_def xf_def xr_def ar ord)
qed

section \<open>\<open>malloc\<close>\<close>

lemma should_split_may:
  assumes "request_ok s p" "serves E p x" "bsize x < 2 ^ 64" "should_split E x (p_size p)"
  shows "may_split E p x"
  using assms
  by (auto simp: should_split_def Let_def sub64_small serves_def may_split_def request_ok_def expandable_segments_def kMinBlockSize_def
      split: if_splits)

lemma find_capture_in: "find_capture str cs = Some i \<Longrightarrow> i \<in> fst ` set cs"
  by (induction str cs rule: find_capture.induct) (auto split: if_splits)

lemma wp_get_pool:
  assumes I: "alloc_inv E live cur n s" and sz: "0 < k" "k < 2 ^ 62"
    and Q: "\<And>pl. request_ok s (AllocParams dev k str pl (alloc_spec k)) \<Longrightarrow> Q pl s"
  shows "wp (get_pool k str) Q X s"
proof (cases "find_capture str (captures_underway s)")
  case None
  then show ?thesis using Q [of small_blocks] Q [of large_blocks] sz
    by (auto simp: get_pool_def wp_simps request_ok_def AllocParams_def)
next
  case (Some i)
  have i: "i \<in> fst ` set (captures_underway s)"
    by (rule find_capture_in [OF Some])
  then have "i \<in> dom (map_of (graph_pools s))" using I unfolding alloc_inv_def dinv_def side_ok_def by blast
  then show ?thesis using Q [of "private_small i"] Q [of "private_large i"] sz Some i
    by (auto simp: get_pool_def wp_simps request_ok_def AllocParams_def)
qed

text \<open>
  The errors of \<open>malloc\<close>: a code of the runtime, or, with the invariant kept, out of memory, also
  when an observer that was registered as an empty function ends its report.
\<close>

definition oom_error :: "exc \<Rightarrow> bool" where
  "oom_error e \<longleftrightarrow> e = OutOfMemoryError \<or> e = StdException ''bad_function_call''"

lemma notify_observers_error: "notify_observers e obs = (Inl ex, obs') \<Longrightarrow> ex = StdException ''bad_function_call''"
  by (induction e obs arbitrary: obs' rule: notify_observers.induct) (auto split: prod.splits)

lemma alloc_inv_side:
  assumes "alloc_inv E live cur n s" "acct_ok st (heap s) (active_blocks s)" "trace_ok tr"
  shows "alloc_inv E live cur n (s\<lparr>tracing := tr, stats := st, oom_observers := obs\<rparr>)"
  using assms by (auto simp: alloc_inv_def dinv_def side_ok_def)

lemma wp_report_oom:
  assumes T: "good_runtime (runtime E) live cur n" and X: "\<And>e s'. gcu_error e \<Longrightarrow> X e s'"
    and I: "alloc_inv E live cur n s" and p: "p_err p = topsErrorMemoryAllocation"
    and oom: "\<And>e s'. oom_error e \<Longrightarrow> alloc_inv E live cur n s' \<Longrightarrow> captures_underway s' = captures_underway s \<Longrightarrow> X e s'"
  shows "wp (report_oom E p) Q X s"
proof -
  let ?rest = "\<lambda>(device_free, device_total). seq (record_trace OOM (int device_free) (int (p_size p)) (p_stream p) (p_device p))
      (seq (upd_stats (\<lambda>st. st\<lparr>num_ooms := num_ooms st + 1\<rparr>))
      (seq (bnd (gets (\<lambda>s. if set_fraction s then uint (allowed_memory_maximum s) else int device_total))
             (\<lambda>allowed. call_observers (p_device p, int (alloc_size p), allowed, int device_free)))
        (throw OutOfMemoryError))) :: ('a, 'b) dact"
  have rest: "wp (?rest r) Q X t" if t: "alloc_inv E live cur n t" "captures_underway t = captures_underway s" for r t
  proof -
    obtain fr tot0 where r: "r = (fr, tot0)" by fastforce
    have "trace_ok (tracing t)" using t(1) by (simp add: alloc_inv_def dinv_def side_ok_def)
    then show ?thesis unfolding r
    proof (simp only: prod.case wp_seq, intro wp_record_trace)
      fix tr assume tr: "trace_ok tr"
      let ?st = "(stats t)\<lparr>num_ooms := num_ooms (stats t) + 1\<rparr>"
      have st: "acct_ok ?st (heap t) (active_blocks t)" using dinv_acct [OF alloc_inv_dinv [OF t(1)]] by simp
      have go: "wp (bnd (call_observers e) (\<lambda>_. throw OutOfMemoryError)) Q X (t\<lparr>tracing := tr, stats := ?st\<rparr>)" for e
      proof -
        obtain res obs where no: "notify_observers e (oom_observers t) = (res, obs)" by fastforce
        have s': "X e' (t\<lparr>tracing := tr, stats := ?st, oom_observers := obs\<rparr>)" if "oom_error e'" for e'
          by (rule oom [OF that alloc_inv_side [OF t(1) st tr]]) (simp add: t(2))
        show ?thesis
        proof (cases res)
          case (Inl e')
          have "oom_error e'" using notify_observers_error [of e "oom_observers t" e' obs] no Inl by (simp add: oom_error_def)
          then show ?thesis using s' no Inl by (simp add: wp_def act_simps call_observers_def)
        next
          case (Inr u)
          then show ?thesis using s' [of OutOfMemoryError] no by (simp add: wp_def act_simps call_observers_def oom_error_def)
        qed
      qed
      then show "wp (upd_stats (\<lambda>st. st\<lparr>num_ooms := num_ooms st + 1\<rparr>)) (\<lambda>_.
         wp (bnd (gets (\<lambda>s. if set_fraction s then uint (allowed_memory_maximum s) else int tot0))
             (\<lambda>allowed. call_observers (p_device p, int (alloc_size p), allowed, int fr)))
          (\<lambda>_. wp (throw OutOfMemoryError) Q X) X) X (t\<lparr>tracing := tr\<rparr>)"
        by (simp add: wp_simps del: wp_throw)
    qed
  qed
  have "wp (in_ctx (call_check (topsMemGetInfo (runtime E)))) (\<lambda>r. wp (?rest r) Q X) X s"
  proof (rule wp_in_ctx [OF _ _ X])
    show "csafe cur n live (call_check (topsMemGetInfo (runtime E))) (\<lambda>_. True)"
      by (rule csafe_call_check) (use quiet_othersD [OF good_runtimeD(3) [OF T]] quiet_othersD [OF good_runtimeD(4) [OF T]] in blast)+
    show "ctx_ok cur n (ctx s)" by (rule dinv_ctx_ok [OF alloc_inv_dinv [OF I]])
    fix r c assume c: "ctx_ok cur n c" "live (drv c) = live (drv (ctx s))"
    show "wp (?rest r) Q X (s\<lparr>ctx := c\<rparr>)"
      by (rule rest) (use alloc_inv_ctx [OF I c] in simp_all)
  qed
  then show ?thesis using p by (simp add: report_oom_def wp_simps case_prod_beta)
qed

lemma wp_lift_exc [wp_simps]: "wp (lift_exc r) Q X = (\<lambda>s. case r of Inl e \<Rightarrow> X e s | Inr x \<Rightarrow> Q x s)"
  by (rule ext) (simp add: lift_exc_def wp_ret wp_throw split: sum.split)

lemma dinv_bsize:
  assumes D: "dinv E live cur n H N D s" and x: "heap s b = Some x"
  shows "bsize x < 2 ^ 64"
proof -
  obtain seg where "heap_ok seg (live (drv (ctx s))) (heap s)" "live_ok (live (drv (ctx s)))"
    using D by (auto simp: dinv_def side_ok_def)
  from block_small(1) [OF this(2) heap_okD(1) [OF this(1) x]] show ?thesis by simp
qed

lemma rounded_bounds:
  assumes E: "good_env E live cur n" and s: "unat orig < 2 ^ 60"
  obtains r where "round_size (llvm E) (cfg E) orig = Inr r" "unat orig \<le> unat r" "512 \<le> unat r" "unat r < 2 ^ 62"
proof -
  note C = good_envD(2,3) [OF E]
  obtain r where r: "round_size (llvm E) (cfg E) orig = Inr r" "unat r = round_spec (cfg_divisions (cfg E)) (unat orig)"
    using round_size_spec [OF C s] by blast
  note d = cfg_divisions_pow2 [OF C]
  have "unat r < 2 ^ 62"
  proof (cases "unat orig \<le> 512")
    case True
    then show ?thesis using round_spec_small r by simp
  next
    case False
    have "lg (unat orig) < 60" using s False lg_less [of "unat orig" 60] by simp
    then have "(2::nat) ^ Suc (lg (unat orig)) \<le> 2 ^ 60" by (intro power_increasing) simp_all
    then show ?thesis using round_spec_interval [OF d, of "unat orig"] False r by auto
  qed
  then show ?thesis using that [OF r(1)] round_spec_ge [OF d, of "unat orig"] r(2) by auto
qed

text \<open>
  \<open>malloc\<close> returns a block in use that is large enough, on the stream asked for, and keeps the
  invariant.
\<close>

lemma wp_malloc:
  assumes E: "good_env E live cur n" and X: "\<And>e s'. gcu_error e \<Longrightarrow> X e s'"
    and I: "alloc_inv E live cur n s" and sz: "unat orig < 2 ^ 60"
    and oom: "\<And>e s'. oom_error e \<Longrightarrow> alloc_inv E live cur n s' \<Longrightarrow> X e s'"
    and Q: "\<And>b s' x. alloc_inv E live cur n s' \<Longrightarrow> captures_underway s' = captures_underway s \<Longrightarrow> heap s' b = Some x \<Longrightarrow>
      allocated x \<Longrightarrow> unat orig \<le> bsize x \<Longrightarrow> requested_size x = unat orig \<Longrightarrow> b_stream x = str \<Longrightarrow> stream_uses x = [] \<Longrightarrow> Q b s'"
  shows "wp (malloc E dev orig str) Q X s"
proof -
  note T = good_envD(1) [OF E]
  obtain r where r: "round_size (llvm E) (cfg E) orig = Inr r" "unat orig \<le> unat r" "512 \<le> unat r" "unat r < 2 ^ 62"
    using rounded_bounds [OF E sz] .
  have as: "unat (get_allocation_size r) = alloc_spec (unat r)" by (rule get_allocation_size_spec [OF r(4)])
  define k where "k = (\<lambda>(found, p). if \<not> found then report_oom E p
        else (case p_block p of None \<Rightarrow> throw UndefinedBehaviour
           | Some b \<Rightarrow> bnd (deref b) (\<lambda>x.
                 alloc_found_block E p (unat orig) (should_split E x (unat r)))) :: ('a, bid) dact)"
  have obt: "wp (bnd (obtain_block E p) k) Q X t"
    if p: "p = AllocParams dev (unat r) str pl (alloc_spec (unat r))" and ok: "request_ok t p"
      and t: "alloc_inv E live cur n t" "captures_underway t = captures_underway s" for p pl t
  proof -
    have ps: "p_size p = unat r" "p_stream p = str" "p_err p = topsSuccess" by (simp_all add: p AllocParams_def)
    have "wp (obtain_block E p) (\<lambda>x. wp (k x) Q X) X t"
    proof (rule wp_obtain_block [OF E X t(1) ok ps(3)])
      fix t' assume t': "alloc_inv E live cur n t'"
      show "wp (k (False, p\<lparr>p_err := topsErrorMemoryAllocation\<rparr>)) Q X t'"
        unfolding k_def by (simp, rule wp_report_oom [OF T X t']) (simp_all add: oom)
    next
      fix t' b assume h: "held E live cur n p b t'" and cs: "captures_underway t' = captures_underway t"
      let ?p = "p\<lparr>p_err := topsSuccess, p_block := Some b\<rparr>"
      have h': "held E live cur n ?p b t'" using h by (simp add: held_def serves_def)
      have D: "dinv E live cur n {b} {} (deferred t') t'" using h by (simp add: held_def)
      obtain x where x: "heap t' b = Some x" "serves E p x" using h by (auto simp: held_def)
      have ok': "request_ok t' ?p" using request_same [OF cs ok] by simp
      have big: "bsize x < 2 ^ 64" by (rule dinv_bsize [OF D x(1)])
      have fin: "Q f u" if "alloc_inv E live cur n u" "captures_underway u = captures_underway t'" "handed ?p (unat orig) f u" for f u
        using that cs t(2) ps r(2) unfolding handed_def by (auto intro: Q)
      have "wp (alloc_found_block E ?p (unat orig) (should_split E x (unat r))) Q X t'"
      proof (cases "should_split E x (unat r)")
        case True
        have "may_split E ?p x"
          using should_split_may [OF ok' _ big, of E] x(2) True ps(1) by (simp add: serves_def)
        then have "wp (alloc_found_block E ?p (unat orig) True) Q X t'"
          by (intro wp_found_split [OF h' request_pool [OF D ok']] fin) (use x(1) in simp_all)
        then show ?thesis using True by simp
      next
        case False
        have "wp (alloc_found_block E ?p (unat orig) False) Q X t'" by (rule wp_found_whole [OF h']) (simp_all add: fin)
        then show ?thesis using False by simp
      qed
      then show "wp (k (True, ?p)) Q X t'" using x(1) by (simp add: k_def wp_simps)
    qed
    then show ?thesis by (simp add: wp_simps)
  qed
  have rest: "wp (bnd (get_pool (unat r) str) (\<lambda>pl. bnd (obtain_block E (AllocParams dev (unat r) str pl (alloc_spec (unat r)))) k)) Q X t"
    if t: "alloc_inv E live cur n t" "captures_underway t = captures_underway s" for t
  proof -
    have "wp (get_pool (unat r) str) (\<lambda>pl. wp (bnd (obtain_block E (AllocParams dev (unat r) str pl (alloc_spec (unat r)))) k) Q X) X t"
      by (rule wp_get_pool [OF t(1)]) (use r t in \<open>auto intro: obt\<close>)
    then show ?thesis by (simp add: wp_bnd)
  qed
  have events: "wp (process_events E) (\<lambda>_. wp (bnd (get_pool (unat r) str)
      (\<lambda>pl. bnd (obtain_block E (AllocParams dev (unat r) str pl (alloc_spec (unat r)))) k)) Q X) X s"
    by (rule wp_process_events [OF T X I]) (use rest in \<open>simp_all add: same_frame_def\<close>)
  show ?thesis
    using events rest [OF I refl]
    by (simp add: malloc_def wp_seq wp_bnd wp_gets wp_whenM wp_lift_exc r(1) Let_def as k_def)
qed

end
