(* ===== verification/AllocClient.thy ===== *)
theory AllocClient
  imports AllocMalloc
begin

text \<open>
  The allocator as its clients drive it: the remaining operations keep the invariant, and so does
  every sequence of operations from the initial state.
\<close>

section \<open>The remaining operations\<close>

text \<open>Recording that a stream uses a block that is in use.\<close>

lemma dinv_stream_uses:
  assumes I: "dinv E live cur n {} {} D s" and b: "heap s b = Some x" "allocated x"
    and us: "\<forall>g\<in>set us. valid_stream n g"
  shows "dinv E live cur n {} {} D (s\<lparr>heap := (heap s)(b \<mapsto> x\<lparr>stream_uses := us\<rparr>)\<rparr>)" (is "dinv _ _ _ _ _ _ _ ?s")
proof -
  let ?x = "x\<lparr>stream_uses := us\<rparr>" let ?h = "(heap s)(b \<mapsto> ?x)"
  have bA: "b \<in> set (active_blocks s)" by (rule not_unused_active [OF I b(1)]) (simp add: unused_def b)
  have ev: "events_ok n (heap s) D (gcu_events s)" using I by (simp add: dinv_def)
  note fin = dinv_heap_finite [OF I]
  have parts: "parts_ok {} {} ?h (blocks_of s) (active_blocks s)"
    by (rule parts_update [where N = "{}", OF _ bA]) (use I b in \<open>simp_all add: dinv_def busy_def\<close>)
  obtain seg where seg: "heap_ok seg (live (drv (ctx s))) (heap s)" "over_ok seg (max_split E) (heap s)"
    using I by (auto simp: dinv_def)
  have "heap_ok seg (live (drv (ctx s))) ?h"
    by (rule heap_ok_geometry [OF seg(1)]) (use b in \<open>simp add: geometry_def\<close>)
  moreover have "over_ok seg (max_split E) ?h"
    using seg(2) b(1) unfolding over_ok_def by (auto simp: is_split_def)
  moreover have same: "tot (weigh p C w) ?h = tot (weigh p C w) (heap s)"
    if "C b ?x = C b x" "w ?x = w x" for p C w
    by (rule tot_update_same [OF fin b(1)]) (simp add: weigh_def that)
  have "priv_ok ?h (graph_pools s)"
    using I b(1) by (auto simp: dinv_def priv_ok_def same split: if_splits)
  moreover have "mem_ok (total_allocated_memory s) ?h"
    using I by (simp add: dinv_def mem_ok_def tot_update_same [OF fin b(1)])
  moreover have "acct_ok (stats s) ?h (active_blocks s)"
    using dinv_acct [OF I] by (simp add: acct_ok_def same is_split_def)
  moreover have "side_ok live cur n ?s" using I b(1) by (auto simp: dinv_def side_ok_def)
  moreover have "events_ok n ?h D (gcu_events s)"
  proof (rule events_okI)
    show "waits_ok n D (gcu_events s) c y" if "?h c = Some y" for c y
      using that events_okD(4) [OF ev, of c] b us by (auto simp: waits_ok_def split: if_splits)
    show "\<exists>y. ?h c = Some y \<and> \<not> allocated y \<and> stream_uses y \<noteq> []" if "c \<in> set D" for c
      using events_okD(6) [OF ev that] b by (cases "c = b") auto
  qed (use events_okD(1,2,3,5) [OF ev] in \<open>auto split: if_splits\<close>)
  ultimately show ?thesis using parts unfolding dinv_def by auto
qed

lemma wp_recordStream:
  assumes I: "alloc_inv E live cur n s" and b: "heap s b = Some x" "allocated x" and g: "valid_stream n g"
    and X: "\<And>e s'. gcu_error e \<Longrightarrow> X e s'" and Q: "\<And>s'. alloc_inv E live cur n s' \<Longrightarrow> Q () s'"
  shows "wp (recordStream b g) Q X s"
proof -
  have D: "dinv E live cur n {} {} (deferred s) s" by (rule alloc_inv_dinv [OF I])
  have "events_ok n (heap s) (deferred s) (gcu_events s)" using D by (simp add: dinv_def)
  from events_okD(4) [OF this b(1)] have us: "\<forall>g\<in>set (stream_uses x). valid_stream n g" by (simp add: waits_ok_def)
  have "wp (in_ctx (stream_handle g)) (\<lambda>h. wp (bnd (deref b) (\<lambda>x. if h = b_stream x then ret ()
       else modify b (\<lambda>x. x\<lparr>stream_uses := List.insert g (stream_uses x)\<rparr>))) Q X) X s"
  proof (rule wp_in_ctx [OF stream_handle_csafe [OF g] dinv_ctx_ok [OF D] X])
    fix h c assume c: "ctx_ok cur n c" "live (drv c) = live (drv (ctx s))"
    let ?t = "s\<lparr>ctx := c\<rparr>"
    have It: "alloc_inv E live cur n ?t" by (rule alloc_inv_ctx [OF I c])
    have "dinv E live cur n {} {} (deferred ?t)
        (?t\<lparr>heap := (heap ?t)(b \<mapsto> x\<lparr>stream_uses := List.insert g (stream_uses x)\<rparr>)\<rparr>)"
      by (rule dinv_stream_uses [OF alloc_inv_dinv [OF It]]) (use b us g in auto)
    then have "alloc_inv E live cur n (?t\<lparr>heap := (heap ?t)(b \<mapsto> x\<lparr>stream_uses := List.insert g (stream_uses x)\<rparr>)\<rparr>)"
      using It by (simp add: alloc_inv_def)
    then show "wp (bnd (deref b) (\<lambda>x. if h = b_stream x then ret ()
       else modify b (\<lambda>x. x\<lparr>stream_uses := List.insert g (stream_uses x)\<rparr>))) Q X ?t"
      using Q Q [OF It] b(1) by (simp add: wp_simps)
  qed
  then show ?thesis by (simp add: recordStream_def wp_simps)
qed

text \<open>The pools of the graphs.\<close>

lemma map_of_map_pool:
  "map_of (map (\<lambda>(j, p). (j, if j = i then f p else p)) gp) k = map_option (if k = i then f else id) (map_of gp k)"
  by (induction gp) (auto simp: option.map_id0)

lemma dinv_pools_same:
  assumes I: "dinv E live cur n {} {} D s" and f: "\<And>p. topsMalloc_count (f p) = topsMalloc_count p"
    and fr: "\<And>k. k \<in> set fs \<Longrightarrow> \<exists>pp. map_of (map (\<lambda>(j, p). (j, if j = i then f p else p)) (graph_pools s)) k = Some pp \<and> use_count pp = 0"
    and d: "distinct fs" and cs: "fst ` set cs \<subseteq> dom (map_of (graph_pools s))"
  shows "dinv E live cur n {} {} D (s\<lparr>graph_pools := map (\<lambda>(j, p). (j, if j = i then f p else p)) (graph_pools s),
    graph_pools_freeable := fs, captures_underway := cs\<rparr>)"
proof -
  let ?gp = "map (\<lambda>(j, p). (j, if j = i then f p else p)) (graph_pools s)"
  have "map fst ?gp = map fst (graph_pools s)" by (induction "graph_pools s") auto
  then have "distinct (map fst ?gp)" using I by (simp add: dinv_def priv_ok_def del: map_map)
  moreover have "dom (map_of ?gp) = dom (map_of (graph_pools s))" by (auto simp: map_of_map_pool dom_def)
  ultimately show ?thesis
    using I fr d cs f unfolding dinv_def side_ok_def priv_ok_def
    by (auto simp: map_of_map_pool split: if_splits)
qed

lemma alloc_inv_pools:
  assumes I: "alloc_inv E live cur n s" and f: "\<And>p. topsMalloc_count (f p) = topsMalloc_count p"
    and fr: "\<And>k. k \<in> set fs \<Longrightarrow> \<exists>pp. map_of (map (\<lambda>(j, p). (j, if j = i then f p else p)) (graph_pools s)) k = Some pp \<and> use_count pp = 0"
    and d: "distinct fs" and cs: "fst ` set cs \<subseteq> dom (map_of (graph_pools s))"
  shows "alloc_inv E live cur n (s\<lparr>graph_pools := map (\<lambda>(j, p). (j, if j = i then f p else p)) (graph_pools s),
    graph_pools_freeable := fs, captures_underway := cs\<rparr>)"
  using dinv_pools_same [OF alloc_inv_dinv [OF I] f fr d cs] I by (simp add: alloc_inv_def)

lemma alloc_inv_graph:
  assumes "alloc_inv E live cur n s"
  shows "distinct (graph_pools_freeable s)" "fst ` set (captures_underway s) \<subseteq> dom (map_of (graph_pools s))"
    "i \<in> set (graph_pools_freeable s) \<Longrightarrow> \<exists>pp. map_of (graph_pools s) i = Some pp \<and> use_count pp = 0"
  using assms unfolding alloc_inv_def dinv_def side_ok_def by blast+

lemma alloc_inv_captures:
  assumes I: "alloc_inv E live cur n s" and cs: "fst ` set cs \<subseteq> dom (map_of (graph_pools s))"
  shows "alloc_inv E live cur n (s\<lparr>captures_underway := cs\<rparr>)"
  using I cs by (auto simp: alloc_inv_def dinv_def side_ok_def)

lemma new_graph_pool:
  assumes I: "alloc_inv E live cur n s" and i: "map_of (graph_pools s) i = None"
  shows "alloc_inv E live cur n (s\<lparr>graph_pools := graph_pools s @ [(i, PrivatePool)],
           pools := (pools s)(private_large i := BlockPool, private_small i := BlockPool)\<rparr>)"
    (is "alloc_inv _ _ _ _ ?s")
proof -
  have D: "dinv E live cur n {} {} (deferred s) s" by (rule alloc_inv_dinv [OF I])
  have P: "parts_ok {} {} (heap s) (blocks_of s) (active_blocks s)" and priv: "priv_ok (heap s) (graph_pools s)"
    and side: "side_ok live cur n s" using D by (simp_all add: dinv_def)
  have none: "owner_PrivatePool (pool x) \<noteq> Some i" if "heap s b = Some x" for b x
    using priv_okD(2) [OF priv that] i by blast
  have empty: "blocks_of s pl = []" if "owner_PrivatePool pl = Some i" for pl
  proof (rule ccontr)
    assume "blocks_of s pl \<noteq> []"
    then have "hd (blocks_of s pl) \<in> set (blocks_of s pl)" by (rule hd_in_set)
    from parts_okD(3) [OF P this] show False using none that by blast
  qed
  have "blocks_of ?s = blocks_of s"
    using empty [of "private_large i"] empty [of "private_small i"] by (auto simp: fun_eq_iff BlockPool_def)
  moreover have "priv_ok (heap s) (graph_pools s @ [(i, PrivatePool)])"
  proof -
    have zero: "count_of i (heap s) = 0"
      using none by (subst tot_cong [where g = "\<lambda>_ _. 0"]) (auto simp: weigh_def tot_def)
    have "i \<notin> fst ` set (graph_pools s)" using i by (simp add: map_of_eq_None_iff)
    then have "distinct (map fst (graph_pools s @ [(i, PrivatePool)]))" using priv by (simp add: priv_ok_def)
    moreover have "map_of (graph_pools s @ [(i, PrivatePool)]) k =
        (if k = i then Some PrivatePool else map_of (graph_pools s) k)" for k
      using i by (auto simp: map_add_def split: option.splits)
    ultimately show ?thesis
      using zero none priv_okD(2,3) [OF priv] unfolding priv_ok_def by (simp add: PrivatePool_def)
  qed
  moreover have "side_ok live cur n ?s"
  proof -
    have "dom (map_of (graph_pools s)) \<subseteq> dom (map_of (graph_pools s @ [(i, PrivatePool)]))"
      by (auto simp: map_add_def split: option.splits)
    moreover have "\<exists>pp. map_of (graph_pools s @ [(i, PrivatePool)]) k = Some pp \<and> use_count pp = 0"
      if k: "k \<in> set (graph_pools_freeable s)" for k
    proof -
      obtain pp where "map_of (graph_pools s) k = Some pp" "use_count pp = 0" using alloc_inv_graph(3) [OF I k] by blast
      then show ?thesis using i by (cases "k = i") (auto simp: map_add_def split: option.splits)
    qed
    ultimately show ?thesis using side unfolding side_ok_def by (simp add: map_of_append) blast
  qed
  ultimately show ?thesis using I unfolding alloc_inv_def dinv_def by simp
qed

lemma wp_beginAllocateToPool:
  assumes I: "alloc_inv E live cur n s"
    and Q: "\<And>s'. alloc_inv E live cur n s' \<Longrightarrow> Q () s'" and X: "\<And>e s'. alloc_inv E live cur n s' \<Longrightarrow> X e s'"
  shows "wp (beginAllocateToPool i filter0) Q X s"
proof -
  have start: "wp (seq (bnd (gets captures_underway) (\<lambda>cs.
            require (TorchCheck ''beginAllocateToPool: already recording to mempool_id'') (i \<notin> fst ` set cs)))
       (upd (\<lambda>s. s\<lparr>captures_underway := captures_underway s @ [(i, filter0)]\<rparr>))) Q X t"
    if t: "alloc_inv E live cur n t" "map_of (graph_pools t) i \<noteq> None" for t
  proof -
    have "alloc_inv E live cur n (t\<lparr>captures_underway := captures_underway t @ [(i, filter0)]\<rparr>)"
      by (rule alloc_inv_captures [OF t(1)]) (use t(2) alloc_inv_graph(2) [OF t(1)] in auto)
    then show ?thesis using Q X [OF t(1)] by (simp add: wp_simps)
  qed
  show ?thesis
  proof (cases "map_of (graph_pools s) i")
    case None
    have "wp (seq (bnd (gets captures_underway) (\<lambda>cs.
            require (TorchCheck ''beginAllocateToPool: already recording to mempool_id'') (i \<notin> fst ` set cs)))
       (upd (\<lambda>s. s\<lparr>captures_underway := captures_underway s @ [(i, filter0)]\<rparr>))) Q X
      (s\<lparr>graph_pools := graph_pools s @ [(i, PrivatePool)],
           pools := (pools s)(private_large i := BlockPool, private_small i := BlockPool)\<rparr>)"
      by (rule start [OF new_graph_pool [OF I None]]) (simp add: None map_add_def)
    then show ?thesis using None unfolding beginAllocateToPool_def by (simp add: wp_simps)
  next
    case (Some pp)
    show ?thesis
    proof (cases "0 < use_count pp")
      case True
      let ?f = "\<lambda>pp. pp\<lparr>use_count := use_count pp + 1\<rparr>"
      let ?gp = "map (\<lambda>(j, p). (j, if j = i then ?f p else p)) (graph_pools s)"
      have "i \<notin> set (graph_pools_freeable s)" using alloc_inv_graph(3) [OF I, of i] Some True by auto
      then have "alloc_inv E live cur n (s\<lparr>graph_pools := ?gp, graph_pools_freeable := graph_pools_freeable s,
          captures_underway := captures_underway s\<rparr>)"
        by (intro alloc_inv_pools [OF I])
          (use alloc_inv_graph [OF I] in \<open>auto simp: map_of_map_pool\<close>)
      moreover have same: "s\<lparr>graph_pools := ?gp, graph_pools_freeable := graph_pools_freeable s,
          captures_underway := captures_underway s\<rparr> = s\<lparr>graph_pools := ?gp\<rparr>" by simp
      ultimately have "alloc_inv E live cur n (s\<lparr>graph_pools := ?gp\<rparr>)" by simp
      from start [OF this] show ?thesis
        using Some True unfolding beginAllocateToPool_def set_private_pool_def
        by (simp add: wp_simps map_of_map_pool)
    next
      case False
      then show ?thesis using Some X [OF I] unfolding beginAllocateToPool_def by (simp add: wp_simps)
    qed
  qed
qed

lemma remove_capture_subset: "remove_capture i cs = Some cs' \<Longrightarrow> set cs' \<subseteq> set cs"
  by (induction i cs arbitrary: cs' rule: remove_capture.induct) (auto split: if_splits)

lemma wp_endAllocateToPool:
  assumes I: "alloc_inv E live cur n s"
    and Q: "\<And>s'. alloc_inv E live cur n s' \<Longrightarrow> Q () s'" and X: "\<And>e s'. alloc_inv E live cur n s' \<Longrightarrow> X e s'"
  shows "wp (endAllocateToPool i) Q X s"
proof (cases "remove_capture i (captures_underway s)")
  case None
  then show ?thesis using X [OF I] by (simp add: endAllocateToPool_def wp_simps)
next
  case (Some cs)
  have "alloc_inv E live cur n (s\<lparr>captures_underway := cs\<rparr>)"
    by (rule alloc_inv_captures [OF I]) (use remove_capture_subset [OF Some] alloc_inv_graph(2) [OF I] in blast)
  then show ?thesis using Q Some by (simp add: endAllocateToPool_def wp_simps)
qed

text \<open>A client releases a pool no more often than it began to allocate from it.\<close>

lemma wp_releasePool:
  assumes I: "alloc_inv E live cur n s" and use: "\<And>pp. map_of (graph_pools s) i = Some pp \<Longrightarrow> 0 < use_count pp"
    and Q: "\<And>s'. alloc_inv E live cur n s' \<Longrightarrow> Q () s'" and X: "\<And>e s'. alloc_inv E live cur n s' \<Longrightarrow> X e s'"
  shows "wp (releasePool i) Q X s"
proof (cases "map_of (graph_pools s) i")
  case None
  then show ?thesis using X [OF I] by (simp add: releasePool_def wp_simps)
next
  case (Some pp)
  let ?f = "\<lambda>pp. pp\<lparr>use_count := use_count pp - 1\<rparr>"
  let ?gp = "map (\<lambda>(j, p). (j, if j = i then ?f p else p)) (graph_pools s)"
  have i: "i \<notin> set (graph_pools_freeable s)" using alloc_inv_graph(3) [OF I, of i] Some use [OF Some] by auto
  have inv: "alloc_inv E live cur n (s\<lparr>graph_pools := ?gp, graph_pools_freeable := fs, captures_underway := captures_underway s\<rparr>)"
    if "distinct fs" "set fs \<subseteq> set (graph_pools_freeable s) \<union> {k. k = i \<and> use_count pp = 1}" for fs
    by (rule alloc_inv_pools [OF I])
      (use that i Some alloc_inv_graph [OF I] in \<open>auto simp: map_of_map_pool\<close>)
  have e: "s\<lparr>graph_pools := ?gp, graph_pools_freeable := fs, captures_underway := captures_underway s\<rparr> =
      s\<lparr>graph_pools := ?gp, graph_pools_freeable := fs\<rparr>"
    "s\<lparr>graph_pools := ?gp, graph_pools_freeable := graph_pools_freeable s\<rparr> = s\<lparr>graph_pools := ?gp\<rparr>" for fs by simp_all
  show ?thesis
  proof (cases "use_count pp = 1")
    case True
    have "alloc_inv E live cur n (s\<lparr>graph_pools := ?gp, graph_pools_freeable := graph_pools_freeable s @ [i]\<rparr>)"
      using inv [of "graph_pools_freeable s @ [i]"] True i alloc_inv_graph(1) [OF I] unfolding e by simp
    then show ?thesis using Some True i Q by (simp add: releasePool_def set_private_pool_def wp_simps)
  next
    case False
    have "alloc_inv E live cur n (s\<lparr>graph_pools := ?gp\<rparr>)"
      using inv [of "graph_pools_freeable s"] alloc_inv_graph(1) [OF I] unfolding e by simp
    then show ?thesis using Some False use [OF Some] Q by (simp add: releasePool_def set_private_pool_def wp_simps)
  qed
qed

lemma alloc_inv_stats: "alloc_inv E live cur n s \<Longrightarrow> acct_ok st (heap s) (active_blocks s) \<Longrightarrow> alloc_inv E live cur n (s\<lparr>stats := st\<rparr>)"
  using dinv_stats by (auto simp: alloc_inv_def)

lemma wp_emptyCache:
  assumes T: "good_runtime (runtime E) live cur n" and I: "alloc_inv E live cur n s"
    and Q: "\<And>s'. alloc_inv E live cur n s' \<Longrightarrow> Q () s'"
    and X: "\<And>e s'. gcu_error e \<Longrightarrow> X e s'" "\<And>e s'. alloc_inv E live cur n s' \<Longrightarrow> X e s'"
  shows "wp (emptyCache E) Q X s"
proof (cases "captures_underway s = []")
  case True
  have "wp (release_cached_blocks E) (\<lambda>_. Q ()) X s"
    by (rule wp_release_cached [OF T X(1) I True]) (auto intro: Q)
  then show ?thesis by (simp add: emptyCache_def wp_simps)
next
  case False
  have "alloc_inv E live cur n (s\<lparr>stats := (stats s)\<lparr>num_sync_all_streams := num_sync_all_streams (stats s) + 1\<rparr>\<rparr>)"
    by (rule alloc_inv_stats [OF I]) (use dinv_acct [OF alloc_inv_dinv [OF I]] in simp)
  then show ?thesis using False X(2)
    by (simp add: emptyCache_def release_cached_blocks_def synchronize_and_free_events_def wp_simps)
qed

lemma wp_setMemoryFraction:
  assumes T: "good_runtime (runtime E) live cur n" and I: "alloc_inv E live cur n s"
    and Q: "\<And>s'. alloc_inv E live cur n s' \<Longrightarrow> Q () s'" and X: "\<And>e s'. gcu_error e \<Longrightarrow> X e s'"
  shows "wp (setMemoryFraction E r) Q X s"
proof -
  have "wp (in_ctx (call_check (topsMemGetInfo (runtime E)))) (\<lambda>r'. wp (upd (\<lambda>s. s\<lparr>allowed_memory_maximum :=
      word_of_int \<lfloor>r * of_nat (snd r')\<rfloor>, set_fraction := True\<rparr>)) Q X) X s"
  proof (rule wp_in_ctx [OF call_others_csafe(5) [OF T] dinv_ctx_ok [OF alloc_inv_dinv [OF I]] X])
    fix r' c assume "ctx_ok cur n c" "live (drv c) = live (drv (ctx s))"
    from alloc_inv_ctx [OF I this] have "alloc_inv E live cur n (s\<lparr>ctx := c\<rparr>)" .
    then have "alloc_inv E live cur n (s\<lparr>ctx := c, allowed_memory_maximum :=
      word_of_int \<lfloor>r * of_nat (snd r')\<rfloor>, set_fraction := True\<rparr>)"
      by (simp add: alloc_inv_def dinv_def side_ok_def)
    then show "wp (upd (\<lambda>s. s\<lparr>allowed_memory_maximum :=
      word_of_int \<lfloor>r * of_nat (snd r')\<rfloor>, set_fraction := True\<rparr>)) Q X (s\<lparr>ctx := c\<rparr>)" by (simp add: wp_simps Q)
  qed
  then show ?thesis by (simp add: setMemoryFraction_def wp_simps case_prod_beta)
qed

lemma current_stat_at_keep: "(\<And>st. current (r st) = current st) \<Longrightarrow> current (stat_at r u a t) = current (a t)"
  by (simp add: stat_at_def)

lemma acct_reset_each:
  assumes r: "\<And>st. current (r st) = current st"
  shows "acct_ok (reset_each r st) h A = acct_ok st h A"
proof -
  have "acct_ok (fold (\<lambda>t st. st\<lparr>
         allocation := stat_at r t (allocation st),
         segment := stat_at r t (segment st),
         active := stat_at r t (active st),
         inactive_split := stat_at r t (inactive_split st),
         allocated_bytes := stat_at r t (allocated_bytes st),
         reserved_bytes := stat_at r t (reserved_bytes st),
         active_bytes := stat_at r t (active_bytes st),
         inactive_split_bytes := stat_at r t (inactive_split_bytes st),
         requested_bytes := stat_at r t (requested_bytes st)\<rparr>) ts st) h A = acct_ok st h A" for ts
    by (induction ts arbitrary: st) (simp_all add: acct_ok_def current_stat_at_keep [of r, OF r])
  then show ?thesis by (simp add: reset_each_def)
qed

lemma acct_reset [simp]:
  "acct_ok (resetAccumulatedStats_stats st) h A = acct_ok st h A" "acct_ok (resetPeakStats_stats st) h A = acct_ok st h A"
  using acct_reset_each [of reset_accumulated_stat st h A] acct_reset_each [of reset_peak_stat st h A]
  by (simp_all add: resetAccumulatedStats_stats_def resetPeakStats_stats_def Let_def acct_ok_def)

section \<open>Sequences of operations\<close>

datatype dca_op = op_malloc int "64 word" stream_t | op_free bid | op_recordStream bid gcu_stream
  | op_emptyCache | op_setMemoryFraction rat | op_beginAllocateToPool mempool_id "stream_t \<Rightarrow> bool"
  | op_endAllocateToPool mempool_id | op_releasePool mempool_id | op_resetAccumulatedStats
  | op_resetPeakStats | op_attachOutOfMemoryObserver oom_observer

definition dca_run :: "'d env \<Rightarrow> dca_op \<Rightarrow> ('d, unit) dact" where
  "dca_run E op = (case op of
       op_malloc device size0 stream \<Rightarrow> bnd (malloc E device size0 stream) (\<lambda>_. ret ())
     | op_free b \<Rightarrow> free E b
     | op_recordStream b g \<Rightarrow> recordStream b g
     | op_emptyCache \<Rightarrow> emptyCache E
     | op_setMemoryFraction r \<Rightarrow> setMemoryFraction E r
     | op_beginAllocateToPool i f \<Rightarrow> beginAllocateToPool i f
     | op_endAllocateToPool i \<Rightarrow> endAllocateToPool i
     | op_releasePool i \<Rightarrow> releasePool i
     | op_resetAccumulatedStats \<Rightarrow> resetAccumulatedStats
     | op_resetPeakStats \<Rightarrow> resetPeakStats
     | op_attachOutOfMemoryObserver obs \<Rightarrow> attachOutOfMemoryObserver obs)"

text \<open>
  What a client has to keep to: requests below 1 EiB, blocks in use only, streams that exist, and
  no more releases of a pool than there were beginnings.
\<close>

definition dca_allowed :: "int \<Rightarrow> dca_op \<Rightarrow> 'd dca \<Rightarrow> bool" where
  "dca_allowed n op s = (case op of
       op_malloc device size0 stream \<Rightarrow> unat size0 < 2 ^ 60
     | op_free b \<Rightarrow> (case heap s b of None \<Rightarrow> False | Some x \<Rightarrow> allocated x)
     | op_recordStream b g \<Rightarrow> (case heap s b of None \<Rightarrow> False | Some x \<Rightarrow> allocated x) \<and> valid_stream n g
     | op_releasePool i \<Rightarrow> (case map_of (graph_pools s) i of None \<Rightarrow> True | Some pp \<Rightarrow> 0 < use_count pp)
     | _ \<Rightarrow> True)"

lemma wp_dca_run:
  assumes E: "good_env E live cur n" and I: "alloc_inv E live cur n s" and op: "dca_allowed n op s"
  shows "wp (dca_run E op) (\<lambda>_. alloc_inv E live cur n) (\<lambda>e s'. gcu_error e \<or> alloc_inv E live cur n s') s"
proof -
  note T = good_envD(1) [OF E]
  show ?thesis
  proof (cases op)
    case (op_malloc dev size0 str)
    have "wp (malloc E dev size0 str) (\<lambda>_. alloc_inv E live cur n) (\<lambda>e s'. gcu_error e \<or> alloc_inv E live cur n s') s"
      by (rule wp_malloc [OF E _ I]) (use op op_malloc in \<open>simp_all add: dca_allowed_def\<close>)
    then show ?thesis by (simp add: dca_run_def op_malloc wp_simps)
  next
    case (op_free b)
    then obtain x where "heap s b = Some x" "allocated x" using op by (auto simp: dca_allowed_def split: option.splits)
    then show ?thesis unfolding dca_run_def op_free by (simp, intro wp_free [OF T _ I]) simp_all
  next
    case (op_recordStream b g)
    then obtain x where "heap s b = Some x" "allocated x" "valid_stream n g"
      using op by (auto simp: dca_allowed_def split: option.splits)
    then show ?thesis unfolding dca_run_def op_recordStream by (simp, intro wp_recordStream [OF I]) simp_all
  next
    case op_emptyCache
    show ?thesis unfolding dca_run_def op_emptyCache by (simp, rule wp_emptyCache [OF T I]) simp_all
  next
    case (op_setMemoryFraction r)
    show ?thesis unfolding dca_run_def op_setMemoryFraction by (simp, rule wp_setMemoryFraction [OF T I]) simp_all
  next
    case (op_beginAllocateToPool i f)
    show ?thesis unfolding dca_run_def op_beginAllocateToPool by (simp, rule wp_beginAllocateToPool [OF I]) simp_all
  next
    case (op_endAllocateToPool i)
    show ?thesis unfolding dca_run_def op_endAllocateToPool by (simp, rule wp_endAllocateToPool [OF I]) simp_all
  next
    case (op_releasePool i)
    show ?thesis unfolding dca_run_def op_releasePool
      by (simp, rule wp_releasePool [OF I]) (use op op_releasePool in \<open>simp_all add: dca_allowed_def\<close>)
  next
    case op_resetAccumulatedStats
    show ?thesis
      using alloc_inv_stats [OF I, of "resetAccumulatedStats_stats (stats s)"] dinv_acct [OF alloc_inv_dinv [OF I]]
      by (simp add: dca_run_def op_resetAccumulatedStats resetAccumulatedStats_def wp_simps)
  next
    case op_resetPeakStats
    show ?thesis
      using alloc_inv_stats [OF I, of "resetPeakStats_stats (stats s)"] dinv_acct [OF alloc_inv_dinv [OF I]]
      by (simp add: dca_run_def op_resetPeakStats resetPeakStats_def wp_simps)
  next
    case (op_attachOutOfMemoryObserver obs)
    have "alloc_inv E live cur n (s\<lparr>oom_observers := oom_observers s @ [obs]\<rparr>)"
      using I by (simp add: alloc_inv_def dinv_def side_ok_def)
    then show ?thesis by (simp add: dca_run_def op_attachOutOfMemoryObserver attachOutOfMemoryObserver_def wp_simps)
  qed
qed

end
