(* ===== verification/NativeProps.thy ===== *)
theory NativeProps
  imports NativeAlloc
begin

text \<open>
  What the front end over the devices promises: its sharded pointer map is a map, a pointer is
  freed once, a handle for another process can be read back; and where it breaks its promises.
\<close>

section \<open>The pointer map\<close>

text \<open>The abstraction: one map from pointers to blocks, whatever the hash function.\<close>

definition block_map :: "'d native_env \<Rightarrow> 'd native \<Rightarrow> addr \<Rightarrow> block_ptr option" where
  "block_map N s p = allocated_blocks s (get_mutex_shard_id N p) p"

lemma get_allocated_block_apply:
  "get_allocated_block N p remove s = (Inr (block_map N s p),
     if block_map N s p \<noteq> None \<and> remove
     then s\<lparr>allocated_blocks := (allocated_blocks s)(get_mutex_shard_id N p :=
              (allocated_blocks s (get_mutex_shard_id N p))(p := None))\<rparr>
     else s)"
  by (simp add: get_allocated_block_def act_simps block_map_def)

lemma block_map_frame:
  "allocated_blocks s = allocated_blocks t \<Longrightarrow> block_map N s = block_map N t"
  by (simp add: block_map_def fun_eq_iff)

lemma on_device_map: "on_device d m s = (r, s') \<Longrightarrow> allocated_blocks s' = allocated_blocks s"
  by (auto simp: on_device_def split: if_splits prod.splits)

lemma on_block_device_map:
  "on_block_device bp m s = (r, s') \<Longrightarrow> allocated_blocks s' = allocated_blocks s"
  by (auto simp: on_block_device_def act_simps dest!: on_device_map split: prod.splits sum.splits)

lemma native_free_map:
  assumes "native_free N p s = (r, s')" and "p \<noteq> 0"
  shows "block_map N s' = (block_map N s)(p := None)"
proof (cases "block_map N s p")
  case None
  with assms have "s' = s" by (simp add: native_free_def act_simps get_allocated_block_apply)
  with None show ?thesis by auto
next
  case (Some bp)
  let ?t = "s\<lparr>allocated_blocks := (allocated_blocks s)(get_mutex_shard_id N p :=
              (allocated_blocks s (get_mutex_shard_id N p))(p := None))\<rparr>"
  have "on_block_device bp (free (alloc_env N)) ?t = (r, s')"
    using assms Some by (simp add: native_free_def act_simps get_allocated_block_apply)
  then have "block_map N s' = block_map N ?t"
    by (intro block_map_frame on_block_device_map)
  then show ?thesis by (auto simp: block_map_def fun_eq_iff)
qed

section \<open>Properties\<close>


text \<open>C23: a pointer is freed at most once. Whatever the first \<^verbatim>\<open>free\<close> ended with, a second one of
  the same pointer throws and changes nothing, unless the pointer was handed out again in between;
  freeing a pointer forgets that pointer only.
\<close>

theorem double_free_detected:
  assumes "native_free N p s = (r, s')" and "p \<noteq> 0"
  shows "native_free N p s' = (Inl (TorchCheck ''invalid device pointer''), s') \<and>
    (\<forall>q. q \<noteq> p \<longrightarrow> block_map N s' q = block_map N s q)"
  using native_free_map [OF assms] assms(2)
  by (simp add: native_free_def act_simps get_allocated_block_apply)

definition sim_env :: "sim env" where
  "sim_env = \<lparr> runtime = sim_tops, llvm = llvm_ref, cfg = GCUAllocatorConfig,
     use_default_stream = True, callbacks = [], other_threads = (\<lambda>s. s) \<rparr>"

definition sim_native_env :: "sim native_env" where
  "sim_native_env = \<lparr> alloc_env = sim_env, twang_mix64 = (\<lambda>p. p), force_uncached = False,
     TOPS_IPC_HANDLE_SIZE = 6, topsDeviceEnablePeerAccess = (\<lambda>_. sim_ok),
     topsDeviceCanAccessPeer = (\<lambda>_ _. sim_value 1), topsMemcpyDtoDAsync = (\<lambda>_ _ _ _. sim_ok),
     topsMemcpyPeerAsync = (\<lambda>_ _ _ _ _ _. sim_ok) \<rparr>"

definition sim_native :: "sim native" where
  "sim_native = \<lparr> device_allocator = replicate 2 (DeviceCachingAllocator GCUAllocatorConfig (ctx_ready sim_init)),
     allocated_blocks = (\<lambda>_ _. None), ipcMemHandle_to_devptr = (\<lambda>_. None), nctx = ctx_ready sim_init \<rparr>"

theorem double_free_detected_witness:
  "native_free sim_native_env 4096 sim_native = (Inl (TorchCheck ''invalid device pointer''), sim_native)"
proof -
  have "native_free sim_native_env 4096 sim_native =
      (Inl (TorchCheck ''invalid device pointer''), sim_native)"
    by (simp add: native_free_def act_simps get_allocated_block_apply block_map_def sim_native_def)
  from double_free_detected [OF this] show ?thesis by simp
qed

text \<open>C24: a handle that \<^verbatim>\<open>shareIpcHandle\<close> made is read back by the receiving process to the very
  handle that the driver gave for the segment.
\<close>

theorem ipc_handle_roundtrip:
  assumes "native_shareIpcHandle N p s = (Inr (offset, handle), s')"
    and "\<And>a d raw d'. topsIpcGetMemHandle (rt N) a d = ((topsSuccess, raw), d') \<Longrightarrow>
      length raw = TOPS_IPC_HANDLE_SIZE N"
  shows "\<exists>a d raw d'. topsIpcGetMemHandle (rt N) a d = ((topsSuccess, raw), d') \<and>
    parse_handle N handle = Inr raw"
proof -
  obtain dev b s2 where bp: "on_device dev (shareIpcHandle (alloc_env N) b) s2 =
      (Inr (offset, handle), s')"
    using assms(1)
    by (auto simp: native_shareIpcHandle_def known_block_def act_simps on_block_device_def
        split: prod.splits sum.splits option.splits)
  then obtain t t' where "shareIpcHandle (alloc_env N) b t = (Inr (offset, handle), t')"
    by (auto simp: on_device_def split: if_splits prod.splits)
  then obtain a d raw d' where raw: "topsIpcGetMemHandle (rt N) a d = ((topsSuccess, raw), d')"
    and handle: "handle = SHAREABLE_HANDLE_VERSION # SHAREABLE_GCU_MALLOC # raw"
    by (auto simp: shareIpcHandle_def act_simps in_ctx_def call_check_def call_def
        split: prod.splits sum.splits if_splits)
  from assms(2) [OF raw] have "parse_handle N handle = Inr raw"
    by (simp add: parse_handle_def handle SHAREABLE_HANDLE_VERSION_def SHAREABLE_GCU_MALLOC_def)
  with raw show ?thesis by blast
qed

text \<open>A front end with one live block, at address 4096 of device 0.\<close>

definition sim_block :: block where
  "sim_block = (Block 0 0 2097152 small_blocks 4096)\<lparr>allocated := True\<rparr>"

definition sim_native_block :: "sim native" where
  "sim_native_block = sim_native\<lparr>
     device_allocator := (device_allocator sim_native)[0 :=
       (DeviceCachingAllocator GCUAllocatorConfig (ctx_ready sim_init))\<lparr>heap := (\<lambda>_. None)(1 \<mapsto> sim_block),
          next_bid := 2\<rparr>],
     allocated_blocks := (\<lambda>_ _. None)(9 := (\<lambda>_. None)(4096 \<mapsto> (0, 1)))\<rparr>"

theorem ipc_handle_roundtrip_witness:
  "\<exists>s' a d raw d'. native_shareIpcHandle sim_native_env 4096 sim_native_block =
      (Inr (0, SHAREABLE_HANDLE_VERSION # SHAREABLE_GCU_MALLOC # ''handle''), s') \<and>
    topsIpcGetMemHandle (rt sim_native_env) a d = ((topsSuccess, raw), d') \<and>
    parse_handle sim_native_env (SHAREABLE_HANDLE_VERSION # SHAREABLE_GCU_MALLOC # ''handle'') = Inr raw"
proof -
  let ?r = "native_shareIpcHandle sim_native_env 4096 sim_native_block"
  have "fst ?r = Inr (0, SHAREABLE_HANDLE_VERSION # SHAREABLE_GCU_MALLOC # ''handle'')"
    by (simp add: native_shareIpcHandle_def known_block_def act_simps get_allocated_block_def
        sim_native_block_def sim_native_def get_mutex_shard_id_def sim_native_env_def sim_env_def
        kNumMutexShard_def on_block_device_def on_device_def deref_def DeviceCachingAllocator_def
        sim_block_def Block_def shareIpcHandle_def in_ctx_def call_check_def call_def sim_defs
        numeral_2_eq_2)
  then have r: "?r = (Inr (0, SHAREABLE_HANDLE_VERSION # SHAREABLE_GCU_MALLOC # ''handle''), snd ?r)"
    by (metis prod.collapse)
  have "\<exists>a d raw d'. topsIpcGetMemHandle (rt sim_native_env) a d = ((topsSuccess, raw), d') \<and>
      parse_handle sim_native_env (SHAREABLE_HANDLE_VERSION # SHAREABLE_GCU_MALLOC # ''handle'') = Inr raw"
    by (rule ipc_handle_roundtrip [OF r]) (simp add: sim_native_env_def sim_env_def sim_defs)
  with r show ?thesis by blast
qed

text \<open>\<^verbatim>\<open>attachOutOfMemoryObserver\<close> moves the observer inside its loop over the devices: with two
  devices or more the allocators after the first are left with an empty function, and reporting
  that device 1 is out of memory throws \<^verbatim>\<open>bad_function_call\<close> instead of the error.
\<close>

theorem oom_observer_lost:
  "\<exists>s' a. native_attachOutOfMemoryObserver (Some []) sim_native = (Inr (), s') \<and>
     map oom_observers (device_allocator s') = [[Some []], [None]] \<and>
     on_device 1 (call_observers e) s' = (Inl (StdException ''bad_function_call''), a)"
proof -
  let ?d = "DeviceCachingAllocator GCUAllocatorConfig (ctx_ready sim_init)"
  have "native_attachOutOfMemoryObserver (Some []) sim_native =
      (Inr (), sim_native\<lparr>device_allocator :=
         [?d\<lparr>oom_observers := [Some []]\<rparr>, ?d\<lparr>oom_observers := [None]\<rparr>]\<rparr>)"
    by (simp add: native_attachOutOfMemoryObserver_def on_all_devices_def act_simps sim_native_def
        on_device_def attachOutOfMemoryObserver_def DeviceCachingAllocator_def numeral_2_eq_2)
  then show ?thesis
    by (simp add: on_device_def call_observers_def)
qed

text \<open>The checks of \<^verbatim>\<open>get_p2p_access\<close> accept every device index, because they join their two
  conditions with "or": with two devices a query for device 2 reads past the cache.
\<close>

theorem get_p2p_access_out_of_bounds:
  "get_p2p_access N 2 0 \<lparr>p2p = init_p2p_access_cache 2, front = f\<rparr> =
     (Inl UndefinedBehaviour, \<lparr>p2p = init_p2p_access_cache 2, front = f\<rparr>)"
  by (simp add: get_p2p_access_def act_simps init_p2p_access_cache_def Let_def numeral_2_eq_2)

text \<open>The allocator back end is chosen by another parser than the one that checks the setting:
  with a space after the colon the native back end is chosen without a word, and the check that
  follows fails an assertion although the setting is well formed.
\<close>

theorem backend_parsers_disagree:
  "parseEnvForBackend (Some ''backend: topsMallocAsync'') = native_backend \<and>
   parseEnvForBackend (Some ''backend:topsMallocAsync'') = topsMallocAsync_backend \<and>
   lexArgs ''backend: topsMallocAsync'' = lexArgs ''backend:topsMallocAsync'' \<and>
   fst (parseArgs M stod ''native'' (Some ''backend: topsMallocAsync'') c) = Inl InternalAssert"
proof -
  have lex: "lexArgs ''backend: topsMallocAsync'' = [''backend'', '':'', ''topsMallocAsync'']"
    "lexArgs ''backend:topsMallocAsync'' = [''backend'', '':'', ''topsMallocAsync'']"
    by code_simp+
  moreover have "parseEnvForBackend (Some ''backend: topsMallocAsync'') = native_backend"
    "parseEnvForBackend (Some ''backend:topsMallocAsync'') = topsMallocAsync_backend"
    by (simp_all add: parseEnvForBackend_def split_runs.simps is_space_or_comma_def)
  moreover have "fst (parseArgs M stod ''native'' (Some ''backend: topsMallocAsync'') c) = Inl InternalAssert"
    by (simp add: parseArgs_def lex Let_def act_simps parse_option_def parseAllocatorConfig_def
        consumeToken_def)
  ultimately show ?thesis by simp
qed

end
