(* ===== verification/GcuGenerator.thy ===== *)
theory GcuGenerator
  imports GcuStream
begin

text \<open>
  The random number generator, \<^verbatim>\<open>gcu_generator_impl.{h,cpp}\<close> with
  \<^verbatim>\<open>philox_gcu_state_raw.h\<close> and \<^verbatim>\<open>gcu_graphs_utils.h\<close>. A \<^verbatim>\<open>GCUGeneratorImpl*\<close> is a
  number into a heap of generators. The seed of \<^verbatim>\<open>c10\<close> (\<^verbatim>\<open>default_rng_seed_val\<close>) and the
  non-deterministic random number are parameters; a state tensor is the list of its bytes.
\<close>

section \<open>The state\<close>

type_synonym gen_id = nat

record generator =
  gen_device :: int
  gen_seed :: "64 word"
  philox_offset :: "64 word"
  seed_extragraph :: addr
  offset_extragraph :: addr
  offset_intragraph :: "32 word"
  graph_expects_this_gen :: bool
  no_reset_rnn_state :: bool
  registered_graphs :: "nat list"

definition new_generator :: "64 word \<Rightarrow> int \<Rightarrow> generator" where
  "new_generator default_seed device_index =
     \<lparr> gen_device = device_index, gen_seed = default_seed, philox_offset = 0, seed_extragraph = 0,
       offset_extragraph = 0, offset_intragraph = 0, graph_expects_this_gen = False,
       no_reset_rnn_state = False, registered_graphs = [] \<rparr>"

text \<open>
  \<open>default_gens\<close> holds the static vectors: \<open>None\<close> before \<^verbatim>\<open>initGCUGenVector\<close>, then for each
  device its default generator once it exists.
\<close>

record 'd gens =
  gheap :: "gen_id \<Rightarrow> generator option"
  next_gen :: gen_id
  default_gens :: "gen_id option list option"
  gctx :: "'d ctx"

type_synonym ('d, 'a) gact = "('d gens, 'a) act"

record 'd gen_env =
  g_runtime :: "'d tops"
  g_use_default :: bool
  default_rng_seed_val :: "64 word"

definition in_gctx :: "('d, 'a) cact \<Rightarrow> ('d, 'a) gact" where
  "in_gctx m = (\<lambda>s. case m (gctx s) of (r, c) \<Rightarrow> (r, s\<lparr>gctx := c\<rparr>))"

definition gderef :: "gen_id \<Rightarrow> ('d, generator) gact" where
  "gderef g = (\<lambda>s. case gheap s g of None \<Rightarrow> (Inl UndefinedBehaviour, s) | Some x \<Rightarrow> (Inr x, s))"

definition gmodify :: "gen_id \<Rightarrow> (generator \<Rightarrow> generator) \<Rightarrow> ('d, unit) gact" where
  "gmodify g f = (\<lambda>s. case gheap s g of None \<Rightarrow> (Inl UndefinedBehaviour, s)
     | Some x \<Rightarrow> (Inr (), s\<lparr>gheap := (gheap s)(g \<mapsto> f x)\<rparr>))"

definition gnew :: "generator \<Rightarrow> ('d, gen_id) gact" where
  "gnew x = (\<lambda>s. (Inr (next_gen s),
     s\<lparr>gheap := (gheap s)(next_gen s \<mapsto> x), next_gen := Suc (next_gen s)\<rparr>))"

section \<open>The capture status\<close>

text \<open>\<open>currentStreamCaptureStatus\<close> does not create a context; 0 is \<^verbatim>\<open>None\<close>.\<close>

definition currentStreamCaptureStatus :: "'d gen_env \<Rightarrow> ('d, nat) cact" where
  "currentStreamCaptureStatus G =
     bnd (current_device (g_runtime G)) (\<lambda>d.
     bnd (hasPrimaryContext (g_runtime G) d) (\<lambda>has.
       if has then currentStreamCaptureStatusMayInitCtx (g_runtime G) (g_use_default G) else ret 0))"

definition assertNotCapturing :: "'d gen_env \<Rightarrow> ('d, unit) gact" where
  "assertNotCapturing G =
     bnd (in_gctx (currentStreamCaptureStatus G)) (\<lambda>status.
       require (TorchCheck '' during GCU graph capture.'') (status = 0))"

section \<open>The state for a kernel\<close>

text \<open>\<^verbatim>\<open>Payload\<close> is a union; \<open>payload_val\<close> reads it as the number.\<close>

datatype payload = Val "64 word" | Ptr addr

fun payload_val :: "payload \<Rightarrow> 64 word" where
  "payload_val (Val v) = v"
| "payload_val (Ptr p) = word_of_nat p"

record PhiloxGcuState =
  ph_seed :: payload
  ph_offset :: payload
  ph_intragraph :: "32 word"
  ph_captured :: bool

definition philox_state :: "64 word \<Rightarrow> 64 word \<Rightarrow> PhiloxGcuState" where
  "philox_state seed0 offset0 =
     \<lparr> ph_seed = Val seed0, ph_offset = Val offset0, ph_intragraph = 0, ph_captured = False \<rparr>"

definition philox_captured :: "addr \<Rightarrow> addr \<Rightarrow> 32 word \<Rightarrow> PhiloxGcuState" where
  "philox_captured seed0 offset0 intragraph =
     \<lparr> ph_seed = Ptr seed0, ph_offset = Ptr offset0, ph_intragraph = intragraph, ph_captured = True \<rparr>"

section \<open>The methods\<close>

definition GCUGeneratorImpl :: "'d gen_env \<Rightarrow> int \<Rightarrow> ('d, gen_id) gact" where
  "GCUGeneratorImpl G device_index =
     seq (assertNotCapturing G) (gnew (new_generator (default_rng_seed_val G) device_index))"

definition GCUGeneratorImpl_unchecked :: "'d gen_env \<Rightarrow> int \<Rightarrow> ('d, gen_id) gact" where
  "GCUGeneratorImpl_unchecked G device_index = gnew (new_generator (default_rng_seed_val G) device_index)"

definition set_current_seed :: "gen_id \<Rightarrow> 64 word \<Rightarrow> ('d, unit) gact" where
  "set_current_seed g seed0 =
     gmodify g (\<lambda>x. x\<lparr>gen_seed := seed0, philox_offset := 0, no_reset_rnn_state := False\<rparr>)"

definition set_philox_offset_per_thread :: "'d gen_env \<Rightarrow> gen_id \<Rightarrow> 64 word \<Rightarrow> ('d, unit) gact" where
  "set_philox_offset_per_thread G g offset0 =
     seq (assertNotCapturing G)
     (seq (require (TorchCheck ''offset must be a multiple of 4'') (offset0 mod 4 = 0))
       (gmodify g (\<lambda>x. x\<lparr>philox_offset := offset0\<rparr>)))"

definition philox_offset_per_thread :: "'d gen_env \<Rightarrow> gen_id \<Rightarrow> ('d, 64 word) gact" where
  "philox_offset_per_thread G g =
     seq (assertNotCapturing G) (bnd (gderef g) (\<lambda>x. ret (philox_offset x)))"

definition set_offset :: "'d gen_env \<Rightarrow> gen_id \<Rightarrow> 64 word \<Rightarrow> ('d, unit) gact" where
  "set_offset G g offset0 =
     seq (assertNotCapturing G)
     (seq (set_philox_offset_per_thread G g offset0)
       (gmodify g (\<lambda>x. x\<lparr>no_reset_rnn_state := False\<rparr>)))"

definition get_offset :: "'d gen_env \<Rightarrow> gen_id \<Rightarrow> ('d, 64 word) gact" where
  "get_offset G g = seq (assertNotCapturing G) (bnd (gderef g) (\<lambda>x. ret (philox_offset x)))"

definition current_seed :: "'d gen_env \<Rightarrow> gen_id \<Rightarrow> ('d, 64 word) gact" where
  "current_seed G g = seq (assertNotCapturing G) (bnd (gderef g) (\<lambda>x. ret (gen_seed x)))"

definition gen_reseed :: "'d gen_env \<Rightarrow> gen_id \<Rightarrow> 64 word \<Rightarrow> ('d, 64 word) gact" where
  "gen_reseed G g random =
     seq (assertNotCapturing G) (seq (set_current_seed g random) (ret random))"

definition reset_rnn_state :: "gen_id \<Rightarrow> ('d, bool) gact" where
  "reset_rnn_state g =
     bnd (gderef g) (\<lambda>x.
     seq (gmodify g (\<lambda>x. x\<lparr>no_reset_rnn_state := True\<rparr>))
       (ret (\<not> no_reset_rnn_state x)))"

text \<open>\<^verbatim>\<open>memcpy\<close> of a 64-bit number on a little-endian machine.\<close>

definition bytes_of :: "64 word \<Rightarrow> 8 word list" where
  "bytes_of v = map (\<lambda>i. ucast (drop_bit (8 * i) v)) [0..<8]"

fun word_of_bytes :: "8 word list \<Rightarrow> 64 word" where
  "word_of_bytes [] = 0"
| "word_of_bytes (b # bs) = ucast b OR push_bit 8 (word_of_bytes bs)"

definition get_state :: "'d gen_env \<Rightarrow> gen_id \<Rightarrow> ('d, 8 word list) gact" where
  "get_state G g =
     bnd (current_seed G g) (\<lambda>seed0.
     bnd (philox_offset_per_thread G g) (\<lambda>offset0.
       ret (bytes_of seed0 @ bytes_of offset0)))"

definition set_state :: "'d gen_env \<Rightarrow> gen_id \<Rightarrow> 8 word list \<Rightarrow> ('d, unit) gact" where
  "set_state G g new_state =
     (let no_philox_seed = (length new_state = 8)
      in seq (require (TorchCheck ''RNG state is wrong size'') (no_philox_seed \<or> length new_state = 16))
         (seq (set_current_seed g (word_of_bytes (take 8 new_state)))
           (set_philox_offset_per_thread G g
             (if no_philox_seed then 0 else word_of_bytes (take 8 (drop 8 new_state))))))"

text \<open>\<open>new_state\<close> is \<open>None\<close> when the generator is of another kind.\<close>

definition graphsafe_set_state :: "gen_id \<Rightarrow> gen_id option \<Rightarrow> ('d, unit) gact" where
  "graphsafe_set_state g new_state =
     (case new_state of None \<Rightarrow> throw (TorchCheck ''Expected a GCU Generator'')
      | Some h \<Rightarrow>
          bnd (gderef h) (\<lambda>y.
            gmodify g (\<lambda>x. x\<lparr>gen_seed := gen_seed y, philox_offset := philox_offset y\<rparr>)))"

definition graphsafe_get_state :: "'d gen_env \<Rightarrow> gen_id \<Rightarrow> ('d, gen_id) gact" where
  "graphsafe_get_state G g =
     bnd (gderef g) (\<lambda>x.
     bnd (GCUGeneratorImpl_unchecked G (gen_device x)) (\<lambda>h.
     seq (gmodify h (\<lambda>y. y\<lparr>gen_seed := gen_seed x, philox_offset := philox_offset x\<rparr>))
       (ret h)))"

definition capture_prologue :: "gen_id \<Rightarrow> addr \<Rightarrow> addr \<Rightarrow> ('d, unit) gact" where
  "capture_prologue g seed0 offset0 =
     gmodify g (\<lambda>x. x\<lparr>seed_extragraph := seed0, offset_extragraph := offset0,
       offset_intragraph := 0, graph_expects_this_gen := True\<rparr>)"

definition capture_epilogue :: "gen_id \<Rightarrow> ('d, 64 word) gact" where
  "capture_epilogue g =
     seq (gmodify g (\<lambda>x. x\<lparr>graph_expects_this_gen := False\<rparr>))
       (bnd (gderef g) (\<lambda>x. ret (ucast (offset_intragraph x))))"

text \<open>
  The increment is rounded up to a multiple of 4 in 64-bit arithmetic. The check in a capture
  subtracts it from the largest 32-bit number in 64-bit arithmetic.
\<close>

definition round4 :: "64 word \<Rightarrow> 64 word" where
  "round4 increment = ((increment + 3) div 4) * 4"

definition philox_gcu_state :: "'d gen_env \<Rightarrow> gen_id \<Rightarrow> 64 word \<Rightarrow> ('d, PhiloxGcuState) gact" where
  "philox_gcu_state G g increment0 =
     (let increment = round4 increment0
      in bnd (in_gctx (currentStreamCaptureStatus G)) (\<lambda>status.
         bnd (gderef g) (\<lambda>x.
           if status \<noteq> 0 then
             seq (require (TorchCheck ''philox_gcu_state for an unexpected GCU generator'')
                    (graph_expects_this_gen x))
             (seq (require InternalAssert (offset_intragraph x mod 4 = 0))
             (seq (require InternalAssert
                     ((ucast (offset_intragraph x) :: 64 word) \<le> 4294967295 - increment))
             (seq (gmodify g (\<lambda>x. x\<lparr>offset_intragraph := offset_intragraph x + ucast increment\<rparr>))
               (ret (philox_captured (seed_extragraph x) (offset_extragraph x)
                       (offset_intragraph x))))))
           else
             seq (require (TorchCheck ''GCU generator expects graph capture to be underway'')
                    (\<not> graph_expects_this_gen x))
             (seq (require InternalAssert (philox_offset x mod 4 = 0))
             (seq (gmodify g (\<lambda>x. x\<lparr>philox_offset := philox_offset x + increment\<rparr>))
               (ret (philox_state (gen_seed x) (philox_offset x))))))))"

definition philox_engine_inputs :: "gen_id \<Rightarrow> 64 word \<Rightarrow> ('d, 64 word \<times> 64 word) gact" where
  "philox_engine_inputs g increment0 =
     (let increment = round4 increment0
      in bnd (gderef g) (\<lambda>x.
         seq (require InternalAssert (philox_offset x mod 4 = 0))
         (seq (gmodify g (\<lambda>x. x\<lparr>philox_offset := philox_offset x + increment\<rparr>))
           (ret (gen_seed x, philox_offset x)))))"

definition register_graph :: "'d gen_env \<Rightarrow> gen_id \<Rightarrow> nat \<Rightarrow> ('d, unit) gact" where
  "register_graph G g graph =
     seq (assertNotCapturing G)
       (gmodify g (\<lambda>x. x\<lparr>registered_graphs := List.insert graph (registered_graphs x)\<rparr>))"

definition unregister_graph :: "gen_id \<Rightarrow> nat \<Rightarrow> ('d, unit) gact" where
  "unregister_graph g graph =
     gmodify g (\<lambda>x. x\<lparr>registered_graphs := removeAll graph (registered_graphs x)\<rparr>)"

definition clone_impl :: "'d gen_env \<Rightarrow> gen_id \<Rightarrow> ('d, gen_id) gact" where
  "clone_impl G g =
     seq (assertNotCapturing G)
     (bnd (gderef g) (\<lambda>x.
      bnd (GCUGeneratorImpl G (gen_device x)) (\<lambda>h.
      seq (set_current_seed h (gen_seed x))
      (seq (set_philox_offset_per_thread G h (philox_offset x))
        (ret h)))))"

section \<open>The default generators\<close>

definition initGCUGenVector :: "'d gen_env \<Rightarrow> ('d, unit) gact" where
  "initGCUGenVector G =
     bnd (gets default_gens) (\<lambda>v.
       whenM (v = None)
        (bnd (in_gctx (device_count (g_runtime G))) (\<lambda>n.
           upd (\<lambda>s. s\<lparr>default_gens := Some (replicate (nat n) None)\<rparr>))))"

text \<open>
  The current device is used without a check; outside the vector the access is undefined. A
  construction that throws leaves the generator absent, so that the next call tries again.
\<close>

definition getDefaultGCUGenerator :: "'d gen_env \<Rightarrow> int \<Rightarrow> 64 word \<Rightarrow> ('d, gen_id) gact" where
  "getDefaultGCUGenerator G device_index random =
     seq (initGCUGenVector G)
     (bnd (gets (\<lambda>s. the (default_gens s))) (\<lambda>v.
      bnd (if device_index = -1 then in_gctx (current_device (g_runtime G))
           else seq (require (TorchCheck ''idx'') (0 \<le> device_index \<and> nat device_index < length v))
                  (ret device_index)) (\<lambda>idx.
      seq (require UndefinedBehaviour (0 \<le> idx \<and> nat idx < length v))
      (bnd (gets (\<lambda>s. the (default_gens s) ! nat idx)) (\<lambda>found.
         case found of Some g \<Rightarrow> ret g
         | None \<Rightarrow>
             bnd (GCUGeneratorImpl G idx) (\<lambda>g.
             bnd (gen_reseed G g random) (\<lambda>_.
             seq (upd (\<lambda>s. s\<lparr>default_gens := map_option (\<lambda>l. l[nat idx := Some g]) (default_gens s)\<rparr>))
               (ret g))))))))"

definition createGCUGenerator :: "'d gen_env \<Rightarrow> int \<Rightarrow> ('d, gen_id) gact" where
  "createGCUGenerator G device_index =
     seq (initGCUGenVector G)
     (bnd (gets (\<lambda>s. the (default_gens s))) (\<lambda>v.
      bnd (if device_index = -1 then in_gctx (current_device (g_runtime G)) else ret device_index)
       (\<lambda>idx.
      seq (require (TorchCheck ''The device_index is invalid.'') (0 \<le> idx \<and> nat idx < length v))
      (bnd (GCUGeneratorImpl G idx) (\<lambda>g.
       seq (set_current_seed g (default_rng_seed_val G))
       (seq (set_philox_offset_per_thread G g 0)
         (ret g)))))))"

end
