(* ===== verification/GenProps.thy ===== *)
theory GenProps
  imports GcuGenerator
begin

text \<open>
  What the generator promises: its offsets stay multiples of 4 and successive kernels get
  disjoint ranges of random numbers, states can be saved and restored; and the two places where
  it does not keep the promise.
\<close>

section \<open>Bytes\<close>

lemma word_of_bytes_of: "word_of_bytes (bytes_of v) = v"
proof (rule bit_word_eqI)
  fix n assume "n < LENGTH(64)"
  then have "n < 64" by simp
  have b: "bytes_of v = [ucast v, ucast (drop_bit 8 v), ucast (drop_bit 16 v), ucast (drop_bit 24 v),
      ucast (drop_bit 32 v), ucast (drop_bit 40 v), ucast (drop_bit 48 v), ucast (drop_bit 56 v)]"
    by (simp add: bytes_of_def upt_rec)
  consider "n < 8" | "8 \<le> n" "n < 16" | "16 \<le> n" "n < 24" | "24 \<le> n" "n < 32" | "32 \<le> n" "n < 40"
    | "40 \<le> n" "n < 48" | "48 \<le> n" "n < 56" | "56 \<le> n" "n < 64"
    using \<open>n < 64\<close> by linarith
  then show "bit (word_of_bytes (bytes_of v)) n \<longleftrightarrow> bit v n"
    by cases (auto simp: b bit_simps)
qed

lemma length_bytes_of [simp]: "length (bytes_of v) = 8"
  by (simp add: bytes_of_def)

section \<open>Multiples of 4\<close>

definition gen_ok :: "generator \<Rightarrow> bool" where
  "gen_ok x \<longleftrightarrow> philox_offset x mod 4 = 0 \<and> offset_intragraph x mod 4 = 0"

lemma mod4_iff64: "(w :: 64 word) mod 4 = 0 \<longleftrightarrow> unat w mod 4 = 0"
  using unat_mod [of w 4] unat_eq_zero [of "w mod 4"] by simp

lemma mod4_iff32: "(w :: 32 word) mod 4 = 0 \<longleftrightarrow> unat w mod 4 = 0"
  using unat_mod [of w 4] unat_eq_zero [of "w mod 4"] by simp

lemma unat_round4: "unat (round4 n) = 4 * (((unat n + 3) mod 2 ^ 64) div 4)"
proof -
  have "unat ((n + 3) div 4) = ((unat n + 3) mod 2 ^ 64) div 4"
    by (simp add: unat_div unat_word_ariths)
  moreover have "4 * (((unat n + 3) mod 2 ^ 64) div 4) \<le> (unat n + 3) mod 2 ^ 64" by simp
  moreover have "(unat n + 3) mod 2 ^ 64 < 2 ^ 64" by simp
  ultimately show ?thesis
    unfolding round4_def by (subst unat_mult64) simp_all
qed

lemma round4_mod: "unat (round4 n) mod 4 = 0"
  by (simp add: unat_round4)

lemma round4_ge: "unat n + 3 < 2 ^ 64 \<Longrightarrow> unat n \<le> unat (round4 n)"
  by (simp add: unat_round4)

lemma add_round4: "w mod 4 = 0 \<Longrightarrow> (w + round4 n) mod 4 = (0 :: 64 word)"
proof -
  assume "w mod 4 = 0"
  then have "unat w mod 4 = 0" by (simp only: mod4_iff64)
  with round4_mod [of n] have "(unat w + unat (round4 n)) mod 4 = 0"
    by (metis add.right_neutral mod_add_eq mod_0)
  then have "((unat w + unat (round4 n)) mod 2 ^ 64) mod 4 = 0"
    by (simp add: mod_mod_cancel)
  then show ?thesis by (simp only: mod4_iff64) (simp add: unat_word_ariths)
qed

lemma add_ucast_round4: "w mod 4 = 0 \<Longrightarrow> (w + ucast (round4 n)) mod 4 = (0 :: 32 word)"
proof -
  assume "w mod 4 = 0"
  then have "unat w mod 4 = 0" by (simp only: mod4_iff32)
  moreover have "unat (ucast (round4 n) :: 32 word) mod 4 = 0"
    using round4_mod [of n] by (simp add: unsigned_ucast_eq take_bit_eq_mod mod_mod_cancel)
  ultimately have "(unat w + unat (ucast (round4 n) :: 32 word)) mod 4 = 0"
    by (metis add.right_neutral mod_add_eq mod_0)
  then have "((unat w + unat (ucast (round4 n) :: 32 word)) mod 2 ^ 32) mod 4 = 0"
    by (simp add: mod_mod_cancel)
  then show ?thesis by (simp only: mod4_iff32) (simp add: unat_word_ariths)
qed

section \<open>The invariant\<close>

definition gens_ok :: "'d gens \<Rightarrow> bool" where
  "gens_ok s \<longleftrightarrow> (\<forall>g x. gheap s g = Some x \<longrightarrow> gen_ok x)"

text \<open>The state of the process before the first generator.\<close>

definition gens_init :: "'d ctx \<Rightarrow> 'd gens" where
  "gens_init c = \<lparr> gheap = (\<lambda>_. None), next_gen = 0, default_gens = None, gctx = c \<rparr>"

lemma keeps_in_gctx [keeps_intros]: "keeps_pred gens_ok (in_gctx m)"
  by (simp add: keeps_pred_def in_gctx_def gens_ok_def split: prod.splits)

lemma keeps_gderef [keeps_intros]: "keeps_pred P (gderef g)"
  by (simp add: keeps_pred_def gderef_def split: option.splits)

lemma keeps_gmodify [keeps_intros]:
  "(\<And>x. gen_ok x \<Longrightarrow> gen_ok (f x)) \<Longrightarrow> keeps_pred gens_ok (gmodify g f)"
  by (simp add: keeps_pred_def gmodify_def gens_ok_def split: option.splits)

lemma keeps_gnew [keeps_intros]: "gen_ok x \<Longrightarrow> keeps_pred gens_ok (gnew x)"
  by (simp add: keeps_pred_def gnew_def gens_ok_def)

lemma keeps_assert [keeps_intros]: "keeps_pred gens_ok (assertNotCapturing G)"
  unfolding assertNotCapturing_def by (intro keeps_intros)

lemma keeps_require_seq [keeps_intros]:
  "(b \<Longrightarrow> keeps_pred P m) \<Longrightarrow> keeps_pred P (seq (require e b) m)"
  by (cases b) (simp_all add: keeps_pred_def act_simps)

lemma keeps_set_philox [keeps_intros]: "keeps_pred gens_ok (set_philox_offset_per_thread G g v)"
  unfolding set_philox_offset_per_thread_def
  by (rule keeps_seq [OF keeps_assert], rule keeps_require_seq, rule keeps_gmodify)
    (simp add: gen_ok_def)

lemma keeps_set_current_seed [keeps_intros]: "keeps_pred gens_ok (set_current_seed g v)"
  unfolding set_current_seed_def by (intro keeps_intros) (simp add: gen_ok_def)

lemma keeps_new [keeps_intros]:
  "keeps_pred gens_ok (GCUGeneratorImpl G d)" "keeps_pred gens_ok (GCUGeneratorImpl_unchecked G d)"
  unfolding GCUGeneratorImpl_def GCUGeneratorImpl_unchecked_def
  by (intro keeps_intros; simp add: gen_ok_def new_generator_def)+

lemma keeps_gderef_bnd:
  "(\<And>x. gen_ok x \<Longrightarrow> keeps_pred gens_ok (f x)) \<Longrightarrow> keeps_pred gens_ok (bnd (gderef g) f)"
  by (auto simp: keeps_pred_def gderef_def gens_ok_def act_simps split: option.splits)

lemma keeps_copy:
  "gen_ok x \<Longrightarrow> keeps_pred gens_ok
     (gmodify h (\<lambda>y. y\<lparr>gen_seed := gen_seed x, philox_offset := philox_offset x\<rparr>))"
  by (rule keeps_gmodify) (simp add: gen_ok_def)

lemma keeps_graphsafe:
  "keeps_pred gens_ok (graphsafe_get_state G g)" "keeps_pred gens_ok (graphsafe_set_state g h)"
  unfolding graphsafe_get_state_def graphsafe_set_state_def
  by (rule keeps_gderef_bnd keeps_copy keeps_intros | assumption)+

lemma keeps_gen_methods:
  "keeps_pred gens_ok (set_offset G g v)" "keeps_pred gens_ok (gen_reseed G g v)"
  "keeps_pred gens_ok (reset_rnn_state g)" "keeps_pred gens_ok (set_state G g bs)"
  "keeps_pred gens_ok (capture_prologue g p q)"
  "keeps_pred gens_ok (capture_epilogue g)" "keeps_pred gens_ok (register_graph G g k)"
  "keeps_pred gens_ok (unregister_graph g k)" "keeps_pred gens_ok (clone_impl G g)"
  unfolding set_offset_def gen_reseed_def reset_rnn_state_def set_state_def
    capture_prologue_def capture_epilogue_def register_graph_def unregister_graph_def clone_impl_def
  by (rule keeps_intros | simp add: gen_ok_def)+

lemma keeps_philox:
  "keeps_pred gens_ok (philox_gcu_state G g n)" "keeps_pred gens_ok (philox_engine_inputs g n)"
  unfolding philox_gcu_state_def philox_engine_inputs_def Let_def
  by (rule keeps_intros | simp add: gen_ok_def add_round4 add_ucast_round4)+

lemma keeps_default:
  "keeps_pred gens_ok (getDefaultGCUGenerator G d v)" "keeps_pred gens_ok (createGCUGenerator G d)"
  unfolding getDefaultGCUGenerator_def createGCUGenerator_def initGCUGenVector_def
  by (rule keeps_intros keeps_gen_methods | simp add: gens_ok_def)+

text \<open>Any call of any method, from any process context.\<close>

inductive gen_step :: "'d gen_env \<Rightarrow> 'd gens \<Rightarrow> 'd gens \<Rightarrow> bool" for G :: "'d gen_env" where
  "getDefaultGCUGenerator G d v s = (r, t) \<Longrightarrow> gen_step G s t"
| "GCUGeneratorImpl G d s = (r, t) \<Longrightarrow> gen_step G s t"
| "createGCUGenerator G d s = (r, t) \<Longrightarrow> gen_step G s t"
| "set_current_seed g v s = (u, t) \<Longrightarrow> gen_step G s t"
| "set_offset G g v s = (u, t) \<Longrightarrow> gen_step G s t"
| "set_philox_offset_per_thread G g v s = (u, t) \<Longrightarrow> gen_step G s t"
| "gen_reseed G g v s = (w, t) \<Longrightarrow> gen_step G s t"
| "reset_rnn_state g s = (b, t) \<Longrightarrow> gen_step G s t"
| "set_state G g bs s = (u, t) \<Longrightarrow> gen_step G s t"
| "graphsafe_set_state g h s = (u, t) \<Longrightarrow> gen_step G s t"
| "graphsafe_get_state G g s = (r, t) \<Longrightarrow> gen_step G s t"
| "capture_prologue g p q s = (u, t) \<Longrightarrow> gen_step G s t"
| "capture_epilogue g s = (w, t) \<Longrightarrow> gen_step G s t"
| "philox_gcu_state G g n s = (ph, t) \<Longrightarrow> gen_step G s t"
| "philox_engine_inputs g n s = (pr, t) \<Longrightarrow> gen_step G s t"
| "register_graph G g k s = (u, t) \<Longrightarrow> gen_step G s t"
| "unregister_graph g k s = (u, t) \<Longrightarrow> gen_step G s t"
| "clone_impl G g s = (r, t) \<Longrightarrow> gen_step G s t"

lemmas gen_ok_steps = keeps_new(1) [THEN keeps_predD, rotated] keeps_default [THEN keeps_predD, rotated]
  keeps_gen_methods [THEN keeps_predD, rotated] keeps_set_philox [THEN keeps_predD, rotated]
  keeps_set_current_seed [THEN keeps_predD, rotated] keeps_graphsafe [THEN keeps_predD, rotated]
  keeps_philox [THEN keeps_predD, rotated]

lemma gen_step_ok: "gen_step G s t \<Longrightarrow> gens_ok s \<Longrightarrow> gens_ok t"
  by (induction rule: gen_step.induct) (erule (1) gen_ok_steps)+

lemma gen_steps_ok: "(gen_step G)\<^sup>*\<^sup>* (gens_init c) s \<Longrightarrow> gens_ok s"
  by (induction rule: rtranclp_induct) (auto simp: gens_init_def gens_ok_def dest: gen_step_ok)

section \<open>No capture underway\<close>

text \<open>
  \<open>idle G I\<close>: in every context with \<open>I\<close> the current stream is found not to be capturing, and
  asking keeps \<open>I\<close>.
\<close>

definition idle :: "'d gen_env \<Rightarrow> ('d ctx \<Rightarrow> bool) \<Rightarrow> bool" where
  "idle G I \<longleftrightarrow> (\<forall>c. I c \<longrightarrow> (\<exists>c'. currentStreamCaptureStatus G c = (Inr 0, c') \<and> I c'))"

lemma assertNotCapturing_idle:
  assumes "idle G I" and "I (gctx s)"
  obtains c where "assertNotCapturing G s = (Inr (), s\<lparr>gctx := c\<rparr>)" and "I c"
proof -
  obtain c where "currentStreamCaptureStatus G (gctx s) = (Inr 0, c)" "I c"
    using assms unfolding idle_def by blast
  with that [of c] show thesis by (simp add: assertNotCapturing_def in_gctx_def act_simps)
qed

lemma current_seed_idle:
  assumes "idle G I" "I (gctx s)" "gheap s g = Some x"
  obtains c where "current_seed G g s = (Inr (gen_seed x), s\<lparr>gctx := c\<rparr>)" "I c"
proof -
  obtain c where "assertNotCapturing G s = (Inr (), s\<lparr>gctx := c\<rparr>)" "I c"
    by (rule assertNotCapturing_idle [OF assms(1,2)])
  with that [of c] assms(3) show thesis by (simp add: current_seed_def act_simps gderef_def)
qed

lemma philox_offset_idle:
  assumes "idle G I" "I (gctx s)" "gheap s g = Some x"
  obtains c where "philox_offset_per_thread G g s = (Inr (philox_offset x), s\<lparr>gctx := c\<rparr>)" "I c"
proof -
  obtain c where "assertNotCapturing G s = (Inr (), s\<lparr>gctx := c\<rparr>)" "I c"
    by (rule assertNotCapturing_idle [OF assms(1,2)])
  with that [of c] assms(3) show thesis
    by (simp add: philox_offset_per_thread_def act_simps gderef_def)
qed

lemma get_state_idle:
  assumes "idle G I" "I (gctx s)" "gheap s g = Some x"
  obtains c where "get_state G g s = (Inr (bytes_of (gen_seed x) @ bytes_of (philox_offset x)), s\<lparr>gctx := c\<rparr>)"
    "I c"
proof -
  obtain c where c: "current_seed G g s = (Inr (gen_seed x), s\<lparr>gctx := c\<rparr>)" "I c"
    using current_seed_idle [OF assms] by blast
  obtain c' where "philox_offset_per_thread G g (s\<lparr>gctx := c\<rparr>) =
      (Inr (philox_offset x), s\<lparr>gctx := c\<rparr>\<lparr>gctx := c'\<rparr>)" "I c'"
    using philox_offset_idle [OF assms(1), of "s\<lparr>gctx := c\<rparr>" g x] c(2) assms(3) by auto
  with c that [of c'] show thesis by (simp add: get_state_def act_simps)
qed

lemma set_state_idle:
  assumes "idle G I" "I (gctx s)" "gheap s g = Some x"
  obtains c where "set_state G g (bytes_of v @ bytes_of w) s =
      (if w mod 4 = 0
       then (Inr (), s\<lparr>gctx := c, gheap := (gheap s)(g \<mapsto>
               x\<lparr>gen_seed := v, no_reset_rnn_state := False, philox_offset := w\<rparr>)\<rparr>)
       else (Inl (TorchCheck ''offset must be a multiple of 4''),
             s\<lparr>gctx := c, gheap := (gheap s)(g \<mapsto>
               x\<lparr>gen_seed := v, philox_offset := 0, no_reset_rnn_state := False\<rparr>)\<rparr>))" "I c"
proof -
  let ?s = "s\<lparr>gheap := (gheap s)(g \<mapsto> x\<lparr>gen_seed := v, philox_offset := 0, no_reset_rnn_state := False\<rparr>)\<rparr>"
  obtain c where "assertNotCapturing G ?s = (Inr (), ?s\<lparr>gctx := c\<rparr>)" "I c"
    using assertNotCapturing_idle [OF assms(1), of ?s] assms(2) by auto
  with assms(3) that [of c] show thesis
    by (cases "w mod 4 = 0")
      (simp_all add: set_state_def set_current_seed_def set_philox_offset_per_thread_def gmodify_def
        act_simps word_of_bytes_of)
qed

section \<open>A concrete generator\<close>

definition sim_gen_env :: "sim gen_env" where
  "sim_gen_env = \<lparr> g_runtime = sim_tops, g_use_default = True, default_rng_seed_val = 67280421310721 \<rparr>"

definition sim_idle :: "sim ctx \<Rightarrow> bool" where
  "sim_idle c \<longleftrightarrow> c = ctx_ready sim_init \<or>
     c = (ctx_ready sim_init)\<lparr>device_count_static := Some 2\<rparr>"

lemma getCurrentGCUStream_current:
  assumes "streams_ready c n" "device_runtime T cur n" "device_ok cur n c"
  shows "getCurrentGCUStream T u (-1) c =
    (Inr (GCUStreamForId (effective_device cur c)
       (the (current_streams c) ! nat (effective_device cur c))), c)"
proof -
  have e: "0 \<le> effective_device cur c" "effective_device cur c < n"
    using assms(3) by (auto simp: device_ok_def effective_device_def)
  have "current_device T c = (Inr (effective_device cur c), c)"
    by (simp add: current_device_def act_simps GetDevice_effective [OF assms(2,3)])
  then have "getCurrentGCUStream T u (-1) c = getCurrentGCUStream T u (effective_device cur c) c"
    using e by (simp add: getCurrentGCUStream_def or_current_device_def act_simps
        initGCUStreamsOnce_ready [OF assms(1)])
  then show ?thesis using getCurrentGCUStream_ready [OF assms(1) e] by simp
qed

lemma stream_handle_zero:
  "kUseGcuDefaultStream c \<Longrightarrow> stream_handle (GCUStreamForId d 0) c = (Inr 0, c)"
  by (simp add: stream_handle_def GCUStreamForId_def streamIdType_def streamIdIndex_def
      isDefault_def DEFAULT_def act_simps Let_def)

text \<open>The same runtime with a given answer to the question whether a stream is capturing.\<close>

definition sim_capture_env :: "nat \<Rightarrow> sim gen_env" where
  "sim_capture_env k =
     sim_gen_env\<lparr>g_runtime := sim_tops\<lparr>topsStreamIsCapturing := (\<lambda>_. sim_value k)\<rparr>\<rparr>"

lemma sim_status:
  assumes "sim_idle c"
  shows "currentStreamCaptureStatus (sim_capture_env k) c =
      (Inr k, (ctx_ready sim_init)\<lparr>device_count_static := Some 2\<rparr>)"
proof -
  let ?T = "sim_tops\<lparr>topsStreamIsCapturing := (\<lambda>_. sim_value k)\<rparr>"
  let ?c = "(ctx_ready sim_init)\<lparr>device_count_static := Some 2\<rparr>"
  have T: "device_runtime ?T sim_cur 2" by (simp add: device_runtime_def sim_defs)
  have k: "drv c = sim_init" "targetDeviceIndex c = -1" "has_primary_context c = None"
    "c\<lparr>device_count_static := Some 2\<rparr> = ?c"
    using assms unfolding sim_idle_def by (elim disjE; simp add: ctx_ready_def ctx_init_def)+
  have ok: "device_ok sim_cur 2 c" "device_ok sim_cur 2 ?c" "effective_device sim_cur ?c = 0"
    "effective_device sim_cur c = 0"
    using assms unfolding sim_idle_def
    by (elim disjE; simp add: device_ok_def effective_device_def sim_init_def ctx_ready_def ctx_init_def)+
  have r: "streams_ready ?c 2" "kUseGcuDefaultStream ?c" "current_streams ?c = Some [0, 0]"
    by (simp_all add: streams_ready_def ctx_ready_def ctx_init_def)
  have cur: "current_device ?T c = (Inr 0, c)"
    by (simp add: current_device_def act_simps GetDevice_effective [OF T ok(1)] ok)
  have has: "hasPrimaryContext ?T 0 c = (Inr True, ?c)"
    using k device_count_value [OF T ok(1)]
    by (simp add: hasPrimaryContext_def dummyHasPrimaryContext_def act_simps)
  have "getCurrentGCUStream ?T True (-1) ?c = (Inr (GCUStreamForId 0 0), ?c)"
    using getCurrentGCUStream_current [OF r(1) T ok(2)] ok r by simp
  moreover have "topsStreamIsCapturing ?T 0 d = ((topsSuccess, k), d)" for d
    by (simp add: sim_defs)
  moreover have "?c\<lparr>drv := sim_init\<rparr> = ?c" "drv ?c = sim_init"
    by (simp_all add: ctx_ready_def ctx_init_def)
  ultimately show ?thesis
    using cur has stream_handle_zero [OF r(2)]
    by (simp add: currentStreamCaptureStatus_def sim_capture_env_def sim_gen_env_def act_simps
        currentStreamCaptureStatusMayInitCtx_def call_check_def call_def)
qed

lemma sim_idle: "idle sim_gen_env sim_idle"
proof -
  have "sim_capture_env 0 = sim_gen_env"
    by (simp add: sim_capture_env_def sim_gen_env_def sim_tops_def)
  then show ?thesis using sim_status [where k = 0] by (simp add: idle_def sim_idle_def)
qed

text \<open>A generator with a given seed and offset, and the state after its construction.\<close>

definition sim_generator :: generator where
  "sim_generator = new_generator (default_rng_seed_val sim_gen_env) 0"

definition sim_gens :: "sim gens" where
  "sim_gens = snd (GCUGeneratorImpl sim_gen_env 0 (gens_init (ctx_ready sim_init)))"

lemma sim_gens_run:
  "GCUGeneratorImpl sim_gen_env 0 (gens_init (ctx_ready sim_init)) = (Inr 0, sim_gens)"
  "gheap sim_gens 0 = Some sim_generator" "sim_idle (gctx sim_gens)" "next_gen sim_gens = 1"
proof -
  let ?s = "gens_init (ctx_ready sim_init)"
  have "sim_idle (gctx ?s)" by (simp add: gens_init_def sim_idle_def)
  then obtain c where c: "assertNotCapturing sim_gen_env ?s = (Inr (), ?s\<lparr>gctx := c\<rparr>)" "sim_idle c"
    using assertNotCapturing_idle [OF sim_idle] by blast
  then have r: "GCUGeneratorImpl sim_gen_env 0 ?s =
      (Inr 0, ?s\<lparr>gctx := c, gheap := (\<lambda>_. None)(0 \<mapsto> sim_generator), next_gen := 1\<rparr>)"
    by (simp add: GCUGeneratorImpl_def gnew_def act_simps gens_init_def sim_generator_def)
  show "GCUGeneratorImpl sim_gen_env 0 ?s = (Inr 0, sim_gens)"
    "gheap sim_gens 0 = Some sim_generator" "sim_idle (gctx sim_gens)" "next_gen sim_gens = 1"
    using c(2) by (simp_all add: sim_gens_def r)
qed

section \<open>Properties\<close>

text \<open>C19: whatever methods run on whatever generators, in any order and also when they throw, every
  generator's offsets stay multiples of 4, so that \<^verbatim>\<open>philox_engine_inputs\<close> never fails its
  assertion and returns the seed and the offset.
\<close>

theorem generator_offsets_aligned:
  assumes "(gen_step G)\<^sup>*\<^sup>* (gens_init c) s" and "gheap s g = Some x"
  shows "philox_offset x mod 4 = 0 \<and> offset_intragraph x mod 4 = 0 \<and>
    fst (philox_engine_inputs g n s) = Inr (gen_seed x, philox_offset x)"
proof -
  have "gen_ok x" using gen_steps_ok [OF assms(1)] assms(2) by (simp add: gens_ok_def)
  then show ?thesis
    using assms(2) by (simp add: gen_ok_def philox_engine_inputs_def act_simps gderef_def
        gmodify_def Let_def)
qed

theorem generator_offsets_aligned_witness:
  "philox_offset sim_generator mod 4 = 0 \<and> offset_intragraph sim_generator mod 4 = 0 \<and>
   fst (philox_engine_inputs 0 5 sim_gens) = Inr (gen_seed sim_generator, philox_offset sim_generator)"
proof (rule generator_offsets_aligned [OF _ sim_gens_run(2)])
  show "(gen_step sim_gen_env)\<^sup>*\<^sup>* (gens_init (ctx_ready sim_init)) sim_gens"
    using sim_gens_run(1) by (blast intro: gen_step.intros)
qed

text \<open>C20: a state saved with \<^verbatim>\<open>get_state\<close> and restored with \<^verbatim>\<open>set_state\<close>, in the same generator
  or another one, gives that generator the seed and the offset of the saved one and changes no
  other generator. It succeeds whenever no capture is underway and the offset is a multiple of 4.
\<close>

theorem get_set_state_roundtrip:
  assumes "idle G I" and "I (gctx s)" and "gheap s g = Some x" and "gheap s h = Some y"
    and "philox_offset x mod 4 = 0"
  shows "\<exists>s'. bnd (get_state G g) (set_state G h) s = (Inr (), s') \<and> I (gctx s') \<and>
    gheap s' = (gheap s)(h \<mapsto> y\<lparr>gen_seed := gen_seed x, no_reset_rnn_state := False,
                                   philox_offset := philox_offset x\<rparr>)"
proof -
  obtain c where c: "get_state G g s =
      (Inr (bytes_of (gen_seed x) @ bytes_of (philox_offset x)), s\<lparr>gctx := c\<rparr>)" "I c"
    by (rule get_state_idle [OF assms(1-3)])
  obtain c' where "set_state G h (bytes_of (gen_seed x) @ bytes_of (philox_offset x)) (s\<lparr>gctx := c\<rparr>) =
      (Inr (), s\<lparr>gctx := c', gheap := (gheap s)(h \<mapsto> y\<lparr>gen_seed := gen_seed x,
         no_reset_rnn_state := False, philox_offset := philox_offset x\<rparr>)\<rparr>)" "I c'"
    by (rule set_state_idle [OF assms(1), of "s\<lparr>gctx := c\<rparr>" h y "gen_seed x" "philox_offset x"])
      (use c(2) assms(4,5) in auto)
  with c show ?thesis by (simp add: act_simps)
qed

theorem get_set_state_roundtrip_witness:
  "\<exists>s'. bnd (get_state sim_gen_env 0) (set_state sim_gen_env 0) sim_gens = (Inr (), s') \<and>
     sim_idle (gctx s') \<and>
     gheap s' = (gheap sim_gens)(0 \<mapsto> sim_generator\<lparr>gen_seed := gen_seed sim_generator,
       no_reset_rnn_state := False, philox_offset := philox_offset sim_generator\<rparr>)"
  by (rule get_set_state_roundtrip [OF sim_idle sim_gens_run(3,2,2)])
    (simp add: sim_generator_def new_generator_def)

text \<open>When the restored offset is not a multiple of 4, \<^verbatim>\<open>set_state\<close> throws, but only after it
  has overwritten the seed and reset the offset: the generator is left in a state that is neither
  the old one nor the requested one.
\<close>

theorem set_state_partial_update:
  assumes "idle G I" and "I (gctx s)" and "gheap s g = Some x" and "w mod 4 \<noteq> 0"
  shows "\<exists>s'. set_state G g (bytes_of v @ bytes_of w) s =
      (Inl (TorchCheck ''offset must be a multiple of 4''), s') \<and>
    gheap s' g = Some (x\<lparr>gen_seed := v, philox_offset := 0, no_reset_rnn_state := False\<rparr>)"
proof -
  obtain c where "set_state G g (bytes_of v @ bytes_of w) s =
      (Inl (TorchCheck ''offset must be a multiple of 4''), s\<lparr>gctx := c, gheap := (gheap s)(g \<mapsto>
         x\<lparr>gen_seed := v, philox_offset := 0, no_reset_rnn_state := False\<rparr>)\<rparr>)"
    by (rule set_state_idle [OF assms(1-3), of v w]) (use assms(4) in auto)
  then show ?thesis by simp
qed

theorem set_state_partial_update_witness:
  "\<exists>s'. set_state sim_gen_env 0 (bytes_of 42 @ bytes_of 2) sim_gens =
      (Inl (TorchCheck ''offset must be a multiple of 4''), s') \<and>
    gheap s' 0 = Some (sim_generator\<lparr>gen_seed := 42, philox_offset := 0, no_reset_rnn_state := False\<rparr>)"
  by (rule set_state_partial_update [OF sim_idle sim_gens_run(3,2)]) simp



text \<open>C25: in a capture the increment is checked against the range of the 32-bit offset by a
  subtraction that wraps around, so that an increment above that range passes the check: for
  \<open>2 ^ 32\<close> numbers the offset does not move at all, and the next kernel gets the same range again.
\<close>

theorem philox_capture_wraps:
  assumes "in_gctx (currentStreamCaptureStatus G) s = (Inr status, s1)" and "status \<noteq> 0"
    and "gheap s1 g = Some x" and "graph_expects_this_gen x" and "offset_intragraph x mod 4 = 0"
  shows "philox_gcu_state G g 4294967296 s =
    (Inr (philox_captured (seed_extragraph x) (offset_extragraph x) (offset_intragraph x)), s1)"
proof -
  have le: "(ucast (offset_intragraph x) :: 64 word) \<le> 4294967295 - round4 4294967296"
    by (simp add: round4_def)
  have "ucast (round4 4294967296) = (0 :: 32 word)" by (simp add: round4_def)
  then have "s1\<lparr>gheap := (gheap s1)(g \<mapsto>
      x\<lparr>offset_intragraph := offset_intragraph x + ucast (round4 4294967296)\<rparr>)\<rparr> = s1"
    using assms(3) by (simp add: fun_upd_idem)
  with assms le show ?thesis
    by (simp add: philox_gcu_state_def Let_def act_simps gderef_def gmodify_def)
qed

theorem philox_capture_wraps_witness:
  "\<exists>s1 x. philox_gcu_state (sim_capture_env 1) 0 4294967296
       (snd (capture_prologue 0 100 200 sim_gens)) = (Inr (philox_captured 100 200 0), s1) \<and>
     gheap s1 0 = Some x \<and> offset_intragraph x = 0"
proof -
  let ?x = "sim_generator\<lparr>seed_extragraph := 100, offset_extragraph := 200, offset_intragraph := 0,
      graph_expects_this_gen := True\<rparr>"
  let ?s = "sim_gens\<lparr>gheap := (gheap sim_gens)(0 \<mapsto> ?x)\<rparr>"
  let ?s1 = "?s\<lparr>gctx := (ctx_ready sim_init)\<lparr>device_count_static := Some 2\<rparr>\<rparr>"
  have s: "snd (capture_prologue 0 100 200 sim_gens) = ?s"
    by (simp add: capture_prologue_def gmodify_def sim_gens_run(2))
  have st: "in_gctx (currentStreamCaptureStatus (sim_capture_env 1)) ?s = (Inr 1, ?s1)"
    using sim_status [OF sim_gens_run(3)] by (simp add: in_gctx_def)
  have "philox_gcu_state (sim_capture_env 1) 0 4294967296 ?s =
      (Inr (philox_captured (seed_extragraph ?x) (offset_extragraph ?x) (offset_intragraph ?x)), ?s1)"
    by (rule philox_capture_wraps [OF st]) simp_all
  then show ?thesis using s by simp
qed

end
