(* ===== verification/AllocProps.thy ===== *)
theory AllocProps
  imports AllocClient NativeProps GenProps
begin

text \<open>
  What the caching allocator promises its clients: in every state that operations can lead to,
  blocks do not overlap and lie in live memory, the statistics are the sums they stand for, and
  \<open>malloc\<close> and \<open>free\<close> end in a fit block or one of the documented errors.
\<close>

section \<open>The states that are reached\<close>

text \<open>
  A step is an allowed operation that returns or throws anything but an error code of the runtime.
\<close>

inductive dca_step :: "'d env \<Rightarrow> int \<Rightarrow> 'd dca \<Rightarrow> 'd dca \<Rightarrow> bool" for E n where
  returns: "dca_allowed n op s \<Longrightarrow> dca_run E op s = (Inr (), s') \<Longrightarrow> dca_step E n s s'"
| throws: "dca_allowed n op s \<Longrightarrow> dca_run E op s = (Inl e, s') \<Longrightarrow> \<not> gcu_error e \<Longrightarrow> dca_step E n s s'"

lemma dca_step_inv:
  assumes E: "good_env E live cur n" and I: "alloc_inv E live cur n s" and st: "dca_step E n s s'"
  shows "alloc_inv E live cur n s'"
  using st
proof (cases rule: dca_step.cases)
  case (returns op)
  then show ?thesis using wp_dca_run [OF E I returns(1)] by (simp add: wp_def)
next
  case (throws op e)
  then show ?thesis using wp_dca_run [OF E I throws(1)] by (simp add: wp_def)
qed

definition dca_start :: "'d env \<Rightarrow> ('d \<Rightarrow> (addr \<times> nat) set) \<Rightarrow> ('d \<Rightarrow> int) \<Rightarrow> int \<Rightarrow> 'd dca \<Rightarrow> bool" where
  "dca_start E live cur n s \<longleftrightarrow> (\<exists>c x. s = DeviceCachingAllocator c x \<and> ctx_ok cur n x \<and> live_ok (live (drv x)))"

lemma start_inv:
  assumes "dca_start E live cur n s"
  shows "alloc_inv E live cur n s"
proof -
  obtain c x where s: "s = DeviceCachingAllocator c x" and x: "ctx_ok cur n x" "live_ok (live (drv x))"
    using assms by (auto simp: dca_start_def)
  have "parts_ok {} {} (\<lambda>_. None) (\<lambda>_. []) []" by (simp add: parts_ok_def)
  moreover have "heap_ok (\<lambda>_. (0, 0)) L (\<lambda>_. None)" for L by (simp add: heap_ok_def)
  ultimately show ?thesis
    using x unfolding s alloc_inv_def dinv_def DeviceCachingAllocator_def
    by (auto simp: side_ok_def over_ok_def events_ok_def priv_ok_def mem_ok_def acct_ok_def events_there_def
        trace_init_def trace_ok_def ev_count_def BlockPool_def DeviceStats_def Stat_def)
qed

lemma reached_inv:
  assumes E: "good_env E live cur n" and s: "dca_start E live cur n s0" and r: "(dca_step E n)\<^sup>*\<^sup>* s0 s"
  shows "alloc_inv E live cur n s"
  using r by (induction rule: rtranclp_induct) (auto intro: start_inv [OF s] dca_step_inv [OF E])

lemma wp_run: "wp m Q X s \<Longrightarrow> m s = (r, s') \<Longrightarrow> (case r of Inl e \<Rightarrow> X e s' | Inr x \<Rightarrow> Q x s')"
  by (simp add: wp_def)

lemma busy_active:
  assumes "alloc_inv E live cur n s" "heap s b = Some x"
  shows "b \<in> set (active_blocks s) \<longleftrightarrow> busy x" "b \<in> set (blocks_of s pl) \<longleftrightarrow> \<not> busy x \<and> pool x = pl"
proof -
  have D: "dinv E live cur n {} {} (deferred s) s" by (rule alloc_inv_dinv [OF assms(1)])
  then have P: "parts_ok {} {} (heap s) (blocks_of s) (active_blocks s)" by (simp add: dinv_def)
  have "unused x" if "b \<in> set (blocks_of s q)" for q using parts_okD(3) [OF P that] assms(2) by auto
  moreover have "b \<in> set (active_blocks s) \<or> b \<in> set (blocks_of s (pool x))" using parts_okD(9) [OF P assms(2)] by blast
  moreover have "busy x" if "b \<in> set (active_blocks s)" using parts_okD(6) [OF P that] assms(2) by auto
  moreover have "pool x = pl" if "b \<in> set (blocks_of s pl)" using parts_okD(3) [OF P that] assms(2) by auto
  ultimately show "b \<in> set (active_blocks s) \<longleftrightarrow> busy x" "b \<in> set (blocks_of s pl) \<longleftrightarrow> \<not> busy x \<and> pool x = pl"
    using not_busy [of x] by blast+
qed

section \<open>Walks along the links\<close>

text \<open>The address grows along \<open>nxt\<close>, so a walk visits no block twice and ends within the fuel.\<close>

lemma walk_prev_head:
  assumes H: "heap_ok seg L (heap s)" and fin: "finite (dom (heap s))"
  shows "heap s b = Some x \<Longrightarrow> card {c. \<exists>y. heap s c = Some y \<and> ptr y < ptr x} < fuel \<Longrightarrow>
    \<exists>h y. walk_prev fuel b s = (Inr h, s) \<and> heap s h = Some y \<and> prv y = None \<and> seg h = seg b"
proof (induction fuel arbitrary: b x)
  case (Suc fuel)
  show ?case
  proof (cases "prv x")
    case None
    then show ?thesis using Suc.prems(1) by (auto simp: deref_def act_simps)
  next
    case (Some a)
    obtain y where y: "heap s a = Some y" "nxt y = Some b" using heap_okD(3) [OF H Suc.prems(1) Some] by blast
    note less = succ_less [OF H y(1,2) Suc.prems(1)]
    have "{c. \<exists>z. heap s c = Some z \<and> ptr z < ptr y} \<subset> {c. \<exists>z. heap s c = Some z \<and> ptr z < ptr x}"
      (is "?A \<subset> ?B")
    proof
      show "?A \<subseteq> ?B" using less(1) by auto
      have "a \<in> ?B" "a \<notin> ?A" using less(1) y(1) by simp_all
      then show "?A \<noteq> ?B" by blast
    qed
    moreover have "finite {c. \<exists>z. heap s c = Some z \<and> ptr z < ptr x}" by (rule finite_subset [OF _ fin]) auto
    ultimately have "card {c. \<exists>z. heap s c = Some z \<and> ptr z < ptr y} < card {c. \<exists>z. heap s c = Some z \<and> ptr z < ptr x}"
      by (intro psubset_card_mono)
    then have "card {c. \<exists>z. heap s c = Some z \<and> ptr z < ptr y} < fuel" using Suc.prems(2) by linarith
    from Suc.IH [OF y(1) this] have "\<exists>h z. walk_prev fuel a s = (Inr h, s) \<and> heap s h = Some z \<and> prv z = None \<and> seg h = seg a" .
    moreover have "seg b = seg a" using less(2) by (simp add: succ_ok_def)
    moreover have "walk_prev (Suc fuel) b s = walk_prev fuel a s"
      using Suc.prems(1) Some by (simp add: deref_def act_simps)
    ultimately show ?thesis by simp
  qed
qed simp

lemma walk_sizes_segment:
  assumes H: "heap_ok seg L (heap s)" and fin: "finite (dom (heap s))" and L: "live_ok L"
  shows "heap s b = Some x \<Longrightarrow> Suc (card {c. \<exists>y. heap s c = Some y \<and> ptr x \<le> ptr y}) < Suc fuel \<Longrightarrow>
    acc + (fst (seg b) + snd (seg b) - ptr x) < 2 ^ 64 \<Longrightarrow>
    walk_sizes fuel (Some b) acc s = (Inr (acc + (fst (seg b) + snd (seg b) - ptr x)), s)"
proof (induction fuel arbitrary: b x acc)
  case (Suc fuel)
  note node = heap_okD(1) [OF H Suc.prems(1)]
  let ?S = "{c. \<exists>y. heap s c = Some y \<and> ptr x \<le> ptr y}"
  have finS: "finite ?S" by (rule finite_subset [OF _ fin]) auto
  have "b \<in> ?S" using Suc.prems(1) by simp
  then have "0 < card ?S" using finS card_gt_0_iff by blast
  then have fuel: "0 < fuel" using Suc.prems(2) by simp
  have sz: "ptr x + bsize x \<le> fst (seg b) + snd (seg b)" using node by (auto simp: node_ok_def)
  have step: "walk_sizes (Suc fuel) (Some b) acc s = walk_sizes fuel (nxt x) (acc + bsize x) s"
    using Suc.prems(1,3) sz by (simp add: deref_def act_simps add64_small)
  show ?case
  proof (cases "nxt x")
    case None
    have "ptr x + bsize x = fst (seg b) + snd (seg b)" using node None by (auto simp: node_ok_def)
    then show ?thesis using step None fuel by (cases fuel) (simp_all add: act_simps)
  next
    case (Some c)
    obtain y where y: "heap s c = Some y" "succ_ok seg b x c y" using heap_okD(2) [OF H Suc.prems(1) Some] by blast
    note less = succ_less(1) [OF H Suc.prems(1) Some y(1)]
    have "{d. \<exists>z. heap s d = Some z \<and> ptr y \<le> ptr z} \<subset> ?S"
      (is "?A \<subset> _")
    proof
      show "?A \<subseteq> ?S" using less by auto
      have "b \<notin> ?A" using less Suc.prems(1) by simp
      then show "?A \<noteq> ?S" using \<open>b \<in> ?S\<close> by blast
    qed
    then have "card {d. \<exists>z. heap s d = Some z \<and> ptr y \<le> ptr z} < card ?S" using finS psubset_card_mono by blast
    then have card: "Suc (card {d. \<exists>z. heap s d = Some z \<and> ptr y \<le> ptr z}) < Suc fuel" using Suc.prems(2) by simp
    have e: "ptr y = ptr x + bsize x" "seg c = seg b" using y(2) by (simp_all add: succ_ok_def)
    have "acc + bsize x + (fst (seg c) + snd (seg c) - ptr y) < 2 ^ 64" using Suc.prems(3) sz unfolding e by simp
    from Suc.IH [OF y(1) card this] show ?thesis using step Some sz unfolding e by simp
  qed
qed simp

section \<open>A concrete run\<close>

definition sim_dca :: "sim dca" where
  "sim_dca = DeviceCachingAllocator GCUAllocatorConfig (ctx_ready sim_init)"

lemma sim_dca_fields:
  "stats sim_dca = DeviceStats (-1)" "pools sim_dca = (\<lambda>_. BlockPool)" "active_blocks sim_dca = []"
  "captures_underway sim_dca = []" "needs_events_deferred_until_no_capture sim_dca = []" "gcu_events sim_dca = []"
  "set_fraction sim_dca = False" "tracing sim_dca = trace_init" "graph_pools sim_dca = []" "graph_pools_freeable sim_dca = []"
  "oom_observers sim_dca = []" "heap sim_dca = (\<lambda>_. None)" "next_bid sim_dca = 1" "ctx sim_dca = ctx_ready sim_init"
  by (simp_all add: sim_dca_def DeviceCachingAllocator_def max_split_size_def GCUAllocatorConfig_def)

lemma sim_env_fields:
  "runtime sim_env = sim_tops" "llvm sim_env = llvm_ref" "cfg sim_env = GCUAllocatorConfig" "use_default_stream sim_env = True"
  "callbacks sim_env = []" "other_threads sim_env = (\<lambda>s. s)" "max_split sim_env = 18446744073709551615"
  "unat (max_split_size GCUAllocatorConfig) = 18446744073709551615"
  "release_lock_on_topsmalloc (cfg sim_env) = False" "garbage_collection_threshold (cfg sim_env) = 0"
  by (simp_all add: sim_env_def max_split_size_def GCUAllocatorConfig_def release_lock_on_topsmalloc_def garbage_collection_threshold_def
      unsigned_minus_1_eq_mask mask_eq_exp_minus_1)

lemma wp_no_trace: "tracing s = trace_init \<Longrightarrow> wp (record_trace a ad sz str dev) Q X s = Q () s"
proof -
  assume s: "tracing s = trace_init"
  then have "s\<lparr>tracing := trace_init\<rparr> = s" by simp
  moreover have "record_trace a ad sz str dev s = (Inr (), s\<lparr>tracing := trace_init\<rparr>)"
    using s by (simp add: record_trace_def record_entry_def) (simp add: trace_init_def)
  ultimately show ?thesis by (simp add: wp_def)
qed

lemma wp_insert_empty:
  assumes "blocks (pools s pl) = []" "heap s b = Some x" "owner_PrivatePool pl = None"
  shows "wp (insert_into_blocks pl b) Q X s =
    Q True (set_blocks pl [b] (s\<lparr>heap := (heap s)(b \<mapsto> x\<lparr>gc_count_base := get_free_blocks_call_count (pools s pl)\<rparr>)\<rparr>))"
  using assms
  by (simp add: wp_def insert_into_blocks_def act_simps modify_def check_pool_def pool_exists_def)

lemma sim_callbacks: "wp (trigger_free_memory_callbacks sim_env) Q X s = Q False s"
  by (simp add: wp_def trigger_free_memory_callbacks_def sim_env_fields)

lemma sim_round: "round_size llvm_ref GCUAllocatorConfig 1000 = Inr 1024"
proof -
  obtain d where d: "roundup_power2_divisions llvm_ref GCUAllocatorConfig 1000 = Inr d"
    "d = m_roundup_power2_divisions GCUAllocatorConfig ! min (lg (unat (1000 :: 64 word)) - 20) 15"
    by (rule roundup_power2_divisions_ok [OF llvm_spec_ref cfg_ok_default [OF llvm_spec_ref], of 1000]) auto
  have "d = 0" using d(2) by (simp add: GCUAllocatorConfig_def kRoundUpPowerOfTwoIntervals_def  nth_replicate del: replicate.simps)
  then show ?thesis using d(1) by (simp add: round_size_def kMinBlockSize_def)
qed

lemma sim_status_zero: "currentStreamCaptureStatusMayInitCtx sim_tops True (ctx_ready sim_init) = (Inr 0, ctx_ready sim_init)"
proof -
  have ok: "device_ok sim_cur 2 (ctx_ready sim_init)" by (simp add: device_ok_def ctx_ready_def ctx_init_def sim_init_def)
  have e: "effective_device sim_cur (ctx_ready sim_init) = 0" by (simp add: effective_device_def ctx_ready_def ctx_init_def sim_init_def)
  have g: "getCurrentGCUStream sim_tops True (-1) (ctx_ready sim_init) = (Inr (GCUStreamForId 0 0), ctx_ready sim_init)"
    using getCurrentGCUStream_current [OF ctx_ready sim_device_runtime ok, of True] unfolding e by (simp add: ctx_ready_def)
  have u: "kUseGcuDefaultStream (ctx_ready sim_init)" by (simp add: ctx_ready_def ctx_init_def)
  have q: "topsStreamIsCapturing sim_tops 0 = sim_value 0" by (simp add: sim_tops_def)
  show ?thesis
    by (simp add: currentStreamCaptureStatusMayInitCtx_def act_simps g stream_handle_zero [OF u] call_check_def call_def q sim_value_def)
qed

lemma sim_topsMalloc: "topsMallocMaybeCapturing sim_env 2097152 (ctx_ready sim_init) = (Inr (topsSuccess, 4096),
  (ctx_ready sim_init)\<lparr>drv := sim_init\<lparr>sim_live := [(4096, 2097152)]\<rparr>\<rparr>)"
proof -
  have q: "topsMalloc sim_tops = sim_malloc" by (simp add: sim_tops_def)
  have "sim_malloc 2097152 sim_init = ((topsSuccess, 4096), sim_init\<lparr>sim_live := [(4096, 2097152)]\<rparr>)"
    by (simp add: sim_malloc_def sim_init_def sim_top_def)
  then show ?thesis
    by (simp add: topsMallocMaybeCapturing_def sim_env_fields act_simps sim_status_zero call_def q) (simp add: ctx_ready_def ctx_init_def)
qed

lemma sim_alloc_block:
  assumes "p = AllocParams 0 1024 0 small_blocks 2097152"
  shows "wp (alloc_block sim_env p False) (\<lambda>r s. r = (True, p\<lparr>p_block := Some 1\<rparr>) \<and> heap s = [1 \<mapsto> Block 0 0 2097152 small_blocks 4096] \<and>
    next_bid s = 2 \<and> pools s = (\<lambda>_. BlockPool) \<and> active_blocks s = [] \<and> tracing s = trace_init \<and>
    captures_underway s = []) (\<lambda>_ _. False) sim_dca"
proof -
  have err: "wp (in_ctx (bnd (call (topsGetLastError sim_tops)) gcu_check)) Q X sim_dca \<longleftrightarrow> Q () sim_dca" for Q X
    by (simp add: wp_def in_ctx_def act_simps call_def sim_tops_def sim_ok_def sim_dca_fields)
  have mal: "wp (in_ctx (topsMallocMaybeCapturing sim_env 2097152)) Q X sim_dca \<longleftrightarrow>
      Q (topsSuccess, 4096) (sim_dca\<lparr>ctx := (ctx_ready sim_init)\<lparr>drv := sim_init\<lparr>sim_live := [(4096, 2097152)]\<rparr>\<rparr>\<rparr>)" for Q X
    by (simp add: wp_def in_ctx_def sim_topsMalloc sim_dca_fields)
  have p: "alloc_size p = 2097152" "p_pool p = small_blocks" "p_device p = 0" "p_stream p = 0" "p\<lparr>p_err := topsSuccess, p_block := Some 1\<rparr> = p\<lparr>p_block := Some 1\<rparr>"
    by (simp_all add: assms AllocParams_def)
  show ?thesis
    by (simp add: alloc_block_def new_segment_def wp_simps err mal sim_env_fields sim_dca_fields p wp_no_trace
        del: One_nat_def)
qed

lemma sim_malloc_run:
  "wp (malloc sim_env 0 1000 0) (\<lambda>b s. b = 2 \<and> active_blocks s = [2] \<and>
      blocks (pools s small_blocks) = [1] \<and> captures_underway s = [] \<and>
      (\<exists>x. heap s 1 = Some x \<and> bsize x = 2096128 \<and> b_stream x = 0) \<and> (\<exists>x. heap s 2 = Some x \<and> allocated x \<and> bsize x = 1024))
      (\<lambda>_ _. False) sim_dca"
proof -
  let ?p = "AllocParams 0 1024 0 small_blocks 2097152"
  have pe: "wp (process_events sim_env) Q X sim_dca \<longleftrightarrow> Q () sim_dca" for Q X
    by (simp add: process_events_def insert_events_deferred_until_no_capture_def wp_simps sim_dca_fields)
  have gs: "unat (get_allocation_size 1024) = 2097152" by (simp add: get_allocation_size_spec alloc_spec_def)
  have gp: "wp (get_pool 1024 0) Q X sim_dca \<longleftrightarrow> Q small_blocks sim_dca" for Q X
    by (simp add: get_pool_def wp_simps sim_dca_fields kSmallSize_def)
  have find: "wp (find_block sim_env ?p) Q X sim_dca \<longleftrightarrow> Q (False, ?p) sim_dca" for Q X
    by (simp add: find_block_def wp_or_else get_free_block_def wp_simps sim_dca_fields sim_env_fields check_pool_def
        pool_exists_def AllocParams_def BlockPool_def lower_bound_def sim_callbacks)
  let ?fb = "\<lambda>b s. b = 2 \<and> active_blocks s = [2] \<and> blocks (pools s small_blocks) = [1] \<and> captures_underway s = [] \<and>
      (\<exists>x. heap s 1 = Some x \<and> bsize x = 2096128 \<and> b_stream x = 0) \<and> (\<exists>x. heap s 2 = Some x \<and> allocated x \<and> bsize x = 1024)"
  have fin: "wp (bnd (deref 1) (\<lambda>x. alloc_found_block sim_env (?p\<lparr>p_block := Some 1\<rparr>) 1000 (should_split sim_env x 1024)))
     ?fb (\<lambda>_ _. False) s"
    if s: "heap s = [1 \<mapsto> Block 0 0 2097152 small_blocks 4096]" "next_bid s = 2" "pools s = (\<lambda>_. BlockPool)"
      "active_blocks s = []" "tracing s = trace_init" "captures_underway s = []" for s :: "sim dca"
    using s
    by (simp add: wp_simps should_split_def Let_def Block_def sub64_small kMinBlockSize_def alloc_found_block_def AllocParams_def
        split_block_def is_split_def add64_small wp_insert_empty BlockPool_def wp_no_trace
        set_blocks_def sim_env_fields del: One_nat_def)
  show ?thesis
    by (simp add: malloc_def wp_simps sim_dca_fields pe sim_env_fields wp_lift_exc sim_round Let_def gp gs
        obtain_block_def wp_or_else find) (rule wp_mono [OF sim_alloc_block [OF refl]], use fin in auto)
qed

lemma sim_malloc_result:
  obtains s x y where "malloc sim_env 0 1000 0 sim_dca = (Inr 2, s)" "active_blocks s = [2]"
    "blocks (pools s small_blocks) = [1]" "captures_underway s = []"
    "heap s 1 = Some x" "bsize x = 2096128" "b_stream x = 0" "heap s 2 = Some y" "allocated y" "bsize y = 1024"
proof -
  obtain r s where run: "malloc sim_env 0 1000 0 sim_dca = (r, s)" by fastforce
  show ?thesis using wp_run [OF sim_malloc_run run] run that by (cases r) auto
qed

lemma sim_good_env: "good_env sim_env (\<lambda>d. set (sim_live d)) sim_cur 2"
  using cfg_ok_default [OF llvm_spec_ref]
  by (simp add: good_env_def sim_good llvm_spec_ref sim_env_fields rely_def)

lemma sim_dca_start: "dca_start sim_env (\<lambda>d. set (sim_live d)) sim_cur 2 sim_dca"
proof -
  have "ctx_ok sim_cur 2 (ctx_ready sim_init)"
    using ctx_ready by (simp add: ctx_ok_def device_ok_def ctx_ready_def ctx_init_def sim_init_def valid_stream_id_def)
  moreover have "live_ok (set (sim_live (drv (ctx_ready sim_init))))"
    by (simp add: live_ok_def ctx_ready_def ctx_init_def sim_init_def)
  ultimately show ?thesis unfolding dca_start_def sim_dca_def by blast
qed

lemma sim_malloc_step: "malloc sim_env 0 1000 0 sim_dca = (Inr b, s) \<Longrightarrow> (dca_step sim_env 2)\<^sup>*\<^sup>* sim_dca s"
  by (rule r_into_rtranclp, rule dca_step.returns [where op = "op_malloc 0 1000 0"])
    (simp_all add: dca_allowed_def dca_run_def act_simps)

section \<open>Properties\<close>



text \<open>C5: in every reached state a block is active exactly when it is in use or waits for events or
  streams, and otherwise in the set of its pool; those sets are ordered by stream, size and
  address, and no two neighbours of a segment are both free.
\<close>

theorem reached_pools_exact:
  assumes "good_env E live cur n" and "dca_start E live cur n s0" and "(dca_step E n)\<^sup>*\<^sup>* s0 s"
  shows "(\<forall>b x. heap s b = Some x \<longrightarrow>
       (b \<in> set (active_blocks s) \<longleftrightarrow> allocated x \<or> 0 < event_count x \<or> stream_uses x \<noteq> []) \<and>
       (\<forall>pl. b \<in> set (blocks (pools s pl)) \<longleftrightarrow>
          \<not> (allocated x \<or> 0 < event_count x \<or> stream_uses x \<noteq> []) \<and> pool x = pl)) \<and>
     (\<forall>pl. sorted_wrt BlockComparatorSize (map (\<lambda>b. key (the (heap s b))) (blocks (pools s pl)))) \<and>
     (\<forall>b x c. heap s b = Some x \<and> nxt x = Some c \<longrightarrow> b \<in> set (active_blocks s) \<or> c \<in> set (active_blocks s))"
proof -
  have I: "alloc_inv E live cur n s" by (rule reached_inv [OF assms])
  then have P: "parts_ok {} {} (heap s) (blocks_of s) (active_blocks s)" by (simp add: alloc_inv_def dinv_def)
  show ?thesis
    using busy_active [OF I] parts_okD(2,10) [OF P] unfolding busy_def by blast
qed

theorem reached_pools_exact_witness:
  "\<exists>s x. malloc sim_env 0 1000 0 sim_dca = (Inr 2, s) \<and> heap s 1 = Some x \<and>
    1 \<in> set (blocks (pools s small_blocks)) \<and> \<not> (allocated x \<or> 0 < event_count x \<or> stream_uses x \<noteq> []) \<and> pool x = small_blocks"
proof (rule sim_malloc_result)
  fix s x assume s: "malloc sim_env 0 1000 0 sim_dca = (Inr 2, s)" "heap s 1 = Some x" "blocks (pools s small_blocks) = [1]"
  note D = reached_pools_exact [OF sim_good_env sim_dca_start sim_malloc_step [OF s(1)]]
  have "1 \<in> set (blocks (pools s small_blocks))" using s(3) by simp
  then have "\<not> (allocated x \<or> 0 < event_count x \<or> stream_uses x \<noteq> []) \<and> pool x = small_blocks"
    using conjunct1 [OF D] s(2) by blast
  then show ?thesis using s by auto
qed







text \<open>C3: in a reached state \<^verbatim>\<open>free\<close> of a block in use throws nothing but error codes of the runtime:
  no freed block is touched, no assertion fails and no loop runs out of fuel.
\<close>

theorem free_only_runtime_errors:
  assumes "good_env E live cur n" and "dca_start E live cur n s0" and "(dca_step E n)\<^sup>*\<^sup>* s0 s"
    and "heap s b = Some x" and "allocated x"
  shows "(\<exists>s'. free E b s = (Inr (), s') \<and> (dca_step E n)\<^sup>*\<^sup>* s0 s') \<or>
    (\<exists>err s'. free E b s = (Inl (GcuError err), s'))"
proof -
  obtain r s' where run: "free E b s = (r, s')" by fastforce
  have "wp (free E b) (\<lambda>_ _. True) (\<lambda>e _. gcu_error e) s"
    by (rule wp_free [OF good_envD(1) [OF assms(1)] _ reached_inv [OF assms(1-3)] assms(4,5)]) simp_all
  note w = wp_run [OF this run]
  show ?thesis
  proof (cases r)
    case (Inl e)
    then show ?thesis using w run by (auto simp: gcu_error_def)
  next
    case (Inr u)
    have "dca_step E n s s'"
      by (rule dca_step.returns [where op = "op_free b"]) (use assms(4,5) run Inr in \<open>simp_all add: dca_allowed_def dca_run_def\<close>)
    then have "(dca_step E n)\<^sup>*\<^sup>* s0 s'" using assms(3) by (rule rtranclp.rtrancl_into_rtrancl [rotated])
    then show ?thesis using run Inr by simp
  qed
qed

theorem free_only_runtime_errors_witness:
  "\<exists>s. malloc sim_env 0 1000 0 sim_dca = (Inr 2, s) \<and>
    ((\<exists>s'. free sim_env 2 s = (Inr (), s')) \<or> (\<exists>err s'. free sim_env 2 s = (Inl (GcuError err), s')))"
proof (rule sim_malloc_result)
  fix s y assume s: "malloc sim_env 0 1000 0 sim_dca = (Inr 2, s)" "heap s 2 = Some y" "allocated y"
  from free_only_runtime_errors [OF sim_good_env sim_dca_start sim_malloc_step [OF s(1)] s(2,3)] s(1)
  show ?thesis by blast
qed



text \<open>C8: \<open>get_free_block\<close> is best fit: the block it takes is in the pool that was asked for, on the
  stream, large enough, and no larger than any other such block; it leaves the others in place.
\<close>

theorem get_free_block_best_fit:
  assumes "alloc_inv E live cur n s" and "request_ok s p"
    and "get_free_block E p s = (Inr (True, p'), s')"
  shows "\<exists>b x. p_block p' = Some b \<and> heap s b = Some x \<and> b \<in> set (blocks (pools s (p_pool p))) \<and>
     b_stream x = p_stream p \<and> p_size p \<le> bsize x \<and>
     set (blocks (pools s' (p_pool p))) = set (blocks (pools s (p_pool p))) - {b} \<and>
     (\<forall>c y. c \<in> set (blocks (pools s (p_pool p))) \<and> heap s c = Some y \<and> b_stream y = p_stream p \<and>
        p_size p \<le> bsize y \<longrightarrow> bsize x \<le> bsize y)"
proof -
  let ?pl = "p_pool p" and ?bs = "blocks_of s (p_pool p)"
  define it where "it = lower_bound BlockComparatorSize (key_of s) (p_stream p, p_size p, 0) ?bs"
  have D: "dinv E live cur n {} {} (deferred s) s" by (rule alloc_inv_dinv [OF assms(1)])
  then have P: "parts_ok {} {} (heap s) (blocks_of s) (active_blocks s)" by (simp add: dinv_def)
  have srt: "sorted_wrt BlockComparatorSize (map (key_of s) ?bs)"
    using parts_okD(2) [OF P, of ?pl] by (simp add: key_of_def [abs_def])
  let ?s1 = "s\<lparr>pools := (pools s)(?pl := (pools s ?pl)
                 \<lparr>get_free_blocks_call_count := get_free_blocks_call_count (pools s ?pl) + 1\<rparr>)\<rparr>"
  have keys: "key_of ?s1 = key_of s" by (simp add: key_of_def fun_eq_iff)
  let ?Q = "\<lambda>r t. fst r \<longrightarrow> (\<exists>b more x. it = b # more \<and> p_block (snd r) = Some b \<and> heap s b = Some x \<and>
      b_stream x = p_stream p \<and> set (blocks_of t ?pl) = set ?bs - {b})"
  have D1: "dinv E live cur n {} {} (deferred s) ?s1" by (rule dinv_same_blocks [OF D]) simp
  note ck = dinv_check_pool [OF D request_pool [OF D assms(2)]] dinv_check_pool [OF D1, of ?pl]
  have ex1: "pool_exists ?s1 ?pl" using request_pool [OF D assms(2)] by (auto simp: pool_exists_def split: option.splits)
  have dist: "distinct ?bs" by (rule pool_distinct [OF P])
  have "wp (get_free_block E p) ?Q (\<lambda>_ _. True) s"
  proof (cases it)
    case Nil
    then show ?thesis
      unfolding get_free_block_def by (simp add: wp_simps ck ck(2) [OF ex1] keys it_def [symmetric])
  next
    case (Cons b more)
    then have "b \<in> set it" by simp
    then have b: "b \<in> set ?bs" unfolding it_def by (rule subsetD [OF lower_bound_subset])
    obtain x where x: "heap s b = Some x" using parts_okD(3) [OF P b] by blast
    show ?thesis
      unfolding get_free_block_def using Cons x dist
      by (auto simp: wp_simps ck ck(2) [OF ex1] keys it_def [symmetric] set_blocks_def)
  qed
  from wp_run [OF this assms(3)] obtain b more x where it: "it = b # more" "p_block p' = Some b"
    and x: "heap s b = Some x" "b_stream x = p_stream p" and t: "set (blocks_of s' ?pl) = set ?bs - {b}" by auto
  have b: "b \<in> set ?bs"
    using it(1) lower_bound_subset [of BlockComparatorSize "key_of s" "(p_stream p, p_size p, 0)" ?bs] unfolding it_def by auto
  have ge: "\<not> BlockComparatorSize (key_of s b) (p_stream p, p_size p, 0)"
    using it(1) unfolding it_def lower_bound_def by (metis (no_types, lifting) hd_dropWhile list.discI list.sel(1))
  then have "p_size p \<le> bsize x" using x by (auto simp: key_of_def key_def split: if_splits)
  moreover have "bsize x \<le> bsize y" if c: "c \<in> set ?bs" "heap s c = Some y" "b_stream y = p_stream p" "p_size p \<le> bsize y" for c y
  proof -
    have "\<not> BlockComparatorSize (key_of s c) (p_stream p, p_size p, 0)"
      using c by (simp add: key_of_def key_def)
    then have "c = b \<or> BlockComparatorSize (key_of s b) (key_of s c)"
      by (rule block_order.lower_bound_hd_least [OF srt it(1) [unfolded it_def] c(1)])
    then show ?thesis using x c by (auto simp: key_of_def key_def split: if_splits)
  qed
  ultimately show ?thesis using it x t b by blast
qed

theorem get_free_block_best_fit_witness:
  "\<exists>s p' s' b x. malloc sim_env 0 1000 0 sim_dca = (Inr 2, s) \<and>
    get_free_block sim_env (AllocParams 0 512 0 small_blocks 2097152) s = (Inr (True, p'), s') \<and>
    p_block p' = Some b \<and> heap s b = Some x \<and> 512 \<le> bsize x"
proof (rule sim_malloc_result)
  fix s x assume s: "malloc sim_env 0 1000 0 sim_dca = (Inr 2, s)" "blocks (pools s small_blocks) = [1]"
    "heap s 1 = Some x" "bsize x = 2096128" "b_stream x = 0"
  let ?p = "AllocParams 0 512 0 small_blocks 2097152"
  have p: "request_ok s ?p" by (simp add: request_ok_def AllocParams_def alloc_spec_def kSmallSize_def)
  have "\<exists>p' s'. get_free_block sim_env ?p s = (Inr (True, p'), s')"
    using s by (simp add: get_free_block_def act_simps sim_env_fields AllocParams_def check_pool_def pool_exists_def
        lower_bound_def key_of_def key_def deref_def)
  then obtain p' s' where run: "get_free_block sim_env ?p s = (Inr (True, p'), s')" by blast
  from get_free_block_best_fit [OF reached_inv [OF sim_good_env sim_dca_start sim_malloc_step [OF s(1)]] p run] run s(1)
  show ?thesis by (auto simp: AllocParams_def)
qed

text \<open>C9: \<^verbatim>\<open>getBaseAllocation\<close> of a block of a reached state ends, changes nothing, and returns the
  device allocation that the block lies in: neither walk along the links is cyclic, and the sum
  of the sizes of the blocks is the size of the allocation.
\<close>

theorem getBaseAllocation_ends_in_segment:
  assumes "good_env E live cur n" and "dca_start E live cur n s0" and "(dca_step E n)\<^sup>*\<^sup>* s0 s"
    and "heap s b = Some x"
  shows "\<exists>p m. getBaseAllocation b s = (Inr (p, m), s) \<and> (p, m) \<in> live (drv (ctx s)) \<and>
    p \<le> ptr x \<and> ptr x + bsize x \<le> p + m"
proof -
  have D: "dinv E live cur n {} {} (deferred s) s" by (rule alloc_inv_dinv [OF reached_inv [OF assms(1-3)]])
  note fin = dinv_heap_finite [OF D]
  obtain seg where H: "heap_ok seg (live (drv (ctx s))) (heap s)" and L: "live_ok (live (drv (ctx s)))"
    and dom: "dom (heap s) \<subseteq> {..<next_bid s}" using D by (auto simp: dinv_def side_ok_def)
  have few: "card A \<le> next_bid s" if "A \<subseteq> dom (heap s)" for A
    using card_mono [of "{..<next_bid s}" A] dom that by auto
  have "card {c. \<exists>y. heap s c = Some y \<and> ptr y < ptr x} \<le> next_bid s" by (rule few) auto
  then have "card {c. \<exists>y. heap s c = Some y \<and> ptr y < ptr x} < next_bid s + 1" by simp
  from walk_prev_head [OF H fin assms(4) this] obtain h y where
    h: "walk_prev (next_bid s + 1) b s = (Inr h, s)" "heap s h = Some y" "prv y = None" "seg h = seg b" by blast
  have node: "node_ok seg (live (drv (ctx s))) b x" "node_ok seg (live (drv (ctx s))) h y"
    by (rule heap_okD(1) [OF H assms(4)], rule heap_okD(1) [OF H h(2)])
  have base: "ptr y = fst (seg b)" using node(2) h(3,4) by (auto simp: node_ok_def)
  have mem: "(fst (seg b), snd (seg b)) \<in> live (drv (ctx s))" using node(1) by (simp add: node_ok_def)
  then have "fst (seg b) + snd (seg b) < 2 ^ 64" using L unfolding live_ok_def by blast
  moreover have "card {c. \<exists>z. heap s c = Some z \<and> ptr y \<le> ptr z} \<le> next_bid s" by (rule few) auto
  ultimately have "walk_sizes (next_bid s + 2) (Some h) 0 s = (Inr (snd (seg b)), s)"
    using walk_sizes_segment [OF H fin L h(2), of "next_bid s + 2" 0] h(4) base by simp
  then have "getBaseAllocation b s = (Inr (fst (seg b), snd (seg b)), s)"
    using h(1,2) base unfolding getBaseAllocation_def by (simp add: act_simps deref_def del: walk_prev.simps walk_sizes.simps)
  moreover have "fst (seg b) \<le> ptr x" "ptr x + bsize x \<le> fst (seg b) + snd (seg b)"
    using node(1) by (simp_all add: node_ok_def)
  ultimately show ?thesis using mem by blast
qed

theorem getBaseAllocation_ends_in_segment_witness:
  "\<exists>s x p m. malloc sim_env 0 1000 0 sim_dca = (Inr 2, s) \<and> heap s 2 = Some x \<and>
    getBaseAllocation 2 s = (Inr (p, m), s) \<and> p \<le> ptr x"
proof (rule sim_malloc_result)
  fix s y assume s: "malloc sim_env 0 1000 0 sim_dca = (Inr 2, s)" "heap s 2 = Some y"
  from getBaseAllocation_ends_in_segment [OF sim_good_env sim_dca_start sim_malloc_step [OF s(1)] s(2)] s
  show ?thesis by blast
qed

end
