(* ===== verification/SnapshotProps.thy ===== *)
theory SnapshotProps
  imports AllocSnapshot AllocProps "HOL-Library.Multiset"
begin

text \<open>
  What the reports of the allocator promise: a snapshot describes the memory exactly, and a checkpoint
  lists every block of its pool; and what a checkpoint forgets. A walk along the links of a head visits
  the blocks of its segment, each once, and the heads are one for each segment; so sums over the walks
  are sums over all blocks, which the invariant relates to the statistics.
\<close>

section \<open>The blocks of a segment\<close>

fun links :: "nat \<Rightarrow> (bid \<Rightarrow> block option) \<Rightarrow> bid option \<Rightarrow> bid list" where
  "links 0 h b = []"
| "links (Suc fuel) h None = []"
| "links (Suc fuel) h (Some b) = b # links fuel h (case h b of None \<Rightarrow> None | Some x \<Rightarrow> nxt x)"

definition rest_of :: "(bid \<Rightarrow> addr \<times> nat) \<Rightarrow> (bid \<Rightarrow> block option) \<Rightarrow> bid \<Rightarrow> bid set" where
  "rest_of seg h b = {c. \<exists>y. h c = Some y \<and> seg c = seg b \<and> ptr (the (h b)) \<le> ptr y}"

lemma rest_of_head:
  assumes H: "heap_ok seg L h" and b: "h b = Some x" "prv x = None"
  shows "rest_of seg h b = {c. \<exists>y. h c = Some y \<and> seg c = seg b}"
proof -
  have "ptr x = fst (seg b)" using heap_okD(1) [OF H b(1)] b(2) by (simp add: node_ok_def)
  moreover have "fst (seg c) \<le> ptr y" if "h c = Some y" for c y using heap_okD(1) [OF H that] by (simp add: node_ok_def)
  ultimately show ?thesis using b(1) by (force simp: rest_of_def)
qed

lemma same_segment_after:
  assumes H: "heap_ok seg L h" and b: "h b = Some x" and c: "h c = Some y" "c \<noteq> b" "ptr x \<le> ptr y"
  shows "ptr x + bsize x \<le> ptr y"
proof (rule ccontr)
  assume "\<not> ?thesis"
  then have "ptr y \<in> range_of x" using c(3) by (simp add: range_of_def)
  moreover have "ptr y \<in> range_of y" using heap_okD(1) [OF H c(1)] by (simp add: range_of_def node_ok_def)
  ultimately show False using heap_okD(4) [OF H b c(1)] c(2) by blast
qed

lemma rest_of_step:
  assumes H: "heap_ok seg L h" and b: "h b = Some x"
  shows "nxt x = None \<Longrightarrow> rest_of seg h b = {b}"
    and "nxt x = Some c \<Longrightarrow> rest_of seg h b = insert b (rest_of seg h c) \<and> b \<notin> rest_of seg h c"
proof -
  note node = heap_okD(1) [OF H b]
  have after: "d = b \<or> ptr x + bsize x \<le> ptr z" if "h d = Some z" "ptr x \<le> ptr z" for d z
    using same_segment_after [OF H b that(1) _ that(2)] by blast
  {
    assume "nxt x = None"
    then have e: "ptr x + bsize x = fst (seg b) + snd (seg b)" using node by (simp add: node_ok_def)
    have "d = b" if d: "h d = Some z" "seg d = seg b" "ptr x \<le> ptr z" for d z
      using after [OF d(1,3)] heap_okD(1) [OF H d(1)] d(2) e by (auto simp: node_ok_def)
    then show "rest_of seg h b = {b}" using b by (auto simp: rest_of_def)
  }
  assume "nxt x = Some c"
  then obtain y where y: "h c = Some y" "succ_ok seg b x c y" using heap_okD(2) [OF H b] by blast
  then have e: "ptr y = ptr x + bsize x" "seg c = seg b" "0 < bsize x" using node by (simp_all add: succ_ok_def node_ok_def)
  show "rest_of seg h b = insert b (rest_of seg h c) \<and> b \<notin> rest_of seg h c"
    using after b y(1) e by (fastforce simp: rest_of_def)
qed

lemma links_rest:
  assumes H: "heap_ok seg L h" and fin: "finite (dom h)"
  shows "h b = Some x \<Longrightarrow> card (rest_of seg h b) < fuel \<Longrightarrow>
    set (links fuel h (Some b)) = rest_of seg h b \<and> distinct (links fuel h (Some b)) \<and> length (links fuel h (Some b)) < fuel"
proof (induction fuel arbitrary: b x)
  case (Suc fuel)
  have finS: "finite (rest_of seg h b)" by (rule finite_subset [OF _ fin]) (auto simp: rest_of_def)
  have "b \<in> rest_of seg h b" using Suc.prems(1) by (simp add: rest_of_def)
  then have pos: "0 < card (rest_of seg h b)" using finS card_gt_0_iff by blast
  show ?case
  proof (cases "nxt x")
    case None
    then show ?thesis using Suc.prems rest_of_step(1) [OF H Suc.prems(1) None] pos
      by (cases fuel) auto
  next
    case (Some c)
    obtain y where y: "h c = Some y" using heap_okD(2) [OF H Suc.prems(1) Some] by blast
    note step = rest_of_step(2) [OF H Suc.prems(1) Some]
    have finC: "finite (rest_of seg h c)" by (rule finite_subset [OF _ fin]) (auto simp: rest_of_def)
    have "card (rest_of seg h c) < fuel" using Suc.prems(2) step finC by auto
    from Suc.IH [OF y this] show ?thesis using step Some Suc.prems(1) by auto
  qed
qed simp

lemma segment_blocks_links:
  assumes H: "heap_ok seg L (heap s)" and fin: "finite (dom (heap s))"
  shows "heap s b = Some x \<Longrightarrow> card (rest_of seg (heap s) b) < fuel \<Longrightarrow>
    segment_blocks fuel (Some b) si s = (Inr (fold add_block (map (\<lambda>c. the (heap s c)) (links fuel (heap s) (Some b))) si), s)"
proof (induction fuel arbitrary: b x si)
  case (Suc fuel)
  have finS: "finite (rest_of seg (heap s) b)" by (rule finite_subset [OF _ fin]) (auto simp: rest_of_def)
  show ?case
  proof (cases "nxt x")
    case None
    then show ?thesis using Suc.prems rest_of_step(1) [OF H Suc.prems(1) None]
      by (cases fuel) (auto simp: deref_def act_simps)
  next
    case (Some c)
    obtain y where y: "heap s c = Some y" using heap_okD(2) [OF H Suc.prems(1) Some] by blast
    note step = rest_of_step(2) [OF H Suc.prems(1) Some]
    have "finite (rest_of seg (heap s) c)" by (rule finite_subset [OF _ fin]) (auto simp: rest_of_def)
    then have "card (rest_of seg (heap s) c) < fuel" using Suc.prems(2) step by auto
    from Suc.IH [OF y this, of "add_block x si"] show ?thesis using Some Suc.prems(1) by (simp add: deref_def act_simps)
  qed
qed simp

text \<open>The numbers of a report.\<close>

lemma add_block_fields:
  "si_address (add_block x si) = si_address si"
  "si_total_size (add_block x si) = si_total_size si + word_of_nat (bsize x)"
  "si_allocated_size (add_block x si) = si_allocated_size si + (if allocated x then word_of_nat (bsize x) else 0)"
  "si_active_size (add_block x si) = si_active_size si + (if busy x then word_of_nat (bsize x) else 0)"
  "si_requested_size (add_block x si) = si_requested_size si + (if busy x then word_of_nat (requested_size x) else 0)"
  by (simp_all add: add_block_def Let_def busy_def)

lemma fold_add_block:
  "si_address (fold add_block xs si) = si_address si"
  "si_total_size (fold add_block xs si) = si_total_size si + sum_list (map (\<lambda>x. word_of_nat (bsize x)) xs)"
  "si_allocated_size (fold add_block xs si) = si_allocated_size si + sum_list (map (\<lambda>x. if allocated x then word_of_nat (bsize x) else 0) xs)"
  "si_active_size (fold add_block xs si) = si_active_size si + sum_list (map (\<lambda>x. if busy x then word_of_nat (bsize x) else 0) xs)"
  "si_requested_size (fold add_block xs si) = si_requested_size si + sum_list (map (\<lambda>x. if busy x then word_of_nat (requested_size x) else 0) xs)"
  by (induction xs arbitrary: si) (simp_all add: add_block_fields add.assoc)

section \<open>The heads\<close>

definition is_head :: "'d dca \<Rightarrow> bid \<Rightarrow> bool" where
  "is_head s b \<longleftrightarrow> prv (the (heap s b)) = None"

definition segment_report :: "'d dca \<Rightarrow> bid \<Rightarrow> segment_info" where
  "segment_report s b = fold add_block (map (\<lambda>c. the (heap s c)) (links (next_bid s + 2) (heap s) (Some b)))
     (SegmentInfo (owner_id s (pool (the (heap s b)))) (the (heap s b)))"

lemma dinv_facts:
  assumes "dinv E live cur n {} {} D s"
  obtains seg where "heap_ok seg (live (drv (ctx s))) (heap s)" "finite (dom (heap s))" "live_ok (live (drv (ctx s)))"
    "\<And>A. A \<subseteq> dom (heap s) \<Longrightarrow> card A < next_bid s + 2" "\<And>b x. heap s b = Some x \<Longrightarrow> pool_exists s (pool x)"
    "parts_ok {} {} (heap s) (blocks_of s) (active_blocks s)" "distinct (map fst (graph_pools s))"
proof -
  have dom: "dom (heap s) \<subseteq> {..<next_bid s}" using assms by (simp add: dinv_def side_ok_def)
  have few: "card A < next_bid s + 2" if "A \<subseteq> dom (heap s)" for A
    using card_mono [OF finite_lessThan order_trans [OF that dom]] by simp
  have pr: "priv_ok (heap s) (graph_pools s)" using assms by (simp add: dinv_def)
  have ex: "pool_exists s (pool x)" if "heap s b = Some x" for b x
    using pr that unfolding priv_ok_def pool_exists_def by (auto split: option.splits)
  show thesis
    using that few ex dinv_heap_finite [OF assms] assms pr by (auto simp: dinv_def side_ok_def priv_ok_def)
qed

lemma dinv_card:
  assumes "dinv E live cur n {} {} D s" "A \<subseteq> dom (heap s)"
  shows "card A < next_bid s + 2"
  using dinv_facts [OF assms(1)] assms(2) by metis

lemma collect_segments_reports:
  assumes D: "dinv E live cur n {} {} D s"
  shows "set bs \<subseteq> dom (heap s) \<Longrightarrow> collect_segments bs s = (Inr (map (segment_report s) (filter (is_head s) bs)), s)"
proof (induction bs)
  case Nil
  show ?case by (simp add: act_simps)
next
  case (Cons b bs)
  obtain seg where H: "heap_ok seg (live (drv (ctx s))) (heap s)" and fin: "finite (dom (heap s))"
    and few: "\<And>A. A \<subseteq> dom (heap s) \<Longrightarrow> card A < next_bid s + 2"
    and ex: "\<And>b x. heap s b = Some x \<Longrightarrow> pool_exists s (pool x)"
    using dinv_facts [OF D] by metis
  obtain x where x: "heap s b = Some x" using Cons.prems by auto
  have "rest_of seg (heap s) b \<subseteq> dom (heap s)" by (auto simp: rest_of_def)
  note walk = segment_blocks_links [OF H fin x few [OF this]]
  have ih: "collect_segments bs s = (Inr (map (segment_report s) (filter (is_head s) bs)), s)"
    using Cons.IH Cons.prems by simp
  show ?case
    using x ex [OF x] ih walk
    by (simp add: deref_def act_simps is_head_def [of s b] segment_report_def [of s b] del: segment_blocks.simps links.simps)
qed

text \<open>Lists whose elements know their owner are disjoint.\<close>

lemma distinct_concat_owned:
  assumes "\<And>i. distinct (f i)" and "\<And>b i. b \<in> set (f i) \<Longrightarrow> own b = Some i"
  shows "distinct (map fst xs) \<Longrightarrow> distinct (concat (map (\<lambda>(i, _). f i) xs))"
proof (induction xs)
  case (Cons a xs)
  have "b \<notin> set (concat (map (\<lambda>(i, _). f i) xs))" if "b \<in> set (f (fst a))" for b
  proof
    assume "b \<in> set (concat (map (\<lambda>(i, _). f i) xs))"
    then obtain i where "b \<in> set (f i)" "i \<in> fst ` set xs" by force
    then show False using assms(2) [of b i] assms(2) [OF that] Cons.prems by simp
  qed
  then have "set (f (fst a)) \<inter> set (concat (map (\<lambda>(i, _). f i) xs)) = {}" by blast
  then show ?case using Cons assms(1) [of "fst a"] by (simp add: case_prod_beta)
qed simp

lemma all_blocks:
  assumes D: "dinv E live cur n {} {} D s"
  shows "set (get_all_blocks s) = dom (heap s)" "distinct (get_all_blocks s)"
proof -
  obtain seg where P: "parts_ok {} {} (heap s) (blocks_of s) (active_blocks s)" and gp: "distinct (map fst (graph_pools s))"
    and ex: "\<And>b x. heap s b = Some x \<Longrightarrow> pool_exists s (pool x)"
    using dinv_facts [OF D] by metis
  let ?priv = "\<lambda>i. blocks_of s (private_small i) @ blocks_of s (private_large i)"
  have priv: "set (concat (map (\<lambda>(i, _). ?priv i) (graph_pools s))) =
      (\<Union>i\<in>fst ` set (graph_pools s). set (blocks_of s (private_small i)) \<union> set (blocks_of s (private_large i)))"
    by (auto simp: case_prod_beta)
  have pooled: "b \<in> set (blocks_of s pl) \<Longrightarrow> \<exists>x. heap s b = Some x \<and> pool x = pl" for b pl
    using parts_okD(3) [OF P] by blast
  have dis: "set (blocks_of s p) \<inter> set (blocks_of s q) = {}" if "p \<noteq> q" for p q
  proof (rule equals0I)
    fix b assume "b \<in> set (blocks_of s p) \<inter> set (blocks_of s q)"
    then show False using pooled [of b p] pooled [of b q] that by auto
  qed
  have act: "set (blocks_of s p) \<inter> set (active_blocks s) = {}" for p using parts_okD(4) [OF P] by blast
  have "b \<in> set (get_all_blocks s)" if "heap s b = Some x" for b x
  proof (cases "b \<in> set (active_blocks s)")
    case False
    then have b: "b \<in> set (blocks_of s (pool x))" using parts_okD(9) [OF P that] by blast
    show ?thesis
    proof (cases "owner_PrivatePool (pool x)")
      case None
      then have "pool x = small_blocks \<or> pool x = large_blocks" by (cases "pool x") auto
      then show ?thesis using b by (auto simp: get_all_blocks_def)
    next
      case (Some i)
      then have "i \<in> fst ` set (graph_pools s)" using ex [OF that] by (force simp: pool_exists_def dest: map_of_SomeD)
      moreover have "pool x = private_small i \<or> pool x = private_large i" using Some by (cases "pool x") auto
      ultimately show ?thesis using b priv unfolding get_all_blocks_def by fastforce
    qed
  qed (simp add: get_all_blocks_def)
  moreover have "b \<in> dom (heap s)" if "b \<in> set (get_all_blocks s)" for b
    using that pooled parts_okD(6) [OF P] unfolding get_all_blocks_def set_append priv by fastforce
  ultimately show "set (get_all_blocks s) = dom (heap s)" by blast
  have one: "distinct (?priv i)" for i
    using pool_distinct [OF P] dis [of "private_small i" "private_large i"] by simp
  let ?own = "\<lambda>b. owner_PrivatePool (pool (the (heap s b)))"
  have own: "?own b = Some i" if "b \<in> set (?priv i)" for b i
    using that pooled [of b "private_small i"] pooled [of b "private_large i"] by auto
  have C: "distinct (concat (map (\<lambda>(i, _). ?priv i) (graph_pools s)))"
    by (rule distinct_concat_owned [OF one own gp])
  let ?C = "concat (map (\<lambda>(i, _). ?priv i) (graph_pools s))"
  have 1: "set (blocks_of s pl) \<inter> set ?C = {}" if "owner_PrivatePool pl = None" for pl
  proof (rule equals0I)
    fix b assume "b \<in> set (blocks_of s pl) \<inter> set ?C"
    then obtain i where "b \<in> set (?priv i)" "b \<in> set (blocks_of s pl)" by force
    then have "?own b = Some i" "b \<in> set (blocks_of s pl)" using own by blast+
    then show False using pooled [of b pl] that by auto
  qed
  have 2: "set ?C \<inter> set (active_blocks s) = {}" unfolding priv using act by blast
  have 3: "distinct (blocks_of s pl)" for pl by (rule pool_distinct [OF P])
  have 4: "set (blocks_of s small_blocks) \<inter> set (blocks_of s large_blocks) = {}" by (rule dis) simp
  have 5: "distinct (?C @ active_blocks s)" using C 2 parts_okD(1) [OF P] by (simp only: distinct_append)
  have 6: "distinct (blocks_of s large_blocks @ ?C @ active_blocks s)"
    unfolding distinct_append [of "blocks_of s large_blocks"] set_append Int_Un_distrib
    using 3 5 1 [of large_blocks] act [of large_blocks] by (simp del: set_concat)
  show "distinct (get_all_blocks s)"
    unfolding get_all_blocks_def distinct_append [of "blocks_of s small_blocks"] set_append Int_Un_distrib
    using 3 6 4 1 [of small_blocks] act [of small_blocks] by (simp del: set_concat distinct_append)
qed

section \<open>The reports of the segments\<close>

lemma links_bytes:
  assumes H: "heap_ok seg L h" and fin: "finite (dom h)"
  shows "h b = Some x \<Longrightarrow> card (rest_of seg h b) < fuel \<Longrightarrow>
    ptr x + sum_list (map (\<lambda>c. bsize (the (h c))) (links fuel h (Some b))) = fst (seg b) + snd (seg b)"
proof (induction fuel arbitrary: b x)
  case (Suc fuel)
  have finS: "finite (rest_of seg h b)" by (rule finite_subset [OF _ fin]) (auto simp: rest_of_def)
  note node = heap_okD(1) [OF H Suc.prems(1)]
  show ?case
  proof (cases "nxt x")
    case None
    then show ?thesis using Suc.prems(1) node by (cases fuel) (simp_all add: node_ok_def)
  next
    case (Some c)
    obtain y where y: "h c = Some y" "succ_ok seg b x c y" using heap_okD(2) [OF H Suc.prems(1) Some] by blast
    note step = rest_of_step(2) [OF H Suc.prems(1) Some]
    have "finite (rest_of seg h c)" by (rule finite_subset [OF _ fin]) (auto simp: rest_of_def)
    then have "card (rest_of seg h c) < fuel" using Suc.prems(2) step by auto
    from Suc.IH [OF y(1) this] show ?thesis using Some Suc.prems(1) y(2) by (simp add: succ_ok_def)
  qed
qed simp

text \<open>The blocks of the segment of \<open>b\<close>, and the sum over them.\<close>

definition class_of :: "(bid \<Rightarrow> addr \<times> nat) \<Rightarrow> (bid \<Rightarrow> block option) \<Rightarrow> bid \<Rightarrow> bid set" where
  "class_of seg h b = {c. \<exists>y. h c = Some y \<and> seg c = seg b}"

lemma sum_list_words:
  "distinct bs \<Longrightarrow> sum_list (map (\<lambda>b. word_of_int (f b) :: 64 word) bs) = word_of_int (\<Sum>b\<in>set bs. f b)"
  by (induction bs) (simp_all add: wi_hom_syms)

lemma report_sums:
  assumes D: "dinv E live cur n {} {} D s" and b: "heap s b = Some x" "prv x = None"
    and H: "heap_ok seg (live (drv (ctx s))) (heap s)"
  shows "si_address (segment_report s b) = word_of_nat (fst (seg b))"
    and "si_total_size (segment_report s b) = word_of_nat (snd (seg b))"
    and "si_total_size (segment_report s b) = word_of_int (\<Sum>c\<in>class_of seg (heap s) b. bytes (the (heap s c)))"
    and "si_allocated_size (segment_report s b) =
      word_of_int (\<Sum>c\<in>class_of seg (heap s) b. if allocated (the (heap s c)) then bytes (the (heap s c)) else 0)"
    and "si_active_size (segment_report s b) =
      word_of_int (\<Sum>c\<in>class_of seg (heap s) b. if busy (the (heap s c)) then bytes (the (heap s c)) else 0)"
    and "si_requested_size (segment_report s b) =
      word_of_int (\<Sum>c\<in>class_of seg (heap s) b. if busy (the (heap s c)) then int (requested_size (the (heap s c))) else 0)"
proof -
  have fin: "finite (dom (heap s))" by (rule dinv_heap_finite [OF D])
  have "class_of seg (heap s) b \<subseteq> dom (heap s)" by (auto simp: class_of_def)
  then have few: "card (rest_of seg (heap s) b) < next_bid s + 2"
    unfolding rest_of_head [OF H b] class_of_def [symmetric] by (rule dinv_card [OF D])
  let ?ls = "links (next_bid s + 2) (heap s) (Some b)"
  have ls: "set ?ls = class_of seg (heap s) b" "distinct ?ls"
    using links_rest [OF H fin b(1) few] rest_of_head [OF H b] by (simp_all add: class_of_def del: links.simps)
  have base: "ptr x = fst (seg b)" using heap_okD(1) [OF H b(1)] b(2) by (simp add: node_ok_def)
  have sum: "sum_list (map (\<lambda>c. word_of_int (f c) :: 64 word) ?ls) = word_of_int (\<Sum>c\<in>class_of seg (heap s) b. f c)" for f
    using sum_list_words [OF ls(2), of f] unfolding ls(1) .
  have nat: "sum_list (map (\<lambda>c. word_of_nat (bsize (the (heap s c))) :: 64 word) ls) =
      word_of_nat (sum_list (map (\<lambda>c. bsize (the (heap s c))) ls))" for ls
    by (induction ls) simp_all
  show "si_address (segment_report s b) = word_of_nat (fst (seg b))"
    by (simp add: segment_report_def fold_add_block SegmentInfo_def b(1) base del: links.simps)
  have tot: "si_total_size (segment_report s b) = sum_list (map (\<lambda>c. word_of_nat (bsize (the (heap s c)))) ?ls)"
    by (simp add: segment_report_def fold_add_block SegmentInfo_def comp_def del: links.simps)
  then show "si_total_size (segment_report s b) = word_of_nat (snd (seg b))"
    using links_bytes [OF H fin b(1) few] base unfolding tot nat by simp
  show "si_total_size (segment_report s b) = word_of_int (\<Sum>c\<in>class_of seg (heap s) b. bytes (the (heap s c)))"
    unfolding tot sum [symmetric] by simp
  have ite: "(if P then word_of_nat k else 0 :: 64 word) = word_of_int (if P then int k else 0)" for P k by simp
  show "si_allocated_size (segment_report s b) =
      word_of_int (\<Sum>c\<in>class_of seg (heap s) b. if allocated (the (heap s c)) then bytes (the (heap s c)) else 0)"
    "si_active_size (segment_report s b) =
      word_of_int (\<Sum>c\<in>class_of seg (heap s) b. if busy (the (heap s c)) then bytes (the (heap s c)) else 0)"
    "si_requested_size (segment_report s b) =
      word_of_int (\<Sum>c\<in>class_of seg (heap s) b. if busy (the (heap s c)) then int (requested_size (the (heap s c))) else 0)"
    unfolding sum [symmetric] ite [symmetric]
    by (simp_all add: segment_report_def fold_add_block SegmentInfo_def comp_def del: links.simps)
qed

text \<open>The classes of the heads are a partition of the heap.\<close>

lemma heads_partition:
  assumes D: "dinv E live cur n {} {} D s" and H: "heap_ok seg (live (drv (ctx s))) (heap s)"
  defines "heads \<equiv> {b. \<exists>x. heap s b = Some x \<and> prv x = None}"
  shows "(\<Sum>b\<in>heads. \<Sum>c\<in>class_of seg (heap s) b. f c) = (\<Sum>c\<in>dom (heap s). f c)"
    and "b \<in> heads \<Longrightarrow> c \<in> heads \<Longrightarrow> fst (seg b) = fst (seg c) \<Longrightarrow> b = c"
    and "heap s c = Some y \<Longrightarrow> \<exists>b\<in>heads. seg b = seg c"
proof -
  have fin: "finite (dom (heap s))" by (rule dinv_heap_finite [OF D])
  show same: "b = c" if "b \<in> heads" "c \<in> heads" "fst (seg b) = fst (seg c)" for b c
  proof (rule ccontr)
    assume ne: "b \<noteq> c"
    obtain x y where x: "heap s b = Some x" "prv x = None" and y: "heap s c = Some y" "prv y = None"
      using \<open>b \<in> heads\<close> \<open>c \<in> heads\<close> by (auto simp: heads_def)
    have "ptr x = ptr y" "0 < bsize x" "0 < bsize y"
      using heap_okD(1) [OF H x(1)] heap_okD(1) [OF H y(1)] x(2) y(2) that(3) by (auto simp: node_ok_def)
    then have "ptr x \<in> range_of x \<inter> range_of y" by (simp add: range_of_def)
    then show False using heap_okD(4) [OF H x(1) y(1) ne] by blast
  qed
  show hd: "\<exists>b\<in>heads. seg b = seg c" if c: "heap s c = Some y" for c y
  proof -
    have "{d. \<exists>z. heap s d = Some z \<and> ptr z < ptr y} \<subseteq> dom (heap s)" by auto
    then have "card {d. \<exists>z. heap s d = Some z \<and> ptr z < ptr y} < next_bid s + 2" by (rule dinv_card [OF D])
    from walk_prev_head [OF H fin c this] obtain h z where "heap s h = Some z" "prv z = None" "seg h = seg c" by blast
    then show ?thesis unfolding heads_def by blast
  qed
  have U: "dom (heap s) = (\<Union>b\<in>heads. class_of seg (heap s) b)"
    using hd by (fastforce simp: class_of_def)
  have "finite heads" by (rule finite_subset [OF _ fin]) (auto simp: heads_def)
  moreover have "finite (class_of seg (heap s) b)" for b by (rule finite_subset [OF _ fin]) (auto simp: class_of_def)
  ultimately show "(\<Sum>b\<in>heads. \<Sum>c\<in>class_of seg (heap s) b. f c) = (\<Sum>c\<in>dom (heap s). f c)"
    unfolding U by (intro sum.UNION_disjoint [symmetric]) (use same in \<open>auto simp: class_of_def\<close>)
qed

lemma tot_weigh_aggregate:
  "tot (weigh (of_type AGGREGATE) C w) h = (\<Sum>b\<in>dom h. if C b (the (h b)) then w (the (h b)) else 0)"
proof -
  have "stat_types_of small AGGREGATE" for small by (cases small) (simp_all add: stat_types_of_def)
  then show ?thesis by (simp add: tot_def weigh_def get_stat_types_for_pool_def)
qed

text \<open>The reports over all heads add up to the sums over the heap.\<close>

lemma report_total:
  assumes D: "dinv E live cur n {} {} D s" and H: "heap_ok seg (live (drv (ctx s))) (heap s)"
    and r: "\<And>b x. heap s b = Some x \<Longrightarrow> prv x = None \<Longrightarrow> r (segment_report s b) = (word_of_int (\<Sum>c\<in>class_of seg (heap s) b. f c) :: 64 word)"
  shows "sum_list (map r (map (segment_report s) (filter (is_head s) (get_all_blocks s)))) = word_of_int (\<Sum>c\<in>dom (heap s). f c)"
proof -
  let ?hs = "filter (is_head s) (get_all_blocks s)"
  have hs: "set ?hs = {b. \<exists>x. heap s b = Some x \<and> prv x = None}" "distinct ?hs"
    using all_blocks [OF D] by (auto simp: is_head_def)
  have "map (\<lambda>b. r (segment_report s b)) ?hs = map (\<lambda>b. word_of_int (\<Sum>c\<in>class_of seg (heap s) b. f c)) ?hs"
    by (rule map_cong [OF refl]) (use r hs(1) in blast)
  then have "sum_list (map r (map (segment_report s) ?hs)) = sum_list (map (\<lambda>b. word_of_int (\<Sum>c\<in>class_of seg (heap s) b. f c)) ?hs)"
    unfolding map_map comp_def by (rule arg_cong)
  also have "\<dots> = word_of_int (\<Sum>b\<in>set ?hs. \<Sum>c\<in>class_of seg (heap s) b. f c)"
    by (rule sum_list_words [OF hs(2)])
  also have "\<dots> = word_of_int (\<Sum>c\<in>dom (heap s). f c)"
    unfolding hs(1) heads_partition(1) [OF D H] ..
  finally show ?thesis .
qed

lemma sum_list_sort_key: "sum_list (map f (sort_key k xs)) = sum_list (map (f :: 'a \<Rightarrow> 64 word) xs)"
  by (metis mset_map mset_sort sum_mset_sum_list)

lemma snapshot_reports:
  assumes D: "dinv E live cur n {} {} D s"
  shows "\<exists>tr. snapshot s =
    (Inr (sort_key (\<lambda>si. sint (si_address si)) (map (segment_report s) (filter (is_head s) (get_all_blocks s)))), s\<lparr>tracing := tr\<rparr>)"
proof -
  have T: "trace_ok (tracing s)" using D by (simp add: dinv_def side_ok_def)
  have c: "collect_segments (get_all_blocks s) s = (Inr (map (segment_report s) (filter (is_head s) (get_all_blocks s))), s)"
    by (rule collect_segments_reports [OF D]) (simp add: all_blocks(1) [OF D])
  have "\<exists>tr. record_trace SNAPSHOT 0 k 0 0 s = (Inr (), s\<lparr>tracing := tr\<rparr>)" for k
  proof -
    obtain r s' where run: "record_trace SNAPSHOT 0 k 0 0 s = (r, s')" by fastforce
    have "wp (record_trace SNAPSHOT 0 k 0 0) (\<lambda>_ s'. \<exists>tr. s' = s\<lparr>tracing := tr\<rparr>) (\<lambda>_ _. False) s"
      by (rule wp_record_trace [OF T]) blast
    from wp_run [OF this run] run show ?thesis by (cases r) auto
  qed
  then obtain tr where run: "record_trace SNAPSHOT 0
      (sint (sum_list (map si_active_size (map (segment_report s) (filter (is_head s) (get_all_blocks s)))))) 0 0 s = (Inr (), s\<lparr>tracing := tr\<rparr>)"
    by blast
  show ?thesis unfolding snapshot_def by (rule exI [where x = tr]) (simp only: act_simps c run prod.case sum.case)
qed

text \<open>The heads, in the order in which the blocks are listed, and their reports.\<close>

abbreviation heads :: "'d dca \<Rightarrow> bid list" where
  "heads s \<equiv> filter (is_head s) (get_all_blocks s)"

lemma heads:
  assumes "dinv E live cur n {} {} D s"
  shows "set (heads s) = {b. \<exists>x. heap s b = Some x \<and> prv x = None}" "distinct (heads s)"
  using all_blocks [OF assms] by (auto simp: is_head_def)

lemma head_report:
  assumes D: "dinv E live cur n {} {} D s" and H: "heap_ok seg (live (drv (ctx s))) (heap s)" and b: "b \<in> set (heads s)"
  shows "unat (si_address (segment_report s b)) = fst (seg b)" "unat (si_total_size (segment_report s b)) = snd (seg b)"
    "seg b \<in> live (drv (ctx s))"
proof -
  obtain x where x: "heap s b = Some x" "prv x = None" using b heads(1) [OF D] by blast
  show L: "seg b \<in> live (drv (ctx s))" using heap_okD(1) [OF H x(1)] by (simp add: node_ok_def)
  have "live_ok (live (drv (ctx s)))" using D by (simp add: dinv_def side_ok_def)
  then have "fst (seg b) + snd (seg b) < 2 ^ 64" using L unfolding live_ok_def by (cases "seg b") auto
  then show "unat (si_address (segment_report s b)) = fst (seg b)" "unat (si_total_size (segment_report s b)) = snd (seg b)"
    using report_sums(1,2) [OF D x H] by (simp_all add: unsigned_of_nat take_bit_nat_eq_self)
qed

lemma reports_distinct:
  assumes D: "dinv E live cur n {} {} D s" and H: "heap_ok seg (live (drv (ctx s))) (heap s)"
  shows "distinct (map si_address (map (segment_report s) (heads s)))"
proof -
  have "inj_on (\<lambda>b. si_address (segment_report s b)) (set (heads s))"
  proof (rule inj_onI)
    fix b c assume b: "b \<in> set (heads s)" "c \<in> set (heads s)" "si_address (segment_report s b) = si_address (segment_report s c)"
    then have "fst (seg b) = fst (seg c)" using head_report(1) [OF D H b(1)] head_report(1) [OF D H b(2)] by simp
    with heads_partition(2) [OF D H, of b c] b(1,2) show "b = c" unfolding heads(1) [OF D] by blast
  qed
  then show ?thesis using heads(2) [OF D] by (simp add: distinct_map comp_inj_on inj_on_def del: distinct_filter)
qed

lemma report_covers:
  assumes D: "dinv E live cur n {} {} D s" and H: "heap_ok seg (live (drv (ctx s))) (heap s)" and x: "heap s b = Some x"
  shows "\<exists>c\<in>set (heads s). unat (si_address (segment_report s c)) \<le> ptr x \<and>
    ptr x + bsize x \<le> unat (si_address (segment_report s c)) + unat (si_total_size (segment_report s c))"
proof -
  obtain c where c: "c \<in> set (heads s)" "seg c = seg b" using heads_partition(3) [OF D H x] unfolding heads(1) [OF D] by blast
  have "fst (seg b) \<le> ptr x" "ptr x + bsize x \<le> fst (seg b) + snd (seg b)"
    using heap_okD(1) [OF H x] by (simp_all add: node_ok_def)
  then show ?thesis using head_report(1,2) [OF D H c(1)] c by auto
qed

lemma report_accounts:
  assumes I: "alloc_inv E live cur n s"
  shows "sum_list (map si_total_size (map (segment_report s) (heads s))) = total_allocated_memory s" (is ?total)
    and "sum_list (map si_total_size (map (segment_report s) (heads s))) = word_of_int (current (reserved_bytes (stats s) AGGREGATE))" (is ?reserved)
    and "sum_list (map si_allocated_size (map (segment_report s) (heads s))) = word_of_int (current (allocated_bytes (stats s) AGGREGATE))" (is ?allocated)
    and "sum_list (map si_active_size (map (segment_report s) (heads s))) = word_of_int (current (active_bytes (stats s) AGGREGATE))" (is ?active)
    and "sum_list (map si_requested_size (map (segment_report s) (heads s))) = word_of_int (current (requested_bytes (stats s) AGGREGATE))" (is ?requested)
proof -
  have D: "dinv E live cur n {} {} (deferred s) s" by (rule alloc_inv_dinv [OF I])
  obtain seg where H: "heap_ok seg (live (drv (ctx s))) (heap s)" and M: "mem_ok (total_allocated_memory s) (heap s)"
    and A: "acct_ok (stats s) (heap s) (active_blocks s)"
    using D by (auto simp: dinv_def)
  note sums = report_total [OF D H]
  have "sum_list (map si_total_size (map (segment_report s) (heads s))) = word_of_int (\<Sum>c\<in>dom (heap s). bytes (the (heap s c)))"
    by (rule sums) (rule report_sums(3) [OF D _ _ H])
  moreover have "current (reserved_bytes (stats s) AGGREGATE) = (\<Sum>c\<in>dom (heap s). bytes (the (heap s c)))"
    unfolding acct_okD(2) [OF A] tot_weigh_aggregate by simp
  ultimately show ?total ?reserved using M by (simp_all only: mem_ok_def tot_def)
  show ?allocated
    unfolding acct_okD(4) [OF A] tot_weigh_aggregate by (rule sums) (rule report_sums(4) [OF D _ _ H])
  have act: "(\<Sum>b\<in>dom (heap s). if b \<in> set (active_blocks s) then w (the (heap s b)) else 0) =
      (\<Sum>b\<in>dom (heap s). if busy (the (heap s b)) then w (the (heap s b)) else 0)" for w :: "block \<Rightarrow> int"
    by (rule sum.cong [OF refl]) (use busy_active(1) [OF I] in auto)
  show ?active
    unfolding acct_okD(6) [OF A] tot_weigh_aggregate act [of bytes] by (rule sums) (rule report_sums(5) [OF D _ _ H])
  show ?requested
    unfolding acct_okD(7) [OF A] tot_weigh_aggregate act [of "\<lambda>x. int (requested_size x)"]
    by (rule sums) (rule report_sums(6) [OF D _ _ H])
qed

section \<open>Checkpoints\<close>

definition state_of :: "block \<Rightarrow> block_state" where
  "state_of x = \<lparr> bs_device = 0, bs_stream = b_stream x, bs_stream_uses = stream_uses x, bs_size = bsize x,
     bs_ptr = ptr x, bs_allocated = allocated x, bs_gc_count = signed_take_bit 31 (gc_count_base x) \<rparr>"

abbreviation pending_events :: exc where
  "pending_events \<equiv> TorchCheck ''Events should have synchronized when checkpointing block''"

lemma block_states_links:
  assumes H: "heap_ok seg L (heap s)" and fin: "finite (dom (heap s))"
  shows "heap s b = Some x \<Longrightarrow> card (rest_of seg (heap s) b) < fuel \<Longrightarrow>
    block_states fuel (Some b) s =
      (if \<exists>c\<in>set (links fuel (heap s) (Some b)). event_count (the (heap s c)) \<noteq> 0 then Inl pending_events
       else Inr (map (\<lambda>c. state_of (the (heap s c))) (links fuel (heap s) (Some b))), s)"
proof (induction fuel arbitrary: b x)
  case (Suc fuel)
  have B: "BlockState b s = (if event_count x \<noteq> 0 then Inl pending_events else Inr (state_of x), s)"
    using Suc.prems(1) by (simp add: BlockState_def deref_def act_simps state_of_def)
  have finS: "finite (rest_of seg (heap s) b)" by (rule finite_subset [OF _ fin]) (auto simp: rest_of_def)
  show ?case
  proof (cases "nxt x")
    case None
    have "0 < fuel" using Suc.prems(2) rest_of_step(1) [OF H Suc.prems(1) None] by simp
    then have "block_states fuel None s = (Inr [], s)" "links fuel (heap s) None = []"
      by (cases fuel; simp add: act_simps)+
    then show ?thesis using Suc.prems(1) None B by (simp add: deref_def act_simps)
  next
    case (Some c)
    obtain y where y: "heap s c = Some y" using heap_okD(2) [OF H Suc.prems(1) Some] by blast
    note step = rest_of_step(2) [OF H Suc.prems(1) Some]
    have "finite (rest_of seg (heap s) c)" by (rule finite_subset [OF _ fin]) (auto simp: rest_of_def)
    then have "card (rest_of seg (heap s) c) < fuel" using Suc.prems(2) step by auto
    from Suc.IH [OF y this] show ?thesis using Some Suc.prems(1) B by (simp add: deref_def act_simps)
  qed
qed simp

text \<open>The blocks of a segment are in one pool, and each begins where the one before it ends.\<close>

lemma links_pool:
  assumes H: "heap_ok seg L h"
  shows "h b = Some x \<Longrightarrow> c \<in> set (links fuel h (Some b)) \<Longrightarrow> \<exists>y. h c = Some y \<and> pool y = pool x"
proof (induction fuel arbitrary: b x)
  case (Suc fuel)
  show ?case
  proof (cases "nxt x")
    case None
    then show ?thesis using Suc.prems by (cases fuel) auto
  next
    case (Some d)
    obtain y where y: "h d = Some y" "succ_ok seg b x d y" using heap_okD(2) [OF H Suc.prems(1) Some] by blast
    show ?thesis using Suc.IH [OF y(1)] Suc.prems Some y(2) by (auto simp: succ_ok_def)
  qed
qed simp

lemma links_adjacent:
  assumes H: "heap_ok seg L h"
  shows "h b = Some x \<Longrightarrow>
    successively (\<lambda>c d. ptr (the (h d)) = ptr (the (h c)) + bsize (the (h c))) (links fuel h (Some b))"
proof (induction fuel arbitrary: b x)
  case (Suc fuel)
  show ?case
  proof (cases "nxt x")
    case None
    then show ?thesis using Suc.prems by (cases fuel) auto
  next
    case (Some d)
    obtain y where y: "h d = Some y" "succ_ok seg b x d y" using heap_okD(2) [OF H Suc.prems(1) Some] by blast
    show ?thesis using Suc.IH [OF y(1)] Suc.prems Some y by (cases fuel) (auto simp: succ_ok_def successively_Cons)
  qed
qed simp

lemma pool_heads:
  assumes I: "alloc_inv E live cur n s" and i: "map_of (graph_pools s) i \<noteq> None"
  shows "\<exists>hs. get_private_pool_head_blocks i s = (Inr hs, s) \<and> distinct hs \<and>
    set hs = {b. \<exists>x. heap s b = Some x \<and> prv x = None \<and> owner_PrivatePool (pool x) = Some i}"
proof -
  have D: "dinv E live cur n {} {} (deferred s) s" by (rule alloc_inv_dinv [OF I])
  have P: "parts_ok {} {} (heap s) (blocks_of s) (active_blocks s)" using D by (simp add: dinv_def)
  have pooled: "\<exists>x. heap s b = Some x \<and> pool x = pl" if "b \<in> set (blocks_of s pl)" for b pl
    using parts_okD(3) [OF P that] by blast
  have there: "list_all (\<lambda>b. heap s b \<noteq> None) (active_blocks s)" using parts_okD(6) [OF P] by (fastforce simp: list_all_iff)
  have ck: "check_pool (private_small i) s = (Inr (), s)" "check_pool (private_large i) s = (Inr (), s)"
    using i pooled by (fastforce simp: check_pool_def pool_exists_def act_simps list_all_iff split: option.splits)+
  let ?hs = "filter (\<lambda>b. owner_PrivatePool (pool (the (heap s b))) = Some i \<and> prv (the (heap s b)) = None) (active_blocks s) @
     filter (\<lambda>b. prv (the (heap s b)) = None) (blocks_of s (private_small i)) @
     filter (\<lambda>b. prv (the (heap s b)) = None) (blocks_of s (private_large i))"
  have run: "get_private_pool_head_blocks i s = (Inr ?hs, s)"
    using there ck by (simp add: get_private_pool_head_blocks_def act_simps)
  have one: "b \<in> set (active_blocks s) \<or> b \<in> set (blocks_of s (private_small i)) \<or> b \<in> set (blocks_of s (private_large i))"
    if "heap s b = Some x" "owner_PrivatePool (pool x) = Some i" for b x
    using parts_okD(9) [OF P that(1)] that(2) by (cases "pool x") auto
  have act: "\<exists>x. heap s b = Some x" if "b \<in> set (active_blocks s)" for b using parts_okD(6) [OF P that] by blast
  have "set ?hs = {b. \<exists>x. heap s b = Some x \<and> prv x = None \<and> owner_PrivatePool (pool x) = Some i}" (is "?A = ?B")
  proof (intro equalityI subsetI)
    fix b assume "b \<in> ?A"
    then show "b \<in> ?B" using pooled [of b "private_small i"] pooled [of b "private_large i"] act [of b] by auto
  next
    fix b assume "b \<in> ?B"
    then show "b \<in> ?A" using one by fastforce
  qed
  moreover have "set (blocks_of s (private_small i)) \<inter> set (blocks_of s (private_large i)) = {}"
    using pooled [of _ "private_small i"] pooled [of _ "private_large i"] by fastforce
  moreover have "set (blocks_of s pl) \<inter> set (active_blocks s) = {}" for pl using parts_okD(4) [OF P] by blast
  ultimately show ?thesis using run parts_okD(1) [OF P] pool_distinct [OF P] by auto
qed

definition segment_links :: "'d dca \<Rightarrow> bid \<Rightarrow> bid list" where
  "segment_links s b = links (next_bid s + 2) (heap s) (Some b)"

lemma segment_links:
  assumes D: "dinv E live cur n {} {} D s" and H: "heap_ok seg (live (drv (ctx s))) (heap s)"
    and b: "heap s b = Some x" "prv x = None"
  shows "set (segment_links s b) = class_of seg (heap s) b" "distinct (segment_links s b)" "hd (segment_links s b) = b"
    "segment_links s b \<noteq> []"
    "(ptr x, sum_list (map (\<lambda>c. bsize (the (heap s c))) (segment_links s b))) \<in> live (drv (ctx s))"
    "SegmentState b s =
      (if \<exists>c\<in>class_of seg (heap s) b. event_count (the (heap s c)) \<noteq> 0 then Inl pending_events
       else Inr \<lparr> ss_blocks = map (\<lambda>c. state_of (the (heap s c))) (segment_links s b), ss_is_small = is_small (pool x) \<rparr>, s)"
proof -
  have fin: "finite (dom (heap s))" by (rule dinv_heap_finite [OF D])
  have "rest_of seg (heap s) b \<subseteq> dom (heap s)" by (auto simp: rest_of_def)
  then have few: "card (rest_of seg (heap s) b) < next_bid s + 2" by (rule dinv_card [OF D])
  show ls: "set (segment_links s b) = class_of seg (heap s) b" "distinct (segment_links s b)"
    using links_rest [OF H fin b(1) few] rest_of_head [OF H b]
    by (simp_all add: class_of_def segment_links_def del: links.simps)
  show "hd (segment_links s b) = b" "segment_links s b \<noteq> []" by (simp_all add: segment_links_def)
  have node: "ptr x = fst (seg b)" "seg b \<in> live (drv (ctx s))" using heap_okD(1) [OF H b(1)] b(2) by (simp_all add: node_ok_def)
  have "sum_list (map (\<lambda>c. bsize (the (heap s c))) (segment_links s b)) = snd (seg b)"
    using links_bytes [OF H fin b(1) few] node(1) unfolding segment_links_def by simp
  then show "(ptr x, sum_list (map (\<lambda>c. bsize (the (heap s c))) (segment_links s b))) \<in> live (drv (ctx s))"
    using node by simp
  show "SegmentState b s =
      (if \<exists>c\<in>class_of seg (heap s) b. event_count (the (heap s c)) \<noteq> 0 then Inl pending_events
       else Inr \<lparr> ss_blocks = map (\<lambda>c. state_of (the (heap s c))) (segment_links s b), ss_is_small = is_small (pool x) \<rparr>, s)"
    using block_states_links [OF H fin b(1) few, folded segment_links_def, unfolded ls(1)] b
    by (simp add: SegmentState_def deref_def act_simps del: block_states.simps)
qed

lemma segment_states_run:
  assumes D: "dinv E live cur n {} {} D s" and H: "heap_ok seg (live (drv (ctx s))) (heap s)"
  shows "(\<And>b. b \<in> set bs \<Longrightarrow> \<exists>x. heap s b = Some x \<and> prv x = None) \<Longrightarrow>
    segment_states bs s =
      (if \<exists>b\<in>set bs. \<exists>c\<in>class_of seg (heap s) b. event_count (the (heap s c)) \<noteq> 0 then Inl pending_events
       else Inr (map (\<lambda>b. \<lparr> ss_blocks = map (\<lambda>c. state_of (the (heap s c))) (segment_links s b),
         ss_is_small = is_small (pool (the (heap s b))) \<rparr>) bs), s)"
proof (induction bs)
  case (Cons b bs)
  obtain x where x: "heap s b = Some x" "prv x = None" using Cons.prems by auto
  have "segment_states bs s =
      (if \<exists>b\<in>set bs. \<exists>c\<in>class_of seg (heap s) b. event_count (the (heap s c)) \<noteq> 0 then Inl pending_events
       else Inr (map (\<lambda>b. \<lparr> ss_blocks = map (\<lambda>c. state_of (the (heap s c))) (segment_links s b),
         ss_is_small = is_small (pool (the (heap s b))) \<rparr>) bs), s)"
    by (rule Cons.IH) (simp add: Cons.prems)
  then show ?case by (simp add: act_simps segment_links(6) [OF D H x] x(1))
qed (simp add: act_simps)

text \<open>The blocks of a private pool are those of the segments whose heads are in it.\<close>

lemma pool_segments:
  assumes D: "dinv E live cur n {} {} D s" and H: "heap_ok seg (live (drv (ctx s))) (heap s)"
    and hs: "distinct hs" "set hs = {b. \<exists>x. heap s b = Some x \<and> prv x = None \<and> owner_PrivatePool (pool x) = Some i}"
  shows "set (concat (map (segment_links s) hs)) = {b. \<exists>x. heap s b = Some x \<and> owner_PrivatePool (pool x) = Some i}"
    and "distinct (concat (map (segment_links s) hs))"
proof -
  have head: "\<exists>x. heap s b = Some x \<and> prv x = None" if "b \<in> set hs" for b using that hs(2) by blast
  have cls: "set (segment_links s b) = class_of seg (heap s) b" "distinct (segment_links s b)" "hd (segment_links s b) = b"
    if "b \<in> set hs" for b using segment_links(1-3) [OF D H] head [OF that] by blast+
  have pool: "pool y = pool x" if "heap s b = Some x" "prv x = None" "c \<in> class_of seg (heap s) b" "heap s c = Some y" for b x c y
    using links_pool [OF H that(1), of c "next_bid s + 2"] that segment_links(1) [OF D H that(1,2)] by (auto simp: segment_links_def)
  show "set (concat (map (segment_links s) hs)) = {b. \<exists>x. heap s b = Some x \<and> owner_PrivatePool (pool x) = Some i}" (is "?A = ?B")
  proof (intro equalityI subsetI)
    fix c assume "c \<in> ?A"
    then obtain b where b: "b \<in> set hs" "c \<in> class_of seg (heap s) b" using cls by auto
    then obtain x where x: "heap s b = Some x" "prv x = None" "owner_PrivatePool (pool x) = Some i" using hs(2) by blast
    obtain y where y: "heap s c = Some y" using b(2) by (auto simp: class_of_def)
    show "c \<in> ?B" using pool [OF x(1,2) b(2) y] x(3) y by simp
  next
    fix c assume "c \<in> ?B"
    then obtain y where y: "heap s c = Some y" "owner_PrivatePool (pool y) = Some i" by blast
    obtain b x where b: "heap s b = Some x" "prv x = None" "seg b = seg c" using heads_partition(3) [OF D H y(1)] by blast
    have c: "c \<in> class_of seg (heap s) b" using y(1) b(3) by (simp add: class_of_def)
    then have "b \<in> set hs" using pool [OF b(1,2) c y(1)] y(2) b hs(2) by simp
    then show "c \<in> ?A" using c cls by auto
  qed
  have "inj_on (segment_links s) (set hs)" by (rule inj_on_inverseI [where g = hd]) (rule cls(3))
  then have 1: "distinct (map (segment_links s) hs)" using hs(1) by (simp add: distinct_map)
  show "distinct (concat (map (segment_links s) hs))"
  proof (rule distinct_concat [OF 1])
    fix ys assume "ys \<in> set (map (segment_links s) hs)"
    then show "distinct ys" using cls(2) by auto
  next
    fix ys zs assume yz: "ys \<in> set (map (segment_links s) hs)" "zs \<in> set (map (segment_links s) hs)" "ys \<noteq> zs"
    then obtain b c where bc: "b \<in> set hs" "ys = segment_links s b" "c \<in> set hs" "zs = segment_links s c" "b \<noteq> c" by auto
    show "set ys \<inter> set zs = {}"
    proof (rule equals0I)
      fix d assume "d \<in> set ys \<inter> set zs"
      then have "seg b = seg c" using bc cls(1) by (auto simp: class_of_def)
      then show False using heads_partition(2) [OF D H, of b c] head bc by force
    qed
  qed
qed

text \<open>What a checkpoint of a pool has to say, for the blocks of its segments in order.\<close>

definition segments_of :: "'d dca \<Rightarrow> (addr \<times> nat) set \<Rightarrow> mempool_id \<Rightarrow> bid list list \<Rightarrow> bool" where
  "segments_of s L i segs \<longleftrightarrow> distinct (concat segs) \<and>
     set (concat segs) = {b. \<exists>x. heap s b = Some x \<and> owner_PrivatePool (pool x) = Some i} \<and>
     (\<forall>bs\<in>set segs. bs \<noteq> [] \<and>
        successively (\<lambda>b c. ptr (the (heap s c)) = ptr (the (heap s b)) + bsize (the (heap s b))) bs \<and>
        (ptr (the (heap s (hd bs))), sum_list (map (\<lambda>b. bsize (the (heap s b))) bs)) \<in> L)"

definition checkpoint_of :: "'d dca \<Rightarrow> mempool_id \<Rightarrow> bid list list \<Rightarrow> private_pool_state" where
  "checkpoint_of s i segs = \<lparr> pps_owner_id = i, pps_segments = map (\<lambda>bs.
     \<lparr> ss_blocks = map (\<lambda>b. state_of (the (heap s b))) bs, ss_is_small = is_small (pool (the (heap s (hd bs)))) \<rparr>) segs \<rparr>"

lemma pool_segments_of:
  assumes D: "dinv E live cur n {} {} D s" and H: "heap_ok seg (live (drv (ctx s))) (heap s)"
    and hs: "distinct hs" "set hs = {b. \<exists>x. heap s b = Some x \<and> prv x = None \<and> owner_PrivatePool (pool x) = Some i}"
  shows "segments_of s (live (drv (ctx s))) i (map (segment_links s) hs)"
proof -
  have "segment_links s b \<noteq> [] \<and>
      successively (\<lambda>b c. ptr (the (heap s c)) = ptr (the (heap s b)) + bsize (the (heap s b))) (segment_links s b) \<and>
      (ptr (the (heap s (hd (segment_links s b)))), sum_list (map (\<lambda>c. bsize (the (heap s c))) (segment_links s b))) \<in> live (drv (ctx s))"
    if b: "b \<in> set hs" for b
  proof -
    obtain x where x: "heap s b = Some x" "prv x = None" using b hs(2) by blast
    have "successively (\<lambda>b c. ptr (the (heap s c)) = ptr (the (heap s b)) + bsize (the (heap s b))) (segment_links s b)"
      unfolding segment_links_def by (rule links_adjacent [OF H x(1)])
    then show ?thesis using segment_links(3-5) [OF D H x] x(1) by simp
  qed
  then show ?thesis using pool_segments [OF D H hs] by (simp add: segments_of_def)
qed

lemma checkpoint_run:
  assumes I: "alloc_inv E live cur n s" and i: "map_of (graph_pools s) i \<noteq> None"
  obtains segs where "segments_of s (live (drv (ctx s))) i segs"
    "getCheckpointState i s =
      (if \<exists>c x. heap s c = Some x \<and> owner_PrivatePool (pool x) = Some i \<and> event_count x \<noteq> 0 then Inl pending_events
       else Inr (checkpoint_of s i segs), s)"
proof -
  have D: "dinv E live cur n {} {} (deferred s) s" by (rule alloc_inv_dinv [OF I])
  obtain seg where H: "heap_ok seg (live (drv (ctx s))) (heap s)" using D by (auto simp: dinv_def)
  obtain hs where hs: "get_private_pool_head_blocks i s = (Inr hs, s)" "distinct hs"
    "set hs = {b. \<exists>x. heap s b = Some x \<and> prv x = None \<and> owner_PrivatePool (pool x) = Some i}"
    using pool_heads [OF I i] by blast
  have head: "\<exists>x. heap s b = Some x \<and> prv x = None" if "b \<in> set hs" for b using that hs(3) by blast
  have cls: "set (segment_links s b) = class_of seg (heap s) b" "hd (segment_links s b) = b"
    if "b \<in> set hs" for b using segment_links(1,3) [OF D H] head [OF that] by blast+
  have U: "(\<Union>b\<in>set hs. class_of seg (heap s) b) = {b. \<exists>x. heap s b = Some x \<and> owner_PrivatePool (pool x) = Some i}"
    using pool_segments(1) [OF D H hs(2,3)] cls(1) by simp
  have "(\<exists>b\<in>set hs. \<exists>c\<in>class_of seg (heap s) b. event_count (the (heap s c)) \<noteq> 0) \<longleftrightarrow>
      (\<exists>c\<in>(\<Union>b\<in>set hs. class_of seg (heap s) b). event_count (the (heap s c)) \<noteq> 0)" by blast
  also have "\<dots> \<longleftrightarrow> (\<exists>c x. heap s c = Some x \<and> owner_PrivatePool (pool x) = Some i \<and> event_count x \<noteq> 0)"
    unfolding U by force
  finally have pend: "(\<exists>b\<in>set hs. \<exists>c\<in>class_of seg (heap s) b. event_count (the (heap s c)) \<noteq> 0) \<longleftrightarrow> \<dots>" .
  let ?cp = "checkpoint_of s i (map (segment_links s) hs)"
  have cp: "map (\<lambda>b. \<lparr> ss_blocks = map (\<lambda>c. state_of (the (heap s c))) (segment_links s b), ss_is_small = is_small (pool (the (heap s b))) \<rparr>) hs =
      pps_segments ?cp" "\<lparr> pps_owner_id = i, pps_segments = pps_segments ?cp \<rparr> = ?cp"
    using cls(2) by (simp_all add: checkpoint_of_def)
  have "segment_states hs s = (if \<exists>c x. heap s c = Some x \<and> owner_PrivatePool (pool x) = Some i \<and> event_count x \<noteq> 0
      then Inl pending_events else Inr (pps_segments ?cp), s)"
    unfolding pend [symmetric] cp(1) [symmetric] by (rule segment_states_run [OF D H head])
  then have "getCheckpointState i s = (if \<exists>c x. heap s c = Some x \<and> owner_PrivatePool (pool x) = Some i \<and> event_count x \<noteq> 0
      then Inl pending_events else Inr ?cp, s)"
    using i hs(1) by (simp add: getCheckpointState_def PrivatePoolState_def act_simps cp(2)) blast
  then show thesis by (rule that [OF pool_segments_of [OF D H hs(2,3)]])
qed

section \<open>Restored blocks\<close>

definition block_on :: "int \<Rightarrow> bid \<Rightarrow> 'd dca \<Rightarrow> bool" where
  "block_on k b s \<longleftrightarrow> (\<exists>x. heap s b = Some x \<and> b_device x = k)"

text \<open>\<open>keeps_dev k b m Q\<close>: \<open>b\<close> stays a block of device \<open>k\<close>, unless \<open>m\<close> throws.\<close>

abbreviation keeps_dev :: "int \<Rightarrow> bid \<Rightarrow> ('d, 'a) dact \<Rightarrow> ('a \<Rightarrow> 'd dca \<Rightarrow> bool) \<Rightarrow> bool" where
  "keeps_dev k b m Q \<equiv> hoare (block_on k b) m Q (\<lambda>_ _. True)"

named_theorems keeps_dev \<open>actions that leave the device of a block alone\<close>

lemma keeps_dev_bnd [keeps_dev]:
  "keeps_dev k b m (\<lambda>_. block_on k b) \<Longrightarrow> (\<And>x. keeps_dev k b (f x) Q) \<Longrightarrow> keeps_dev k b (bnd m f) Q"
  by (rule hoare_bnd)

lemma keeps_dev_seq [keeps_dev]:
  "keeps_dev k b m (\<lambda>_. block_on k b) \<Longrightarrow> keeps_dev k b n Q \<Longrightarrow> keeps_dev k b (seq m n) Q"
  by (rule hoare_seq)

lemma keeps_dev_simple [keeps_dev]:
  "keeps_dev k b (ret b) (block_on k)" "keeps_dev k b (ret u) (\<lambda>_. block_on k b)"
  "keeps_dev k b (throw e) (Q :: _ \<Rightarrow> _)" "keeps_dev k b (gets g) (\<lambda>_. block_on k b)" "keeps_dev k b (require e P) (\<lambda>_. block_on k b)"
  "keeps_dev k b (deref c) (\<lambda>_. block_on k b)" "keeps_dev k b (upd_stats h) (\<lambda>_. block_on k b)"
  "keeps_dev k b (check_pool pl) (\<lambda>_. block_on k b)" "keeps_dev k b (record_trace a ad sz st d) (\<lambda>_. block_on k b)"
  by (auto simp: hoare_def act_simps deref_def upd_stats_def check_pool_def record_trace_def block_on_def split: option.splits sum.splits)

lemma keeps_dev_modify [keeps_dev]:
  "(\<And>x. b_device (f x) = b_device x) \<Longrightarrow> keeps_dev k b (modify c f) (\<lambda>_. block_on k b)"
  by (auto simp: hoare_def modify_def block_on_def split: option.splits)

lemma keeps_dev_upd [keeps_dev]: "(\<And>s. heap (f s) = heap s) \<Longrightarrow> keeps_dev k b (upd f) (\<lambda>_. block_on k b)"
  by (simp add: hoare_def act_simps block_on_def)

lemma keeps_dev_when [keeps_dev]: "keeps_dev k b m (\<lambda>_. block_on k b) \<Longrightarrow> keeps_dev k b (whenM P m) (\<lambda>_. block_on k b)"
  by (rule hoare_whenM)

lemma keeps_dev_insert [keeps_dev]: "keeps_dev k b (insert_into_blocks pl c) (\<lambda>_. block_on k b)"
proof -
  have "keeps_dev k b (\<lambda>s. let (bs, inserted) = set_insert BlockComparatorSize (key_of s) c (blocks (pools s pl))
           in (Inr inserted, set_blocks pl bs s)) (\<lambda>_. block_on k b)"
    by (simp add: hoare_def block_on_def set_blocks_def case_prod_beta)
  then show ?thesis unfolding insert_into_blocks_def by (intro keeps_dev) simp_all
qed

lemma split_block_device: "hoare (\<lambda>_. True) (split_block p d) (block_on (p_device p)) (\<lambda>_ _. True)"
proof -
  have new: "hoare (\<lambda>_. True) (new_block (Block (p_device p) st sz pl a)) (block_on (p_device p)) (\<lambda>_ _. True)" for st sz pl a
    by (simp add: hoare_def new_block_def block_on_def Block_def)
  have der: "hoare (\<lambda>_. True) (deref d) (\<lambda>_ _. True) (\<lambda>_ _. True)"
    by (simp add: hoare_def split: prod.splits sum.splits)
  show ?thesis unfolding split_block_def
    by (intro hoare_bnd [OF der] hoare_bnd [OF new]) (auto intro!: keeps_dev split: option.splits)
qed

lemma alloc_found_device: "hoare (\<lambda>_. True) (alloc_found_block E p k True) (block_on (p_device p)) (\<lambda>_ _. True)"
proof (cases "p_block p")
  case None
  then show ?thesis by (simp add: alloc_found_block_def hoare_def act_simps)
next
  case (Some d)
  have 1: "hoare (\<lambda>_. True) (deref d) (\<lambda>_ _. True) (\<lambda>_ _. True)"
    "hoare (\<lambda>_. True) (require e P) (\<lambda>_ _. True) (\<lambda>_ _. True)" for e P
    by (simp_all add: hoare_def split: prod.splits sum.splits)
  show ?thesis using Some unfolding alloc_found_block_def
    by (auto intro!: hoare_bnd [OF 1(1)] hoare_seq [OF 1(2)] hoare_bnd [OF split_block_device] keeps_dev)
qed

text \<open>A pool that was opened for the device of the witnesses.\<close>

lemma sim_pool:
  obtains s where "(dca_step sim_env 2)\<^sup>*\<^sup>* sim_dca s" "map_of (graph_pools s) (1, 0) = Some PrivatePool"
    "heap s = (\<lambda>_. None)"
proof -
  let ?s = "sim_dca\<lparr>graph_pools := [((1, 0), PrivatePool)],
    pools := (pools sim_dca)(private_large (1, 0) := BlockPool, private_small (1, 0) := BlockPool),
    captures_underway := [((1, 0), \<lambda>_. True)]\<rparr>"
  have "dca_run sim_env (op_beginAllocateToPool (1, 0) (\<lambda>_. True)) sim_dca = (Inr (), ?s)"
    by (simp add: dca_run_def beginAllocateToPool_def act_simps sim_dca_fields)
  then have "dca_step sim_env 2 sim_dca ?s" by (rule dca_step.returns [rotated]) (simp add: dca_allowed_def)
  then show ?thesis by (intro that [of ?s]) (simp_all add: sim_dca_fields)
qed

section \<open>Properties\<close>

text \<open>C38: in every reached state a snapshot describes the memory exactly: it changes nothing but the
  trace; its segments are sorted, have different addresses, and each is a whole live allocation of the
  device; every block lies in one of them; and the sizes add up to the bytes the allocator counts as
  reserved, allocated, active and requested.
\<close>

theorem snapshot_exact:
  assumes "good_env E live cur n" and "dca_start E live cur n s0" and "(dca_step E n)\<^sup>*\<^sup>* s0 s"
  shows "\<exists>sis tr. snapshot s = (Inr sis, s\<lparr>tracing := tr\<rparr>) \<and>
    sorted (map (\<lambda>si. sint (si_address si)) sis) \<and> distinct (map si_address sis) \<and>
    (\<forall>si\<in>set sis. (unat (si_address si), unat (si_total_size si)) \<in> live (drv (ctx s))) \<and>
    (\<forall>b x. heap s b = Some x \<longrightarrow> (\<exists>si\<in>set sis. unat (si_address si) \<le> ptr x \<and>
       ptr x + bsize x \<le> unat (si_address si) + unat (si_total_size si))) \<and>
    sum_list (map si_total_size sis) = total_allocated_memory s \<and>
    sum_list (map si_total_size sis) = word_of_int (current (reserved_bytes (stats s) AGGREGATE)) \<and>
    sum_list (map si_allocated_size sis) = word_of_int (current (allocated_bytes (stats s) AGGREGATE)) \<and>
    sum_list (map si_active_size sis) = word_of_int (current (active_bytes (stats s) AGGREGATE)) \<and>
    sum_list (map si_requested_size sis) = word_of_int (current (requested_bytes (stats s) AGGREGATE))"
proof -
  have I: "alloc_inv E live cur n s" by (rule reached_inv [OF assms])
  have D: "dinv E live cur n {} {} (deferred s) s" by (rule alloc_inv_dinv [OF I])
  obtain seg where H: "heap_ok seg (live (drv (ctx s))) (heap s)" using D by (auto simp: dinv_def)
  let ?rs = "map (segment_report s) (heads s)"
  let ?sis = "sort_key (\<lambda>si. sint (si_address si)) ?rs"
  obtain tr where run: "snapshot s = (Inr ?sis, s\<lparr>tracing := tr\<rparr>)" using snapshot_reports [OF D] by blast
  have "mset (map si_address ?sis) = mset (map si_address ?rs)" by (simp only: mset_map mset_sort)
  then have dist: "distinct (map si_address ?sis)"
    using reports_distinct [OF D H] mset_eq_imp_distinct_iff by blast
  have mem: "\<forall>si\<in>set ?sis. (unat (si_address si), unat (si_total_size si)) \<in> live (drv (ctx s))"
    using head_report [OF D H] by auto
  have cover: "\<forall>b x. heap s b = Some x \<longrightarrow> (\<exists>si\<in>set ?sis. unat (si_address si) \<le> ptr x \<and>
       ptr x + bsize x \<le> unat (si_address si) + unat (si_total_size si))"
    using report_covers [OF D H] unfolding set_sort set_map by blast
  show ?thesis
    by (intro exI conjI, rule run, rule sorted_sort_key, rule dist, rule mem, rule cover)
      (unfold sum_list_sort_key, (rule report_accounts [OF I])+)
qed

theorem snapshot_exact_witness:
  "\<exists>s sis tr. malloc sim_env 0 1000 0 sim_dca = (Inr 2, s) \<and> snapshot s = (Inr sis, s\<lparr>tracing := tr\<rparr>) \<and>
    sum_list (map si_total_size sis) = total_allocated_memory s \<and>
    (\<exists>si\<in>set sis. (unat (si_address si), unat (si_total_size si)) \<in> set (sim_live (drv (ctx s))))"
proof (rule sim_malloc_result)
  fix s x assume s: "malloc sim_env 0 1000 0 sim_dca = (Inr 2, s)" "heap s 1 = Some x"
  from snapshot_exact [OF sim_good_env sim_dca_start sim_malloc_step [OF s(1)]] obtain sis tr where
    "snapshot s = (Inr sis, s\<lparr>tracing := tr\<rparr>)" "sum_list (map si_total_size sis) = total_allocated_memory s"
    "\<forall>si\<in>set sis. (unat (si_address si), unat (si_total_size si)) \<in> set (sim_live (drv (ctx s)))"
    "\<forall>b x. heap s b = Some x \<longrightarrow> (\<exists>si\<in>set sis. unat (si_address si) \<le> ptr x \<and>
       ptr x + bsize x \<le> unat (si_address si) + unat (si_total_size si))" by blast
  with s show ?thesis by blast
qed

text \<open>C39: in every reached state \<^verbatim>\<open>getCheckpointState\<close> changes nothing. For a private pool without pending
  events it lists every block of the pool once, segment by segment; the blocks of a segment are in order
  of address without gaps and make up a whole live allocation. With a pending event it throws, and so
  it does for an id that has no pool.
\<close>

theorem checkpoint_describes_pool:
  assumes "good_env E live cur n" and "dca_start E live cur n s0" and "(dca_step E n)\<^sup>*\<^sup>* s0 s"
    and "getCheckpointState i s = (r, s')"
  shows "s' = s \<and>
    (case r of
       Inl e \<Rightarrow>
         e = TorchCheck ''Could not find pool of id'' \<and> map_of (graph_pools s) i = None \<or>
         e = TorchCheck ''Events should have synchronized when checkpointing block'' \<and>
         (\<exists>b x. heap s b = Some x \<and> owner_PrivatePool (pool x) = Some i \<and> event_count x \<noteq> 0)
     | Inr pps \<Rightarrow>
         (\<forall>b x. heap s b = Some x \<and> owner_PrivatePool (pool x) = Some i \<longrightarrow> event_count x = 0) \<and>
         (\<exists>segs. segments_of s (live (drv (ctx s))) i segs \<and> pps = checkpoint_of s i segs))"
proof (cases "map_of (graph_pools s) i")
  case None
  have "i \<notin> set (graph_pools_freeable s)"
    using alloc_inv_dinv [OF reached_inv [OF assms(1-3)]] None by (fastforce simp: dinv_def side_ok_def)
  then show ?thesis using None assms(4) by (simp add: getCheckpointState_def act_simps split: prod.splits) auto
next
  case (Some pp)
  then have "map_of (graph_pools s) i \<noteq> None" by simp
  from checkpoint_run [OF reached_inv [OF assms(1-3)] this] obtain segs where
    segs: "segments_of s (live (drv (ctx s))) i segs" and run: "getCheckpointState i s =
      (if \<exists>c x. heap s c = Some x \<and> owner_PrivatePool (pool x) = Some i \<and> event_count x \<noteq> 0 then Inl pending_events
       else Inr (checkpoint_of s i segs), s)" .
  show ?thesis
  proof (cases "\<exists>c x. heap s c = Some x \<and> owner_PrivatePool (pool x) = Some i \<and> event_count x \<noteq> 0")
    case True
    then show ?thesis using run assms(4) by simp
  next
    case False
    then show ?thesis using run assms(4) segs by auto
  qed
qed

theorem checkpoint_describes_pool_witness:
  "\<exists>s pps. (dca_step sim_env 2)\<^sup>*\<^sup>* sim_dca s \<and> getCheckpointState (1, 0) s = (Inr pps, s) \<and>
    (\<exists>segs. segments_of s (set (sim_live (drv (ctx s)))) (1, 0) segs \<and> pps = checkpoint_of s (1, 0) segs)"
proof (rule sim_pool)
  fix s assume s: "(dca_step sim_env 2)\<^sup>*\<^sup>* sim_dca s" "map_of (graph_pools s) (1, 0) = Some PrivatePool" "heap s = (\<lambda>_. None)"
  obtain r s' where run: "getCheckpointState (1, 0) s = (r, s')" by fastforce
  note C = checkpoint_describes_pool [OF sim_good_env sim_dca_start s(1) run]
  show ?thesis
  proof (cases r)
    case (Inl e)
    then show ?thesis using C s(2,3) by simp
  next
    case (Inr pps)
    then show ?thesis using C s(1) run by auto
  qed
qed



end
