(* ===== verification/GcuEvent.thy ===== *)
theory GcuEvent
  imports GcuStream
begin

text \<open>
  Events: the class \<^verbatim>\<open>GCUEvent\<close> of \<^verbatim>\<open>gcu_event.{h,cpp}\<close>, which creates its runtime event on
  the device of the first stream that records it, and the event, stream and device operations
  of \<^verbatim>\<open>GCUGuardImpl\<close> (\<^verbatim>\<open>gcu_guard_impl.{h,cpp}\<close>), which work on raw event handles.
\<close>

section \<open>The class GCUEvent\<close>

record gcu_event =
  ev_flags :: nat
  is_created :: bool
  was_recorded :: bool
  ev_device :: int
  ev_handle :: event_t

text \<open>The methods run on the event object and the process it lives in.\<close>

record 'd event_state =
  self :: gcu_event
  ectx :: "'d ctx"

type_synonym ('d, 'a) eact = "('d event_state, 'a) act"

definition in_ectx :: "('d, 'a) cact \<Rightarrow> ('d, 'a) eact" where
  "in_ectx m = (\<lambda>s. case m (ectx s) of (r, c) \<Rightarrow> (r, s\<lparr>ectx := c\<rparr>))"

definition set_self :: "(gcu_event \<Rightarrow> gcu_event) \<Rightarrow> ('d, unit) eact" where
  "set_self f = upd (\<lambda>s. s\<lparr>self := f (self s)\<rparr>)"

text \<open>
  The two calls for sharing events between processes are a parameter of their own; a handle is
  a string.
\<close>

record 'd event_ipc =
  topsIpcOpenEventHandle :: "string \<Rightarrow> 'd \<Rightarrow> (tops_error \<times> event_t) \<times> 'd"
  topsIpcGetEventHandle :: "event_t \<Rightarrow> 'd \<Rightarrow> (tops_error \<times> string) \<times> 'd"

definition GCUEvent_flags :: "nat \<Rightarrow> gcu_event" where
  "GCUEvent_flags flags0 = \<lparr> ev_flags = flags0, is_created = False, was_recorded = False,
     ev_device = -1, ev_handle = 0 \<rparr>"

definition GCUEvent :: gcu_event where
  "GCUEvent = GCUEvent_flags topsEventDisableTiming"

text \<open>The constructor from a handle of another process.\<close>

definition GCUEvent_ipc :: "'d tops \<Rightarrow> 'd event_ipc \<Rightarrow> int \<Rightarrow> string \<Rightarrow> ('d, gcu_event) cact" where
  "GCUEvent_ipc T I device handle =
     with_guard T device
      (bnd (call_check (topsIpcOpenEventHandle I handle)) (\<lambda>e.
         ret (GCUEvent\<lparr>ev_device := device, ev_handle := e, is_created := True\<rparr>)))"

definition createEvent :: "'d tops \<Rightarrow> int \<Rightarrow> ('d, unit) eact" where
  "createEvent T device =
     seq (set_self (\<lambda>e. e\<lparr>ev_device := device\<rparr>))
     (bnd (gets (\<lambda>s. ev_flags (self s))) (\<lambda>fl.
      bnd (in_ectx (with_guard T device (call_check (topsEventCreateWithFlags T fl)))) (\<lambda>h.
        set_self (\<lambda>e. e\<lparr>ev_handle := h, is_created := True\<rparr>))))"

text \<open>
  The destructor catches every exception. A call of \<^verbatim>\<open>std::terminate\<close> in the guard's own
  destructor is not an exception that can be caught.
\<close>

definition destroy_GCUEvent :: "'d tops \<Rightarrow> gcu_event \<Rightarrow> ('d, unit) cact" where
  "destroy_GCUEvent T e =
     try_catch
      (whenM (is_created e)
        (with_guard T (ev_device e) (bnd (call (topsEventDestroy T (ev_handle e))) gcu_check)))
      (\<lambda>x. if x = Terminate then throw Terminate else ret ())"

definition event_device :: "gcu_event \<Rightarrow> int option" where
  "event_device e = (if is_created e then Some (ev_device e) else None)"

definition event_less :: "gcu_event \<Rightarrow> gcu_event \<Rightarrow> bool" where
  "event_less l r \<longleftrightarrow> ev_handle l < ev_handle r"

text \<open>
  \<^verbatim>\<open>query\<close> is true for an event that was never created; any error other than \<^verbatim>\<open>NotReady\<close> is
  raised.
\<close>

definition event_query :: "'d tops \<Rightarrow> gcu_event \<Rightarrow> ('d, bool) cact" where
  "event_query T e =
     (if \<not> is_created e then ret True
      else
        bnd (call (topsEventQuery T (ev_handle e))) (\<lambda>err.
          if err = topsSuccess then ret True
          else if err \<noteq> topsErrorNotReady then seq (gcu_check err) (ret False)
          else bnd (call (topsGetLastError T)) (\<lambda>_. ret False)))"

definition event_record :: "'d tops \<Rightarrow> gcu_stream \<Rightarrow> ('d, unit) eact" where
  "event_record T g =
     seq (bnd (gets (\<lambda>s. is_created (self s))) (\<lambda>created.
            whenM (\<not> created) (createEvent T (gs_device g))))
     (bnd (gets self) (\<lambda>e.
      seq (require (TorchCheck ''Event device does not match recording stream's device'')
             (ev_device e = gs_device g))
      (seq (in_ectx (with_guard T (ev_device e)
              (bnd (stream_handle g) (\<lambda>h. bnd (call (topsEventRecord T (ev_handle e) h)) gcu_check))))
        (set_self (\<lambda>e. e\<lparr>was_recorded := True\<rparr>)))))"

definition recordOnce :: "'d tops \<Rightarrow> gcu_stream \<Rightarrow> ('d, unit) eact" where
  "recordOnce T g =
     bnd (gets (\<lambda>s. was_recorded (self s))) (\<lambda>recorded. whenM (\<not> recorded) (event_record T g))"

definition record_current :: "'d tops \<Rightarrow> bool \<Rightarrow> ('d, unit) eact" where
  "record_current T use_default =
     bnd (in_ectx (getCurrentGCUStream T use_default (-1))) (event_record T)"

definition event_block :: "'d tops \<Rightarrow> gcu_stream \<Rightarrow> gcu_event \<Rightarrow> ('d, unit) cact" where
  "event_block T g e =
     whenM (is_created e)
      (with_guard T (gs_device g)
        (bnd (stream_handle g) (\<lambda>h. bnd (call (topsStreamWaitEvent T h (ev_handle e))) gcu_check)))"

definition elapsed_time :: "'d tops \<Rightarrow> gcu_event \<Rightarrow> gcu_event \<Rightarrow> ('d, rat) cact" where
  "elapsed_time T e other =
     seq (require (TorchCheck ''Both events must be recorded before calculating elapsed time.'')
            (is_created e \<and> is_created other))
       (call_check (topsEventElapsedTime T (ev_handle e) (ev_handle other)))"

definition event_synchronize :: "'d tops \<Rightarrow> gcu_event \<Rightarrow> ('d, unit) cact" where
  "event_synchronize T e =
     whenM (is_created e) (bnd (call (topsEventSynchronize T (ev_handle e))) gcu_check)"

definition ipc_handle :: "'d tops \<Rightarrow> bool \<Rightarrow> 'd event_ipc \<Rightarrow> ('d, string) eact" where
  "ipc_handle T use_default I =
     seq (bnd (gets (\<lambda>s. is_created (self s))) (\<lambda>created.
            whenM (\<not> created)
              (bnd (in_ectx (getCurrentGCUStream T use_default (-1))) (\<lambda>g.
                 createEvent T (gs_device g)))))
     (bnd (gets self) (\<lambda>e.
        in_ectx (with_guard T (ev_device e) (call_check (topsIpcGetEventHandle I (ev_handle e))))))"

text \<open>Moving swaps the members, so the source gets what the target held.\<close>

definition moveHelper :: "gcu_event \<Rightarrow> gcu_event \<Rightarrow> gcu_event \<times> gcu_event" where
  "moveHelper this other =
     (this\<lparr>ev_flags := ev_flags other, is_created := is_created other,
           was_recorded := was_recorded other, ev_device := ev_device other,
           ev_handle := ev_handle other\<rparr>,
      other\<lparr>ev_flags := ev_flags this, is_created := is_created this,
           was_recorded := was_recorded this, ev_device := ev_device this,
           ev_handle := ev_handle this\<rparr>)"

section \<open>The device guard implementation\<close>

definition exchangeDevice :: "'d tops \<Rightarrow> int \<Rightarrow> ('d, int) cact" where
  "exchangeDevice T d = ExchangeDevice T d"

definition getDevice :: "'d tops \<Rightarrow> ('d, int) cact" where
  "getDevice T = bnd (GetDevice T) (\<lambda>(err, device). seq (gcu_check err) (ret device))"

text \<open>A \<^verbatim>\<open>noexcept\<close> function: an exception that leaves its body ends the process.\<close>

definition noexcept :: "('s, 'a) act \<Rightarrow> ('s, 'a) act" where
  "noexcept m = try_catch m (\<lambda>_. throw Terminate)"

definition uncheckedGetDevice :: "'d tops \<Rightarrow> ('d, int option) cact" where
  "uncheckedGetDevice T =
     noexcept (bnd (GetDevice T) (\<lambda>(err, device).
       seq (gcu_check_warn T err) (ret (if err \<noteq> topsSuccess then None else Some device))))"

definition setDevice :: "'d tops \<Rightarrow> int \<Rightarrow> ('d, unit) cact" where
  "setDevice T d = bnd (SetDevice T d) gcu_check"

definition getStream :: "'d tops \<Rightarrow> bool \<Rightarrow> int \<Rightarrow> ('d, gcu_stream) cact" where
  "getStream T use_default d = noexcept (getCurrentGCUStream T use_default d)"

definition getDefaultStream :: "'d tops \<Rightarrow> bool \<Rightarrow> int \<Rightarrow> ('d, gcu_stream) cact" where
  "getDefaultStream T use_default d = getDefaultGCUStream T use_default d"

text \<open>\<^verbatim>\<open>priority\<close> is an \<^verbatim>\<open>int\<close>, so the overload of \<^verbatim>\<open>getStreamFromPool\<close> on priorities is called.\<close>

definition getNewStream :: "'d tops \<Rightarrow> bool \<Rightarrow> int \<Rightarrow> int \<Rightarrow> int \<Rightarrow> ('d, gcu_stream) cact" where
  "getNewStream T use_default env_stream_num d priority =
     getStreamFromPool T use_default env_stream_num priority d"

definition getStreamFromGlobalPool ::
  "'d tops \<Rightarrow> bool \<Rightarrow> int \<Rightarrow> int \<Rightarrow> bool \<Rightarrow> ('d, gcu_stream) cact" where
  "getStreamFromGlobalPool T use_default env_stream_num d isHighPriority =
     getStreamFromPool_high T use_default env_stream_num isHighPriority d"

definition exchangeStream :: "'d tops \<Rightarrow> bool \<Rightarrow> gcu_stream \<Rightarrow> ('d, gcu_stream) cact" where
  "exchangeStream T use_default s =
     noexcept (bnd (getCurrentGCUStream T use_default (gs_device s)) (\<lambda>old_stream.
       seq (setCurrentGCUStream T use_default s) (ret old_stream)))"

definition deviceCount :: "'d tops \<Rightarrow> ('d, int) cact" where
  "deviceCount T = noexcept (device_count T)"

datatype event_flag = PYTORCH_DEFAULT | BACKEND_DEFAULT | unknown_flag

definition guard_createEvent :: "'d tops \<Rightarrow> event_flag \<Rightarrow> ('d, event_t) cact" where
  "guard_createEvent T flag =
     (case flag of
        PYTORCH_DEFAULT \<Rightarrow> call_check (topsEventCreateWithFlags T topsEventDisableTiming)
      | BACKEND_DEFAULT \<Rightarrow> call_check (topsEventCreateWithFlags T topsEventDefault)
      | unknown_flag \<Rightarrow> throw (TorchCheck ''GCU event received unknown flag''))"

text \<open>
  A raw event is a handle, 0 for a null pointer. \<open>orig_device\<close> is not initialised by a
  \<^verbatim>\<open>GetDevice\<close> that fails.
\<close>

definition destroyEvent :: "'d tops \<Rightarrow> event_t \<Rightarrow> int \<Rightarrow> ('d, unit) cact" where
  "destroyEvent T event device_index =
     noexcept (whenM (event \<noteq> 0)
      (bnd (GetDevice T) (\<lambda>(err, orig_device).
       seq (gcu_check_warn T err)
       (seq (bnd (SetDevice T device_index) (gcu_check_warn T))
       (seq (bnd (call (topsEventDestroy T event)) (gcu_check_warn T))
       (seq (require UndefinedBehaviour (err = topsSuccess))
         (bnd (SetDevice T orig_device) (gcu_check_warn T))))))))"

text \<open>\<open>guard_record\<close> returns what \<^verbatim>\<open>*event\<close> is afterwards.\<close>

definition guard_record ::
  "'d tops \<Rightarrow> event_t \<Rightarrow> gcu_stream \<Rightarrow> int \<Rightarrow> event_flag \<Rightarrow> ('d, event_t) cact" where
  "guard_record T event stream device_index flag =
     seq (require (TorchCheck ''Event device index does not match recording stream's device index'')
            (device_index = -1 \<or> device_index = gs_device stream))
     (bnd (getDevice T) (\<lambda>orig_device.
      seq (setDevice T (gs_device stream))
      (bnd (if event = 0 then guard_createEvent T flag else ret event) (\<lambda>gcu_event.
       bnd (stream_handle stream) (\<lambda>h.
       seq (bnd (call (topsEventRecord T gcu_event h)) gcu_check)
       (seq (setDevice T orig_device)
         (ret gcu_event)))))))"

definition guard_block :: "'d tops \<Rightarrow> event_t \<Rightarrow> gcu_stream \<Rightarrow> ('d, unit) cact" where
  "guard_block T event stream =
     whenM (event \<noteq> 0)
      (bnd (getDevice T) (\<lambda>orig_device.
       seq (setDevice T (gs_device stream))
       (bnd (stream_handle stream) (\<lambda>h.
        seq (bnd (call (topsStreamWaitEvent T h event)) gcu_check)
          (setDevice T orig_device)))))"

definition queryEvent :: "'d tops \<Rightarrow> event_t \<Rightarrow> ('d, bool) cact" where
  "queryEvent T event =
     (if event = 0 then ret True
      else
        bnd (call (topsEventQuery T event)) (\<lambda>err.
          seq (if err \<noteq> topsErrorNotReady then gcu_check err
               else bnd (call (topsGetLastError T)) (\<lambda>_. ret ()))
            (ret (err = topsSuccess))))"

definition synchronizeEvent :: "'d tops \<Rightarrow> event_t \<Rightarrow> ('d, unit) cact" where
  "synchronizeEvent T event =
     whenM (event \<noteq> 0) (bnd (call (topsEventSynchronize T event)) gcu_check)"

text \<open>The switch to a device and back around a call, made only if it is not current already.\<close>

definition on_target_device :: "'d tops \<Rightarrow> int \<Rightarrow> ('d, 'a) cact \<Rightarrow> ('d, 'a) cact" where
  "on_target_device T target_device m =
     bnd (getDevice T) (\<lambda>orig_device.
     seq (whenM (orig_device \<noteq> target_device) (setDevice T target_device))
     (bnd m (\<lambda>x.
      seq (whenM (orig_device \<noteq> target_device) (setDevice T orig_device))
        (ret x))))"

definition synchronizeDevice :: "'d tops \<Rightarrow> int \<Rightarrow> ('d, unit) cact" where
  "synchronizeDevice T device_index =
     seq (require (TorchCheck ''device_index must be non-negative'') (0 \<le> device_index))
       (on_target_device T device_index (bnd (call (topsDeviceSynchronize T)) gcu_check))"

definition guard_elapsedTime :: "'d tops \<Rightarrow> event_t \<Rightarrow> event_t \<Rightarrow> int \<Rightarrow> ('d, rat) cact" where
  "guard_elapsedTime T event1 event2 device_index =
     seq (require (TorchCheck ''Both events must be recorded before calculating elapsed time.'')
            (event1 \<noteq> 0 \<and> event2 \<noteq> 0))
     (seq (require (TorchCheck ''device_index must be non-negative'') (0 \<le> device_index))
       (on_target_device T device_index (call_check (topsEventElapsedTime T event1 event2))))"

section \<open>The life of an event\<close>

text \<open>
  What a run of a method can do to the event object: it stays as it is, it gets created, or it
  gets recorded. \<open>grows e e'\<close> says that a created event keeps its device and its handle and that
  an event that was recorded stays so.
\<close>

definition grows :: "gcu_event \<Rightarrow> gcu_event \<Rightarrow> bool" where
  "grows e e' \<longleftrightarrow> ev_flags e' = ev_flags e \<and> (was_recorded e \<longrightarrow> was_recorded e') \<and>
     (is_created e \<longrightarrow> is_created e' \<and> ev_device e' = ev_device e \<and> ev_handle e' = ev_handle e)"

definition event_ok :: "gcu_event \<Rightarrow> bool" where
  "event_ok e \<longleftrightarrow> (was_recorded e \<longrightarrow> is_created e)"

lemma grows_refl [simp]: "grows e e"
  by (simp add: grows_def)

lemma grows_trans: "grows e e' \<Longrightarrow> grows e' e'' \<Longrightarrow> grows e e''"
  by (auto simp: grows_def)

lemma in_ectx_apply: "in_ectx m s = (fst (m (ectx s)), s\<lparr>ectx := snd (m (ectx s))\<rparr>)"
  by (simp add: in_ectx_def split: prod.splits)

lemma self_in_ectx: "in_ectx m s = (r, s') \<Longrightarrow> self s' = self s"
  by (auto simp: in_ectx_apply)

lemma createEvent_grows:
  assumes "createEvent T d s = (r, s')" and "\<not> is_created (self s)"
  shows "grows (self s) (self s') \<and> was_recorded (self s') = was_recorded (self s) \<and>
    ev_device (self s') = d \<and> (r = Inr () \<longrightarrow> is_created (self s')) \<and>
    (r \<noteq> Inr () \<longrightarrow> \<not> is_created (self s'))"
  using assms
  by (auto simp: createEvent_def set_self_def act_simps in_ectx_apply grows_def
      split: prod.splits sum.splits)

lemma event_record_created:
  assumes "is_created (self s)"
  shows "event_record T g s =
    (if ev_device (self s) \<noteq> gs_device g then
       (Inl (TorchCheck ''Event device does not match recording stream's device''), s)
     else
       (case in_ectx (with_guard T (ev_device (self s))
               (bnd (stream_handle g) (\<lambda>h.
                  bnd (call (topsEventRecord T (ev_handle (self s)) h)) gcu_check))) s of
          (Inl x, s') \<Rightarrow> (Inl x, s')
        | (Inr _, s') \<Rightarrow> (Inr (), s'\<lparr>self := (self s')\<lparr>was_recorded := True\<rparr>\<rparr>)))"
  using assms by (simp add: event_record_def act_simps set_self_def split: prod.splits sum.splits)

lemma event_record_fresh:
  assumes "\<not> is_created (self s)"
  shows "event_record T g s =
    (case createEvent T (gs_device g) s of (Inl x, s') \<Rightarrow> (Inl x, s')
     | (Inr _, s') \<Rightarrow> event_record T g s')"
proof (cases "createEvent T (gs_device g) s")
  case (Pair r s')
  show ?thesis
  proof (cases r)
    case (Inl x)
    with Pair assms show ?thesis by (simp add: event_record_def act_simps)
  next
    case (Inr u)
    with createEvent_grows [OF Pair assms] have "is_created (self s')" by simp
    with Pair Inr assms show ?thesis by (simp add: event_record_def act_simps)
  qed
qed

lemma event_record_created_grows:
  assumes "event_record T g s = (r, s')" and "is_created (self s)"
  shows "grows (self s) (self s') \<and>
    (r = Inr () \<longrightarrow> was_recorded (self s') \<and> ev_device (self s') = gs_device g) \<and>
    (r \<noteq> Inr () \<longrightarrow> was_recorded (self s') = was_recorded (self s))"
  using assms
  by (auto simp: event_record_created in_ectx_apply grows_def split: if_splits sum.splits)

lemma event_record_grows:
  assumes "event_record T g s = (r, s')"
  shows "grows (self s) (self s') \<and>
    (r = Inr () \<longrightarrow> is_created (self s') \<and> was_recorded (self s') \<and>
       ev_device (self s') = gs_device g) \<and>
    (r \<noteq> Inr () \<longrightarrow> was_recorded (self s') = was_recorded (self s))"
proof (cases "is_created (self s)")
  case True
  with event_record_created_grows [OF assms True] show ?thesis by (auto simp: grows_def)
next
  case False
  obtain q t where t: "createEvent T (gs_device g) s = (q, t)" by fastforce
  note c = createEvent_grows [OF t False]
  show ?thesis
  proof (cases q)
    case (Inl x)
    with assms t False c show ?thesis by (auto simp: event_record_fresh)
  next
    case (Inr u)
    with assms t False have r: "event_record T g t = (r, s')" by (simp add: event_record_fresh)
    from c Inr have cr: "is_created (self t)" by simp
    with event_record_created_grows [OF r cr] c show ?thesis
      by (auto simp: grows_def)
  qed
qed

lemma event_record_ok: "event_record T g s = (r, s') \<Longrightarrow> event_ok (self s) \<Longrightarrow> event_ok (self s')"
  using event_record_grows [of T g s r s'] by (cases "r = Inr ()") (auto simp: event_ok_def grows_def)

lemma ipc_handle_grows:
  assumes "ipc_handle T ud I s = (r, s')"
  shows "grows (self s) (self s') \<and> was_recorded (self s') = was_recorded (self s)"
proof (cases "is_created (self s)")
  case True
  with assms show ?thesis
    by (auto simp: ipc_handle_def act_simps in_ectx_apply split: prod.splits sum.splits)
next
  case False
  obtain q t where t: "in_ectx (getCurrentGCUStream T ud (-1)) s = (q, t)" by fastforce
  from t have st: "self t = self s" by (rule self_in_ectx)
  show ?thesis
  proof (cases q)
    case (Inl x)
    with assms t False st show ?thesis by (simp add: ipc_handle_def act_simps)
  next
    case (Inr g)
    obtain q2 t2 where t2: "createEvent T (gs_device g) t = (q2, t2)" by fastforce
    from False st have "\<not> is_created (self t)" by simp
    note c = createEvent_grows [OF t2 this]
    have "self s' = self t2"
      using assms t Inr t2 False
      by (cases q2) (auto simp: ipc_handle_def act_simps in_ectx_apply)
    with c st show ?thesis by simp
  qed
qed

text \<open>A step of an event: any of the methods that change it, from any state of the process.\<close>

inductive event_step :: "'d tops \<Rightarrow> bool \<Rightarrow> 'd event_ipc \<Rightarrow> gcu_event \<Rightarrow> gcu_event \<Rightarrow> bool"
  for T :: "'d tops" and ud :: bool and I :: "'d event_ipc" where
  step_record: "event_record T g \<lparr>self = e, ectx = c\<rparr> = (r, s) \<Longrightarrow> event_step T ud I e (self s)"
| step_record_once: "recordOnce T g \<lparr>self = e, ectx = c\<rparr> = (r, s) \<Longrightarrow> event_step T ud I e (self s)"
| step_record_current:
    "record_current T ud \<lparr>self = e, ectx = c\<rparr> = (r, s) \<Longrightarrow> event_step T ud I e (self s)"
| step_ipc_handle: "ipc_handle T ud I \<lparr>self = e, ectx = c\<rparr> = (q, s) \<Longrightarrow> event_step T ud I e (self s)"

lemma record_current_cases:
  assumes "record_current T ud s = (r, s')"
  obtains "self s' = self s" | g t where "self t = self s" "event_record T g t = (r, s')"
proof -
  obtain q t where t: "in_ectx (getCurrentGCUStream T ud (-1)) s = (q, t)" by fastforce
  from t have st: "self t = self s" by (rule self_in_ectx)
  show thesis
  proof (cases q)
    case (Inl x)
    with assms t st that(1) show thesis by (simp add: record_current_def act_simps)
  next
    case (Inr g)
    with assms t st that(2) show thesis by (simp add: record_current_def act_simps)
  qed
qed

lemma event_step_grows: "event_step T ud I e e' \<Longrightarrow> grows e e' \<and> (event_ok e \<longrightarrow> event_ok e')"
proof (induction rule: event_step.induct)
  case (step_record g e c r s)
  then show ?case using event_record_grows [OF step_record] event_record_ok [OF step_record] by simp
next
  case (step_record_once g e c r s)
  show ?case
  proof (cases "was_recorded e")
    case True
    with step_record_once show ?thesis by (auto simp: recordOnce_def act_simps)
  next
    case False
    with step_record_once have "event_record T g \<lparr>self = e, ectx = c\<rparr> = (r, s)"
      by (simp add: recordOnce_def act_simps)
    from event_record_grows [OF this] event_record_ok [OF this] show ?thesis by simp
  qed
next
  case (step_record_current e c r s)
  from step_record_current show ?case
  proof (cases rule: record_current_cases)
    case (2 g t)
    from event_record_grows [OF 2(2)] event_record_ok [OF 2(2)] 2(1) show ?thesis by simp
  qed auto
next
  case (step_ipc_handle e c q s)
  from ipc_handle_grows [OF this] show ?case by (auto simp: grows_def event_ok_def)
qed

lemma event_steps_grow:
  "(event_step T ud I)\<^sup>*\<^sup>* e e' \<Longrightarrow> grows e e' \<and> (event_ok e \<longrightarrow> event_ok e')"
  by (induction rule: rtranclp_induct) (auto dest: event_step_grows intro: grows_trans)

section \<open>Recording keeps the current device\<close>

lemma device_ok_call:
  "quiet cur f \<Longrightarrow> call f c = (r, c') \<Longrightarrow> device_ok cur n c' = device_ok cur n c \<and>
   effective_device cur c' = effective_device cur c"
  by (auto simp: call_def quiet_def device_ok_def effective_device_def split: prod.splits)
    (metis snd_conv)+

lemma stream_handle_state: "stream_handle g c = (r, c') \<Longrightarrow> c' = c"
  by (auto simp: stream_handle_def act_simps Let_def split: sum.splits if_splits)

lemma with_guard_keeps_device:
  assumes T: "device_runtime T cur n" and c: "device_ok cur n c" and i: "0 \<le> i" "i < n"
    and m: "\<And>c r c'. device_ok cur n c \<Longrightarrow> m c = (r, c') \<Longrightarrow> device_ok cur n c'"
    and w: "with_guard T i m c = (r, c')"
  shows "device_ok cur n c' \<and> effective_device cur c' = effective_device cur c"
proof -
  obtain c1 r1 c2 c3 where "with_guard T i m c = (r1, c3)" "device_ok cur n c3"
    "effective_device cur c3 = effective_device cur c"
    by (rule with_guard_effective [OF T c i, of m]) (use m in blast)+
  with w show ?thesis by simp
qed

lemma createEvent_device:
  assumes T: "device_runtime T cur n" and q: "\<And>f. quiet cur (topsEventCreateWithFlags T f)"
    and c: "device_ok cur n (ectx s)" and d: "0 \<le> d" "d < n" and cr: "createEvent T d s = (r, s')"
  shows "device_ok cur n (ectx s') \<and> effective_device cur (ectx s') = effective_device cur (ectx s)"
proof -
  let ?m = "call_check (topsEventCreateWithFlags T (ev_flags (self s)))"
  obtain x c' where w: "with_guard T d ?m (ectx s) = (x, c')" by fastforce
  have "device_ok cur n c' \<and> effective_device cur c' = effective_device cur (ectx s)"
  proof (rule with_guard_keeps_device [OF T c d _ w])
    fix a q b
    assume "device_ok cur n a" "?m a = (q, b)"
    then show "device_ok cur n b"
      using device_ok_call [OF assms(2)]
      by (auto simp: call_check_def act_simps split: prod.splits sum.splits if_splits)
  qed
  moreover have "ectx s' = c'"
    using cr w by (auto simp: createEvent_def set_self_def act_simps in_ectx_apply split: sum.splits)
  ultimately show ?thesis by simp
qed

lemma event_record_created_device:
  assumes T: "device_runtime T cur n" and q: "\<And>e h. quiet cur (topsEventRecord T e h)"
    and c: "device_ok cur n (ectx s)" and d: "0 \<le> gs_device g" "gs_device g < n"
    and cr: "is_created (self s)" and r: "event_record T g s = (r, s')"
  shows "device_ok cur n (ectx s') \<and> effective_device cur (ectx s') = effective_device cur (ectx s)"
proof (cases "ev_device (self s) = gs_device g")
  case True
  let ?m = "bnd (stream_handle g) (\<lambda>h. bnd (call (topsEventRecord T (ev_handle (self s)) h)) gcu_check)"
  obtain x c' where w: "with_guard T (gs_device g) ?m (ectx s) = (x, c')" by fastforce
  have "device_ok cur n c' \<and> effective_device cur c' = effective_device cur (ectx s)"
  proof (rule with_guard_keeps_device [OF T c d _ w])
    fix a q b
    assume "device_ok cur n a" "?m a = (q, b)"
    then show "device_ok cur n b"
      using device_ok_call [OF assms(2)]
      by (auto simp: act_simps dest!: stream_handle_state split: prod.splits sum.splits if_splits)
  qed
  moreover have "ectx s' = c'"
    using r w True cr by (auto simp: event_record_created in_ectx_apply split: sum.splits)
  ultimately show ?thesis by simp
next
  case False
  with r cr have "s' = s" by (simp add: event_record_created)
  with c show ?thesis by simp
qed

lemma event_record_device:
  assumes T: "device_runtime T cur n" and qc: "\<And>f. quiet cur (topsEventCreateWithFlags T f)"
    and qr: "\<And>e h. quiet cur (topsEventRecord T e h)"
    and c: "device_ok cur n (ectx s)" and d: "0 \<le> gs_device g" "gs_device g < n"
    and r: "event_record T g s = (r, s')"
  shows "device_ok cur n (ectx s') \<and> effective_device cur (ectx s') = effective_device cur (ectx s)"
proof (cases "is_created (self s)")
  case True
  show ?thesis by (rule event_record_created_device [OF T qr c d True r])
next
  case False
  obtain q t where t: "createEvent T (gs_device g) s = (q, t)" by fastforce
  note ct = createEvent_device [OF T qc c d t]
  show ?thesis
  proof (cases q)
    case (Inl x)
    with r t False ct show ?thesis by (auto simp: event_record_fresh)
  next
    case (Inr u)
    with r t False have r': "event_record T g t = (r, s')" by (simp add: event_record_fresh)
    from createEvent_grows [OF t False] Inr have "is_created (self t)" by simp
    from event_record_created_device [OF T qr _ d this r'] ct show ?thesis by simp
  qed
qed

lemma sim_quiet_cur:
  "quiet sim_cur (topsEventCreateWithFlags sim_tops f)" "quiet sim_cur (topsEventRecord sim_tops e h)"
  by (simp_all add: quiet_def sim_defs)

section \<open>Properties\<close>


definition sim_event_ipc :: "sim event_ipc" where
  "sim_event_ipc = \<lparr> topsIpcOpenEventHandle = (\<lambda>_. sim_value 7),
     topsIpcGetEventHandle = (\<lambda>_. sim_value ''event'') \<rparr>"

definition sim_recorded :: "sim event_state" where
  "sim_recorded =
     snd (event_record sim_tops \<lparr>gs_device = 1, gs_id = 0\<rparr>
            \<lparr>self = GCUEvent, ectx = ctx_init sim_init\<rparr>)"

lemma stream_handle_null:
  "kUseGcuDefaultStream c \<Longrightarrow> stream_handle \<lparr>gs_device = d, gs_id = 0\<rparr> c = (Inr 0, c)"
  by (simp add: stream_handle_def streamIdType_def streamIdIndex_def isDefault_def DEFAULT_def
      act_simps Let_def)

lemmas sim_run_simps = act_simps sim_defs call_def call_check_def with_guard_def ExchangeDevice_def
  uncheckedSetDevice_def MaybeSetDevice_def SetDevice_def hasPrimaryContext_def
  dummyHasPrimaryContext_def device_count_def device_count_impl_def GetDeviceCount_def
  gcu_check_warn_def GetDevice_def ctx_init_def sim_init_def stream_handle_null

lemma sim_recorded_run:
  "event_record sim_tops \<lparr>gs_device = 1, gs_id = 0\<rparr> \<lparr>self = GCUEvent, ectx = ctx_init sim_init\<rparr> =
     (Inr (), sim_recorded)"
proof -
  have "fst (event_record sim_tops \<lparr>gs_device = 1, gs_id = 0\<rparr>
               \<lparr>self = GCUEvent, ectx = ctx_init sim_init\<rparr>) = Inr ()"
    by (simp add: event_record_def createEvent_def set_self_def in_ectx_def GCUEvent_def
        GCUEvent_flags_def sim_run_simps)
  then show ?thesis unfolding sim_recorded_def by (metis prod.collapse)
qed


text \<open>C11: \<^verbatim>\<open>GCUEvent::record\<close> leaves the current device as it found it, whether it returns or
  throws; when it returns, the event is created and recorded on the stream's device, and when it
  throws the event is not marked recorded by it.
\<close>

theorem event_record_restores_device:
  assumes "device_runtime T cur n" and "\<And>f. quiet cur (topsEventCreateWithFlags T f)"
    and "\<And>e h. quiet cur (topsEventRecord T e h)" and "device_ok cur n (ectx s)"
    and "0 \<le> gs_device g" and "gs_device g < n" and "event_record T g s = (r, s')"
  shows "effective_device cur (ectx s') = effective_device cur (ectx s) \<and>
    (if r = Inr () then was_recorded (self s') \<and> event_device (self s') = Some (gs_device g)
     else was_recorded (self s') = was_recorded (self s))"
  using event_record_device [OF assms] event_record_grows [OF assms(7)]
  by (auto simp: event_device_def)

theorem event_record_restores_device_witness:
  "effective_device sim_cur (ectx sim_recorded) = effective_device sim_cur (ctx_init sim_init) \<and>
   event_device (self sim_recorded) = Some 1"
proof -
  let ?s = "\<lparr>self = GCUEvent, ectx = ctx_init sim_init\<rparr>"
  have ok: "device_ok sim_cur 2 (ectx ?s)" by (simp add: sim_device_ok)
  show ?thesis
    using event_record_restores_device [OF sim_device_runtime sim_quiet_cur ok _ _ sim_recorded_run] by simp
qed

text \<open>A runtime whose \<^verbatim>\<open>topsEventRecord\<close> fails.\<close>

definition failing_record_tops :: "sim tops" where
  "failing_record_tops = sim_tops\<lparr>topsEventRecord := (\<lambda>_ _ d. (topsErrorUnknown, d))\<rparr>"

text \<open>The event operation of the guard implementation has no such guarantee: when
  \<^verbatim>\<open>topsEventRecord\<close> fails, \<^verbatim>\<open>GCUGuardImpl::record\<close> throws with the stream's device left
  current, and the event that it created is lost.
\<close>

theorem guard_record_leaves_device:
  "\<exists>c. guard_record failing_record_tops 0 \<lparr>gs_device = 1, gs_id = 0\<rparr> 1 PYTORCH_DEFAULT
         (ctx_init sim_init) = (Inl (GcuError topsErrorUnknown), c) \<and>
     effective_device sim_cur (ctx_init sim_init) = 0 \<and> effective_device sim_cur c = 1 \<and>
     sim_events (drv c) = sim_events sim_init + 1"
proof -
  let ?r = "guard_record failing_record_tops 0 \<lparr>gs_device = 1, gs_id = 0\<rparr> 1 PYTORCH_DEFAULT
      (ctx_init sim_init)"
  have "fst ?r = Inl (GcuError topsErrorUnknown)" "effective_device sim_cur (snd ?r) = 1"
    "sim_events (drv (snd ?r)) = sim_events sim_init + 1"
    by (simp_all add: guard_record_def failing_record_tops_def getDevice_def setDevice_def
        guard_createEvent_def effective_device_def sim_run_simps)
  moreover have "effective_device sim_cur (ctx_init sim_init) = 0"
    by (simp add: effective_device_def ctx_init_def sim_init_def)
  ultimately show ?thesis by (metis prod.collapse)
qed

end
