(* ===== verification/HostAlloc.thy ===== *)
theory HostAlloc
  imports GcuEvent
begin

text \<open>
  The caching allocator for pinned host memory, \<^verbatim>\<open>gcu_caching_host_allocator.cpp\<close>. A
  \<^verbatim>\<open>Block*\<close> and a \<^verbatim>\<open>GCUEvent*\<close> are numbers into the heaps of the state; 0 is the null
  pointer, and dereferencing a number that is not in its heap is undefined behaviour. The methods
  are run one at a time: the mutexes are left out.
\<close>

section \<open>The state\<close>

type_synonym hbid = nat

text \<open>
  A smart pointer to an event: the deleter remembers the device whose stack the event goes back to.
\<close>

type_synonym hevent = "int \<times> nat"

record host_block =
  hb_size :: "64 word"
  hb_ptr :: addr
  hb_allocated :: bool
  hb_event_count :: nat
  hb_streams :: "gcu_stream list"

definition HostBlock :: host_block where
  "HostBlock = \<lparr> hb_size = 0, hb_ptr = 0, hb_allocated = False, hb_event_count = 0, hb_streams = [] \<rparr>"

text \<open>
  \<open>host_blocks\<close> and \<open>ptr_to_block\<close> are the hash containers \<^verbatim>\<open>blocks_\<close> and
  \<^verbatim>\<open>ptr_to_block_\<close>, \<open>free_list\<close> the ordered set \<^verbatim>\<open>free_list_\<close>, \<open>host_events\<close> the
  deque \<^verbatim>\<open>gcu_events_\<close> from front to back, and \<open>event_pool\<close> the stacks of \<^verbatim>\<open>EventPool\<close>
  (the top is the head), one per device.
\<close>

record 'd host =
  host_blocks :: "hbid list"
  ptr_to_block :: "addr \<Rightarrow> hbid option"
  free_list :: "hbid list"
  host_events :: "(hevent \<times> hbid) list"
  event_pool :: "nat list list"
  hheap :: "hbid \<Rightarrow> host_block option"
  next_hbid :: hbid
  eheap :: "nat \<Rightarrow> gcu_event option"
  next_event :: nat
  hctx :: "'d ctx"

type_synonym ('d, 'a) hact = "('d host, 'a) act"

text \<open>The two calls for host memory, a parameter like the rest of the runtime.\<close>

record 'd host_api =
  topsHostMalloc :: "64 word \<Rightarrow> 'd \<Rightarrow> (tops_error \<times> addr) \<times> 'd"
  topsHostFree :: "addr \<Rightarrow> 'd \<Rightarrow> tops_error \<times> 'd"

record 'd host_env =
  h_runtime :: "'d tops"
  h_api :: "'d host_api"
  h_llvm :: llvm_math
  h_use_default :: bool

definition in_hctx :: "('d, 'a) cact \<Rightarrow> ('d, 'a) hact" where
  "in_hctx m = (\<lambda>s. case m (hctx s) of (r, c) \<Rightarrow> (r, s\<lparr>hctx := c\<rparr>))"

definition hderef :: "hbid \<Rightarrow> ('d, host_block) hact" where
  "hderef b = (\<lambda>s. case hheap s b of None \<Rightarrow> (Inl UndefinedBehaviour, s) | Some x \<Rightarrow> (Inr x, s))"

definition hmodify :: "hbid \<Rightarrow> (host_block \<Rightarrow> host_block) \<Rightarrow> ('d, unit) hact" where
  "hmodify b f = (\<lambda>s. case hheap s b of None \<Rightarrow> (Inl UndefinedBehaviour, s)
     | Some x \<Rightarrow> (Inr (), s\<lparr>hheap := (hheap s)(b \<mapsto> f x)\<rparr>))"

definition ederef :: "nat \<Rightarrow> ('d, gcu_event) hact" where
  "ederef e = (\<lambda>s. case eheap s e of None \<Rightarrow> (Inl UndefinedBehaviour, s) | Some x \<Rightarrow> (Inr x, s))"

text \<open>A method of an event object of the heap.\<close>

definition on_event :: "nat \<Rightarrow> ('d, 'a) eact \<Rightarrow> ('d, 'a) hact" where
  "on_event e m = (\<lambda>s. case eheap s e of None \<Rightarrow> (Inl UndefinedBehaviour, s)
     | Some x \<Rightarrow> (case m \<lparr>self = x, ectx = hctx s\<rparr> of
         (r, t) \<Rightarrow> (r, s\<lparr>eheap := (eheap s)(e \<mapsto> self t), hctx := ectx t\<rparr>)))"

text \<open>The comparator of the free list: size, then address.\<close>

type_synonym host_key = "64 word \<times> addr"

definition hkey :: "host_block \<Rightarrow> host_key" where
  "hkey x = (hb_size x, hb_ptr x)"

fun BlockComparator :: "host_key \<Rightarrow> host_key \<Rightarrow> bool" where
  "BlockComparator (sa, pa) (sb, pb) = (if sa \<noteq> sb then sa < sb else pa < pb)"

interpretation host_order: comparator BlockComparator
  by unfold_locales (auto split: if_splits)

section \<open>The pool of events\<close>

definition EventPool :: "int \<Rightarrow> nat list list" where
  "EventPool device_count0 = replicate (nat device_count0) []"

text \<open>
  \<open>pool_get\<close> takes an event from the device's stack or creates one; \<open>pool_return\<close> is the
  deleter of the smart pointer, which puts the event on that stack.
\<close>

definition pool_get :: "int \<Rightarrow> ('d, hevent) hact" where
  "pool_get device =
     seq (require InternalAssert (0 \<le> device))
     (bnd (gets event_pool) (\<lambda>pools0.
      seq (require InternalAssert (device < int (length pools0)))
        (case pools0 ! nat device of
           e # es \<Rightarrow> seq (upd (\<lambda>s. s\<lparr>event_pool := pools0[nat device := es]\<rparr>)) (ret (device, e))
         | [] \<Rightarrow> (\<lambda>s. (Inr (device, next_event s),
               s\<lparr>eheap := (eheap s)(next_event s \<mapsto> GCUEvent), next_event := Suc (next_event s)\<rparr>)))))"

definition pool_return :: "hevent \<Rightarrow> ('d, unit) hact" where
  "pool_return p =
     upd (\<lambda>s. s\<lparr>event_pool :=
       (event_pool s)[nat (fst p) := snd p # event_pool s ! nat (fst p)]\<rparr>)"

text \<open>Clearing a stack destroys its events.\<close>

definition destroy_event :: "'d host_env \<Rightarrow> nat \<Rightarrow> ('d, unit) hact" where
  "destroy_event H e =
     bnd (ederef e) (\<lambda>x.
     seq (in_hctx (destroy_GCUEvent (h_runtime H) x))
       (upd (\<lambda>s. s\<lparr>eheap := (eheap s)(e := None)\<rparr>)))"

definition pool_empty_cache :: "'d host_env \<Rightarrow> ('d, unit) hact" where
  "pool_empty_cache H =
     bnd (gets (\<lambda>s. length (event_pool s))) (\<lambda>n.
       for_each (\<lambda>i.
         bnd (gets (\<lambda>s. event_pool s ! i)) (\<lambda>es.
         seq (for_each (destroy_event H) (rev es))
           (upd (\<lambda>s. s\<lparr>event_pool := (event_pool s)[i := []]\<rparr>)))) [0..<n])"

section \<open>The operations\<close>

definition hkey_of :: "'d host \<Rightarrow> hbid \<Rightarrow> host_key" where
  "hkey_of s b = hkey (the (hheap s b))"

text \<open>Insertion compares with the elements of the list, which must exist.\<close>

definition check_free_list :: "('d, unit) hact" where
  "check_free_list =
     bnd (gets (\<lambda>s. list_all (\<lambda>b. hheap s b \<noteq> None) (free_list s))) (require UndefinedBehaviour)"

definition free_list_insert :: "hbid \<Rightarrow> ('d, unit) hact" where
  "free_list_insert b =
     seq (bnd (hderef b) (\<lambda>_. check_free_list))
       (upd (\<lambda>s. s\<lparr>free_list := fst (set_insert BlockComparator (hkey_of s) b (free_list s))\<rparr>))"

text \<open>
  One round of \<open>process_events\<close> for the event at the back of the queue; the result says
  whether the loop goes on. The event is given back when it goes out of scope, whether the round
  ends normally or with an exception, unless it was put back into the queue.
\<close>

definition process_event :: "'d host_env \<Rightarrow> hevent \<Rightarrow> hbid \<Rightarrow> ('d, bool) hact" where
  "process_event H e b =
     bnd (ederef (snd e)) (\<lambda>x.
     bnd (in_hctx (call (topsEventQuery (h_runtime H) (ev_handle x)))) (\<lambda>err.
       if err = topsErrorNotReady then
         seq (in_hctx (bnd (call (topsGetLastError (h_runtime H))) (\<lambda>_. ret ())))
         (seq (upd (\<lambda>s. s\<lparr>host_events := host_events s @ [(e, b)]\<rparr>))
           (ret False))
       else
         finallyM
          (seq (gcu_check err)
          (bnd (hderef b) (\<lambda>y.
           seq (require InternalAssert (\<not> hb_allocated y))
           (seq (hmodify b (\<lambda>y. y\<lparr>hb_event_count :=
                   (if hb_event_count y = 0 then 2 ^ 64 - 1 else hb_event_count y - 1)\<rparr>))
           (seq (bnd (hderef b) (\<lambda>y. whenM (hb_event_count y = 0) (free_list_insert b)))
             (ret True))))))
          (pool_return e)))"

text \<open>The fuel is the length of the queue and one more: each round takes an element off.\<close>

fun process_loop :: "nat \<Rightarrow> 'd host_env \<Rightarrow> ('d, unit) hact" where
  "process_loop 0 H = throw OutOfFuel"
| "process_loop (Suc n) H =
     bnd (gets host_events) (\<lambda>q.
       if q = [] then ret ()
       else
         seq (upd (\<lambda>s. s\<lparr>host_events := butlast q\<rparr>))
         (bnd (process_event H (fst (last q)) (snd (last q))) (\<lambda>more.
            if more then process_loop n H else ret ())))"

definition host_process_events :: "'d host_env \<Rightarrow> ('d, unit) hact" where
  "host_process_events H = bnd (gets (\<lambda>s. length (host_events s))) (\<lambda>n. process_loop (Suc n) H)"

text \<open>
  The optional device guard of \<open>allocate\<close>: constructed for the device type with no index it
  only remembers the current device; \<open>reset_device\<close> switches to a device that has a context,
  and the destructor restores the remembered one.
\<close>

definition with_primary_context :: "'d tops \<Rightarrow> ('d, 'a) cact \<Rightarrow> ('d, 'a) cact" where
  "with_primary_context T m =
     bnd (getDevice T) (\<lambda>original.
       finallyM
        (bnd (getDeviceIndexWithPrimaryContext T) (\<lambda>primary.
         seq (case primary of None \<Rightarrow> ret () | Some i \<Rightarrow> setDevice T i) m))
        (uncheckedSetDevice T original))"

definition host_malloc :: "'d host_env \<Rightarrow> 64 word \<Rightarrow> ('d, addr) cact" where
  "host_malloc H n =
     with_primary_context (h_runtime H)
      (bnd (currentStreamCaptureStatusMayInitCtx (h_runtime H) (h_use_default H)) (\<lambda>status.
         if status = 0 then call_check (topsHostMalloc (h_api H) n)
         else with_capture_mode (h_runtime H) topsStreamCaptureModeRelaxed
                (call_check (topsHostMalloc (h_api H) n))))"

text \<open>\<open>host_allocate\<close> returns the pointer and the block as the context of the deleter.\<close>

definition host_allocate :: "'d host_env \<Rightarrow> 64 word \<Rightarrow> ('d, addr \<times> hbid) hact" where
  "host_allocate H size0 =
     (if size0 = 0 then ret (0, 0)
      else
        seq (host_process_events H)
        (seq check_free_list
        (bnd (gets (\<lambda>s. lower_bound BlockComparator (hkey_of s) (size0, 0) (free_list s))) (\<lambda>it.
         case it of
           b # _ \<Rightarrow>
             seq (hmodify b (\<lambda>x. x\<lparr>hb_allocated := True\<rparr>))
             (seq (upd (\<lambda>s. s\<lparr>free_list := remove1 b (free_list s)\<rparr>))
              (bnd (hderef b) (\<lambda>x. ret (hb_ptr x, b))))
         | [] \<Rightarrow>
             bnd (in_hctx (host_malloc H (PowerOf2Ceil (h_llvm H) size0))) (\<lambda>a.
             bnd (gets next_hbid) (\<lambda>b.
             seq (upd (\<lambda>s. s\<lparr>
               hheap := (hheap s)(b \<mapsto> HostBlock\<lparr>hb_size := PowerOf2Ceil (h_llvm H) size0,
                                                hb_ptr := a, hb_allocated := True\<rparr>),
               next_hbid := Suc b, host_blocks := b # host_blocks s,
               ptr_to_block := (if ptr_to_block s a = None then (ptr_to_block s)(a \<mapsto> b)
                                else ptr_to_block s)\<rparr>))
               (ret (a, b))))))))"

text \<open>
  The events of a freed block, one for each stream that used it. If recording one throws, the
  events taken so far are given back.
\<close>

fun record_events :: "'d host_env \<Rightarrow> gcu_stream list \<Rightarrow> hevent list \<Rightarrow> ('d, hevent list) hact" where
  "record_events H [] es = ret es"
| "record_events H (g # gs) es =
     bnd (try_catch (pool_get (gs_device g)) (\<lambda>x. seq (for_each pool_return es) (throw x))) (\<lambda>e.
     seq (try_catch (on_event (snd e) (event_record (h_runtime H) g))
            (\<lambda>x. seq (seq (pool_return e) (for_each pool_return es)) (throw x)))
       (record_events H gs (es @ [e])))"

definition host_free :: "'d host_env \<Rightarrow> hbid \<Rightarrow> ('d, unit) hact" where
  "host_free H b =
     whenM (b \<noteq> 0)
      (seq (hmodify b (\<lambda>x. x\<lparr>hb_allocated := False\<rparr>))
      (bnd (hderef b) (\<lambda>x.
         if hb_streams x = [] then
           seq (require InternalAssert (hb_event_count x = 0))
             (free_list_insert b)
         else
           bnd (record_events H (hb_streams x) []) (\<lambda>es.
           seq (hmodify b (\<lambda>x. x\<lparr>hb_event_count := (hb_event_count x + length es) mod 2 ^ 64,
                                  hb_streams := []\<rparr>))
             (for_each (\<lambda>e. upd (\<lambda>s. s\<lparr>host_events := (e, b) # host_events s\<rparr>)) es)))))"

definition use_block :: "hbid \<Rightarrow> gcu_stream \<Rightarrow> ('d, bool) hact" where
  "use_block b stream =
     bnd (hderef b) (\<lambda>x.
     seq (require InternalAssert (hb_allocated x))
     (seq (hmodify b (\<lambda>x. x\<lparr>hb_streams := List.insert stream (hb_streams x)\<rparr>))
       (ret True)))"

definition record_event :: "addr \<Rightarrow> hbid \<Rightarrow> gcu_stream \<Rightarrow> ('d, bool) hact" where
  "record_event p c stream =
     bnd (gets host_blocks) (\<lambda>bs.
       if c \<in> set bs then use_block c stream
       else
         bnd (gets ptr_to_block) (\<lambda>m.
           case m p of Some b \<Rightarrow> use_block b stream | None \<Rightarrow> ret False))"

definition host_empty_cache :: "'d host_env \<Rightarrow> ('d, unit) hact" where
  "host_empty_cache H =
     seq (host_process_events H)
     (seq (pool_empty_cache H)
     (bnd (gets free_list) (\<lambda>blocks_to_remove.
      seq (upd (\<lambda>s. s\<lparr>free_list := []\<rparr>))
        (for_each (\<lambda>b.
           bnd (hderef b) (\<lambda>x.
           seq (upd (\<lambda>s. s\<lparr>host_blocks := removeAll b (host_blocks s),
                          ptr_to_block := (ptr_to_block s)(hb_ptr x := None)\<rparr>))
           (seq (in_hctx (bnd (call (topsHostFree (h_api H) (hb_ptr x))) gcu_check))
             (upd (\<lambda>s. s\<lparr>hheap := (hheap s)(b := None)\<rparr>))))) blocks_to_remove))))"

definition copy_data :: "('d, unit) hact" where
  "copy_data = throw (TorchCheck ''Not implemented for TOPSHostAllocator'')"

text \<open>The allocator at its construction, on first use.\<close>

definition TOPSHostAllocator :: "int \<Rightarrow> 'd ctx \<Rightarrow> 'd host" where
  "TOPSHostAllocator device_count0 c =
     \<lparr> host_blocks = [], ptr_to_block = (\<lambda>_. None), free_list = [], host_events = [],
       event_pool = EventPool device_count0, hheap = (\<lambda>_. None), next_hbid = 1,
       eheap = (\<lambda>_. None), next_event = 1, hctx = c \<rparr>"

definition getTOPSHostAllocator :: "'d tops \<Rightarrow> 'd ctx \<Rightarrow> (exc + 'd host) \<times> 'd ctx" where
  "getTOPSHostAllocator T c =
     (case device_count T c of (Inl x, c') \<Rightarrow> (Inl x, c')
      | (Inr n, c') \<Rightarrow> (Inr (TOPSHostAllocator n c'), c'))"

end
