(* ===== verification/GcuGraph.thy ===== *)
theory GcuGraph
  imports GcuGenerator NativeAlloc HostAlloc
begin

text \<open>
  Captured graphs, \<^verbatim>\<open>gcu_graph.{h,cpp}\<close>: the class \<^verbatim>\<open>GCUGraph\<close>, which ties a capture of the
  runtime to a private pool of the caching allocator and to the random generators. Its methods
  run on the graph object, the generators, the allocator and the process context; the calls of
  the runtime for graphs and for copies to the device are a parameter.
\<close>

section \<open>The state\<close>

type_synonym graph_t = nat
type_synonym graph_exec_t = nat

record extra_gen_data =
  x_seed_tensor :: "data_ptr option"
  x_offset_tensor :: "data_ptr option"
  x_increment :: "64 word"
  x_host_seed :: addr
  x_host_offset :: addr

text \<open>
  Members that the constructor leaves uninitialised start with a value of their type; the
  methods write them before they read them. A tensor is its data pointer, \<open>None\<close> an undefined
  tensor.
\<close>

record gcu_graph =
  extra_generators :: "(gen_id \<times> extra_gen_data) list"
  graph_handle :: graph_t
  graph_exec :: graph_exec_t
  has_graph :: bool
  has_graph_exec :: bool
  graph_id :: nat
  capture_id :: nat
  mempool_id :: mempool_id
  capture_stream :: gcu_stream
  capture_gen :: gen_id
  capture_dev :: int
  seed_tensor :: "data_ptr option"
  offset_tensor :: "data_ptr option"
  wholegraph_increment :: "64 word"
  host_current_seed :: addr
  host_offset_val :: addr
  has_py_host_functions :: bool

text \<open>
  \<open>this_id\<close> stands for the address of the graph; \<open>uid\<close> and \<open>uuid\<close> are the two counters for
  ids, \<open>current_gcu_graph\<close> and \<open>graphs_debug\<close> the statics.
\<close>

record 'd graph_state =
  this :: gcu_graph
  this_id :: nat
  gr_gens :: "'d gens"
  gr_alloc :: "'d native"
  gr_ctx :: "'d ctx"
  uid :: nat
  uuid :: nat
  pending_event_queries :: int
  current_gcu_graph :: "nat option"
  graphs_debug :: bool

type_synonym ('d, 'a) gract = "('d graph_state, 'a) act"

record 'd graph_api =
  topsMemcpyToDevice :: "addr \<Rightarrow> 64 word \<Rightarrow> 'd \<Rightarrow> tops_error \<times> 'd"
  topsMemcpyToDeviceAsync :: "addr \<Rightarrow> 64 word \<Rightarrow> stream_t \<Rightarrow> 'd \<Rightarrow> tops_error \<times> 'd"
  topsStreamBeginCapture :: "stream_t \<Rightarrow> nat \<Rightarrow> 'd \<Rightarrow> tops_error \<times> 'd"
  topsStreamGetCaptureInfo :: "stream_t \<Rightarrow> 'd \<Rightarrow> (tops_error \<times> nat \<times> nat) \<times> 'd"
  topsStreamEndCapture :: "stream_t \<Rightarrow> 'd \<Rightarrow> (tops_error \<times> graph_t) \<times> 'd"
  topsGraphInstantiate :: "graph_t \<Rightarrow> 'd \<Rightarrow> (tops_error \<times> graph_exec_t) \<times> 'd"
  topsGraphGetNodes :: "graph_t \<Rightarrow> 'd \<Rightarrow> (tops_error \<times> nat) \<times> 'd"
  topsGraphDestroy :: "graph_t \<Rightarrow> 'd \<Rightarrow> tops_error \<times> 'd"
  topsGraphExecDestroy :: "graph_exec_t \<Rightarrow> 'd \<Rightarrow> tops_error \<times> 'd"
  topsGraphLaunch :: "graph_exec_t \<Rightarrow> stream_t \<Rightarrow> 'd \<Rightarrow> tops_error \<times> 'd"
  topsGraphDebugDotPrint :: "graph_t \<Rightarrow> string \<Rightarrow> 'd \<Rightarrow> tops_error \<times> 'd"

record 'd graph_env =
  gr_native :: "'d native_env"
  gr_gen :: "'d gen_env"
  gr_host :: "'d host_api"
  gr_api :: "'d graph_api"
  gr_random :: "64 word"

abbreviation grt :: "'d graph_env \<Rightarrow> 'd tops" where
  "grt R \<equiv> runtime (alloc_env (gr_native R))"

abbreviation gr_use_default :: "'d graph_env \<Rightarrow> bool" where
  "gr_use_default R \<equiv> use_default_stream (alloc_env (gr_native R))"

text \<open>The parts run on the one process context.\<close>

definition in_grctx :: "('d, 'a) cact \<Rightarrow> ('d, 'a) gract" where
  "in_grctx m = (\<lambda>s. case m (gr_ctx s) of (r, c) \<Rightarrow> (r, s\<lparr>gr_ctx := c\<rparr>))"

definition in_gens :: "('d, 'a) gact \<Rightarrow> ('d, 'a) gract" where
  "in_gens m = (\<lambda>s. case m ((gr_gens s)\<lparr>gctx := gr_ctx s\<rparr>) of
     (r, g) \<Rightarrow> (r, s\<lparr>gr_gens := g, gr_ctx := gctx g\<rparr>))"

definition in_alloc :: "('d, 'a) nact \<Rightarrow> ('d, 'a) gract" where
  "in_alloc m = (\<lambda>s. case m ((gr_alloc s)\<lparr>nctx := gr_ctx s\<rparr>) of
     (r, a) \<Rightarrow> (r, s\<lparr>gr_alloc := a, gr_ctx := nctx a\<rparr>))"

definition set_this :: "(gcu_graph \<Rightarrow> gcu_graph) \<Rightarrow> ('d, unit) gract" where
  "set_this f = upd (\<lambda>s. s\<lparr>this := f (this s)\<rparr>)"

definition gcheck :: "('d \<Rightarrow> tops_error \<times> 'd) \<Rightarrow> ('d, unit) gract" where
  "gcheck f = in_grctx (bnd (call f) gcu_check)"

definition gwarn :: "'d graph_env \<Rightarrow> ('d \<Rightarrow> tops_error \<times> 'd) \<Rightarrow> ('d, unit) gract" where
  "gwarn R f = in_grctx (bnd (call f) (gcu_check_warn (grt R)))"

text \<open>
  Tensors: \<^verbatim>\<open>at::empty({2})\<close> of 32-bit integers asks the allocator for 8 bytes; assigning to a
  tensor variable releases the storage it held.
\<close>

definition empty_tensor :: "'d graph_env \<Rightarrow> ('d, data_ptr) gract" where
  "empty_tensor R = in_alloc (allocate (gr_native R) 8)"

definition release_tensor :: "'d graph_env \<Rightarrow> data_ptr option \<Rightarrow> ('d, unit) gract" where
  "release_tensor R t =
     (case t of None \<Rightarrow> ret ()
      | Some p \<Rightarrow> in_alloc (run_deleter (gr_native R) (dp_deleter p) (dp_data p)))"

section \<open>Ids and pending queries\<close>

definition graph_pool_handle :: "('d, mempool_id) gract" where
  "graph_pool_handle =
     bnd (gets uid) (\<lambda>i. seq (upd (\<lambda>s. s\<lparr>uid := i + 1\<rparr>)) (ret (0, i)))"

definition capture_sequence_id :: "('d, nat) gract" where
  "capture_sequence_id = bnd (gets uuid) (\<lambda>i. seq (upd (\<lambda>s. s\<lparr>uuid := i + 1\<rparr>)) (ret i))"

definition inc_pending_event_queries :: "('d, unit) gract" where
  "inc_pending_event_queries = upd (\<lambda>s. s\<lparr>pending_event_queries := pending_event_queries s + 1\<rparr>)"

definition dec_pending_event_queries :: "('d, unit) gract" where
  "dec_pending_event_queries =
     bnd (gets pending_event_queries) (\<lambda>n.
     seq (require InternalAssert (0 < n))
       (upd (\<lambda>s. s\<lparr>pending_event_queries := n - 1\<rparr>)))"

definition num_pending_event_queries :: "('d, int) gract" where
  "num_pending_event_queries = gets pending_event_queries"

text \<open>
  The wait of \<open>capture_begin\<close> for other threads: \<open>observed\<close> are the values that the counter
  has at the successive checks. A list without a zero stands for a wait that goes on.
\<close>

fun wait_pending :: "int list \<Rightarrow> ('d, unit) gract" where
  "wait_pending [] = throw OutOfFuel"
| "wait_pending (n # observed) =
     seq (upd (\<lambda>s. s\<lparr>pending_event_queries := n\<rparr>))
     (bnd num_pending_event_queries (\<lambda>m. if m = 0 then ret () else wait_pending observed))"

section \<open>Construction\<close>

definition host_malloc8 :: "'d graph_env \<Rightarrow> ('d, addr) gract" where
  "host_malloc8 R =
     in_grctx (call_check (topsHostMalloc (gr_host R)
       (PowerOf2Ceil (llvm (alloc_env (gr_native R))) 8)))"

definition blank_graph :: "gcu_stream \<Rightarrow> gcu_graph" where
  "blank_graph stream =
     \<lparr> extra_generators = [], graph_handle = 0, graph_exec = 0, has_graph = False,
       has_graph_exec = False, graph_id = 0, capture_id = 2 ^ 64 - 1, mempool_id = (0, 0),
       capture_stream = stream, capture_gen = 0, capture_dev = 0, seed_tensor = None,
       offset_tensor = None, wholegraph_increment = 0, host_current_seed = 0, host_offset_val = 0,
       has_py_host_functions = False \<rparr>"

definition GCUGraph :: "'d graph_env \<Rightarrow> ('d, unit) gract" where
  "GCUGraph R =
     bnd (in_grctx (getCurrentGCUStream (grt R) (gr_use_default R) (-1))) (\<lambda>stream.
     seq (set_this (\<lambda>_. blank_graph stream))
     (bnd (host_malloc8 R) (\<lambda>a.
      seq (set_this (\<lambda>g. g\<lparr>host_current_seed := a\<rparr>))
      (bnd (host_malloc8 R) (\<lambda>b.
        set_this (\<lambda>g. g\<lparr>host_offset_val := b\<rparr>))))))"

definition set_extra :: "gen_id \<Rightarrow> extra_gen_data \<Rightarrow> (gen_id \<times> extra_gen_data) list \<Rightarrow>
    (gen_id \<times> extra_gen_data) list" where
  "set_extra gen data xs =
     (if gen \<in> fst ` set xs then map (\<lambda>(h, d). (h, if h = gen then data else d)) xs
      else (gen, data) # xs)"

definition register_generator_state :: "'d graph_env \<Rightarrow> gen_id option \<Rightarrow> ('d, unit) gract" where
  "register_generator_state R generator =
     (case generator of None \<Rightarrow> throw (TorchCheck ''Expected a GCUGeneratorImpl'')
      | Some gen \<Rightarrow>
          bnd (gets this_id) (\<lambda>me.
          seq (in_gens (register_graph (gr_gen R) gen me))
          (bnd (empty_tensor R) (\<lambda>st.
           bnd (empty_tensor R) (\<lambda>ot.
           bnd (host_malloc8 R) (\<lambda>hs.
           bnd (host_malloc8 R) (\<lambda>ho.
           bnd (gets (\<lambda>s. map_of (extra_generators (this s)) gen)) (\<lambda>old.
           seq (set_this (\<lambda>g. g\<lparr>extra_generators := set_extra gen
                  \<lparr>x_seed_tensor = Some st, x_offset_tensor = Some ot, x_increment = 0,
                   x_host_seed = hs, x_host_offset = ho\<rparr> (extra_generators g)\<rparr>))
             (case old of None \<Rightarrow> ret ()
              | Some d \<Rightarrow> seq (release_tensor R (x_seed_tensor d)) (release_tensor R (x_offset_tensor d)))
           ))))))))"

section \<open>Capture\<close>

definition default_generator :: "'d graph_env \<Rightarrow> ('d, gen_id) gract" where
  "default_generator R = in_gens (getDefaultGCUGenerator (gr_gen R) (-1) (gr_random R))"

definition tensor_addr :: "data_ptr option \<Rightarrow> addr" where
  "tensor_addr t = (case t of None \<Rightarrow> 0 | Some p \<Rightarrow> dp_data p)"

text \<open>The seed of a generator is copied to its tensor, and the generator is told the tensors.\<close>

definition prologue_for ::
  "'d graph_env \<Rightarrow> gen_id \<Rightarrow> data_ptr option \<Rightarrow> data_ptr option \<Rightarrow> ('d, unit) gract" where
  "prologue_for R gen st ot =
     bnd (in_gens (current_seed (gr_gen R) gen)) (\<lambda>seed0.
     seq (gcheck (topsMemcpyToDevice (gr_api R) (tensor_addr st) seed0))
       (in_gens (capture_prologue gen (tensor_addr st) (tensor_addr ot))))"

definition begin_capture_rng :: "'d graph_env \<Rightarrow> ('d, gen_id) gract" where
  "begin_capture_rng R =
     bnd (default_generator R) (\<lambda>gen.
     bnd (empty_tensor R) (\<lambda>st.
     bnd (gets (\<lambda>s. seed_tensor (this s))) (\<lambda>old.
     seq (set_this (\<lambda>g. g\<lparr>seed_tensor := Some st\<rparr>))
     (seq (release_tensor R old)
     (bnd (empty_tensor R) (\<lambda>ot.
      bnd (gets (\<lambda>s. offset_tensor (this s))) (\<lambda>old2.
      seq (set_this (\<lambda>g. g\<lparr>offset_tensor := Some ot\<rparr>))
      (seq (release_tensor R old2)
      (seq (prologue_for R gen (Some st) (Some ot))
      (bnd (gets (\<lambda>s. extra_generators (this s))) (\<lambda>extras.
       seq (for_each (\<lambda>(h, d). prologue_for R h (x_seed_tensor d) (x_offset_tensor d)) extras)
         (ret gen))))))))))))"

text \<open>
  The filter that \<open>capture_begin\<close> hands to the allocator asks the runtime whether a stream is
  part of this capture; \<open>in_capture\<close> is what it answers while the capture lasts.
\<close>

definition capture_begin ::
  "'d graph_env \<Rightarrow> mempool_id \<Rightarrow> nat \<Rightarrow> (stream_t \<Rightarrow> bool) \<Rightarrow> int list \<Rightarrow> ('d, unit) gract" where
  "capture_begin R pool0 capture_mode in_capture observed =
     seq (bnd (gets (\<lambda>s. has_graph_exec (this s))) (\<lambda>h.
            require (TorchCheck ''This GCUGraph instance already owns a captured graph.'') (\<not> h)))
     (bnd (begin_capture_rng R) (\<lambda>gen.
      bnd (in_grctx (getCurrentGCUStream (grt R) (gr_use_default R) (-1))) (\<lambda>stream.
      bnd (in_grctx (getDefaultGCUStream (grt R) (gr_use_default R) (-1))) (\<lambda>default_stream.
      seq (require (TorchCheck ''GCU graphs must be captured on a non-default stream.'')
             (stream \<noteq> default_stream))
      (seq (set_this (\<lambda>g. g\<lparr>capture_stream := stream, capture_gen := gen\<rparr>))
      (bnd (in_grctx (current_device (grt R))) (\<lambda>dev.
       seq (set_this (\<lambda>g. g\<lparr>capture_dev := dev\<rparr>))
       (bnd capture_sequence_id (\<lambda>i.
        seq (set_this (\<lambda>g. g\<lparr>graph_id := i\<rparr>))
        (seq (if fst pool0 \<noteq> 0 \<or> snd pool0 \<noteq> 0 then
                seq (require InternalAssert (\<not> (fst pool0 \<noteq> 0 \<and> snd pool0 \<noteq> 0)))
                  (set_this (\<lambda>g. g\<lparr>mempool_id := pool0\<rparr>))
              else set_this (\<lambda>g. g\<lparr>mempool_id := (i, 0)\<rparr>))
        (seq (bnd (gets (\<lambda>s. mempool_id (this s))) (\<lambda>m.
                in_alloc (native_beginAllocateToPool dev m in_capture)))
        (seq (wait_pending observed)
        (seq (upd (\<lambda>s. s\<lparr>current_gcu_graph := Some (this_id s)\<rparr>))
        (bnd (in_grctx (stream_handle stream)) (\<lambda>h.
         seq (gcheck (topsStreamBeginCapture (gr_api R) h capture_mode))
         (bnd (in_grctx (call_check (topsStreamGetCaptureInfo (gr_api R) h))) (\<lambda>(status, cid).
          seq (set_this (\<lambda>g. g\<lparr>capture_id := cid\<rparr>))
          (seq (require InternalAssert (status = 1))
            (require InternalAssert (0 < i))))))))))))))))))))"

definition epilogue_extras :: "('d, unit) gract" where
  "epilogue_extras =
     bnd (gets (\<lambda>s. extra_generators (this s))) (\<lambda>extras.
       for_each (\<lambda>(h, d).
         bnd (in_gens (capture_epilogue h)) (\<lambda>n.
           set_this (\<lambda>g. g\<lparr>extra_generators := map (\<lambda>(h', d').
             (h', if h' = h then d'\<lparr>x_increment := n\<rparr> else d')) (extra_generators g)\<rparr>))) extras)"

definition capture_end :: "'d graph_env \<Rightarrow> ('d, unit) gract" where
  "capture_end R =
     bnd (in_grctx (getCurrentGCUStream (grt R) (gr_use_default R) (-1))) (\<lambda>stream.
     bnd (gets (\<lambda>s. capture_stream (this s))) (\<lambda>cs.
     seq (require (TorchCheck ''Capture must end on the same stream it began on.'') (stream = cs))
     (bnd (in_grctx (stream_handle cs)) (\<lambda>h.
      bnd (in_grctx (call_check (topsStreamEndCapture (gr_api R) h))) (\<lambda>graph.
      seq (set_this (\<lambda>g. g\<lparr>graph_handle := graph\<rparr>))
      (seq (bnd (gets (\<lambda>s. (capture_dev (this s), mempool_id (this s)))) (\<lambda>(dev, m).
              in_alloc (native_endAllocateToPool dev m)))
      (seq (require (TorchCheck ''Invalid capture.'') (graph \<noteq> 0))
      (seq (set_this (\<lambda>g. g\<lparr>has_graph := True\<rparr>))
      (bnd (in_grctx (call_check (topsGraphInstantiate (gr_api R) graph))) (\<lambda>exec.
       seq (set_this (\<lambda>g. g\<lparr>graph_exec := exec, has_graph_exec := True\<rparr>))
       (bnd (default_generator R) (\<lambda>gen.
        seq (bnd (gets (\<lambda>s. capture_gen (this s))) (\<lambda>cg.
               require (TorchCheck ''Default GCU RNG generator on current device at capture end is different'')
                 (gen = cg)))
        (bnd (in_gens (capture_epilogue gen)) (\<lambda>n.
         seq (set_this (\<lambda>g. g\<lparr>wholegraph_increment := n\<rparr>))
         (seq epilogue_extras
         (bnd (in_grctx (call_check (topsGraphGetNodes (gr_api R) graph))) (\<lambda>nodes.
          seq (bnd (gets graphs_debug) (\<lambda>debug.
                 whenM (\<not> debug)
                   (seq (gcheck (topsGraphDestroy (gr_api R) graph))
                     (set_this (\<lambda>g. g\<lparr>has_graph := False\<rparr>)))))
            (upd (\<lambda>s. s\<lparr>current_gcu_graph := None\<rparr>)))))))))))))))))))"

section \<open>Replay\<close>

text \<open>
  The seed and the offset of a generator are copied to its tensors. The offset is read as the
  number of the union, whatever member was written.
\<close>

definition replay_generator ::
  "'d graph_env \<Rightarrow> gen_id \<Rightarrow> 64 word \<Rightarrow> stream_t \<Rightarrow> data_ptr option \<Rightarrow> data_ptr option \<Rightarrow>
   ('d, unit) gract" where
  "replay_generator R gen increment stream st ot =
     bnd (in_gens (philox_gcu_state (gr_gen R) gen increment)) (\<lambda>inputs.
     bnd (in_gens (current_seed (gr_gen R) gen)) (\<lambda>seed0.
     seq (gcheck (topsMemcpyToDeviceAsync (gr_api R) (tensor_addr st) seed0 stream))
       (gcheck (topsMemcpyToDeviceAsync (gr_api R) (tensor_addr ot) (payload_val (ph_offset inputs)) stream))))"

definition replay_body :: "'d graph_env \<Rightarrow> ('d, unit) gract" where
  "replay_body R =
     bnd (default_generator R) (\<lambda>gen.
     bnd (gets this) (\<lambda>g.
     bnd (in_gens (philox_gcu_state (gr_gen R) gen (wholegraph_increment g))) (\<lambda>inputs.
     bnd (in_grctx (getCurrentGCUStream (grt R) (gr_use_default R) (-1))) (\<lambda>stream.
     bnd (in_gens (current_seed (gr_gen R) gen)) (\<lambda>seed0.
     bnd (in_grctx (stream_handle stream)) (\<lambda>h.
     seq (gcheck (topsMemcpyToDeviceAsync (gr_api R) (tensor_addr (seed_tensor g)) seed0 h))
     (seq (gcheck (topsMemcpyToDeviceAsync (gr_api R) (tensor_addr (offset_tensor g))
             (payload_val (ph_offset inputs)) h))
     (seq (for_each (\<lambda>(x, d). replay_generator R x (x_increment d) h (x_seed_tensor d) (x_offset_tensor d))
             (extra_generators g))
     (seq (gcheck (topsGraphLaunch (gr_api R) (graph_exec g) h))
     (seq (whenM (has_py_host_functions g) (gcheck (topsStreamSynchronize (grt R) h)))
       (in_grctx (bnd (call_check (topsDriverGetVersion (grt R))) (\<lambda>_. ret ())))))))))))))"

text \<open>The guard switches to the device of the capture stream and back.\<close>

definition replay :: "'d graph_env \<Rightarrow> ('d, unit) gract" where
  "replay R =
     seq (bnd (gets (\<lambda>s. has_graph_exec (this s)))
           (require (TorchCheck ''Called GCUGraph::replay without a preceding successful capture.'')))
     (bnd (gets (\<lambda>s. gs_device (capture_stream (this s)))) (\<lambda>dev.
      bnd (in_grctx (exchangeDevice (grt R) dev)) (\<lambda>original.
        finallyM (replay_body R) (in_grctx (uncheckedSetDevice (grt R) original)))))"

section \<open>Reset and destruction\<close>

definition enable_debug_mode :: "('d, unit) gract" where
  "enable_debug_mode = upd (\<lambda>s. s\<lparr>graphs_debug := True\<rparr>)"

definition debug_dump :: "'d graph_env \<Rightarrow> string \<Rightarrow> ('d, unit) gract" where
  "debug_dump R debug_path =
     bnd (gets (\<lambda>s. graphs_debug s \<and> has_graph (this s))) (\<lambda>dump.
       whenM dump
        (bnd (gets (\<lambda>s. graph_handle (this s))) (\<lambda>graph.
         seq (gwarn R (topsGraphDebugDotPrint (gr_api R) graph debug_path))
           (gcheck (topsGraphDestroy (gr_api R) graph)))))"

definition reset :: "'d graph_env \<Rightarrow> ('d, unit) gract" where
  "reset R =
     bnd (gets this) (\<lambda>g.
     seq (whenM (has_graph g \<or> has_graph_exec g)
            (in_alloc (native_releasePool (capture_dev g) (mempool_id g))))
     (seq (whenM (has_graph g)
            (seq (gwarn R (topsGraphDestroy (gr_api R) (graph_handle g)))
              (set_this (\<lambda>g. g\<lparr>has_graph := False\<rparr>))))
      (whenM (has_graph_exec g)
         (seq (gwarn R (topsGraphExecDestroy (gr_api R) (graph_exec g)))
           (set_this (\<lambda>g. g\<lparr>has_graph_exec := False\<rparr>))))))"

definition graph_pool :: "('d, mempool_id) gract" where
  "graph_pool =
     seq (bnd (gets (\<lambda>s. has_graph_exec (this s)))
           (require (TorchCheck ''Called GCUGraph::pool() without a preceding successful capture.'')))
       (gets (\<lambda>s. mempool_id (this s)))"

text \<open>A destructor is \<^verbatim>\<open>noexcept\<close>.\<close>

definition destroy_GCUGraph :: "'d graph_env \<Rightarrow> ('d, unit) gract" where
  "destroy_GCUGraph R =
     noexcept
      (bnd (gets this) (\<lambda>g.
       bnd (gets this_id) (\<lambda>me.
       seq (gcheck (topsHostFree (gr_host R) (host_current_seed g)))
       (seq (gcheck (topsHostFree (gr_host R) (host_offset_val g)))
       (seq (for_each (\<lambda>(x, d).
               seq (in_gens (unregister_graph x me))
               (seq (whenM (x_host_seed d \<noteq> 0) (gwarn R (topsHostFree (gr_host R) (x_host_seed d))))
                 (whenM (x_host_offset d \<noteq> 0) (gwarn R (topsHostFree (gr_host R) (x_host_offset d))))))
              (extra_generators g))
       (seq (reset R)
       (seq (release_tensor R (offset_tensor g))
       (seq (release_tensor R (seed_tensor g))
         (for_each (\<lambda>(x, d). seq (release_tensor R (x_offset_tensor d)) (release_tensor R (x_seed_tensor d)))
           (extra_generators g))))))))))"

end
