(* ===== verification/AsyncAlloc.thy ===== *)
theory AsyncAlloc
  imports NativeAlloc
begin

text \<open>
  The second back end of the allocator, \<^verbatim>\<open>gcu_malloc_async_allocator.cpp\<close>: it leaves the
  memory to the stream-ordered allocator of the runtime and keeps the usage of each pointer, the
  bytes in use per device, and what a graph capture makes it put off. The methods are run one at
  a time: the mutex is left out.
\<close>

section \<open>The state\<close>

record usage_stream =
  us_stream :: stream_t
  us_device :: int

text \<open>
  A hash set is the list of its elements without repetition; the order of the list stands for
  the unspecified order of iteration.
\<close>

record ptr_usage =
  recorded_streams :: "usage_stream list"
  creation_stream :: usage_stream
  pu_size :: "64 word"
  pu_captured :: bool

definition PtrUsage :: "64 word \<Rightarrow> bool \<Rightarrow> ptr_usage" where
  "PtrUsage s c = \<lparr> recorded_streams = [], creation_stream = \<lparr> us_stream = 0, us_device = 0 \<rparr>,
     pu_size = s, pu_captured = c \<rparr>"

text \<open>
  \<open>deferred_frees\<close> is \<^verbatim>\<open>ungraphed_ptrs_defer_free_until_no_capture\<close>; \<open>init_called\<close> the
  static flag of \<^verbatim>\<open>init\<close>.
\<close>

record 'd async =
  as_device_count :: int
  devs_initialized_flags :: "bool list"
  dummy_unifying_free_streams :: "usage_stream list"
  ptr_info :: "addr \<Rightarrow> ptr_usage option"
  deferred_frees :: "addr list"
  pytorch_used_bytes :: "64 word list"
  pytorch_memory_limits :: "64 word list"
  capture_free_streams :: "usage_stream list"
  capture_underway :: bool
  init_called :: bool
  actx :: "'d ctx"

type_synonym ('d, 'a) aact = "('d async, 'a) act"

definition AsyncAllocator :: "'d ctx \<Rightarrow> 'd async" where
  "AsyncAllocator c = \<lparr> as_device_count = 0, devs_initialized_flags = [],
     dummy_unifying_free_streams = [], ptr_info = (\<lambda>_. None), deferred_frees = [],
     pytorch_used_bytes = [], pytorch_memory_limits = [], capture_free_streams = [],
     capture_underway = False, init_called = False, actx = c \<rparr>"

text \<open>The calls of the runtime that only this back end makes.\<close>

datatype mem_pool_attr =
  topsMemPoolAttrReleaseThreshold | topsMemPoolReuseFollowEventDependencies
  | topsMemPoolReuseAllowOpportunistic | topsMemPoolReuseAllowInternalDependencies
  | topsMemPoolAttrReservedMemCurrent | topsMemPoolAttrReservedMemHigh
  | topsMemPoolAttrUsedMemCurrent | topsMemPoolAttrUsedMemHigh

type_synonym mem_pool = nat

record 'd async_api =
  topsDeviceGetMemPool :: "int \<Rightarrow> 'd \<Rightarrow> (tops_error \<times> mem_pool) \<times> 'd"
  topsMemPoolSetAttribute :: "mem_pool \<Rightarrow> mem_pool_attr \<Rightarrow> 64 word \<Rightarrow> 'd \<Rightarrow> tops_error \<times> 'd"
  topsMemPoolGetAttribute :: "mem_pool \<Rightarrow> mem_pool_attr \<Rightarrow> 'd \<Rightarrow> (tops_error \<times> 64 word) \<times> 'd"
  topsMemPoolTrimTo :: "mem_pool \<Rightarrow> nat \<Rightarrow> 'd \<Rightarrow> tops_error \<times> 'd"
  topsMemPoolSetAccess :: "mem_pool \<Rightarrow> int \<Rightarrow> 'd \<Rightarrow> tops_error \<times> 'd"
  topsMallocAsync :: "64 word \<Rightarrow> stream_t \<Rightarrow> 'd \<Rightarrow> (tops_error \<times> addr) \<times> 'd"
  topsFreeAsync :: "addr \<Rightarrow> stream_t \<Rightarrow> 'd \<Rightarrow> tops_error \<times> 'd"
  topsMemcpyDtoD :: "addr \<Rightarrow> addr \<Rightarrow> nat \<Rightarrow> 'd \<Rightarrow> tops_error \<times> 'd"

record 'd async_env =
  as_native :: "'d native_env"
  as_api :: "'d async_api"
  as_env_stream_num :: int

abbreviation art :: "'d async_env \<Rightarrow> 'd tops" where
  "art A \<equiv> rt (as_native A)"

abbreviation as_use_default :: "'d async_env \<Rightarrow> bool" where
  "as_use_default A \<equiv> use_default_stream (alloc_env (as_native A))"

definition in_actx :: "('d, 'a) cact \<Rightarrow> ('d, 'a) aact" where
  "in_actx m = (\<lambda>s. case m (actx s) of (r, c) \<Rightarrow> (r, s\<lparr>actx := c\<rparr>))"

text \<open>
  \<^verbatim>\<open>GCUGuard\<close> around actions of this allocator: the device is exchanged and set back in the
  process context.
\<close>

definition as_guard :: "'d async_env \<Rightarrow> int \<Rightarrow> ('d, 'a) aact \<Rightarrow> ('d, 'a) aact" where
  "as_guard A d m =
     bnd (in_actx (ExchangeDevice (art A) d)) (\<lambda>original.
       finallyM m (in_actx (uncheckedSetDevice (art A) original)))"

definition as_check :: "('d \<Rightarrow> tops_error \<times> 'd) \<Rightarrow> ('d, unit) aact" where
  "as_check f = in_actx (bnd (call f) gcu_check)"

text \<open>An element of one of the vectors; an index outside is undefined behaviour.\<close>

definition vec_at :: "('d async \<Rightarrow> 'a list) \<Rightarrow> int \<Rightarrow> ('d, 'a) aact" where
  "vec_at v d = (\<lambda>s. if 0 \<le> d \<and> nat d < length (v s) then (Inr (v s ! nat d), s)
     else (Inl UndefinedBehaviour, s))"

section \<open>Devices\<close>

definition init_device_pool :: "'d async_env \<Rightarrow> int \<Rightarrow> ('d, unit) aact" where
  "init_device_pool A device =
     bnd (in_actx (call_check (topsDeviceGetMemPool (as_api A) device))) (\<lambda>pool0.
     seq (as_check (topsMemPoolSetAttribute (as_api A) pool0 topsMemPoolAttrReleaseThreshold (- 1)))
     (seq (as_check (topsMemPoolSetAttribute (as_api A) pool0 topsMemPoolReuseFollowEventDependencies 1))
     (seq (as_check (topsMemPoolSetAttribute (as_api A) pool0 topsMemPoolReuseAllowOpportunistic 1))
       (as_check (topsMemPoolSetAttribute (as_api A) pool0 topsMemPoolReuseAllowInternalDependencies 1)))))"

definition lazy_init_device :: "'d async_env \<Rightarrow> int \<Rightarrow> ('d, unit) aact" where
  "lazy_init_device A device =
     bnd (vec_at devs_initialized_flags device) (\<lambda>ready.
     whenM (\<not> ready)
      (as_guard A device
        (seq (init_device_pool A device)
         (bnd (in_actx (getStreamFromPool_high (art A) (as_use_default A) (as_env_stream_num A) False (-1))) (\<lambda>dufs.
          bnd (in_actx (stream_handle dufs)) (\<lambda>h.
          upd (\<lambda>s. s\<lparr>
            dummy_unifying_free_streams := (dummy_unifying_free_streams s)[nat device :=
              \<lparr> us_stream = h, us_device = gs_device dufs \<rparr>],
            pytorch_used_bytes := (pytorch_used_bytes s)[nat device := 0],
            pytorch_memory_limits := (pytorch_memory_limits s)[nat device := - 1],
            devs_initialized_flags := (devs_initialized_flags s)[nat device := True]\<rparr>)))))))"

definition async_init :: "int \<Rightarrow> ('d, unit) aact" where
  "async_init dev_count =
     bnd (gets init_called) (\<lambda>called.
     whenM (\<not> called)
      (upd (\<lambda>s. s\<lparr>
         as_device_count := dev_count,
         devs_initialized_flags := take (nat dev_count) (devs_initialized_flags s) @
           replicate (nat dev_count - length (devs_initialized_flags s)) False,
         dummy_unifying_free_streams := take (nat dev_count) (dummy_unifying_free_streams s) @
           replicate (nat dev_count - length (dummy_unifying_free_streams s)) \<lparr> us_stream = 0, us_device = 0 \<rparr>,
         pytorch_used_bytes := take (nat dev_count) (pytorch_used_bytes s) @
           replicate (nat dev_count - length (pytorch_used_bytes s)) 0,
         pytorch_memory_limits := take (nat dev_count) (pytorch_memory_limits s) @
           replicate (nat dev_count - length (pytorch_memory_limits s)) 0,
         init_called := True\<rparr>)))"

definition async_initialized :: "('d, bool) aact" where
  "async_initialized = gets (\<lambda>s. devs_initialized_flags s \<noteq> [])"

definition async_assertValidDevice :: "int \<Rightarrow> ('d, unit) aact" where
  "async_assertValidDevice device =
     bnd (gets (\<lambda>s. 0 \<le> device \<and> device < as_device_count s))
       (require (TorchCheck ''Invalid device argument.''))"

section \<open>Freeing\<close>

definition sync_raw :: "'d async_env \<Rightarrow> stream_t \<Rightarrow> stream_t \<Rightarrow> ('d, unit) aact" where
  "sync_raw A dependency waiter =
     bnd (in_actx (call_check (topsEventCreateWithFlags (art A) topsEventDisableTiming))) (\<lambda>event.
     seq (as_check (topsEventRecord (art A) event dependency))
     (seq (as_check (topsStreamWaitEvent (art A) waiter event))
       (as_check (topsEventDestroy (art A) event))))"

text \<open>What a free remembers while a capture is underway.\<close>

definition remember_free_stream :: "usage_stream \<Rightarrow> ('d, unit) aact" where
  "remember_free_stream us =
     bnd (gets capture_underway) (\<lambda>underway.
       whenM underway
         (upd (\<lambda>s. s\<lparr>capture_free_streams := List.insert us (capture_free_streams s)\<rparr>)))"

definition free_impl :: "'d async_env \<Rightarrow> addr \<Rightarrow> ptr_usage \<Rightarrow> ('d, unit) aact" where
  "free_impl A p u =
     (let cs = creation_stream u
      in as_guard A (us_device cs)
        (seq
          (if recorded_streams u = [] then
             seq (as_check (topsFreeAsync (as_api A) p (us_stream cs)))
               (remember_free_stream cs)
           else
             bnd (vec_at dummy_unifying_free_streams (us_device cs)) (\<lambda>dummy.
             seq (require InternalAssert (us_device dummy = us_device cs))
             (seq (sync_raw A (us_stream cs) (us_stream dummy))
             (seq (for_each (\<lambda>r. as_guard A (us_device r) (sync_raw A (us_stream r) (us_stream dummy)))
                    (recorded_streams u))
             (seq (as_check (topsFreeAsync (as_api A) p (us_stream dummy)))
               (remember_free_stream dummy))))))
          (bnd (vec_at pytorch_used_bytes (us_device cs)) (\<lambda>n.
             upd (\<lambda>s. s\<lparr>
               pytorch_used_bytes := (pytorch_used_bytes s)[nat (us_device cs) := n - pu_size u],
               ptr_info := (ptr_info s)(p := None)\<rparr>)))))"

text \<open>An entry that must be there.\<close>

definition find_ptr :: "addr \<Rightarrow> ('d, ptr_usage) aact" where
  "find_ptr p =
     bnd (gets (\<lambda>s. ptr_info s p)) (\<lambda>it.
       case it of None \<Rightarrow> throw InternalAssert | Some u \<Rightarrow> ret u)"

definition freeAsync :: "'d async_env \<Rightarrow> addr \<Rightarrow> ('d, unit) aact" where
  "freeAsync A p =
     seq (as_check (topsGetLastError (art A)))
     (bnd (find_ptr p) (\<lambda>u.
      bnd (gets capture_underway) (\<lambda>underway.
        if underway \<and> \<not> pu_captured u
        then upd (\<lambda>s. s\<lparr>deferred_frees := deferred_frees s @ [p]\<rparr>)
        else free_impl A p u)))"

section \<open>Allocation\<close>

definition free_deferred :: "'d async_env \<Rightarrow> ('d, unit) aact" where
  "free_deferred A =
     bnd (gets (\<lambda>s. \<not> capture_underway s \<and> deferred_frees s \<noteq> [])) (\<lambda>due.
       whenM due
        (bnd (gets deferred_frees) (\<lambda>ps.
         seq (for_each (\<lambda>p. bnd (find_ptr p) (free_impl A p)) ps)
           (upd (\<lambda>s. s\<lparr>deferred_frees := []\<rparr>)))))"

text \<open>
  The call of the runtime within the limit; the sum of the bytes is a 64-bit number. Out of
  memory clears the error of the runtime and asks it for the numbers of the message.
\<close>

definition malloc_within_limit :: "'d async_env \<Rightarrow> int \<Rightarrow> 64 word \<Rightarrow> stream_t \<Rightarrow> ('d, tops_error \<times> addr) aact" where
  "malloc_within_limit A device n stream =
     bnd (vec_at pytorch_used_bytes device) (\<lambda>used.
     bnd (vec_at pytorch_memory_limits device) (\<lambda>limit.
       if limit < used + n then ret (topsErrorMemoryAllocation, 0)
       else in_actx (call (topsMallocAsync (as_api A) n stream))))"

definition mallocAsync :: "'d async_env \<Rightarrow> int \<Rightarrow> 64 word \<Rightarrow> stream_t \<Rightarrow> ('d, addr) aact" where
  "mallocAsync A device n stream =
     seq (bnd (gets (\<lambda>s. 0 \<le> device \<and> device < as_device_count s)) (require InternalAssert))
     (as_guard A device
       (seq (free_deferred A)
       (seq (lazy_init_device A device)
       (seq (as_check (topsGetLastError (art A)))
       (bnd (malloc_within_limit A device n stream) (\<lambda>(err, p).
        if err = topsErrorMemoryAllocation then
          seq (in_actx (bnd (call (topsGetLastError (art A))) (\<lambda>_. ret ())))
          (bnd (in_actx (call_check (topsMemGetInfo (art A)))) (\<lambda>_. throw OutOfMemoryError))
        else
          seq (gcu_check err)
          (bnd (gets (\<lambda>s. ptr_info s p = None)) (\<lambda>fresh.
           bnd (gets capture_underway) (\<lambda>underway.
           seq (whenM fresh
                 (upd (\<lambda>s. s\<lparr>ptr_info := (ptr_info s)(p \<mapsto> PtrUsage n underway)\<rparr>)))
           (seq (require InternalAssert fresh)
           (bnd (vec_at pytorch_used_bytes device) (\<lambda>used.
            seq (upd (\<lambda>s. s\<lparr>
                   ptr_info := (ptr_info s)(p \<mapsto>
                     (PtrUsage n underway)\<lparr>creation_stream := \<lparr> us_stream = stream, us_device = device \<rparr>\<rparr>),
                   pytorch_used_bytes := (pytorch_used_bytes s)[nat device := used + n]\<rparr>))
              (ret p)))))))))))))"

definition async_current_device :: "'d async_env \<Rightarrow> ('d, int) aact" where
  "async_current_device A = in_actx (bnd (GetDevice (art A)) (\<lambda>(err, device). seq (gcu_check err) (ret device)))"

definition async_current_stream :: "'d async_env \<Rightarrow> int \<Rightarrow> ('d, stream_t) aact" where
  "async_current_stream A device =
     in_actx (bnd (getCurrentGCUStream (art A) (as_use_default A) device) stream_handle)"

definition async_allocate :: "'d async_env \<Rightarrow> 64 word \<Rightarrow> ('d, data_ptr) aact" where
  "async_allocate A n =
     seq (require OutOfMemoryError (unat n < one_exa_bytes))
     (bnd (async_current_device A) (\<lambda>device.
      bnd (if n \<noteq> 0 then bnd (async_current_stream A device) (mallocAsync A device n) else ret 0) (\<lambda>p.
        ret \<lparr>dp_data = p, dp_deleter = local_raw_delete_fn, dp_device = device\<rparr>)))"

definition async_raw_alloc :: "'d async_env \<Rightarrow> 64 word \<Rightarrow> ('d, addr) aact" where
  "async_raw_alloc A nbytes =
     (if nbytes = 0 then ret 0
      else bnd (async_current_device A) (\<lambda>device.
           bnd (async_current_stream A device) (mallocAsync A device nbytes)))"

definition async_raw_alloc_with_stream :: "'d async_env \<Rightarrow> 64 word \<Rightarrow> stream_t \<Rightarrow> ('d, addr) aact" where
  "async_raw_alloc_with_stream A nbytes stream =
     (if nbytes = 0 then ret 0
      else bnd (async_current_device A) (\<lambda>device. mallocAsync A device nbytes stream))"

definition async_raw_delete :: "'d async_env \<Rightarrow> addr \<Rightarrow> ('d, unit) aact" where
  "async_raw_delete A p = freeAsync A p"

definition async_local_raw_delete :: "'d async_env \<Rightarrow> addr \<Rightarrow> ('d, unit) aact" where
  "async_local_raw_delete A p = freeAsync A p"

section \<open>Limits, cache and statistics\<close>

text \<open>The fraction is a \<^verbatim>\<open>double\<close> in the source and a rational number here.\<close>

definition async_setMemoryFraction :: "'d async_env \<Rightarrow> rat \<Rightarrow> int \<Rightarrow> ('d, unit) aact" where
  "async_setMemoryFraction A fraction device =
     seq (require InternalAssert (0 \<le> fraction \<and> fraction \<le> 1))
     (seq (async_assertValidDevice device)
      (as_guard A device
        (seq (lazy_init_device A device)
        (bnd (in_actx (call_check (topsMemGetInfo (art A)))) (\<lambda>(device_free, device_total).
           upd (\<lambda>s. s\<lparr>pytorch_memory_limits := (pytorch_memory_limits s)[nat device :=
             word_of_int \<lfloor>fraction * of_nat device_total\<rfloor>]\<rparr>))))))"

definition async_emptyCache :: "'d async_env \<Rightarrow> ('d, unit) aact" where
  "async_emptyCache A =
     bnd (gets as_device_count) (\<lambda>n.
       for_each (\<lambda>dev.
         bnd (vec_at devs_initialized_flags dev) (\<lambda>ready.
           whenM ready
            (as_guard A dev
              (bnd (in_actx (call_check (topsDeviceGetMemPool (as_api A) dev))) (\<lambda>pool0.
               seq (as_check (topsDeviceSynchronize (art A)))
                 (as_check (topsMemPoolTrimTo (as_api A) pool0 0))))))) [0..n - 1])"

text \<open>
  The search for a workspace size. The loop of the source has no bound of its own; the first
  argument bounds its rounds.
\<close>

fun guess_loop :: "nat \<Rightarrow> 'd async_env \<Rightarrow> int \<Rightarrow> stream_t \<Rightarrow> 64 word \<Rightarrow> ('d, 64 word) aact" where
  "guess_loop 0 A device stream guess = throw OutOfFuel"
| "guess_loop (Suc fuel) A device stream guess =
     bnd (malloc_within_limit A device guess stream) (\<lambda>(err, dummy).
       if err = topsSuccess then
         seq (in_actx (bnd (call (topsFreeAsync (as_api A) dummy stream)) (\<lambda>_. ret ())))
           (ret guess)
       else if err = topsErrorMemoryAllocation then
         seq (in_actx (bnd (call (topsGetLastError (art A))) (\<lambda>_. ret ())))
           (guess_loop fuel A device stream (drop_bit 1 guess))
       else seq (gcu_check err) (guess_loop fuel A device stream guess))"

definition async_cacheInfo :: "nat \<Rightarrow> 'd async_env \<Rightarrow> int \<Rightarrow> ('d, 64 word) aact" where
  "async_cacheInfo fuel A device =
     seq (async_assertValidDevice device)
      (as_guard A device
        (seq (lazy_init_device A device)
        (bnd (in_actx (call_check (topsMemGetInfo (art A)))) (\<lambda>(free_upper_bound, device_total).
         bnd (vec_at pytorch_used_bytes device) (\<lambda>used.
         bnd (vec_at pytorch_memory_limits device) (\<lambda>limit.
         seq (require InternalAssert ((free_upper_bound + unat used) mod 2 ^ 64 \<le> device_total))
         (bnd (async_current_stream A (-1)) (\<lambda>stream.
          seq (as_check (topsGetLastError (art A)))
            (guess_loop fuel A device stream (min (word_of_nat free_upper_bound) (limit - used)))))))))))"

definition async_getBaseAllocation :: "addr \<Rightarrow> ('d, addr \<times> 64 word) aact" where
  "async_getBaseAllocation p = bnd (find_ptr p) (\<lambda>u. ret (p, pu_size u))"

definition async_recordStream :: "data_ptr \<Rightarrow> gcu_stream \<Rightarrow> ('d, unit) aact" where
  "async_recordStream p g =
     (if dp_data p = 0 then ret ()
      else
        bnd (find_ptr (dp_data p)) (\<lambda>u.
        bnd (in_actx (stream_handle g)) (\<lambda>h.
          let to_record = \<lparr> us_stream = h, us_device = gs_device g \<rparr>
          in if to_record = creation_stream u then ret ()
             else upd (\<lambda>s. s\<lparr>ptr_info := (ptr_info s)(dp_data p \<mapsto>
               u\<lparr>recorded_streams := List.insert to_record (recorded_streams u)\<rparr>)\<rparr>))))"

text \<open>The requests that this back end does not support.\<close>

datatype async_unsupported =
  as_shareIpcHandle | as_getIpcDevPtr | as_recordHistory | as_attachOutOfMemoryObserver
  | as_attachAllocatorTraceTracker | as_getCheckpointState | as_setCheckpointPoolState | as_snapshot

definition async_unsupported_message :: "async_unsupported \<Rightarrow> string" where
  "async_unsupported_message f = (case f of
       as_shareIpcHandle \<Rightarrow> ''topsMallocAsync does not yet support shareIpcHandle. ''
     | as_getIpcDevPtr \<Rightarrow> ''topsMallocAsync does not yet support getIpcDevPtr. ''
     | as_recordHistory \<Rightarrow> ''topsMallocAsync does not yet support recordHistory. ''
     | as_attachOutOfMemoryObserver \<Rightarrow> ''topsMallocAsync does not yet support attachOutOfMemoryObserver. ''
     | as_attachAllocatorTraceTracker \<Rightarrow> ''topsMallocAsync does not yet support attachAllocatorTraceTracker. ''
     | as_getCheckpointState \<Rightarrow> ''topsMallocAsync does not yet support getCheckpointState. ''
     | as_setCheckpointPoolState \<Rightarrow> ''topsMallocAsync does not yet support setCheckpointPoolState. ''
     | as_snapshot \<Rightarrow> ''Calling snapshot with backend:topsMallocAsync is not meaningful. '')"

definition async_not_supported :: "async_unsupported \<Rightarrow> ('d, unit) aact" where
  "async_not_supported f = throw (TorchCheck (async_unsupported_message f))"

text \<open>The numbers of the driver, unsigned in its interface and signed in the statistics.\<close>

definition async_getDeviceStats :: "'d async_env \<Rightarrow> int \<Rightarrow> ('d, device_stats) aact" where
  "async_getDeviceStats A device =
     seq (async_assertValidDevice device)
     (bnd (vec_at devs_initialized_flags device) (\<lambda>ready.
      bnd (if ready then
             as_guard A device
              (bnd (in_actx (call_check (topsDeviceGetMemPool (as_api A) device))) (\<lambda>pool0.
               bnd (in_actx (call_check (topsMemPoolGetAttribute (as_api A) pool0 topsMemPoolAttrReservedMemCurrent))) (\<lambda>rc.
               bnd (in_actx (call_check (topsMemPoolGetAttribute (as_api A) pool0 topsMemPoolAttrReservedMemHigh))) (\<lambda>rp.
               bnd (in_actx (call_check (topsMemPoolGetAttribute (as_api A) pool0 topsMemPoolAttrUsedMemCurrent))) (\<lambda>uc.
               bnd (in_actx (call_check (topsMemPoolGetAttribute (as_api A) pool0 topsMemPoolAttrUsedMemHigh))) (\<lambda>up.
                 ret (rc, rp, uc, up)))))))
           else ret (0, 0, 0, 0)) (\<lambda>(reserved_current, reserved_peak, used_current, used_peak).
        let used = Stat\<lparr>current := sint used_current, peak := sint used_peak\<rparr>;
            reserved = Stat\<lparr>current := sint reserved_current, peak := sint reserved_peak\<rparr>
        in ret ((DeviceStats 0)\<lparr>
             allocated_bytes := (\<lambda>_. Stat)(AGGREGATE := used),
             active_bytes := (\<lambda>_. Stat)(AGGREGATE := used),
             reserved_bytes := (\<lambda>_. Stat)(AGGREGATE := reserved)\<rparr>))))"

definition async_resetAccumulatedStats :: "int \<Rightarrow> ('d, unit) aact" where
  "async_resetAccumulatedStats device = async_assertValidDevice device"

definition async_resetPeakStats :: "'d async_env \<Rightarrow> int \<Rightarrow> ('d, unit) aact" where
  "async_resetPeakStats A device =
     seq (async_assertValidDevice device)
      (as_guard A device
        (bnd (in_actx (call_check (topsDeviceGetMemPool (as_api A) device))) (\<lambda>pool0.
         seq (as_check (topsMemPoolSetAttribute (as_api A) pool0 topsMemPoolAttrReservedMemHigh 0))
           (as_check (topsMemPoolSetAttribute (as_api A) pool0 topsMemPoolAttrUsedMemHigh 0)))))"

section \<open>Captures\<close>

definition async_beginAllocateToPool :: "('d, unit) aact" where
  "async_beginAllocateToPool =
     seq (bnd (gets (\<lambda>s. capture_free_streams s = [])) (require InternalAssert))
     (seq (bnd (gets (\<lambda>s. \<not> capture_underway s))
            (require (TorchCheck ''Only one capture at a time is allowed in a process.'')))
       (upd (\<lambda>s. s\<lparr>capture_underway := True\<rparr>)))"

definition async_endAllocateToPool :: "'d async_env \<Rightarrow> int \<Rightarrow> ('d, unit) aact" where
  "async_endAllocateToPool A device =
     seq (async_assertValidDevice device)
     (seq (bnd (gets capture_underway)
            (require (TorchCheck ''TopsMallocAsync::notifyCaptureAboutToEnd called, but TopsMallocAsync::capture_underway is false.'')))
     (bnd (in_actx (getCurrentGCUStream (art A) (as_use_default A) device)) (\<lambda>capture_stream.
      bnd (gets capture_free_streams) (\<lambda>fs.
      seq (for_each (\<lambda>f.
             as_guard A (us_device f)
              (bnd (in_actx (call_check (topsEventCreateWithFlags (art A) topsEventDisableTiming))) (\<lambda>event.
               seq (as_check (topsEventRecord (art A) event (us_stream f)))
               (bnd (in_actx (stream_handle capture_stream)) (\<lambda>h.
                seq (as_check (topsStreamWaitEvent (art A) h event))
                  (as_check (topsEventDestroy (art A) event))))))) fs)
      (seq (upd (\<lambda>s. s\<lparr>capture_free_streams := []\<rparr>))
      (seq (bnd (gets capture_underway)
             (require (TorchCheck ''TopsMallocAsync::notifyCaptureEnded called, but TopsMallocAsync::capture_underway is false.'')))
        (upd (\<lambda>s. s\<lparr>capture_underway := False\<rparr>))))))))"

definition async_releasePool :: "('d, unit) aact" where
  "async_releasePool = ret ()"

section \<open>Other calls\<close>

definition async_enablePeerAccess :: "'d async_env \<Rightarrow> int \<Rightarrow> int \<Rightarrow> ('d, unit) aact" where
  "async_enablePeerAccess A dev dev_to_access =
     as_guard A dev
      (bnd (in_actx (call_check (topsDeviceGetMemPool (as_api A) dev_to_access))) (\<lambda>pool0.
         as_check (topsMemPoolSetAccess (as_api A) pool0 dev)))"

definition async_memcpyAsync ::
  "'d async_env \<Rightarrow> addr \<Rightarrow> int \<Rightarrow> addr \<Rightarrow> int \<Rightarrow> nat \<Rightarrow> stream_t \<Rightarrow> bool \<Rightarrow> ('d, tops_error) aact" where
  "async_memcpyAsync A dst dstDevice src srcDevice count0 stream p2p_enabled =
     (if dstDevice = srcDevice then in_actx (call (topsMemcpyDtoDAsync (as_native A) dst src count0 stream))
      else if \<not> p2p_enabled then ret topsErrorPeerAccessNotEnabled
      else in_actx (call (topsMemcpyPeerAsync (as_native A) dst dstDevice src srcDevice count0 stream)))"

definition async_name :: string where "async_name = ''topsMallocAsync''"

definition async_copy_data :: "'d async_env \<Rightarrow> addr \<Rightarrow> addr \<Rightarrow> nat \<Rightarrow> ('d, unit) aact" where
  "async_copy_data A dest src count0 = as_check (topsMemcpyDtoD (as_api A) dest src count0)"

end
