(* ===== verification/AsyncInv.thy ===== *)
theory AsyncInv
  imports AsyncAlloc RuntimeLaws
begin

text \<open>
  The invariant of the stream-ordered back end: the bytes counted for a device are the sizes of
  the pointers created on it, and every pointer it knows is memory that the runtime still holds.
  The lemmas are triples; each operation keeps the invariant, also when it throws.
\<close>

section \<open>The runtime\<close>

text \<open>
  \<open>live\<close> reads the stream-ordered allocations off the driver's state. A request of no bytes may
  return a pointer that is not an allocation.
\<close>

definition async_runtime :: "'d async_env \<Rightarrow> ('d \<Rightarrow> addr set) \<Rightarrow> bool" where
  "async_runtime A live \<longleftrightarrow> quiet_runtime (art A) live \<and>
     (\<forall>i. quiet live (topsDeviceGetMemPool (as_api A) i)) \<and>
     (\<forall>p a v. quiet live (topsMemPoolSetAttribute (as_api A) p a v)) \<and>
     (\<forall>p a. quiet live (topsMemPoolGetAttribute (as_api A) p a)) \<and>
     (\<forall>p n. quiet live (topsMemPoolTrimTo (as_api A) p n)) \<and>
     (\<forall>p i. quiet live (topsMemPoolSetAccess (as_api A) p i)) \<and>
     (\<forall>n s d. case topsMallocAsync (as_api A) n s d of ((err, a), d') \<Rightarrow>
        if err = topsSuccess
        then a \<notin> live d \<and> (live d' = insert a (live d) \<or> n = 0 \<and> live d' = live d)
        else live d' = live d) \<and>
     (\<forall>a s d. case topsFreeAsync (as_api A) a s d of (err, d') \<Rightarrow>
        live d' = live d \<or> err = topsSuccess \<and> live d' = live d - {a})"

lemma async_runtimeD:
  assumes "async_runtime A live"
  shows "quiet_runtime (art A) live" "quiet_others (art A) live"
    "quiet live (topsDeviceGetMemPool (as_api A) i)" "quiet live (topsMemPoolSetAttribute (as_api A) p a v)"
    "quiet live (topsMemPoolGetAttribute (as_api A) p a)" "quiet live (topsMemPoolTrimTo (as_api A) p k)"
    "quiet live (topsMemPoolSetAccess (as_api A) p i)"
  using assms by (simp_all add: async_runtime_def quiet_runtime_def)

lemma async_malloc_law:
  assumes "async_runtime A live" "topsMallocAsync (as_api A) n s d = ((topsSuccess, a), d')"
  shows "a \<notin> live d" "live d \<subseteq> live d'" "live d' \<subseteq> insert a (live d)" "n \<noteq> 0 \<Longrightarrow> a \<in> live d'"
proof -
  have all: "\<forall>n s d. case topsMallocAsync (as_api A) n s d of ((err, a), d') \<Rightarrow>
        if err = topsSuccess
        then a \<notin> live d \<and> (live d' = insert a (live d) \<or> n = 0 \<and> live d' = live d)
        else live d' = live d"
    using assms(1) unfolding async_runtime_def by (elim conjE)
  from spec [OF spec [OF spec [OF all, of n], of s], of d]
  show "a \<notin> live d" "live d \<subseteq> live d'" "live d' \<subseteq> insert a (live d)" "n \<noteq> 0 \<Longrightarrow> a \<in> live d'"
    using assms(2) by auto
qed

lemma async_malloc_fails:
  assumes "async_runtime A live" "topsMallocAsync (as_api A) n s d = ((err, a), d')" "err \<noteq> topsSuccess"
  shows "live d' = live d"
proof -
  have all: "\<forall>n s d. case topsMallocAsync (as_api A) n s d of ((err, a), d') \<Rightarrow>
        if err = topsSuccess
        then a \<notin> live d \<and> (live d' = insert a (live d) \<or> n = 0 \<and> live d' = live d)
        else live d' = live d"
    using assms(1) unfolding async_runtime_def by (elim conjE)
  from spec [OF spec [OF spec [OF all, of n], of s], of d] show ?thesis using assms(2,3) by simp
qed

lemma async_free_law:
  assumes "async_runtime A live" "topsFreeAsync (as_api A) a s d = (err, d')"
  shows "live d - {a} \<subseteq> live d'" "err \<noteq> topsSuccess \<Longrightarrow> live d' = live d"
proof -
  have all: "\<forall>a s d. case topsFreeAsync (as_api A) a s d of (err, d') \<Rightarrow>
        live d' = live d \<or> err = topsSuccess \<and> live d' = live d - {a}"
    using assms(1) unfolding async_runtime_def by (elim conjE)
  from spec [OF spec [OF spec [OF all, of a], of s], of d]
  show "live d - {a} \<subseteq> live d'" "err \<noteq> topsSuccess \<Longrightarrow> live d' = live d"
    using assms(2) by auto
qed

section \<open>Triples of the process context\<close>

definition ctx_closed :: "('d \<Rightarrow> addr set) \<Rightarrow> ('d async \<Rightarrow> bool) \<Rightarrow> bool" where
  "ctx_closed live P \<longleftrightarrow> (\<forall>s c. P s \<longrightarrow> live (drv c) = live (drv (actx s)) \<longrightarrow> P (s\<lparr>actx := c\<rparr>))"

lemma ctx_closedI: "(\<And>s c. P s \<Longrightarrow> live (drv c) = live (drv (actx s)) \<Longrightarrow> P (s\<lparr>actx := c\<rparr>)) \<Longrightarrow> ctx_closed live P"
  by (simp add: ctx_closed_def)

lemma hoare_in_actx:
  assumes "\<And>P. keeps_pred (\<lambda>c. P (live (drv c))) m" "ctx_closed live P"
  shows "hoare P (in_actx m) (\<lambda>_. P) (\<lambda>_. P)"
proof (rule hoareI)
  have l: "live (drv c') = live (drv c)" if "m c = (r, c')" for c r c'
    using keeps_predD [OF assms(1) [of "\<lambda>L. L = live (drv c)"] _ that] by simp
  fix s x s' assume "P s" "in_actx m s = (Inr x, s')"
  then show "P s'" using assms(2) l by (auto simp: in_actx_def ctx_closed_def split: prod.splits)
next
  have l: "live (drv c') = live (drv c)" if "m c = (r, c')" for c r c'
    using keeps_predD [OF assms(1) [of "\<lambda>L. L = live (drv c)"] _ that] by simp
  fix s e s' assume "P s" "in_actx m s = (Inl e, s')"
  then show "P s'" using assms(2) l by (auto simp: in_actx_def ctx_closed_def split: prod.splits)
qed

lemma hoare_as_check: "quiet live f \<Longrightarrow> ctx_closed live P \<Longrightarrow> hoare P (as_check f) (\<lambda>_. P) (\<lambda>_. P)"
  unfolding as_check_def by (intro hoare_in_actx keeps_bnd keeps_call keeps_gcu_check)

lemma hoare_actx_call: "quiet live f \<Longrightarrow> ctx_closed live P \<Longrightarrow> hoare P (in_actx (call_check f)) (\<lambda>_. P) (\<lambda>_. P)"
  by (intro hoare_in_actx keeps_call_check)

lemma hoare_as_guard:
  assumes A: "async_runtime A live" and m: "hoare P m Q (\<lambda>_. R)"
    and c: "ctx_closed live P" "\<And>x. ctx_closed live (Q x)" "ctx_closed live R"
    and imp: "\<And>s. P s \<Longrightarrow> R s" "\<And>x s. Q x s \<Longrightarrow> R s"
  shows "hoare P (as_guard A d m) Q (\<lambda>_. R)"
  unfolding as_guard_def
proof (rule hoare_bnd)
  have T: "quiet_runtime (art A) live" by (rule async_runtimeD(1) [OF A])
  have ex: "hoare P (in_actx (ExchangeDevice (art A) d)) (\<lambda>_. P) (\<lambda>_. P)"
    by (rule hoare_in_actx [OF ExchangeDevice_keeps [OF T] c(1)])
  show "hoare P (in_actx (ExchangeDevice (art A) d)) (\<lambda>_. P) (\<lambda>_. R)"
    by (rule hoare_conseq [OF ex]) (auto intro: imp)
  fix original
  have restore: "hoare K (in_actx (uncheckedSetDevice (art A) original)) (\<lambda>_. K) (\<lambda>_. K)" if "ctx_closed live K" for K
    by (rule hoare_in_actx [OF uncheckedSetDevice_keeps [OF T] that])
  show "hoare P (finallyM m (in_actx (uncheckedSetDevice (art A) original))) Q (\<lambda>_. R)"
  proof (rule hoare_finally [OF m])
    show "hoare (Q x) (in_actx (uncheckedSetDevice (art A) original)) (\<lambda>_. Q x) (\<lambda>_. R)" for x
      by (rule hoare_conseq [OF restore [OF c(2)]]) (auto intro: imp)
  qed (rule restore [OF c(3)])
qed

section \<open>The invariant\<close>

definition on_dev :: "ptr_usage \<Rightarrow> int" where
  "on_dev u = us_device (creation_stream u)"

definition bytes_on :: "(addr \<Rightarrow> ptr_usage option) \<Rightarrow> int \<Rightarrow> 64 word" where
  "bytes_on h d = (\<Sum>p\<in>{p. \<exists>u. h p = Some u \<and> on_dev u = d}. pu_size (the (h p)))"

text \<open>\<open>Z\<close> are the pointers that are being freed: the runtime may have taken them back already.\<close>

definition as_ok :: "('d \<Rightarrow> addr set) \<Rightarrow> int \<Rightarrow> addr set \<Rightarrow> 'd async \<Rightarrow> bool" where
  "as_ok live n Z s \<longleftrightarrow> as_device_count s = n \<and> length (devs_initialized_flags s) = nat n \<and>
     length (dummy_unifying_free_streams s) = nat n \<and> length (pytorch_used_bytes s) = nat n \<and>
     length (pytorch_memory_limits s) = nat n \<and> finite (dom (ptr_info s)) \<and>
     (\<forall>p u. ptr_info s p = Some u \<longrightarrow> (p \<in> Z \<or> p \<in> live (drv (actx s))) \<and> 0 \<le> on_dev u \<and> on_dev u < n \<and>
        devs_initialized_flags s ! nat (on_dev u)) \<and>
     (\<forall>d. 0 \<le> d \<longrightarrow> d < n \<longrightarrow> devs_initialized_flags s ! nat d \<longrightarrow>
        pytorch_used_bytes s ! nat d = bytes_on (ptr_info s) d)"

text \<open>The same with what an operation has to say of the pointers, the deferred frees and the capture.\<close>

definition as_at ::
  "('d \<Rightarrow> addr set) \<Rightarrow> int \<Rightarrow> addr set \<Rightarrow> (addr \<Rightarrow> ptr_usage option) \<Rightarrow> addr list \<Rightarrow> bool \<Rightarrow> 'd async \<Rightarrow> bool" where
  "as_at live n Z h q cu s \<longleftrightarrow> as_ok live n Z s \<and> ptr_info s = h \<and> deferred_frees s = q \<and> capture_underway s = cu"

definition as_kept :: "('d \<Rightarrow> addr set) \<Rightarrow> int \<Rightarrow> addr set \<Rightarrow> addr list \<Rightarrow> bool \<Rightarrow> 'd async \<Rightarrow> bool" where
  "as_kept live n H q cu s \<longleftrightarrow> as_ok live n {} s \<and> dom (ptr_info s) \<subseteq> H \<and> deferred_frees s = q \<and> capture_underway s = cu"

lemma as_ok_ctx: "as_ok live n Z s \<Longrightarrow> live (drv c) = live (drv (actx s)) \<Longrightarrow> as_ok live n Z (s\<lparr>actx := c\<rparr>)"
  unfolding as_ok_def by simp

lemma as_closed [intro, simp]:
  "ctx_closed live (as_ok live n Z)" "ctx_closed live (as_at live n Z h q cu)" "ctx_closed live (as_kept live n H q cu)"
  by (simp_all add: ctx_closed_def as_at_def as_kept_def as_ok_ctx)

lemma as_at_kept: "as_at live n {} h q cu s \<Longrightarrow> dom h \<subseteq> H \<Longrightarrow> as_kept live n H q cu s"
  by (simp add: as_at_def as_kept_def)

lemma bytes_on_new:
  assumes "finite (dom h)" "h p = None"
  shows "bytes_on (h(p \<mapsto> u)) d = (if on_dev u = d then bytes_on h d + pu_size u else bytes_on h d)"
proof -
  let ?D = "{p. \<exists>u. h p = Some u \<and> on_dev u = d}"
  have fin: "finite ?D" by (rule finite_subset [OF _ assms(1)]) auto
  have np: "p \<notin> ?D" using assms(2) by simp
  have D: "{q. \<exists>v. (h(p \<mapsto> u)) q = Some v \<and> on_dev v = d} = (if on_dev u = d then insert p ?D else ?D)"
    using assms(2) by auto
  have same: "(\<Sum>q\<in>?D. pu_size (the ((h(p \<mapsto> u)) q))) = (\<Sum>q\<in>?D. pu_size (the (h q)))"
    by (rule sum.cong) (use np in auto)
  show ?thesis
  proof (cases "on_dev u = d")
    case True
    then show ?thesis unfolding bytes_on_def D using fin np same by (simp add: add.commute)
  next
    case False
    then show ?thesis unfolding bytes_on_def D using same by simp
  qed
qed

lemma bytes_on_drop:
  assumes "finite (dom h)" "h p = Some u"
  shows "bytes_on (h(p := None)) d = (if on_dev u = d then bytes_on h d - pu_size u else bytes_on h d)"
proof -
  have "h = (h(p := None))(p \<mapsto> u)" using assms(2) by auto
  moreover have "bytes_on ((h(p := None))(p \<mapsto> u)) d =
      (if on_dev u = d then bytes_on (h(p := None)) d + pu_size u else bytes_on (h(p := None)) d)"
    by (rule bytes_on_new) (use assms(1) in \<open>simp_all add: dom_fun_upd\<close>)
  ultimately show ?thesis by (metis add_diff_cancel_right')
qed

lemma bytes_on_same:
  assumes "h p = Some u" "on_dev u' = on_dev u" "pu_size u' = pu_size u"
  shows "bytes_on (h(p \<mapsto> u')) d = bytes_on h d"
proof -
  have "{q. \<exists>v. (h(p \<mapsto> u')) q = Some v \<and> on_dev v = d} = {q. \<exists>v. h q = Some v \<and> on_dev v = d}"
    using assms by auto
  moreover have "pu_size (the ((h(p \<mapsto> u')) q)) = pu_size (the (h q))" for q using assms by simp
  ultimately show ?thesis by (simp only: bytes_on_def)
qed

lemma bytes_on_none: "(\<And>p u. h p = Some u \<Longrightarrow> on_dev u \<noteq> d) \<Longrightarrow> bytes_on h d = 0"
  unfolding bytes_on_def by (rule sum.neutral) auto

lemma as_ok_vec:
  assumes "as_ok live n Z s" "0 \<le> d" "d < n"
  shows "vec_at devs_initialized_flags d s = (Inr (devs_initialized_flags s ! nat d), s)"
    "vec_at dummy_unifying_free_streams d s = (Inr (dummy_unifying_free_streams s ! nat d), s)"
    "vec_at pytorch_used_bytes d s = (Inr (pytorch_used_bytes s ! nat d), s)"
    "vec_at pytorch_memory_limits d s = (Inr (pytorch_memory_limits s ! nat d), s)"
  using assms by (simp_all add: vec_at_def as_ok_def nat_less_iff)

text \<open>The quiet steps, with a weaker error.\<close>

lemma quiet_check:
  assumes "quiet live f" "ctx_closed live P" "\<And>s. P s \<Longrightarrow> R s"
  shows "hoare P (as_check f) (\<lambda>_. P) (\<lambda>_. R)"
  by (rule hoare_conseq [OF hoare_as_check [OF assms(1,2)]]) (auto intro: assms(3))

lemma quiet_call:
  assumes "quiet live f" "ctx_closed live P" "\<And>s. P s \<Longrightarrow> R s"
  shows "hoare P (in_actx (call_check f)) (\<lambda>_. P) (\<lambda>_. R)"
  by (rule hoare_conseq [OF hoare_actx_call [OF assms(1,2)]]) (auto intro: assms(3))

lemma quiet_actx:
  assumes "\<And>P. keeps_pred (\<lambda>c. P (live (drv c))) m" "ctx_closed live P" "\<And>s. P s \<Longrightarrow> R s"
  shows "hoare P (in_actx m) (\<lambda>_. P) (\<lambda>_. R)"
  by (rule hoare_conseq [OF hoare_in_actx [OF assms(1,2)]]) (auto intro: assms(3))

lemma hoare_vec_at:
  assumes "\<And>s. P s \<Longrightarrow> as_ok live n Z s" "0 \<le> d" "d < n" "v \<in> {devs_initialized_flags}"
  shows "hoare P (vec_at v d) (\<lambda>x s. P s \<and> x = v s ! nat d) E"
  using assms as_ok_vec [OF assms(1-3)] by (auto simp: hoare_def)

lemma wp_vec_at: "wp (vec_at v d) Q X s =
  (if 0 \<le> d \<and> nat d < length (v s) then Q (v s ! nat d) s else X UndefinedBehaviour s)"
  by (simp add: wp_def vec_at_def)

section \<open>Devices\<close>

lemma get_idx_keeps: "keeps_pred (\<lambda>c. P (live (drv c))) (get_idx p d)"
  by (simp add: keeps_pred_def get_idx_def Let_def)

lemma initDeviceStreamState_keeps:
  assumes "quiet_runtime T live"
  shows "keeps_pred (\<lambda>c. P (live (drv c))) (initDeviceStreamState T k d)"
  unfolding initDeviceStreamState_def init_pool_stream_def
  by (intro with_guard_keeps [OF assms] keeps_intros keeps_call_check
      quiet_othersD(7) [OF quiet_runtimeD(1) [OF assms]]) simp_all

lemma getStreamFromPool_high_keeps:
  assumes "quiet_runtime T live"
  shows "keeps_pred (\<lambda>c. P (live (drv c))) (getStreamFromPool_high T u k b d)"
  unfolding getStreamFromPool_high_def getStreamFromPool_def or_current_device_def check_gcu_def
  by (intro keeps_intros initGCUStreamsOnce_keeps [OF assms] initDeviceStreamState_keeps [OF assms]
      get_idx_keeps device_count_keeps [OF assms] current_device_keeps [OF assms]; simp)

lemma hoare_init_pool:
  assumes A: "async_runtime A live" and P: "ctx_closed live P" "\<And>s. P s \<Longrightarrow> R s"
  shows "hoare P (init_device_pool A d) (\<lambda>_. P) (\<lambda>_. R)"
  unfolding init_device_pool_def
proof (rule hoare_bnd)
  show "hoare P (in_actx (call_check (topsDeviceGetMemPool (as_api A) d))) (\<lambda>_. P) (\<lambda>_. R)"
    by (rule quiet_call [OF async_runtimeD(3) [OF A] P])
  have set: "hoare P (as_check (topsMemPoolSetAttribute (as_api A) x a v)) (\<lambda>_. P) (\<lambda>_. R)" for x a v
    by (rule quiet_check [OF async_runtimeD(4) [OF A] P])
  fix x
  show "hoare P (seq (as_check (topsMemPoolSetAttribute (as_api A) x topsMemPoolAttrReleaseThreshold (- 1)))
     (seq (as_check (topsMemPoolSetAttribute (as_api A) x topsMemPoolReuseFollowEventDependencies 1))
     (seq (as_check (topsMemPoolSetAttribute (as_api A) x topsMemPoolReuseAllowOpportunistic 1))
       (as_check (topsMemPoolSetAttribute (as_api A) x topsMemPoolReuseAllowInternalDependencies 1))))) (\<lambda>_. P) (\<lambda>_. R)"
    by (rule hoare_seq [OF set hoare_seq [OF set hoare_seq [OF set set]]])
qed

lemma hoare_lazy_init:
  assumes A: "async_runtime A live" and d: "0 \<le> d" "d < n"
  shows "hoare (as_at live n Z h q cu) (lazy_init_device A d)
    (\<lambda>_ s. as_at live n Z h q cu s \<and> devs_initialized_flags s ! nat d) (\<lambda>_. as_at live n Z h q cu)"
proof -
  let ?I = "as_at live n Z h q cu"
  let ?P = "\<lambda>s. ?I s \<and> \<not> devs_initialized_flags s ! nat d"
  let ?Q = "\<lambda>s. ?I s \<and> devs_initialized_flags s ! nat d"
  note T = async_runtimeD [OF A]
  have cP: "ctx_closed live ?P" and cQ: "ctx_closed live ?Q"
    using as_closed(2) [of live n Z h q cu] by (auto simp: ctx_closed_def)
  have nd: "nat d < nat n" using d by simp
  let ?u = "\<lambda>us s. s\<lparr>
            dummy_unifying_free_streams := (dummy_unifying_free_streams s)[nat d := us],
            pytorch_used_bytes := (pytorch_used_bytes s)[nat d := 0],
            pytorch_memory_limits := (pytorch_memory_limits s)[nat d := - 1],
            devs_initialized_flags := (devs_initialized_flags s)[nat d := True]\<rparr>"
  have last: "?Q (?u us s)" if P: "?P s" for s us
  proof -
    have ok: "as_ok live n Z s" "ptr_info s = h" using P by (simp_all add: as_at_def)
    have "on_dev u \<noteq> d" if "h p = Some u" for p u using ok P that by (auto simp: as_ok_def)
    then have z: "bytes_on h d = 0" by (rule bytes_on_none)
    have "as_ok live n Z (?u us s)"
      using ok nd z d unfolding as_ok_def by (auto simp: nth_list_update eq_nat_nat_iff)
    then show ?thesis using P ok nd by (simp add: as_at_def as_ok_def)
  qed
  show ?thesis
    unfolding lazy_init_device_def
  proof (rule hoare_bnd)
    show "hoare ?I (vec_at devs_initialized_flags d) (\<lambda>x s. ?I s \<and> x = devs_initialized_flags s ! nat d) (\<lambda>_. ?I)"
      by (rule hoare_vec_at [OF _ d]) (auto simp: as_at_def)
    fix ready
    have body: "hoare ?P (as_guard A d (seq (init_device_pool A d)
         (bnd (in_actx (getStreamFromPool_high (art A) (as_use_default A) (as_env_stream_num A) False (-1))) (\<lambda>dufs.
          bnd (in_actx (stream_handle dufs)) (\<lambda>hd.
            upd (?u \<lparr> us_stream = hd, us_device = gs_device dufs \<rparr>)))))) (\<lambda>_. ?Q) (\<lambda>_. ?I)"
    proof (rule hoare_as_guard [OF A _ cP cQ as_closed(2)])
      show "hoare ?P (seq (init_device_pool A d)
         (bnd (in_actx (getStreamFromPool_high (art A) (as_use_default A) (as_env_stream_num A) False (-1))) (\<lambda>dufs.
          bnd (in_actx (stream_handle dufs)) (\<lambda>hd.
            upd (?u \<lparr> us_stream = hd, us_device = gs_device dufs \<rparr>))))) (\<lambda>_. ?Q) (\<lambda>_. ?I)"
        by (rule hoare_seq [OF hoare_init_pool [OF A cP]], simp,
            rule hoare_bnd [OF quiet_actx [OF getStreamFromPool_high_keeps [OF T(1)] cP]], simp,
            rule hoare_bnd [OF quiet_actx [OF stream_handle_keeps cP]], simp, rule hoare_upd_inv, rule last)
    qed simp_all
    show "hoare (\<lambda>s. ?I s \<and> ready = devs_initialized_flags s ! nat d) (whenM (\<not> ready) (as_guard A d (seq (init_device_pool A d)
         (bnd (in_actx (getStreamFromPool_high (art A) (as_use_default A) (as_env_stream_num A) False (-1))) (\<lambda>dufs.
          bnd (in_actx (stream_handle dufs)) (\<lambda>hd.
            upd (?u \<lparr> us_stream = hd, us_device = gs_device dufs \<rparr>))))))) (\<lambda>_. ?Q) (\<lambda>_. ?I)"
      by (rule hoare_whenM, rule hoare_pre [OF body]) auto
  qed
qed

section \<open>Freeing\<close>

lemma as_at_free_streams [simp]:
  "as_at live n Z h q cu (s\<lparr>capture_free_streams := f\<rparr>) = as_at live n Z h q cu s"
  by (simp add: as_at_def as_ok_def)

lemma hoare_sync_raw:
  assumes A: "async_runtime A live" and P: "ctx_closed live P" "\<And>s. P s \<Longrightarrow> R s"
  shows "hoare P (sync_raw A a b) (\<lambda>_. P) (\<lambda>_. R)"
proof -
  note q = quiet_othersD [OF async_runtimeD(2) [OF A]]
  show ?thesis
    unfolding sync_raw_def
    by (rule hoare_bnd, rule quiet_call [OF q(13) P], assumption,
      rule hoare_seq [OF quiet_check [OF q(15) P] hoare_seq [OF quiet_check [OF q(11) P] quiet_check [OF q(14) P]]])
qed

lemma hoare_free_call:
  assumes A: "async_runtime A live" and H: "dom h \<subseteq> H"
  shows "hoare (as_at live n {} h q cu) (as_check (topsFreeAsync (as_api A) p st))
    (\<lambda>_. as_at live n {p} h q cu) (\<lambda>_. as_kept live n H q cu)"
  unfolding hoare_wp
proof (intro allI impI)
  fix s assume s: "as_at live n {} h q cu s"
  obtain err d where r: "topsFreeAsync (as_api A) p st (drv (actx s)) = (err, d)" by fastforce
  let ?s = "s\<lparr>actx := (actx s)\<lparr>drv := d\<rparr>\<rparr>"
  have "as_at live n {p} h q cu ?s"
    using s async_free_law(1) [OF A r] by (auto simp: as_at_def as_ok_def)
  moreover have "err \<noteq> topsSuccess \<Longrightarrow> as_kept live n H q cu ?s"
    using s async_free_law(2) [OF A r] H by (auto simp: as_at_def as_ok_def as_kept_def)
  ultimately show "wp (as_check (topsFreeAsync (as_api A) p st)) (\<lambda>_. as_at live n {p} h q cu) (\<lambda>_. as_kept live n H q cu) s"
    using r by (simp add: as_check_def in_actx_def wp_def act_simps call_def)
qed

lemma hoare_remember: "hoare (as_at live n Z h q cu) (remember_free_stream us) (\<lambda>_. as_at live n Z h q cu) E"
  by (simp add: hoare_wp remember_free_stream_def wp_simps)

lemma as_ok_drop:
  assumes s: "as_at live n {p} h q cu s" and u: "h p = Some u"
  shows "as_at live n {} (h(p := None)) q cu (s\<lparr>
    pytorch_used_bytes := (pytorch_used_bytes s)[nat (on_dev u) := pytorch_used_bytes s ! nat (on_dev u) - pu_size u],
    ptr_info := (ptr_info s)(p := None)\<rparr>)"
proof -
  have ok: "as_ok live n {p} s" "ptr_info s = h" using s by (simp_all add: as_at_def)
  have d: "0 \<le> on_dev u" "on_dev u < n" "devs_initialized_flags s ! nat (on_dev u)" and fin: "finite (dom h)"
    using ok u by (auto simp: as_ok_def)
  have "pytorch_used_bytes s ! nat (on_dev u) = bytes_on h (on_dev u)" using ok d by (auto simp: as_ok_def)
  then show ?thesis
    using s ok d fin bytes_on_drop [OF fin u]
    unfolding as_at_def as_ok_def by (auto simp: nth_list_update eq_nat_nat_iff split: if_splits)
qed

lemma hoare_free_impl:
  assumes A: "async_runtime A live" and H: "dom h \<subseteq> H" and u: "h p = Some u"
  shows "hoare (as_at live n {} h q cu) (free_impl A p u)
    (\<lambda>_. as_at live n {} (h(p := None)) q cu) (\<lambda>_. as_kept live n H q cu)"
proof -
  let ?P = "as_at live n {} h q cu" and ?P1 = "as_at live n {p} h q cu" and ?R = "as_kept live n H q cu"
  have E: "\<And>s. ?P s \<Longrightarrow> ?R s" using H by (rule as_at_kept [rotated])
  have E': "\<And>s. as_at live n {} (h(p := None)) q cu s \<Longrightarrow> ?R s" by (erule as_at_kept) (use H in auto)
  have fin: "hoare ?P1 (bnd (vec_at pytorch_used_bytes (on_dev u)) (\<lambda>k. upd (\<lambda>s. s\<lparr>
        pytorch_used_bytes := (pytorch_used_bytes s)[nat (on_dev u) := k - pu_size u],
        ptr_info := (ptr_info s)(p := None)\<rparr>))) (\<lambda>_. as_at live n {} (h(p := None)) q cu) (\<lambda>_. ?R)"
    unfolding hoare_wp
  proof (intro allI impI)
    fix s assume s: "?P1 s"
    then have ok: "as_ok live n {p} s" and d: "0 \<le> on_dev u" "on_dev u < n" using u by (auto simp: as_at_def as_ok_def)
    show "wp (bnd (vec_at pytorch_used_bytes (on_dev u)) (\<lambda>k. upd (\<lambda>s. s\<lparr>
        pytorch_used_bytes := (pytorch_used_bytes s)[nat (on_dev u) := k - pu_size u],
        ptr_info := (ptr_info s)(p := None)\<rparr>))) (\<lambda>_. as_at live n {} (h(p := None)) q cu) (\<lambda>_. ?R) s"
      using as_ok_drop [OF s u] as_ok_vec(3) [OF ok d] by (simp add: wp_simps wp_def [of "vec_at _ _"])
  qed
  have free: "hoare ?P (seq (as_check (topsFreeAsync (as_api A) p st)) (remember_free_stream us)) (\<lambda>_. ?P1) (\<lambda>_. ?R)" for st and us :: usage_stream
    by (rule hoare_seq [OF hoare_free_call [OF A H] hoare_remember])
  have sync: "hoare ?P (sync_raw A a b) (\<lambda>_. ?P) (\<lambda>_. ?R)" for a b
    by (rule hoare_sync_raw [OF A as_closed(2) E])
  have many: "hoare ?P (bnd (vec_at dummy_unifying_free_streams (on_dev u)) (\<lambda>dummy.
       seq (require InternalAssert (us_device dummy = on_dev u))
       (seq (sync_raw A (us_stream (creation_stream u)) (us_stream dummy))
       (seq (for_each (\<lambda>r. as_guard A (us_device r) (sync_raw A (us_stream r) (us_stream dummy))) (recorded_streams u))
       (seq (as_check (topsFreeAsync (as_api A) p (us_stream dummy))) (remember_free_stream dummy)))))) (\<lambda>_. ?P1) (\<lambda>_. ?R)"
  proof (rule hoare_bnd)
    show "hoare ?P (vec_at dummy_unifying_free_streams (on_dev u)) (\<lambda>_. ?P) (\<lambda>_. ?R)"
      using E by (auto simp: hoare_def vec_at_def)
    fix dummy :: usage_stream
    have side: "hoare ?P (as_guard A (us_device r) (sync_raw A (us_stream r) (us_stream dummy))) (\<lambda>_. ?P) (\<lambda>_. ?R)" for r :: usage_stream
      by (rule hoare_as_guard [OF A sync as_closed(2) as_closed(2) as_closed(3) E E])
    have req: "hoare ?P (require InternalAssert (us_device dummy = on_dev u)) (\<lambda>_. ?P) (\<lambda>_. ?R)"
      using E by (simp add: hoare_wp wp_simps)
    show "hoare ?P (seq (require InternalAssert (us_device dummy = on_dev u))
       (seq (sync_raw A (us_stream (creation_stream u)) (us_stream dummy))
       (seq (for_each (\<lambda>r. as_guard A (us_device r) (sync_raw A (us_stream r) (us_stream dummy))) (recorded_streams u))
       (seq (as_check (topsFreeAsync (as_api A) p (us_stream dummy))) (remember_free_stream dummy))))) (\<lambda>_. ?P1) (\<lambda>_. ?R)"
      by (rule hoare_seq [OF req hoare_seq [OF sync hoare_seq [OF hoare_for_each [OF side] free]]])
  qed
  have "hoare ?P (as_guard A (on_dev u) (seq (if recorded_streams u = []
       then seq (as_check (topsFreeAsync (as_api A) p (us_stream (creation_stream u)))) (remember_free_stream (creation_stream u))
       else bnd (vec_at dummy_unifying_free_streams (on_dev u)) (\<lambda>dummy.
       seq (require InternalAssert (us_device dummy = on_dev u))
       (seq (sync_raw A (us_stream (creation_stream u)) (us_stream dummy))
       (seq (for_each (\<lambda>r. as_guard A (us_device r) (sync_raw A (us_stream r) (us_stream dummy))) (recorded_streams u))
       (seq (as_check (topsFreeAsync (as_api A) p (us_stream dummy))) (remember_free_stream dummy))))))
     (bnd (vec_at pytorch_used_bytes (on_dev u)) (\<lambda>k. upd (\<lambda>s. s\<lparr>
        pytorch_used_bytes := (pytorch_used_bytes s)[nat (on_dev u) := k - pu_size u],
        ptr_info := (ptr_info s)(p := None)\<rparr>))))) (\<lambda>_. as_at live n {} (h(p := None)) q cu) (\<lambda>_. ?R)"
    by (rule hoare_as_guard [OF A hoare_seq [OF _ fin] as_closed(2) as_closed(2) as_closed(3) E E'])
      (use free many in simp)
  then show ?thesis unfolding free_impl_def Let_def on_dev_def .
qed

lemma hoare_find_ptr:
  "hoare (as_at live n Z h q cu) (find_ptr p) (\<lambda>u s. h p = Some u \<and> as_at live n Z h q cu s) (\<lambda>_. as_at live n Z h q cu)"
  by (auto simp: hoare_wp find_ptr_def wp_simps as_at_def split: option.splits)

definition without_ptrs :: "addr set \<Rightarrow> (addr \<Rightarrow> ptr_usage option) \<Rightarrow> addr \<Rightarrow> ptr_usage option" where
  "without_ptrs ps h = (\<lambda>p. if p \<in> ps then None else h p)"

lemma hoare_free_all:
  assumes A: "async_runtime A live"
  shows "dom h \<subseteq> H \<Longrightarrow> hoare (as_at live n {} h q cu) (for_each (\<lambda>p. bnd (find_ptr p) (free_impl A p)) ps)
    (\<lambda>_ s. (set ps \<subseteq> dom h \<and> distinct ps) \<and> as_at live n {} (without_ptrs (set ps) h) q cu s) (\<lambda>_. as_kept live n H q cu)"
proof (induction ps arbitrary: h)
  case Nil
  show ?case by (simp add: hoare_wp wp_simps without_ptrs_def)
next
  case (Cons p ps)
  have one: "hoare (as_at live n {} h q cu) (bnd (find_ptr p) (free_impl A p))
      (\<lambda>_ s. p \<in> dom h \<and> as_at live n {} (h(p := None)) q cu s) (\<lambda>_. as_kept live n H q cu)"
  proof (rule hoare_bnd)
    show "hoare (as_at live n {} h q cu) (find_ptr p) (\<lambda>u s. h p = Some u \<and> as_at live n {} h q cu s) (\<lambda>_. as_kept live n H q cu)"
      by (rule hoare_conseq [OF hoare_find_ptr]) (use Cons.prems in \<open>auto intro: as_at_kept\<close>)
    show "hoare (\<lambda>s. h p = Some u \<and> as_at live n {} h q cu s) (free_impl A p u)
        (\<lambda>_ s. p \<in> dom h \<and> as_at live n {} (h(p := None)) q cu s) (\<lambda>_. as_kept live n H q cu)" for u
    proof (rule hoare_pure_pre)
      assume u: "h p = Some u"
      show "hoare (as_at live n {} h q cu) (free_impl A p u)
        (\<lambda>_ s. p \<in> dom h \<and> as_at live n {} (h(p := None)) q cu s) (\<lambda>_. as_kept live n H q cu)"
        by (rule hoare_conseq [OF hoare_free_impl [where h = h and p = p, OF A Cons.prems u]]) (use u in auto)
    qed
  qed
  have eq: "without_ptrs (set ps) (h(p := None)) = without_ptrs (set (p # ps)) h" by (auto simp: without_ptrs_def)
  have "hoare (\<lambda>s. p \<in> dom h \<and> as_at live n {} (h(p := None)) q cu s) (for_each (\<lambda>p. bnd (find_ptr p) (free_impl A p)) ps)
      (\<lambda>_ s. (set (p # ps) \<subseteq> dom h \<and> distinct (p # ps)) \<and> as_at live n {} (without_ptrs (set (p # ps)) h) q cu s) (\<lambda>_. as_kept live n H q cu)"
  proof (rule hoare_pure_pre)
    assume p: "p \<in> dom h"
    have sub: "dom (h(p := None)) = dom h - {p}" by (simp add: dom_fun_upd)
    show "hoare (as_at live n {} (h(p := None)) q cu) (for_each (\<lambda>p. bnd (find_ptr p) (free_impl A p)) ps)
      (\<lambda>_ s. (set (p # ps) \<subseteq> dom h \<and> distinct (p # ps)) \<and> as_at live n {} (without_ptrs (set (p # ps)) h) q cu s) (\<lambda>_. as_kept live n H q cu)"
      unfolding eq [symmetric]
    proof (rule hoare_conseq [OF Cons.IH])
      show "dom (h(p := None)) \<subseteq> H" using sub Cons.prems by blast
      fix s assume "(set ps \<subseteq> dom (h(p := None)) \<and> distinct ps) \<and> as_at live n {} (without_ptrs (set ps) (h(p := None))) q cu s"
      then show "(set (p # ps) \<subseteq> dom h \<and> distinct (p # ps)) \<and> as_at live n {} (without_ptrs (set ps) (h(p := None))) q cu s"
        using p unfolding sub by auto
    qed
  qed
  from hoare_seq [OF one this] show ?case unfolding for_each.simps .
qed

text \<open>What \<open>mallocAsync\<close> leaves of the pointers and of the deferred frees.\<close>

definition after_deferred :: "addr list \<Rightarrow> bool \<Rightarrow> (addr \<Rightarrow> ptr_usage option) \<Rightarrow> addr \<Rightarrow> ptr_usage option" where
  "after_deferred q cu h = (if cu then h else without_ptrs (set q) h)"

lemma hoare_free_deferred:
  assumes A: "async_runtime A live" and H: "dom h \<subseteq> H"
  shows "hoare (as_at live n {} h q cu) (free_deferred A)
    (\<lambda>_. as_at live n {} (after_deferred q cu h) (if cu then q else []) cu) (\<lambda>_. as_kept live n H q cu)"
  unfolding hoare_wp
proof (intro allI impI)
  fix s assume s: "as_at live n {} h q cu s"
  show "wp (free_deferred A) (\<lambda>_. as_at live n {} (after_deferred q cu h) (if cu then q else []) cu) (\<lambda>_. as_kept live n H q cu) s"
  proof (cases "\<not> cu \<and> q \<noteq> []")
    case True
    have "wp (for_each (\<lambda>p. bnd (find_ptr p) (free_impl A p)) q)
        (\<lambda>_ s. (set q \<subseteq> dom h \<and> distinct q) \<and> as_at live n {} (without_ptrs (set q) h) q cu s) (\<lambda>_. as_kept live n H q cu) s"
      using hoare_free_all [where n = n and q = q and cu = cu and ps = q, OF A H] s by (simp add: hoare_wp)
    then have "wp (for_each (\<lambda>p. bnd (find_ptr p) (free_impl A p)) q)
        (\<lambda>_ s. as_at live n {} (after_deferred q cu h) (if cu then q else []) cu (s\<lparr>deferred_frees := []\<rparr>)) (\<lambda>_. as_kept live n H q cu) s"
      by (rule wp_mono) (use True in \<open>auto simp: as_at_def as_ok_def after_deferred_def\<close>)
    then show ?thesis using s True by (simp add: free_deferred_def wp_simps as_at_def)
  next
    case False
    then have "after_deferred q cu h = h" by (auto simp: after_deferred_def without_ptrs_def)
    then show ?thesis using s False by (auto simp: free_deferred_def wp_simps as_at_def)
  qed
qed

lemma hoare_freeAsync:
  assumes A: "async_runtime A live" and H: "dom h \<subseteq> H"
  shows "hoare (as_at live n {} h q cu) (freeAsync A p)
    (\<lambda>_ s. \<exists>u. h p = Some u \<and> (if cu \<and> \<not> pu_captured u then as_at live n {} h (q @ [p]) cu s
       else as_at live n {} (h(p := None)) q cu s)) (\<lambda>_. as_kept live n H q cu)"
  unfolding freeAsync_def
proof (rule hoare_seq [OF quiet_check hoare_bnd])
  show "quiet live (topsGetLastError (art A))" by (rule quiet_othersD [OF async_runtimeD(2) [OF A]])
  show "hoare (as_at live n {} h q cu) (find_ptr p) (\<lambda>u s. h p = Some u \<and> as_at live n {} h q cu s) (\<lambda>_. as_kept live n H q cu)"
    by (rule hoare_conseq [OF hoare_find_ptr]) (use H in \<open>auto intro: as_at_kept\<close>)
  fix u
  show "hoare (\<lambda>s. h p = Some u \<and> as_at live n {} h q cu s)
      (bnd (gets capture_underway) (\<lambda>underway.
        if underway \<and> \<not> pu_captured u then upd (\<lambda>s. s\<lparr>deferred_frees := deferred_frees s @ [p]\<rparr>) else free_impl A p u))
      (\<lambda>_ s. \<exists>u. h p = Some u \<and> (if cu \<and> \<not> pu_captured u then as_at live n {} h (q @ [p]) cu s
       else as_at live n {} (h(p := None)) q cu s)) (\<lambda>_. as_kept live n H q cu)"
  proof (rule hoare_pure_pre)
    assume u: "h p = Some u"
    have cu: "capture_underway s = cu" if "as_at live n {} h q cu s" for s using that by (simp add: as_at_def)
    have "as_at live n {} h (q @ [p]) cu (s\<lparr>deferred_frees := deferred_frees s @ [p]\<rparr>)" if "as_at live n {} h q cu s" for s
      using that by (auto simp: as_at_def as_ok_def)
    then show "hoare (as_at live n {} h q cu)
      (bnd (gets capture_underway) (\<lambda>underway.
        if underway \<and> \<not> pu_captured u then upd (\<lambda>s. s\<lparr>deferred_frees := deferred_frees s @ [p]\<rparr>) else free_impl A p u))
      (\<lambda>_ s. \<exists>u. h p = Some u \<and> (if cu \<and> \<not> pu_captured u then as_at live n {} h (q @ [p]) cu s
       else as_at live n {} (h(p := None)) q cu s)) (\<lambda>_. as_kept live n H q cu)"
      using hoare_free_impl [where h = h and p = p and n = n and q = q and cu = cu, OF A H u] cu by (auto simp: hoare_wp wp_simps u)
  qed
qed (use H in \<open>auto intro: as_at_kept\<close>)

section \<open>Allocation\<close>

definition malloc_done ::
  "('d \<Rightarrow> addr set) \<Rightarrow> int \<Rightarrow> (addr \<Rightarrow> ptr_usage option) \<Rightarrow> addr list \<Rightarrow> bool \<Rightarrow> int \<Rightarrow> 64 word \<Rightarrow> stream_t \<Rightarrow>
   addr \<Rightarrow> 'd async \<Rightarrow> bool" where
  "malloc_done live n h q cu d k st p s \<longleftrightarrow> h p = None \<and> p \<in> live (drv (actx s)) \<and>
     as_at live n {} (h(p \<mapsto> \<lparr> recorded_streams = [], creation_stream = \<lparr> us_stream = st, us_device = d \<rparr>,
       pu_size = k, pu_captured = cu \<rparr>)) q cu s \<and>
     pytorch_used_bytes s ! nat d \<le> pytorch_memory_limits s ! nat d"

lemma malloc_done_closed [simp]: "ctx_closed live (malloc_done live n h q cu d k st p)"
  unfolding ctx_closed_def malloc_done_def using as_closed(2) [of live n] by (auto simp: ctx_closed_def)

lemma malloc_done_kept: "malloc_done live n h q cu d k st p s \<Longrightarrow> as_kept live n UNIV q cu s"
  by (auto simp: malloc_done_def intro: as_at_kept)

lemma as_ok_add:
  assumes s: "as_at live n {} h q cu s" and d: "0 \<le> d" "d < n" "devs_initialized_flags s ! nat d"
    and p: "p \<in> live (drv (actx s))" "h p = None" and u: "on_dev u = d"
  shows "as_at live n {} (h(p \<mapsto> u)) q cu (s\<lparr>ptr_info := (ptr_info s)(p \<mapsto> u),
    pytorch_used_bytes := (pytorch_used_bytes s)[nat d := pytorch_used_bytes s ! nat d + pu_size u]\<rparr>)"
proof -
  have ok: "as_ok live n {} s" "ptr_info s = h" using s by (simp_all add: as_at_def)
  have fin: "finite (dom h)" using ok by (auto simp: as_ok_def)
  have "pytorch_used_bytes s ! nat d = bytes_on h d" using ok d by (auto simp: as_ok_def)
  then show ?thesis
    using s ok d p u bytes_on_new [OF fin p(2)]
    unfolding as_at_def as_ok_def by (auto simp: nth_list_update eq_nat_nat_iff split: if_splits)
qed

lemma hoare_malloc_within_limit:
  assumes A: "async_runtime A live" and d: "0 \<le> d" "d < n" and k: "k \<noteq> 0"
  shows "hoare (\<lambda>s. as_at live n {} h q cu s \<and> devs_initialized_flags s ! nat d) (malloc_within_limit A d k st)
    (\<lambda>r s. as_at live n {} h q cu s \<and> devs_initialized_flags s ! nat d \<and>
       (fst r = topsSuccess \<longrightarrow> h (snd r) = None \<and> snd r \<in> live (drv (actx s)) \<and>
          pytorch_used_bytes s ! nat d + k \<le> pytorch_memory_limits s ! nat d)) (\<lambda>_. as_kept live n UNIV q cu)"
  unfolding hoare_wp
proof (intro allI impI)
  fix s assume s: "as_at live n {} h q cu s \<and> devs_initialized_flags s ! nat d"
  then have ok: "as_ok live n {} s" and h: "ptr_info s = h" by (simp_all add: as_at_def)
  obtain err a d' where r: "topsMallocAsync (as_api A) k st (drv (actx s)) = ((err, a), d')" by (metis prod.exhaust)
  let ?s = "s\<lparr>actx := (actx s)\<lparr>drv := d'\<rparr>\<rparr>"
  have sub: "live (drv (actx s)) \<subseteq> live d'"
    using async_malloc_law(2) [OF A, of k st "drv (actx s)" a d'] async_malloc_fails [OF A r] r
    by (cases "err = topsSuccess") auto
  then have at: "as_at live n {} h q cu ?s" using s by (auto simp: as_at_def as_ok_def)
  have new: "h a = None \<and> a \<in> live d'" if "err = topsSuccess"
    using async_malloc_law(1,4) [OF A, of k st "drv (actx s)" a d'] r that ok h k
    by (cases "h a") (auto simp: as_ok_def)
  have "wp (in_actx (call (topsMallocAsync (as_api A) k st))) (\<lambda>r s. as_at live n {} h q cu s \<and> devs_initialized_flags s ! nat d \<and>
       (fst r = topsSuccess \<longrightarrow> h (snd r) = None \<and> snd r \<in> live (drv (actx s)) \<and>
          pytorch_used_bytes s ! nat d + k \<le> pytorch_memory_limits s ! nat d)) (\<lambda>_. as_kept live n UNIV q cu) s"
    if "\<not> pytorch_memory_limits s ! nat d < pytorch_used_bytes s ! nat d + k"
    using at new s r that by (simp add: wp_def in_actx_def call_def not_less)
  then show "wp (malloc_within_limit A d k st) (\<lambda>r s. as_at live n {} h q cu s \<and> devs_initialized_flags s ! nat d \<and>
       (fst r = topsSuccess \<longrightarrow> h (snd r) = None \<and> snd r \<in> live (drv (actx s)) \<and>
          pytorch_used_bytes s ! nat d + k \<le> pytorch_memory_limits s ! nat d)) (\<lambda>_. as_kept live n UNIV q cu) s"
    using s as_ok_vec(3,4) [OF ok d]
    by (simp add: malloc_within_limit_def wp_bnd wp_def [of "vec_at _ _"] wp_ret)
qed

text \<open>The bookkeeping after the runtime has returned a pointer.\<close>

lemma wp_enter_ptr:
  assumes s: "as_at live n {} h q cu s" "devs_initialized_flags s ! nat d" and d: "0 \<le> d" "d < n"
    and p: "h p = None" "p \<in> live (drv (actx s))"
    and lim: "pytorch_used_bytes s ! nat d + k \<le> pytorch_memory_limits s ! nat d"
  shows "wp (bnd (gets (\<lambda>s. ptr_info s p = None)) (\<lambda>fresh.
           bnd (gets capture_underway) (\<lambda>underway.
           seq (whenM fresh (upd (\<lambda>s. s\<lparr>ptr_info := (ptr_info s)(p \<mapsto> PtrUsage k underway)\<rparr>)))
           (seq (require InternalAssert fresh)
           (bnd (vec_at pytorch_used_bytes d) (\<lambda>used.
            seq (upd (\<lambda>s. s\<lparr>
                   ptr_info := (ptr_info s)(p \<mapsto>
                     (PtrUsage k underway)\<lparr>creation_stream := \<lparr> us_stream = st, us_device = d \<rparr>\<rparr>),
                   pytorch_used_bytes := (pytorch_used_bytes s)[nat d := used + k]\<rparr>))
              (ret p)))))))
     (malloc_done live n h q cu d k st) X s"
proof -
  let ?u = "(PtrUsage k cu)\<lparr>creation_stream := \<lparr> us_stream = st, us_device = d \<rparr>\<rparr>"
  let ?f = "\<lambda>s. s\<lparr>ptr_info := (ptr_info s)(p \<mapsto> ?u),
    pytorch_used_bytes := (pytorch_used_bytes s)[nat d := pytorch_used_bytes s ! nat d + k]\<rparr>"
  have ok: "as_ok live n {} s" "ptr_info s = h" "capture_underway s = cu" using s by (simp_all add: as_at_def)
  have len: "nat d < length (pytorch_used_bytes s)" "nat d < length (pytorch_memory_limits s)"
    using ok d by (auto simp: as_ok_def)
  have "as_at live n {} (h(p \<mapsto> ?u)) q cu (?f s)"
    using as_ok_add [OF s(1) d s(2) p(2,1), of ?u] by (simp add: on_dev_def PtrUsage_def)
  then have "malloc_done live n h q cu d k st p (?f s)"
    using p lim len by (simp add: malloc_done_def PtrUsage_def)
  then show ?thesis
    using ok p len d by (simp add: wp_simps wp_vec_at)
qed

lemma hoare_mallocAsync:
  assumes A: "async_runtime A live" and k: "k \<noteq> 0"
  shows "hoare (as_at live n {} h q cu) (mallocAsync A d k st)
    (malloc_done live n (after_deferred q cu h) (if cu then q else []) cu d k st)
    (\<lambda>_ s. as_kept live n UNIV q cu s \<or> as_kept live n UNIV (if cu then q else []) cu s)"
proof (cases "0 \<le> d \<and> d < n")
  case False
  then show ?thesis
    by (auto simp: hoare_wp mallocAsync_def wp_simps as_at_def as_kept_def as_ok_def)
next
  case True
  then have d: "0 \<le> d" "d < n" by simp_all
  note q = quiet_othersD [OF async_runtimeD(2) [OF A]]
  let ?h = "after_deferred q cu h" and ?q = "if cu then q else []"
  let ?I = "as_at live n {} ?h ?q cu"
  let ?J = "\<lambda>s. ?I s \<and> devs_initialized_flags s ! nat d"
  let ?R = "\<lambda>s. as_kept live n UNIV q cu s \<or> as_kept live n UNIV ?q cu s"
  let ?D = "malloc_done live n ?h ?q cu d k st"
  have cR: "ctx_closed live ?R" using as_closed(3) [of live n UNIV] by (auto simp: ctx_closed_def)
  have cJ: "ctx_closed live ?J" using as_closed(2) [of live n "{}" ?h ?q cu] by (auto simp: ctx_closed_def)
  have IR: "\<And>s. ?I s \<Longrightarrow> ?R s" and JR: "\<And>s. ?J s \<Longrightarrow> ?R s" and PR: "\<And>s. as_at live n {} h q cu s \<Longrightarrow> ?R s"
    using as_at_kept [of live n _ _ _ _ UNIV] by blast+
  let ?oom = "seq (in_actx (bnd (call (topsGetLastError (art A))) (\<lambda>_. ret ())))
      (bnd (in_actx (call_check (topsMemGetInfo (art A)))) (\<lambda>_. throw OutOfMemoryError))"
  have oom: "hoare ?J ?oom Q (\<lambda>_. ?R)" for Q :: "addr \<Rightarrow> 'a async \<Rightarrow> bool"
  proof (rule hoare_seq)
    show "hoare ?J (in_actx (bnd (call (topsGetLastError (art A))) (\<lambda>_. ret ()))) (\<lambda>_. ?J) (\<lambda>_. ?R)"
      by (rule quiet_actx [OF keeps_bnd [OF keeps_call [OF q(3)] keeps_ret] cJ]) (rule JR)
    show "hoare ?J (bnd (in_actx (call_check (topsMemGetInfo (art A)))) (\<lambda>_. throw OutOfMemoryError)) Q (\<lambda>_. ?R)"
      by (rule hoare_bnd, rule quiet_call [OF q(6) cJ], rule JR, assumption) (use JR in \<open>simp add: hoare_wp wp_simps\<close>)
  qed
  let ?enter = "\<lambda>p. bnd (gets (\<lambda>s. ptr_info s p = None)) (\<lambda>fresh.
           bnd (gets capture_underway) (\<lambda>underway.
           seq (whenM fresh (upd (\<lambda>s. s\<lparr>ptr_info := (ptr_info s)(p \<mapsto> PtrUsage k underway)\<rparr>)))
           (seq (require InternalAssert fresh)
           (bnd (vec_at pytorch_used_bytes d) (\<lambda>used.
            seq (upd (\<lambda>s. s\<lparr>
                   ptr_info := (ptr_info s)(p \<mapsto>
                     (PtrUsage k underway)\<lparr>creation_stream := \<lparr> us_stream = st, us_device = d \<rparr>\<rparr>),
                   pytorch_used_bytes := (pytorch_used_bytes s)[nat d := used + k]\<rparr>))
              (ret p))))))"
  have tail: "hoare ?J (bnd (malloc_within_limit A d k st) (\<lambda>(err, p).
        if err = topsErrorMemoryAllocation then ?oom else seq (gcu_check err) (?enter p))) ?D (\<lambda>_. ?R)"
  proof (rule hoare_bnd)
    let ?K = "\<lambda>r s. ?J s \<and> (fst r = topsSuccess \<longrightarrow> ?h (snd r) = None \<and> snd r \<in> live (drv (actx s)) \<and>
          pytorch_used_bytes s ! nat d + k \<le> pytorch_memory_limits s ! nat d)"
    show "hoare ?J (malloc_within_limit A d k st) ?K (\<lambda>_. ?R)"
      by (rule hoare_conseq [OF hoare_malloc_within_limit [OF A d k]]) auto
    fix r :: "tops_error \<times> addr"
    obtain err p where r: "r = (err, p)" by fastforce
    show "hoare (?K r) (case r of (err, p) \<Rightarrow> if err = topsErrorMemoryAllocation then ?oom else seq (gcu_check err) (?enter p)) ?D (\<lambda>_. ?R)"
    proof (cases "err = topsErrorMemoryAllocation")
      case True
      then show ?thesis using hoare_pre [OF oom [of ?D], of "?K r"] by (simp add: r)
    next
      case False
      have "wp (seq (gcu_check err) (?enter p)) ?D (\<lambda>_. ?R) s" if s: "?K (err, p) s" for s
      proof (cases "err = topsSuccess")
        case True
        have "wp (?enter p) ?D (\<lambda>_. ?R) s"
          by (rule wp_enter_ptr [OF _ _ d]) (use s True in auto)
        then show ?thesis using True by (simp add: wp_seq wp_gcu_check)
      next
        case False
        then show ?thesis using s JR by (simp add: wp_seq wp_gcu_check)
      qed
      then show ?thesis using False by (simp add: hoare_wp r)
    qed
  qed
  have "hoare (as_at live n {} h q cu) (as_guard A d (seq (free_deferred A) (seq (lazy_init_device A d)
       (seq (as_check (topsGetLastError (art A))) (bnd (malloc_within_limit A d k st) (\<lambda>(err, p).
        if err = topsErrorMemoryAllocation then ?oom else seq (gcu_check err) (?enter p))))))) ?D (\<lambda>_. ?R)"
  proof (rule hoare_as_guard [OF A _ as_closed(2) malloc_done_closed cR PR])
    show "hoare (as_at live n {} h q cu) (seq (free_deferred A) (seq (lazy_init_device A d)
       (seq (as_check (topsGetLastError (art A))) (bnd (malloc_within_limit A d k st) (\<lambda>(err, p).
        if err = topsErrorMemoryAllocation then ?oom else seq (gcu_check err) (?enter p)))))) ?D (\<lambda>_. ?R)"
    proof (rule hoare_seq)
      show "hoare (as_at live n {} h q cu) (free_deferred A) (\<lambda>_. ?I) (\<lambda>_. ?R)"
        by (rule hoare_conseq [OF hoare_free_deferred [OF A subset_UNIV]]) auto
      show "hoare ?I (seq (lazy_init_device A d) (seq (as_check (topsGetLastError (art A)))
        (bnd (malloc_within_limit A d k st) (\<lambda>(err, p).
          if err = topsErrorMemoryAllocation then ?oom else seq (gcu_check err) (?enter p))))) ?D (\<lambda>_. ?R)"
      proof (rule hoare_seq)
        show "hoare ?I (lazy_init_device A d) (\<lambda>_. ?J) (\<lambda>_. ?R)"
          by (rule hoare_conseq [OF hoare_lazy_init [OF A d]], assumption, assumption, erule IR)
        show "hoare ?J (seq (as_check (topsGetLastError (art A)))
        (bnd (malloc_within_limit A d k st) (\<lambda>(err, p).
          if err = topsErrorMemoryAllocation then ?oom else seq (gcu_check err) (?enter p)))) ?D (\<lambda>_. ?R)"
          by (rule hoare_seq [OF quiet_check [OF q(3) cJ] tail]) (rule JR)
      qed
    qed
  qed (auto intro: malloc_done_kept)
  then have g: "wp (as_guard A d (seq (free_deferred A) (seq (lazy_init_device A d)
       (seq (as_check (topsGetLastError (art A))) (bnd (malloc_within_limit A d k st) (\<lambda>(err, p).
        if err = topsErrorMemoryAllocation then ?oom else seq (gcu_check err) (?enter p))))))) ?D (\<lambda>_. ?R) s"
    if "as_at live n {} h q cu s" for s using that by (simp add: hoare_wp)
  have "as_device_count s = n" if "as_at live n {} h q cu s" for s using that by (simp add: as_at_def as_ok_def)
  then show ?thesis
    unfolding mallocAsync_def hoare_wp using g d by (simp only: wp_seq [of "bnd (gets _) _"] wp_bnd [of "gets _"] wp_gets wp_require) simp
qed

end
