(* ===== verification/HostInv.thy ===== *)
theory HostInv
  imports HostAlloc RuntimeLaws "HOL-Library.Multiset"
begin

text \<open>
  The invariant of the host allocator: every block it knows is in exactly one of the states in
  use, waiting for events, or free; the events are owned by the queue or by one stack of the
  pool. Each operation keeps it, also when it throws.
\<close>

section \<open>The runtime\<close>

text \<open>
  \<open>live\<close> reads the pinned memory off the driver's state: \<^verbatim>\<open>topsHostMalloc\<close> returns memory
  that is not live, and never null, \<^verbatim>\<open>topsHostFree\<close> ends what it is given, other calls change nothing.
\<close>

definition host_runtime :: "'d host_env \<Rightarrow> ('d \<Rightarrow> addr set) \<Rightarrow> bool" where
  "host_runtime H live \<longleftrightarrow> quiet_runtime (h_runtime H) live \<and> (\<forall>d. 0 \<notin> live d) \<and>
     (\<forall>n d. case topsHostMalloc (h_api H) n d of ((err, a), d') \<Rightarrow>
        if err = topsSuccess then a \<noteq> 0 \<and> a \<notin> live d \<and> live d' = insert a (live d)
        else live d' = live d) \<and>
     (\<forall>a d. case topsHostFree (h_api H) a d of (err, d') \<Rightarrow>
        live d' = (if err = topsSuccess then live d - {a} else live d))"

section \<open>The invariant\<close>

text \<open>\<open>pend q b\<close> is the number of events in \<open>q\<close> that block \<open>b\<close> waits for.\<close>

definition pend :: "(hevent \<times> hbid) list \<Rightarrow> hbid \<Rightarrow> nat" where
  "pend q b = length (filter (\<lambda>p. snd p = b) q)"

definition hblock_ok :: "(hevent \<times> hbid) list \<Rightarrow> 'd host \<Rightarrow> hbid \<Rightarrow> host_block \<Rightarrow> bool" where
  "hblock_ok q s b x \<longleftrightarrow> ptr_to_block s (hb_ptr x) = Some b \<and> pend q b \<le> hb_event_count x \<and>
     (0 < hb_event_count x \<longrightarrow> \<not> hb_allocated x \<and> hb_streams x = []) \<and>
     (b \<in> set (free_list s) \<longrightarrow> \<not> hb_allocated x \<and> hb_event_count x = 0 \<and> hb_streams x = [])"

text \<open>
  The events in the queue \<open>q\<close>, in hand and in the pool are distinct and exist; \<open>hand\<close> are the
  ones that an operation has taken from the pool and not yet queued.
\<close>

definition owned :: "(hevent \<times> hbid) list \<Rightarrow> hevent list \<Rightarrow> 'd host \<Rightarrow> nat multiset" where
  "owned q hand s = mset (map (snd \<circ> fst) q) + mset (map snd hand) + mset (concat (event_pool s))"

definition hevents_ok :: "(hevent \<times> hbid) list \<Rightarrow> hevent list \<Rightarrow> 'd host \<Rightarrow> bool" where
  "hevents_ok q hand s \<longleftrightarrow> (\<forall>e. count (owned q hand s) e \<le> 1) \<and>
     (\<forall>e\<in>#owned q hand s. e < next_event s \<and> eheap s e \<noteq> None) \<and>
     (\<forall>p\<in>fst ` set q \<union> set hand. 0 \<le> fst p \<and> nat (fst p) < length (event_pool s))"

definition hinv ::
  "('d \<Rightarrow> addr set) \<Rightarrow> (hevent \<times> hbid) list \<Rightarrow> hevent list \<Rightarrow> 'd host \<Rightarrow> bool" where
  "hinv live q hand s \<longleftrightarrow> distinct (host_blocks s) \<and> 0 < next_hbid s \<and>
     (\<forall>b\<in>set (host_blocks s). 0 < b \<and> b < next_hbid s \<and>
        (\<exists>x. hheap s b = Some x \<and> hb_ptr x \<in> live (drv (hctx s)) \<and> hblock_ok q s b x)) \<and>
     (\<forall>p b. ptr_to_block s p = Some b \<longrightarrow>
        b \<in> set (host_blocks s) \<and> (\<exists>x. hheap s b = Some x \<and> hb_ptr x = p)) \<and>
     set (free_list s) \<subseteq> set (host_blocks s) \<and>
     sorted_wrt BlockComparator (map (hkey_of s) (free_list s)) \<and>
     snd ` set q \<subseteq> set (host_blocks s) \<and> hevents_ok q hand s"

definition host_inv :: "('d \<Rightarrow> addr set) \<Rightarrow> 'd host \<Rightarrow> bool" where
  "host_inv live s \<longleftrightarrow> hinv live (host_events s) [] s"

text \<open>
  The abstract state: the blocks that are handed out, with their pointers and sizes. A client of
  the allocator sees nothing else of it.
\<close>

definition in_use :: "'d host \<Rightarrow> (hbid \<times> addr \<times> 64 word) set" where
  "in_use s = {(b, hb_ptr x, hb_size x) | b x.
     b \<in> set (host_blocks s) \<and> hheap s b = Some x \<and> hb_allocated x}"

lemma in_use_update [simp]:
  "in_use (s\<lparr>hctx := c\<rparr>) = in_use s" "in_use (s\<lparr>host_events := q\<rparr>) = in_use s"
  "in_use (s\<lparr>free_list := fl\<rparr>) = in_use s" "in_use (s\<lparr>event_pool := ep\<rparr>) = in_use s"
  "in_use (s\<lparr>eheap := eh\<rparr>) = in_use s"
  by (simp_all add: in_use_def)

lemma hinvD:
  assumes "hinv live q hand s"
  shows "distinct (host_blocks s)" "0 < next_hbid s"
    "\<And>b. b \<in> set (host_blocks s) \<Longrightarrow> 0 < b \<and> b < next_hbid s"
    "\<And>b. b \<in> set (host_blocks s) \<Longrightarrow>
       \<exists>x. hheap s b = Some x \<and> hb_ptr x \<in> live (drv (hctx s)) \<and> hblock_ok q s b x"
    "\<And>p b. ptr_to_block s p = Some b \<Longrightarrow>
       b \<in> set (host_blocks s) \<and> (\<exists>x. hheap s b = Some x \<and> hb_ptr x = p)"
    "set (free_list s) \<subseteq> set (host_blocks s)"
    "sorted_wrt BlockComparator (map (hkey_of s) (free_list s))"
    "snd ` set q \<subseteq> set (host_blocks s)" "hevents_ok q hand s"
  using assms by (auto simp: hinv_def)

lemma hinv_block:
  assumes "hinv live q hand s" "b \<in> set (host_blocks s)" "hheap s b = Some x"
  shows "hb_ptr x \<in> live (drv (hctx s))" "ptr_to_block s (hb_ptr x) = Some b"
    "pend q b \<le> hb_event_count x"
    "0 < hb_event_count x \<Longrightarrow> \<not> hb_allocated x \<and> hb_streams x = []"
    "b \<in> set (free_list s) \<Longrightarrow> \<not> hb_allocated x \<and> hb_event_count x = 0 \<and> hb_streams x = []"
  using hinvD(4) [OF assms(1,2)] assms(3) by (auto simp: hblock_ok_def)

text \<open>The parts of the state that the operations on events and on the context leave alone.\<close>

definition ev_frame :: "('d \<Rightarrow> addr set) \<Rightarrow> 'd host \<Rightarrow> 'd host \<Rightarrow> bool" where
  "ev_frame live s s' \<longleftrightarrow> host_blocks s' = host_blocks s \<and> ptr_to_block s' = ptr_to_block s \<and>
     free_list s' = free_list s \<and> host_events s' = host_events s \<and> hheap s' = hheap s \<and>
     next_hbid s' = next_hbid s \<and> live (drv (hctx s')) = live (drv (hctx s)) \<and>
     length (event_pool s') = length (event_pool s)"

lemma ev_frame_refl [simp]: "ev_frame live s s"
  by (simp add: ev_frame_def)

lemma ev_frame_trans: "ev_frame live s t \<Longrightarrow> ev_frame live t u \<Longrightarrow> ev_frame live s u"
  by (simp add: ev_frame_def)

lemma ev_frame_in_use: "ev_frame live s t \<Longrightarrow> in_use t = in_use s"
  by (simp add: ev_frame_def in_use_def)

lemma ev_frame_ctx: "live (drv c) = live (drv (hctx s)) \<Longrightarrow> ev_frame live s (s\<lparr>hctx := c\<rparr>)"
  by (simp add: ev_frame_def)

lemma hinv_frame:
  assumes "hinv live q hand s" "ev_frame live s s'" "hevents_ok q' hand' s'"
    "\<And>b. pend q' b \<le> pend q b" "snd ` set q' \<subseteq> snd ` set q"
  shows "hinv live q' hand' s'"
proof -
  have k: "hkey_of s' = hkey_of s" using assms(2) by (simp add: fun_eq_iff hkey_of_def ev_frame_def)
  have "hblock_ok q' s' b x" if "hblock_ok q s b x" for b x
    using that assms(2,4) unfolding hblock_ok_def ev_frame_def by (metis le_trans)
  then show ?thesis
    using assms(1,2,3,5) unfolding hinv_def ev_frame_def k by (metis (no_types, lifting) subset_trans)
qed

lemma hevents_ctx: "hevents_ok q hand (s\<lparr>hctx := c\<rparr>) = hevents_ok q hand s"
  by (simp add: hevents_ok_def owned_def)

lemma hinv_ctx:
  "hinv live q hand s \<Longrightarrow> live (drv c) = live (drv (hctx s)) \<Longrightarrow> hinv live q hand (s\<lparr>hctx := c\<rparr>)"
  by (rule hinv_frame [OF _ ev_frame_ctx]) (auto simp: hevents_ctx hinvD)

text \<open>An action on the context that leaves the pinned memory alone.\<close>

lemma wp_in_hctx:
  assumes "\<And>P. keeps_pred (\<lambda>c. P (live (drv c))) m"
    and "\<And>x c. live (drv c) = live (drv (hctx s)) \<Longrightarrow> Q x (s\<lparr>hctx := c\<rparr>)"
    and "\<And>e c. live (drv c) = live (drv (hctx s)) \<Longrightarrow> X e (s\<lparr>hctx := c\<rparr>)"
  shows "wp (in_hctx m) Q X s"
proof -
  have "live (drv (snd (m (hctx s)))) = live (drv (hctx s))"
    using assms(1) [of "\<lambda>L. L = live (drv (hctx s))"] by (simp add: keeps_pred_def)
  then show ?thesis
    using assms(2,3) by (auto simp: wp_def in_hctx_def split: prod.splits sum.splits)
qed

section \<open>Events and the pool\<close>

lemma mset_concat_update:
  "i < length xs \<Longrightarrow> mset (concat (xs[i := ys])) + mset (xs ! i) = mset (concat xs) + mset ys"
proof (induction xs arbitrary: i)
  case (Cons x xs)
  show ?case
  proof (cases i)
    case (Suc j)
    with Cons.IH [of j] Cons.prems show ?thesis by (simp add: ac_simps)
  qed (simp add: ac_simps)
qed simp

lemma owned_return:
  assumes "nat (fst p) < length (event_pool s)"
  shows "owned q hand (s\<lparr>event_pool := (event_pool s)[nat (fst p) := snd p # event_pool s ! nat (fst p)]\<rparr>) =
    owned q (p # hand) s"
  using mset_concat_update [OF assms, of "snd p # event_pool s ! nat (fst p)"]
  by (simp add: owned_def)

lemma hevents_okD:
  assumes "hevents_ok q hand s"
  shows "count (owned q hand s) e \<le> 1" "e \<in># owned q hand s \<Longrightarrow> e < next_event s"
    "e \<in># owned q hand s \<Longrightarrow> eheap s e \<noteq> None"
    "p \<in> fst ` set q \<Longrightarrow> 0 \<le> fst p \<and> nat (fst p) < length (event_pool s)"
    "p \<in> set hand \<Longrightarrow> 0 \<le> fst p \<and> nat (fst p) < length (event_pool s)"
  using assms by (auto simp: hevents_ok_def)

lemma wp_pool_return:
  assumes "hinv live q (p # hand) s"
    and "\<And>s'. hinv live q hand s' \<Longrightarrow> ev_frame live s s' \<Longrightarrow> Q () s'"
  shows "wp (pool_return p) Q X s"
proof -
  let ?s = "s\<lparr>event_pool := (event_pool s)[nat (fst p) := snd p # event_pool s ! nat (fst p)]\<rparr>"
  note ev = hinvD(9) [OF assms(1)]
  have p: "nat (fst p) < length (event_pool s)" using hevents_okD(5) [OF ev, of p] by simp
  have f: "ev_frame live s ?s" by (simp add: ev_frame_def)
  have "hevents_ok q hand ?s"
    using ev unfolding hevents_ok_def owned_return [OF p] by simp
  then have "hinv live q hand ?s" by (rule hinv_frame [OF assms(1) f]) simp_all
  then have "Q () ?s" using f by (rule assms(2))
  then show ?thesis by (simp add: pool_return_def wp_simps)
qed

lemma wp_return_all:
  assumes "hinv live q hand s"
    and "\<And>s'. hinv live q [] s' \<Longrightarrow> ev_frame live s s' \<Longrightarrow> Q () s'"
  shows "wp (for_each pool_return hand) Q X s"
  using assms
proof (induction hand arbitrary: s)
  case (Cons p hand)
  have "wp (pool_return p) (\<lambda>_. wp (for_each pool_return hand) Q X) X s"
  proof (rule wp_pool_return [OF Cons.prems(1)])
    fix t assume t: "hinv live q hand t" "ev_frame live s t"
    then show "wp (for_each pool_return hand) Q X t"
      using Cons.prems(2) by (intro Cons.IH) (blast intro: ev_frame_trans)+
  qed
  then show ?case by (simp add: wp_simps)
qed (simp add: wp_simps)

lemma owned_take:
  assumes "i < length (event_pool s)" "event_pool s ! i = e # es"
  shows "owned q ((d, e) # hand) (s\<lparr>event_pool := (event_pool s)[i := es]\<rparr>) = owned q hand s"
  using mset_concat_update [OF assms(1), of es] assms(2)
  by (simp add: owned_def)

lemma wp_pool_get:
  assumes "hinv live q hand s"
    and "\<And>e s'. hinv live q ((d, e) # hand) s' \<Longrightarrow> ev_frame live s s' \<Longrightarrow> Q (d, e) s'"
    and "X InternalAssert s"
  shows "wp (pool_get d) Q X s"
proof (cases "0 \<le> d \<and> d < int (length (event_pool s))")
  case False
  with assms(3) show ?thesis by (auto simp: pool_get_def wp_simps)
next
  case True
  then have d: "nat d < length (event_pool s)" by auto
  note ev = hinvD(9) [OF assms(1)]
  show ?thesis
  proof (cases "event_pool s ! nat d")
    case (Cons e es)
    let ?s = "s\<lparr>event_pool := (event_pool s)[nat d := es]\<rparr>"
    have f: "ev_frame live s ?s" by (simp add: ev_frame_def)
    have "hevents_ok q ((d, e) # hand) ?s"
      using ev True d unfolding hevents_ok_def owned_take [OF d Cons] by simp
    then have "hinv live q ((d, e) # hand) ?s" by (rule hinv_frame [OF assms(1) f]) simp_all
    with f assms(2) True Cons show ?thesis by (simp add: pool_get_def wp_simps)
  next
    case Nil
    let ?n = "next_event s"
    let ?s = "s\<lparr>eheap := (eheap s)(?n \<mapsto> GCUEvent), next_event := Suc ?n\<rparr>"
    have f: "ev_frame live s ?s" by (simp add: ev_frame_def)
    have o: "owned q ((d, ?n) # hand) ?s = add_mset ?n (owned q hand s)"
      by (simp add: owned_def)
    have new: "count (owned q hand s) ?n = 0"
      using hevents_okD(2) [OF ev, of ?n] by (meson less_irrefl not_in_iff)
    have "hevents_ok q ((d, ?n) # hand) ?s"
      unfolding hevents_ok_def o
    proof (intro conjI allI ballI)
      fix e
      show "count (add_mset ?n (owned q hand s)) e \<le> 1"
        using new hevents_okD(1) [OF ev, of e] by (cases "e = ?n") simp_all
    next
      fix e assume "e \<in># add_mset ?n (owned q hand s)"
      then show "e < next_event ?s" "eheap ?s e \<noteq> None"
        using hevents_okD(2,3) [OF ev, of e] by (auto simp: less_Suc_eq)
    next
      fix p assume "p \<in> fst ` set q \<union> set ((d, ?n) # hand)"
      then show "0 \<le> fst p" "nat (fst p) < length (event_pool ?s)"
        using hevents_okD(4,5) [OF ev, of p] True by auto
    qed
    then have "hinv live q ((d, ?n) # hand) ?s" by (rule hinv_frame [OF assms(1) f]) simp_all
    then have "Q (d, ?n) ?s" using f by (rule assms(2))
    then show ?thesis using True Nil by (simp add: pool_get_def wp_simps) (simp add: wp_def)
  qed
qed

lemma keeps_in_ectx:
  "keeps_pred (\<lambda>c. P (live (drv c))) m \<Longrightarrow> keeps_pred (\<lambda>t. P (live (drv (ectx t)))) (in_ectx m)"
  by (auto simp: keeps_pred_def in_ectx_def split: prod.splits)

lemma keeps_set_self: "keeps_pred (\<lambda>t. P (live (drv (ectx t)))) (set_self f)"
  by (simp add: keeps_pred_def set_self_def act_simps)

lemma event_record_keeps:
  assumes "quiet_runtime T live"
  shows "keeps_pred (\<lambda>t. P (live (drv (ectx t)))) (event_record T g)"
proof -
  have q: "quiet_others T live" using assms by (simp add: quiet_runtime_def)
  show ?thesis
    unfolding event_record_def createEvent_def
    by (intro keeps_intros keeps_in_ectx keeps_set_self device_keeps assms
        keeps_call [OF quiet_othersD(15) [OF q]] keeps_call_check [OF quiet_othersD(13) [OF q]])
qed

lemma wp_on_event:
  assumes "hinv live q hand s" and "e \<in># owned q hand s"
    and "\<And>P. keeps_pred (\<lambda>t. P (live (drv (ectx t)))) m"
    and "\<And>x s'. hinv live q hand s' \<Longrightarrow> ev_frame live s s' \<Longrightarrow> Q x s'"
    and "\<And>x s'. hinv live q hand s' \<Longrightarrow> ev_frame live s s' \<Longrightarrow> X x s'"
  shows "wp (on_event e m) Q X s"
proof -
  note ev = hinvD(9) [OF assms(1)]
  obtain x where x: "eheap s e = Some x" using hevents_okD(3) [OF ev assms(2)] by auto
  obtain r t where r: "m \<lparr>self = x, ectx = hctx s\<rparr> = (r, t)" by fastforce
  let ?s = "s\<lparr>eheap := (eheap s)(e \<mapsto> self t), hctx := ectx t\<rparr>"
  have l: "live (drv (ectx t)) = live (drv (hctx s))"
    using keeps_predD [OF assms(3) [of "\<lambda>L. L = live (drv (hctx s))"] _ r] by simp
  then have f: "ev_frame live s ?s" by (simp add: ev_frame_def)
  have "hevents_ok q hand ?s"
    using ev by (auto simp: hevents_ok_def owned_def)
  then have "hinv live q hand ?s" by (rule hinv_frame [OF assms(1) f]) simp_all
  then show ?thesis
    using assms(4,5) f x r by (simp add: wp_def on_event_def split: sum.splits)
qed

lemma wp_try_catch [wp_simps]:
  "wp (try_catch m h) Q X = wp m Q (\<lambda>e. wp (h e) Q X)"
  by (auto simp: wp_def act_simps fun_eq_iff split: prod.splits sum.splits)

text \<open>
  Recording the events of a block: each succeeds with one more event in hand, or throws with all
  of them back in the pool.
\<close>

lemma owned_hand_perm: "mset hand = mset hand' \<Longrightarrow> owned q hand s = owned q hand' s"
  by (simp add: owned_def mset_map)

lemma hinv_hand_perm: "hinv live q hand s \<Longrightarrow> mset hand = mset hand' \<Longrightarrow> hinv live q hand' s"
  using owned_hand_perm [of hand hand' q s] mset_eq_setD [of hand hand']
  by (simp add: hinv_def hevents_ok_def)

lemma wp_record_events:
  fixes live :: "'d \<Rightarrow> addr set"
  assumes H: "quiet_runtime (h_runtime H) live" and "hinv live q es s"
    and "\<And>es' s'. hinv live q es' s' \<Longrightarrow> ev_frame live s s' \<Longrightarrow>
      length es' = length es + length gs \<Longrightarrow> Q es' s'"
    and "\<And>x s'. hinv live q [] s' \<Longrightarrow> ev_frame live s s' \<Longrightarrow> X x s'"
  shows "wp (record_events H gs es) Q X s"
  using assms(2-4)
proof (induction gs arbitrary: es s)
  case (Cons g gs)
  have ret: "wp (seq (for_each pool_return hand) (throw x)) Q' X t"
    if "hinv live q hand t" "ev_frame live s t" for hand t x and Q' :: "'y \<Rightarrow> 'd host \<Rightarrow> bool"
    unfolding wp_seq wp_throw
    by (rule wp_return_all [OF that(1)]) (blast intro: Cons.prems(3) ev_frame_trans [OF that(2)])
  have rec: "wp (seq (try_catch (on_event (snd p) (event_record (h_runtime H) g))
        (\<lambda>x. seq (seq (pool_return p) (for_each pool_return es)) (throw x)))
      (record_events H gs (es @ [p]))) Q X t"
    if t: "hinv live q (p # es) t" "ev_frame live s t" for p t
    unfolding wp_seq wp_try_catch
  proof (rule wp_on_event [OF t(1) _ event_record_keeps [OF H]])
    show "snd p \<in># owned q (p # es) t" by (simp add: owned_def)
  next
    fix x :: unit and u assume u: "hinv live q (p # es) u" "ev_frame live t u"
    have su: "ev_frame live s v" if "ev_frame live u v" for v
      using t(2) u(2) that by (blast intro: ev_frame_trans)
    show "wp (record_events H gs (es @ [p])) Q X u"
    proof (rule Cons.IH)
      show "hinv live q (es @ [p]) u" by (rule hinv_hand_perm [OF u(1)]) simp
    qed (use Cons.prems(2,3) su in auto)
  next
    fix x u assume u: "hinv live q (p # es) u" "ev_frame live t u"
    show "wp (pool_return p) (\<lambda>_. wp (for_each pool_return es) (\<lambda>_. wp (throw x)
        (\<lambda>_. wp (record_events H gs (es @ [p])) Q X) X) X) X u"
    proof (rule wp_pool_return [OF u(1)])
      fix v assume "hinv live q es v" "ev_frame live u v"
      then show "wp (for_each pool_return es)
          (\<lambda>_. wp (throw x) (\<lambda>_. wp (record_events H gs (es @ [p])) Q X) X) X v"
        using ret [of es v x] t(2) u(2) by (simp add: wp_seq) (blast intro: ev_frame_trans)
    qed
  qed
  show ?case
    unfolding record_events.simps wp_bnd wp_try_catch
  proof (rule wp_pool_get [OF Cons.prems(1)])
    fix e t assume "hinv live q ((gs_device g, e) # es) t" "ev_frame live s t"
    then show "wp (seq (try_catch (on_event (snd (gs_device g, e)) (event_record (h_runtime H) g))
        (\<lambda>x. seq (seq (pool_return (gs_device g, e)) (for_each pool_return es)) (throw x)))
      (record_events H gs (es @ [(gs_device g, e)]))) Q X t"
      by (rule rec)
  next
    show "wp (seq (for_each pool_return es) (throw InternalAssert))
      (\<lambda>x. wp (seq (try_catch (on_event (snd x) (event_record (h_runtime H) g))
        (\<lambda>xa. seq (seq (pool_return x) (for_each pool_return es)) (throw xa)))
      (record_events H gs (es @ [x]))) Q X) X s"
      by (rule ret [OF Cons.prems(1)]) simp
  qed
qed (simp add: wp_simps)

section \<open>The free list\<close>

lemma hkeys_differ:
  assumes "hinv live q hand s" "a \<in> set (host_blocks s)" "b \<in> set (host_blocks s)" "a \<noteq> b"
  shows "BlockComparator (hkey_of s a) (hkey_of s b) \<or> BlockComparator (hkey_of s b) (hkey_of s a)"
proof -
  obtain x y where x: "hheap s a = Some x" and y: "hheap s b = Some y"
    using hinvD(4) [OF assms(1)] assms(2,3) by blast
  have "hb_ptr x \<noteq> hb_ptr y"
    using hinv_block(2) [OF assms(1,2) x] hinv_block(2) [OF assms(1,3) y] assms(4) by auto
  then show ?thesis using x y by (auto simp: hkey_of_def hkey_def)
qed

lemma check_free_list_ok:
  "hinv live q hand s \<Longrightarrow> list_all (\<lambda>b. hheap s b \<noteq> None) (free_list s)"
  using hinvD(4,6) unfolding list_all_iff by fastforce

lemma wp_hderef: "wp (hderef b) Q X s = (case hheap s b of None \<Rightarrow> X UndefinedBehaviour s | Some x \<Rightarrow> Q x s)"
  by (simp add: wp_def hderef_def split: option.splits)

lemma wp_hmodify: "wp (hmodify b f) Q X s =
  (case hheap s b of None \<Rightarrow> X UndefinedBehaviour s | Some x \<Rightarrow> Q () (s\<lparr>hheap := (hheap s)(b \<mapsto> f x)\<rparr>))"
  by (simp add: wp_def hmodify_def split: option.splits)

lemma wp_ederef: "wp (ederef b) Q X s = (case eheap s b of None \<Rightarrow> X UndefinedBehaviour s | Some x \<Rightarrow> Q x s)"
  by (simp add: wp_def ederef_def split: option.splits)

lemma wp_free_list_insert:
  assumes "hinv live q hand s" "b \<in> set (host_blocks s)" "hheap s b = Some x"
    "\<not> hb_allocated x" "hb_event_count x = 0" "hb_streams x = []"
    and "\<And>fl. set fl = insert b (set (free_list s)) \<Longrightarrow> hinv live q hand (s\<lparr>free_list := fl\<rparr>) \<Longrightarrow>
      Q () (s\<lparr>free_list := fl\<rparr>)"
  shows "wp (free_list_insert b) Q X s"
proof -
  let ?fl = "fst (set_insert BlockComparator (hkey_of s) b (free_list s))"
  let ?s = "s\<lparr>free_list := ?fl\<rparr>"
  note srt = hinvD(7) [OF assms(1)]
  have set: "set ?fl = insert b (set (free_list s))"
  proof (cases "b \<in> set (free_list s)")
    case True
    then have "\<not> snd (set_insert BlockComparator (hkey_of s) b (free_list s))"
      using host_order.set_insert_iff [OF srt] host_order.irrefl by blast
    with True show ?thesis by (simp add: host_order.set_insert_False insert_absorb)
  next
    case False
    have "snd (set_insert BlockComparator (hkey_of s) b (free_list s))"
      using host_order.set_insert_iff [OF srt] False hinvD(6) [OF assms(1)] assms(2)
      by (metis hkeys_differ [OF assms(1)] subsetD)
    then show ?thesis by (rule host_order.set_insert_True)
  qed
  have k: "hkey_of ?s = hkey_of s" by (simp add: fun_eq_iff hkey_of_def)
  have "hinv live q hand ?s"
    unfolding hinv_def k
  proof (intro conjI ballI allI impI)
    fix a assume "a \<in> set (host_blocks ?s)"
    then have a: "a \<in> set (host_blocks s)" by simp
    then obtain y where y: "hheap s a = Some y" using hinvD(4) [OF assms(1)] by blast
    note B = hinv_block [OF assms(1) a y]
    have "\<not> hb_allocated y \<and> hb_event_count y = 0 \<and> hb_streams y = []" if "a \<in> set ?fl"
      using that B(5) assms(3-6) y unfolding set by (cases "a = b") simp_all
    then have "hblock_ok q ?s a y" using B(2-4) by (simp add: hblock_ok_def)
    with y hinv_block(1) [OF assms(1) a y]
    show "\<exists>x. hheap ?s a = Some x \<and> hb_ptr x \<in> live (drv (hctx ?s)) \<and> hblock_ok q ?s a x" by simp
    show "0 < a" "a < next_hbid ?s" using hinvD(3) [OF assms(1) a] by simp_all
  next
    show "sorted_wrt BlockComparator (map (hkey_of s) (free_list ?s))"
      using host_order.set_insert_sorted [OF srt] by simp
  next
    show "set (free_list ?s) \<subseteq> set (host_blocks ?s)" using set hinvD(6) [OF assms(1)] assms(2) by simp
  next
    show "hevents_ok q hand ?s" using hinvD(9) [OF assms(1)] by (simp add: hevents_ok_def owned_def)
  qed (use hinvD [OF assms(1)] in auto)
  then show ?thesis
    using assms(7) [OF set] assms(3) check_free_list_ok [OF assms(1)]
    by (simp add: free_list_insert_def check_free_list_def wp_simps wp_hderef)
qed

text \<open>
  Changing one block: its pointer and size stay, and its new contents are right for the new
  queue; the other blocks wait for no more events than before.
\<close>

lemma hinv_modify:
  assumes "hinv live q hand s" "b \<in> set (host_blocks s)" "hheap s b = Some x"
    and "hb_ptr y = hb_ptr x" "hb_size y = hb_size x"
    and "hblock_ok q' s b y" and "\<And>a. a \<noteq> b \<Longrightarrow> pend q' a \<le> pend q a"
    and "snd ` set q' \<subseteq> set (host_blocks s)" and "hevents_ok q' hand' s"
  shows "hinv live q' hand' (s\<lparr>hheap := (hheap s)(b \<mapsto> y)\<rparr>)"
proof -
  let ?s = "s\<lparr>hheap := (hheap s)(b \<mapsto> y)\<rparr>"
  have k: "hkey_of ?s a = hkey_of s a" for a
    using assms(3-5) by (simp add: hkey_of_def hkey_def)
  show ?thesis
    unfolding hinv_def
  proof (intro conjI ballI allI impI)
    fix a assume "a \<in> set (host_blocks ?s)"
    then have a: "a \<in> set (host_blocks s)" by simp
    then obtain z where z: "hheap s a = Some z" using hinvD(4) [OF assms(1)] by blast
    show "\<exists>x. hheap ?s a = Some x \<and> hb_ptr x \<in> live (drv (hctx ?s)) \<and> hblock_ok q' ?s a x"
    proof (cases "a = b")
      case True
      with assms(3-6) hinv_block(1) [OF assms(1,2,3)] show ?thesis by (auto simp: hblock_ok_def)
    next
      case False
      then have "hblock_ok q' ?s a z"
        using hinv_block [OF assms(1) a z] assms(7) [OF False] by (auto simp: hblock_ok_def)
      with False z hinv_block(1) [OF assms(1) a z] show ?thesis by simp
    qed
    show "0 < a" "a < next_hbid ?s" using hinvD(3) [OF assms(1) a] by simp_all
  next
    show "sorted_wrt BlockComparator (map (hkey_of ?s) (free_list ?s))"
      using hinvD(7) [OF assms(1)] by (simp add: k sorted_wrt_map)
  next
    fix p a assume "ptr_to_block ?s p = Some a"
    then have "ptr_to_block s p = Some a" by simp
    from hinvD(5) [OF assms(1) this]
    show "a \<in> set (host_blocks ?s)" "\<exists>x. hheap ?s a = Some x \<and> hb_ptr x = p"
      using assms(3,4) by auto
  next
    show "hevents_ok q' hand' ?s" using assms(9) by (simp add: hevents_ok_def owned_def)
  qed (use hinvD [OF assms(1)] assms(8) in auto)
qed

section \<open>Processing events\<close>

lemma wp_in_hctx_wp: "wp (in_hctx m) Q X s = wp m (\<lambda>x c. Q x (s\<lparr>hctx := c\<rparr>)) (\<lambda>e c. X e (s\<lparr>hctx := c\<rparr>)) (hctx s)"
  by (simp add: wp_def in_hctx_def split: prod.splits)

lemma wp_call: "wp (call f) Q X c = Q (fst (f (drv c))) (c\<lparr>drv := snd (f (drv c))\<rparr>)"
  by (simp add: wp_def call_def split: prod.splits)

lemma hinv_in_hand:
  assumes "hinv live (q @ [(e, b)]) hand s"
  shows "hinv live q (e # hand) s" "e = (fst e, snd e) \<Longrightarrow> snd e \<in># owned q (e # hand) s"
proof -
  have o: "owned q (e # hand) s = owned (q @ [(e, b)]) hand s" by (simp add: owned_def)
  have "hevents_ok q (e # hand) s"
    using hinvD(9) [OF assms] unfolding hevents_ok_def o by auto
  then show "hinv live q (e # hand) s"
    by (rule hinv_frame [OF assms ev_frame_refl]) (auto simp: pend_def)
  show "snd e \<in># owned q (e # hand) s" by (simp add: owned_def)
qed

lemma hinv_host_events [simp]: "hinv live q hand (s\<lparr>host_events := q'\<rparr>) = hinv live q hand s"
proof -
  have "hkey_of (s\<lparr>host_events := q'\<rparr>) = hkey_of s" by (simp add: fun_eq_iff hkey_of_def)
  then show ?thesis by (simp add: hinv_def hblock_ok_def hevents_ok_def owned_def)
qed

text \<open>
  \<open>served b s s'\<close>: one event of block \<open>b\<close> has completed; the block becomes free with the last one.
\<close>

definition served :: "hbid \<Rightarrow> 'd host \<Rightarrow> 'd host \<Rightarrow> bool" where
  "served b s s' \<longleftrightarrow> host_blocks s' = host_blocks s \<and> (\<exists>x. hheap s b = Some x \<and> 0 < hb_event_count x \<and>
     hheap s' = (hheap s)(b \<mapsto> x\<lparr>hb_event_count := hb_event_count x - 1\<rparr>) \<and>
     set (free_list s') = (if hb_event_count x = 1 then insert b (set (free_list s)) else set (free_list s)))"

lemma served_in_use: "served b s s' \<Longrightarrow> in_use s' = in_use s"
  by (auto simp: served_def in_use_def split: if_splits)

lemma wp_process_event:
  assumes H: "quiet_runtime (h_runtime H) live" and I: "hinv live (q @ [(e, b)]) [] s" and q: "host_events s = q"
    and not_ready: "\<And>ev d c. fst (topsEventQuery (h_runtime H) ev d) = topsErrorNotReady \<Longrightarrow>
      host_inv live (s\<lparr>hctx := c, host_events := q @ [(e, b)]\<rparr>) \<Longrightarrow> Q False (s\<lparr>hctx := c, host_events := q @ [(e, b)]\<rparr>)"
    and ready: "\<And>s'. host_inv live s' \<Longrightarrow> host_events s' = q \<Longrightarrow> served b s s' \<Longrightarrow> Q True s'"
    and err: "\<And>ev d x s'. fst (topsEventQuery (h_runtime H) ev d) = x \<Longrightarrow> x \<noteq> topsSuccess \<Longrightarrow> host_inv live s' \<Longrightarrow>
      in_use s' = in_use s \<Longrightarrow> X (GcuError x) s'"
  shows "wp (process_event H e b) Q X s"
proof -
  let ?T = "h_runtime H"
  have qo: "quiet_others ?T live" using H by (simp add: quiet_runtime_def)
  note hand = hinv_in_hand(1) [OF I]
  have own: "snd e \<in># owned q [e] s" by (simp add: owned_def)
  obtain z where z: "eheap s (snd e) = Some z" using hevents_okD(3) [OF hinvD(9) [OF hand] own] by auto
  have bb: "b \<in> set (host_blocks s)" using hinvD(8) [OF I] by auto
  obtain x where x: "hheap s b = Some x" using hinvD(4) [OF I bb] by blast
  have pe: "pend (q @ [(e, b)]) b = Suc (pend q b)" by (simp add: pend_def)
  note B = hinv_block [OF I bb x]
  have cnt: "Suc (pend q b) \<le> hb_event_count x" using B(3) pe by simp
  have idle: "\<not> hb_allocated x" "hb_streams x = []" using B(4) cnt by auto
  have nfree: "b \<notin> set (free_list s)" using B(5) cnt by auto
  obtain r d where r: "topsEventQuery ?T (ev_handle z) (drv (hctx s)) = (r, d)" by fastforce
  let ?c = "(hctx s)\<lparr>drv := d\<rparr>"
  have lv: "live d = live (drv (hctx s))"
    using quiet_othersD(16) [OF qo, of "ev_handle z"] r unfolding quiet_def by (metis snd_conv)
  let ?s = "s\<lparr>hctx := ?c\<rparr>"
  show ?thesis
  proof (cases "r = topsErrorNotReady")
    case True
    obtain r2 d2 where g: "topsGetLastError ?T d = (r2, d2)" by fastforce
    have "live d2 = live d" using quiet_othersD(3) [OF qo] g unfolding quiet_def by (metis snd_conv)
    then have "hinv live (q @ [(e, b)]) [] (s\<lparr>hctx := ?c\<lparr>drv := d2\<rparr>\<rparr>)" using lv by (intro hinv_ctx [OF I]) simp
    then have "host_inv live (s\<lparr>hctx := ?c\<lparr>drv := d2\<rparr>, host_events := q @ [(e, b)]\<rparr>)" by (simp add: host_inv_def)
    then have "Q False (s\<lparr>hctx := ?c\<lparr>drv := d2\<rparr>, host_events := q @ [(e, b)]\<rparr>)"
      using not_ready [of "ev_handle z" "drv (hctx s)" "?c\<lparr>drv := d2\<rparr>"] r True by simp
    then show ?thesis
      using z r True g q by (simp add: process_event_def wp_simps wp_ederef wp_in_hctx_wp wp_call)
  next
    case rdy: False
    have I1: "hinv live q [e] ?s" using lv by (intro hinv_ctx [OF hand]) simp
    show ?thesis
    proof (cases "r = topsSuccess")
      case False
      have "wp (pool_return e) (\<lambda>_. X (GcuError r)) X ?s"
      proof (rule wp_pool_return [OF I1])
        fix s' assume s': "hinv live q [] s'" "ev_frame live ?s s'"
        then have "host_inv live s'" "in_use s' = in_use s"
          using q ev_frame_in_use [OF s'(2)] by (simp_all add: host_inv_def ev_frame_def)
        then show "X (GcuError r) s'" using err [of "ev_handle z" "drv (hctx s)" r s'] r False by simp
      qed
      then show ?thesis
        using z r rdy False
        by (simp add: process_event_def wp_simps wp_ederef wp_in_hctx_wp wp_call)
    next
      case True
      let ?y = "x\<lparr>hb_event_count := hb_event_count x - 1\<rparr>"
      let ?s2 = "?s\<lparr>hheap := (hheap s)(b \<mapsto> ?y)\<rparr>"
      have I2: "hinv live q [e] ?s2"
      proof -
        have "hinv live q [e] (?s\<lparr>hheap := (hheap ?s)(b \<mapsto> ?y)\<rparr>)"
        proof (rule hinv_modify [OF I1])
          show "hblock_ok q ?s b ?y"
            using B(2) cnt idle nfree by (simp add: hblock_ok_def)
        qed (use bb x hinvD(8,9) [OF I1] in simp_all)
        then show ?thesis by simp
      qed
      have fin: "wp (pool_return e) (\<lambda>_. Q True) X t"
        if t: "hinv live q [e] t" "host_events t = q" "hheap t = (hheap s)(b \<mapsto> ?y)" "host_blocks t = host_blocks s"
          "set (free_list t) = (if hb_event_count x = 1 then insert b (set (free_list s)) else set (free_list s))" for t
      proof (rule wp_pool_return [OF t(1)])
        fix s' assume s': "hinv live q [] s'" "ev_frame live t s'"
        show "Q True s'"
          by (rule ready) (use s' t x cnt in \<open>auto simp: host_inv_def ev_frame_def served_def\<close>)
      qed
      have "wp (whenM (hb_event_count ?y = 0) (free_list_insert b)) (\<lambda>_. wp (pool_return e) (\<lambda>_. Q True) X) (\<lambda>x. wp (pool_return e) (\<lambda>_. X x) X) ?s2"
      proof (cases "hb_event_count x = 1")
        case True
        have "wp (free_list_insert b) (\<lambda>_. wp (pool_return e) (\<lambda>_. Q True) X) (\<lambda>x. wp (pool_return e) (\<lambda>_. X x) X) ?s2"
          by (rule wp_free_list_insert [OF I2, where x = ?y]) (use bb idle True q fin in simp_all)
        then show ?thesis using True by (simp add: wp_whenM)
      next
        case False
        then have "hb_event_count ?y \<noteq> 0" using cnt by simp
        then show ?thesis using fin [of ?s2] I2 q False by (simp add: wp_whenM)
      qed
      then show ?thesis
        using z r True rdy x cnt idle
        by (simp add: process_event_def wp_simps wp_ederef wp_hderef wp_hmodify wp_in_hctx_wp wp_call)
    qed
  qed
qed

text \<open>The loop ends before its fuel does: a round takes an event off the queue or is the last one.\<close>

lemma wp_process_loop:
  assumes H: "quiet_runtime (h_runtime H) live"
    and Q: "\<And>s'. host_inv live s' \<Longrightarrow> in_use s' = U \<Longrightarrow> Q () s'"
    and X: "\<And>x s'. host_inv live s' \<Longrightarrow> in_use s' = U \<Longrightarrow> X (GcuError x) s'"
  shows "host_inv live s \<Longrightarrow> in_use s = U \<Longrightarrow> length (host_events s) < n \<Longrightarrow> wp (process_loop n H) Q X s"
proof (induction n arbitrary: s)
  case (Suc n)
  show ?case
  proof (cases "host_events s = []")
    case True
    then show ?thesis using Q Suc.prems(1,2) by (simp add: wp_simps)
  next
    case False
    define q e b where "q = butlast (host_events s)" and "e = fst (last (host_events s))" and "b = snd (last (host_events s))"
    have qe: "host_events s = q @ [(e, b)]" using False by (simp add: q_def e_def b_def)
    have "wp (process_event H e b) (\<lambda>more. wp (if more then process_loop n H else ret ()) Q X) X (s\<lparr>host_events := q\<rparr>)"
    proof (rule wp_process_event [OF H, where q = q])
      show "hinv live (q @ [(e, b)]) [] (s\<lparr>host_events := q\<rparr>)"
        using Suc.prems(1) qe by (simp add: host_inv_def)
    next
      fix s' assume "host_inv live s'" "host_events s' = q" "served b (s\<lparr>host_events := q\<rparr>) s'"
      then show "wp (if True then process_loop n H else ret ()) Q X s'"
        using Suc.prems(2,3) qe served_in_use [of b "s\<lparr>host_events := q\<rparr>" s'] by (simp add: Suc.IH)
    qed (use Q X Suc.prems(2,3) qe in \<open>auto simp: wp_simps\<close>)
    then show ?thesis using False by (simp add: wp_simps q_def e_def b_def)
  qed
qed simp

lemma wp_host_process:
  assumes "quiet_runtime (h_runtime H) live" "host_inv live s"
    and "\<And>s'. host_inv live s' \<Longrightarrow> in_use s' = in_use s \<Longrightarrow> Q () s'"
    and "\<And>x s'. host_inv live s' \<Longrightarrow> in_use s' = in_use s \<Longrightarrow> X (GcuError x) s'"
  shows "wp (host_process_events H) Q X s"
proof -
  have "wp (process_loop (Suc (length (host_events s))) H) Q X s"
    by (rule wp_process_loop [OF assms(1) _ _ assms(2), where U = "in_use s"]) (simp_all add: assms(3,4))
  then show ?thesis by (simp add: host_process_events_def wp_simps del: process_loop.simps)
qed

text \<open>
  If every query answers that the event is complete, the queue is emptied, and each block that
  waited for exactly its events in the queue is free.
\<close>

definition due :: "hbid \<Rightarrow> 'd host \<Rightarrow> bool" where
  "due b s \<longleftrightarrow> (\<exists>x. hheap s b = Some x \<and> hb_event_count x = pend (host_events s) b \<and>
     (hb_event_count x = 0 \<longrightarrow> b \<in> set (free_list s)))"

lemma due_served:
  assumes "due a (s\<lparr>host_events := q @ [(e, b)]\<rparr>)" "served b s s'" "host_events s' = q"
  shows "due a s'"
proof (cases "a = b")
  case True
  then show ?thesis using assms by (auto simp: due_def served_def pend_def)
next
  case False
  then show ?thesis using assms by (auto simp: due_def served_def pend_def)
qed

lemma wp_process_loop_ready:
  assumes H: "quiet_runtime (h_runtime H) live"
    and R: "\<And>ev d. fst (topsEventQuery (h_runtime H) ev d) = topsSuccess"
    and Q: "\<And>s'. host_inv live s' \<Longrightarrow> host_events s' = [] \<Longrightarrow> (\<And>a. a \<in> A \<Longrightarrow> due a s') \<Longrightarrow> Q () s'"
  shows "host_inv live s \<Longrightarrow> length (host_events s) < n \<Longrightarrow> (\<And>a. a \<in> A \<Longrightarrow> due a s) \<Longrightarrow> wp (process_loop n H) Q X s"
proof (induction n arbitrary: s)
  case (Suc n)
  show ?case
  proof (cases "host_events s = []")
    case True
    then show ?thesis using Q Suc.prems(1,3) by (simp add: wp_simps)
  next
    case False
    define q e b where "q = butlast (host_events s)" and "e = fst (last (host_events s))" and "b = snd (last (host_events s))"
    have qe: "host_events s = q @ [(e, b)]" using False by (simp add: q_def e_def b_def)
    have "wp (process_event H e b) (\<lambda>more. wp (if more then process_loop n H else ret ()) Q X) X (s\<lparr>host_events := q\<rparr>)"
    proof (rule wp_process_event [OF H, where q = q])
      show "hinv live (q @ [(e, b)]) [] (s\<lparr>host_events := q\<rparr>)"
        using Suc.prems(1) qe by (simp add: host_inv_def)
    next
      fix s' assume s': "host_inv live s'" "host_events s' = q" "served b (s\<lparr>host_events := q\<rparr>) s'"
      have "due a s'" if "a \<in> A" for a
      proof (rule due_served [OF _ s'(3,2)])
        have "s\<lparr>host_events := q, host_events := q @ [(e, b)]\<rparr> = s" using qe by simp
        then show "due a (s\<lparr>host_events := q\<rparr>\<lparr>host_events := q @ [(e, b)]\<rparr>)" using Suc.prems(3) [OF that] by simp
      qed
      then show "wp (if True then process_loop n H else ret ()) Q X s'"
        using Suc.IH [OF s'(1)] Suc.prems(2) qe s'(2) by simp
    qed (use R qe in auto)
    then show ?thesis using False by (simp add: wp_simps q_def e_def b_def)
  qed
qed simp

section \<open>Allocation\<close>

lemma hinv_grow:
  assumes "hinv live q hand s" "live (drv (hctx s)) \<subseteq> live (drv c)"
  shows "hinv live q hand (s\<lparr>hctx := c\<rparr>)"
proof -
  have k: "hkey_of (s\<lparr>hctx := c\<rparr>) = hkey_of s" by (simp add: fun_eq_iff hkey_of_def)
  have "hblock_ok q (s\<lparr>hctx := c\<rparr>) = hblock_ok q s" by (simp add: fun_eq_iff hblock_ok_def)
  then show ?thesis using assms unfolding hinv_def k hevents_ctx by simp (meson subsetD)
qed

lemma wp_keeps:
  assumes "\<And>P. keeps_pred (\<lambda>c. P (live (drv c))) m"
    and "\<And>x c'. live (drv c') = live (drv c) \<Longrightarrow> Q x c'" and "\<And>e c'. live (drv c') = live (drv c) \<Longrightarrow> X e c'"
  shows "wp m Q X c"
proof -
  have "live (drv (snd (m c))) = live (drv c)"
    using assms(1) [of "\<lambda>L. L = live (drv c)"] by (simp add: keeps_pred_def)
  then show ?thesis using assms(2,3) by (auto simp: wp_def split: prod.splits sum.splits)
qed

lemma wp_call_malloc:
  assumes H: "host_runtime H live"
    and Q: "\<And>a c'. a \<noteq> 0 \<Longrightarrow> a \<notin> live (drv c) \<Longrightarrow> live (drv c') = insert a (live (drv c)) \<Longrightarrow> Q a c'"
    and X: "\<And>e c'. live (drv c) \<subseteq> live (drv c') \<Longrightarrow> X e c'"
  shows "wp (call_check (topsHostMalloc (h_api H) n)) Q X c"
proof -
  obtain err a d where m: "topsHostMalloc (h_api H) n (drv c) = ((err, a), d)" by (metis prod.exhaust)
  then have "if err = topsSuccess then a \<noteq> 0 \<and> a \<notin> live (drv c) \<and> live d = insert a (live (drv c))
        else live d = live (drv c)"
    using H unfolding host_runtime_def by (metis (mono_tags, lifting) case_prod_conv)
  then show ?thesis
    using m Q [of a "c\<lparr>drv := d\<rparr>"] X [of "c\<lparr>drv := d\<rparr>"]
    by (cases "err = topsSuccess") (simp_all add: call_check_def wp_simps wp_call)
qed

lemma find_primary_keeps [device_keeps]:
  "quiet_runtime T live \<Longrightarrow> keeps_pred (\<lambda>c. P (live (drv c))) (find_primary_context T cur is)"
proof (induction "is")
  case (Cons i "is")
  then show ?case by (simp, intro conjI impI keeps_intros device_keeps) simp_all
qed (simp add: keeps_intros)

text \<open>
  The pattern of the guards: between two actions that leave the pinned memory alone, \<open>m\<close> is run in
  a state with the same pinned memory as at the start.
\<close>

lemma wp_with_primary_context:
  fixes T :: "'d tops"
  assumes T: "quiet_runtime T live" "quiet_others T live"
    and m: "\<And>c1 Q' X'. live (drv c1) = live (drv c) \<Longrightarrow>
      (\<And>a c'. a \<noteq> 0 \<Longrightarrow> a \<notin> live (drv c) \<Longrightarrow> live (drv c') = insert a (live (drv c)) \<Longrightarrow> Q' a c') \<Longrightarrow>
      (\<And>e c'. live (drv c) \<subseteq> live (drv c') \<Longrightarrow> X' e c') \<Longrightarrow> wp m Q' X' c1"
    and Q: "\<And>a c'. a \<noteq> 0 \<Longrightarrow> a \<notin> live (drv c) \<Longrightarrow> live (drv c') = insert a (live (drv c)) \<Longrightarrow> Q a c'"
    and X: "\<And>e c'. live (drv c) \<subseteq> live (drv c') \<Longrightarrow> X e c'"
  shows "wp (with_primary_context T m) Q X c"
proof -
  have final: "wp (uncheckedSetDevice T i) (\<lambda>_. R) X c1" if "\<And>c'. live (drv c') = live (drv c1) \<Longrightarrow> R c'"
    "live (drv c) \<subseteq> live (drv c1)" for i R and c1 :: "'d ctx"
    by (rule wp_keeps [where live = live, OF uncheckedSetDevice_keeps [OF T(1)]]) (use that in \<open>auto intro!: X\<close>)
  let ?fin = "\<lambda>original e. wp (uncheckedSetDevice T original) (\<lambda>_. X e) X"
  show ?thesis
    unfolding with_primary_context_def wp_bnd wp_finally wp_seq
  proof (rule wp_keeps [where live = live])
    show "keeps_pred (\<lambda>c. P (live (drv c))) (getDevice T)" for P
      unfolding getDevice_def by (intro device_keeps keeps_intros T(1))
    fix original and c1 :: "'d ctx" assume c1: "live (drv c1) = live (drv c)"
    show "wp (getDeviceIndexWithPrimaryContext T)
      (\<lambda>x. wp (case x of None \<Rightarrow> ret () | Some i \<Rightarrow> setDevice T i)
           (\<lambda>_. wp m (\<lambda>x. wp (uncheckedSetDevice T original) (\<lambda>_. Q x) X) (?fin original))
           (?fin original)) (?fin original) c1"
    proof (rule wp_keeps [where live = live])
      show "keeps_pred (\<lambda>c. P (live (drv c))) (getDeviceIndexWithPrimaryContext T)" for P
        unfolding getDeviceIndexWithPrimaryContext_def by (intro device_keeps keeps_intros T(1))
      fix primary and c2 :: "'d ctx" assume c2: "live (drv c2) = live (drv c1)"
      show "wp (case primary of None \<Rightarrow> ret () | Some i \<Rightarrow> setDevice T i)
           (\<lambda>_. wp m (\<lambda>x. wp (uncheckedSetDevice T original) (\<lambda>_. Q x) X) (?fin original))
           (?fin original) c2"
      proof (rule wp_keeps [where live = live])
        show "keeps_pred (\<lambda>c. P (live (drv c))) (case primary of None \<Rightarrow> ret () | Some i \<Rightarrow> setDevice T i)" for P
          unfolding setDevice_def by (cases primary) (auto intro: device_keeps keeps_intros T(1))
        fix u :: unit and c3 :: "'d ctx" assume c3: "live (drv c3) = live (drv c2)"
        show "wp m (\<lambda>x. wp (uncheckedSetDevice T original) (\<lambda>_. Q x) X) (?fin original) c3"
          by (rule m) (use c1 c2 c3 in \<open>auto intro!: final Q X\<close>)
      qed (use c1 c2 in \<open>auto intro!: final X\<close>)
    qed (use c1 in \<open>auto intro!: final X\<close>)
  qed (auto intro!: X)
qed

lemma wp_host_malloc:
  fixes H :: "'d host_env"
  assumes H: "host_runtime H live"
    and Q: "\<And>a c'. a \<noteq> 0 \<Longrightarrow> a \<notin> live (drv c) \<Longrightarrow> live (drv c') = insert a (live (drv c)) \<Longrightarrow> Q a c'"
    and X: "\<And>e c'. live (drv c) \<subseteq> live (drv c') \<Longrightarrow> X e c'"
  shows "wp (host_malloc H n) Q X c"
proof -
  let ?T = "h_runtime H"
  have T: "quiet_runtime ?T live" "quiet_others ?T live" using H by (simp_all add: host_runtime_def quiet_runtime_def)
  note keeps = wp_keeps [where live = live, OF captureStatus_keeps [OF T(1)]]
  let ?restore = "\<lambda>st. bnd (call (topsThreadExchangeStreamCaptureMode ?T st)) (\<lambda>(err, _). gcu_check_warn ?T err)"
  have restore: "keeps_pred (\<lambda>c. P (live (drv c))) (?restore st)" for P st
    unfolding case_prod_beta by (intro keeps_intros keeps_call quiet_othersD(12) [OF T(2)] keeps_gcu_check_warn T(2))
  have call: "wp (call_check (topsHostMalloc (h_api H) n)) Q' X' c1"
    if "live (drv c1) = live (drv c)"
      "\<And>a c'. a \<noteq> 0 \<Longrightarrow> a \<notin> live (drv c) \<Longrightarrow> live (drv c') = insert a (live (drv c)) \<Longrightarrow> Q' a c'"
      "\<And>e c'. live (drv c) \<subseteq> live (drv c') \<Longrightarrow> X' e c'" for Q' X' and c1 :: "'d ctx"
    by (rule wp_call_malloc [OF H]) (use that in simp_all)
  have relaxed: "wp (with_capture_mode ?T topsStreamCaptureModeRelaxed (call_check (topsHostMalloc (h_api H) n))) Q' X' c1"
    if c1: "live (drv c1) = live (drv c)"
      and Q': "\<And>a c'. a \<noteq> 0 \<Longrightarrow> a \<notin> live (drv c) \<Longrightarrow> live (drv c') = insert a (live (drv c)) \<Longrightarrow> Q' a c'"
      and X': "\<And>e c'. live (drv c) \<subseteq> live (drv c') \<Longrightarrow> X' e c'" for Q' X' and c1 :: "'d ctx"
  proof -
    have "wp (call_check (topsThreadExchangeStreamCaptureMode ?T topsStreamCaptureModeRelaxed))
      (\<lambda>st. wp (finallyM (call_check (topsHostMalloc (h_api H) n)) (?restore st)) Q' X') X' c1"
    proof (rule wp_keeps [where live = live])
      show "keeps_pred (\<lambda>c. P (live (drv c))) (call_check (topsThreadExchangeStreamCaptureMode ?T topsStreamCaptureModeRelaxed))" for P
        by (rule keeps_call_check [OF quiet_othersD(12) [OF T(2)]])
      fix st and c2 :: "'d ctx" assume c2: "live (drv c2) = live (drv c1)"
      have "wp (call_check (topsHostMalloc (h_api H) n)) (\<lambda>r. wp (?restore st) (\<lambda>_. Q' r) X') (\<lambda>e. wp (?restore st) (\<lambda>_. X' e) X') c2"
      proof (rule call)
        show "live (drv c2) = live (drv c)" using c2 c1 by simp
        show "wp (?restore st) (\<lambda>_. Q' a) X' c'" if "a \<noteq> 0" "a \<notin> live (drv c)" "live (drv c') = insert a (live (drv c))" for a c'
          by (rule wp_keeps [where live = live, OF restore]) (use that in \<open>auto intro!: Q' X'\<close>)
        show "wp (?restore st) (\<lambda>_. X' e) X' c'" if "live (drv c) \<subseteq> live (drv c')" for e c'
          by (rule wp_keeps [where live = live, OF restore]) (use that in \<open>auto intro!: X'\<close>)
      qed
      then show "wp (finallyM (call_check (topsHostMalloc (h_api H) n)) (?restore st)) Q' X' c2" by (simp add: wp_simps)
    qed (use c1 in \<open>auto intro!: X'\<close>)
    then show ?thesis by (simp add: with_capture_mode_def wp_simps)
  qed
  let ?body = "bnd (currentStreamCaptureStatusMayInitCtx ?T (h_use_default H)) (\<lambda>status.
         if status = 0 then call_check (topsHostMalloc (h_api H) n)
         else with_capture_mode ?T topsStreamCaptureModeRelaxed (call_check (topsHostMalloc (h_api H) n)))"
  have body: "wp ?body Q' X' c1"
    if c1: "live (drv c1) = live (drv c)"
      and Q': "\<And>a c'. a \<noteq> 0 \<Longrightarrow> a \<notin> live (drv c) \<Longrightarrow> live (drv c') = insert a (live (drv c)) \<Longrightarrow> Q' a c'"
      and X': "\<And>e c'. live (drv c) \<subseteq> live (drv c') \<Longrightarrow> X' e c'" for Q' X' and c1 :: "'d ctx"
    unfolding wp_bnd
    by (rule keeps) (use c1 call [OF _ Q' X'] relaxed [OF _ Q' X'] in \<open>auto intro!: X'\<close>)
  show ?thesis
    unfolding host_malloc_def by (rule wp_with_primary_context [OF T body]) (use Q X in auto)
qed

end
