(* ===== verification/HostOps.thy ===== *)
theory HostOps
  imports HostInv
begin

text \<open>
  The operations of the host allocator: what each does to the set of blocks that are handed out
  (\<open>in_use\<close>), and that it keeps the invariant.
\<close>

section \<open>Allocation\<close>

lemma PowerOf2Ceil_ge:
  assumes "llvm_spec M" "n \<noteq> 0" "unat n \<le> 2 ^ 63"
  shows "n \<le> PowerOf2Ceil M n"
proof -
  define k where "k = (LEAST k. unat n \<le> 2 ^ k)"
  have le: "unat n \<le> 2 ^ k" unfolding k_def by (rule LeastI [where P = "\<lambda>k. unat n \<le> 2 ^ k", OF assms(3)])
  have least: "k \<le> m" if "unat n \<le> 2 ^ m" for m unfolding k_def by (rule Least_le) (rule that)
  have "k < 64" using least [OF assms(3)] by simp
  then have "unat (PowerOf2Ceil M n) = 2 ^ k"
    using assms(1,2) le least unfolding llvm_spec_def by blast
  then show ?thesis using le by (simp add: word_le_nat_alt)
qed

lemma hinv_unlink:
  assumes "hinv live q hand s" shows "hinv live q hand (s\<lparr>free_list := remove1 b (free_list s)\<rparr>)"
proof -
  have k: "hkey_of (s\<lparr>free_list := remove1 b (free_list s)\<rparr>) = hkey_of s" by (simp add: fun_eq_iff hkey_of_def)
  have sub: "set (remove1 b (free_list s)) \<subseteq> set (free_list s)" by (rule set_remove1_subset)
  have "\<exists>x. hheap s a = Some x \<and> hb_ptr x \<in> live (drv (hctx s)) \<and>
      hblock_ok q (s\<lparr>free_list := remove1 b (free_list s)\<rparr>) a x" if "a \<in> set (host_blocks s)" for a
    using hinvD(4) [OF assms that] sub unfolding hblock_ok_def by auto
  then show ?thesis
    unfolding hinv_def k
    using hinvD(1-3,5-9) [OF assms] sub host_order.sorted_remove1 [OF hinvD(7) [OF assms]]
    by (auto simp: hevents_ok_def owned_def)
qed

lemma free_list_distinct: "hinv live q hand s \<Longrightarrow> distinct (free_list s)"
  by (drule hinvD(7)) (auto dest: host_order.sorted_distinct simp: distinct_map)

text \<open>
  What a call of \<open>allocate\<close> returns: a block that was not handed out, with a pointer that was
  not handed out, and large enough; nothing else changes for the clients.
\<close>

definition allocated_ok :: "'d host \<Rightarrow> 64 word \<Rightarrow> hbid \<Rightarrow> addr \<Rightarrow> 'd host \<Rightarrow> bool" where
  "allocated_ok s n b a s' \<longleftrightarrow> b \<noteq> 0 \<and> a \<noteq> 0 \<and> b \<notin> fst ` in_use s \<and> a \<notin> (fst \<circ> snd) ` in_use s \<and>
     (\<exists>m. n \<le> m \<and> in_use s' = insert (b, a, m) (in_use s))"

lemma in_use_modify:
  assumes "hheap s b = Some x" "b \<in> set (host_blocks s)"
  shows "in_use (s\<lparr>hheap := (hheap s)(b \<mapsto> y)\<rparr>) =
    {p \<in> in_use s. fst p \<noteq> b} \<union> (if hb_allocated y then {(b, hb_ptr y, hb_size y)} else {})"
  using assms by (auto simp: in_use_def)

lemma in_use_block: "hheap s b = Some x \<Longrightarrow> (b, a, m) \<in> in_use s \<longleftrightarrow>
    b \<in> set (host_blocks s) \<and> hb_allocated x \<and> a = hb_ptr x \<and> m = hb_size x"
  by (auto simp: in_use_def)

lemma ptr_in_use:
  assumes "hinv live q hand s" "b \<in> set (host_blocks s)" "hheap s b = Some x" "\<not> hb_allocated x"
  shows "b \<notin> fst ` in_use s" "hb_ptr x \<notin> (fst \<circ> snd) ` in_use s"
proof -
  show "b \<notin> fst ` in_use s" using assms(3,4) by (auto simp: in_use_def)
  have "a = b" if "(a, hb_ptr x, m) \<in> in_use s" for a m
  proof -
    obtain y where y: "a \<in> set (host_blocks s)" "hheap s a = Some y" "hb_ptr y = hb_ptr x"
      using \<open>(a, hb_ptr x, m) \<in> in_use s\<close> by (auto simp: in_use_def)
    then show ?thesis using hinv_block(2) [OF assms(1) y(1,2)] hinv_block(2) [OF assms(1-3)] by simp
  qed
  then show "hb_ptr x \<notin> (fst \<circ> snd) ` in_use s"
    using assms(3,4) by (auto simp: in_use_def) (metis option.inject)
qed

lemma wp_reuse:
  assumes I: "host_inv live s" and b: "lower_bound BlockComparator (hkey_of s) (n, 0) (free_list s) = b # bs"
    and nz: "\<And>p. p \<in> live (drv (hctx s)) \<Longrightarrow> p \<noteq> 0"
    and Q: "\<And>a s'. host_inv live s' \<Longrightarrow> allocated_ok s n b a s' \<Longrightarrow> Q (a, b) s'"
  shows "wp (seq (hmodify b (\<lambda>x. x\<lparr>hb_allocated := True\<rparr>))
             (seq (upd (\<lambda>s. s\<lparr>free_list := remove1 b (free_list s)\<rparr>))
              (bnd (hderef b) (\<lambda>x. ret (hb_ptr x, b))))) Q X s"
proof -
  have H: "hinv live (host_events s) [] s" using I by (simp add: host_inv_def)
  have "b \<in> set (lower_bound BlockComparator (hkey_of s) (n, 0) (free_list s))" using b by simp
  then have fl: "b \<in> set (free_list s)" and key: "\<not> BlockComparator (hkey_of s b) (n, 0)"
    using host_order.lower_bound_filter [OF hinvD(7) [OF H], of "(n, 0)"] by auto
  have bb: "b \<in> set (host_blocks s)" using fl hinvD(6) [OF H] by auto
  obtain x where x: "hheap s b = Some x" using hinvD(4) [OF H bb] by blast
  note B = hinv_block [OF H bb x]
  have free: "\<not> hb_allocated x" "hb_event_count x = 0" "hb_streams x = []" using B(5) fl by simp_all
  have size: "n \<le> hb_size x" using key x by (auto simp: hkey_of_def hkey_def split: if_splits)
  let ?s1 = "s\<lparr>free_list := remove1 b (free_list s)\<rparr>"
  let ?x = "x\<lparr>hb_allocated := True\<rparr>"
  let ?s2 = "?s1\<lparr>hheap := (hheap ?s1)(b \<mapsto> ?x)\<rparr>"
  have H1: "hinv live (host_events s) [] ?s1" by (rule hinv_unlink [OF H])
  have "hinv live (host_events s) [] ?s2"
  proof (rule hinv_modify [OF H1, where x = x])
    have "b \<notin> set (remove1 b (free_list s))" using free_list_distinct [OF H] by simp
    then show "hblock_ok (host_events s) ?s1 b ?x" using B(2,3) free by (simp add: hblock_ok_def)
  qed (use bb x hinvD(8,9) [OF H1] in simp_all)
  then have inv: "host_inv live ?s2" by (simp add: host_inv_def)
  note P = ptr_in_use [OF H bb x free(1)]
  have "in_use ?s2 = insert (b, hb_ptr x, hb_size x) (in_use s)"
    using in_use_modify [of ?s1 b x ?x] x bb P(1) by (auto simp: image_iff)
  then have ok: "allocated_ok s n b (hb_ptr x) ?s2"
    unfolding allocated_ok_def using P size hinvD(3) [OF H bb] nz [OF B(1)] by blast
  have eq: "?s2 = s\<lparr>hheap := (hheap s)(b \<mapsto> ?x), free_list := remove1 b (free_list s)\<rparr>" by simp
  show ?thesis using Q [OF inv ok] x unfolding eq by (simp add: wp_simps wp_hmodify wp_hderef)
qed

text \<open>A new block from the runtime.\<close>

lemma wp_fresh:
  assumes I: "host_inv live s" and c: "a \<noteq> 0" "a \<notin> live (drv (hctx s))" "live (drv c) = insert a (live (drv (hctx s)))"
    and size: "n \<le> m"
    and Q: "\<And>b s'. host_inv live s' \<Longrightarrow> allocated_ok s n b a s' \<Longrightarrow> Q (a, b) s'"
  shows "wp (bnd (gets next_hbid) (\<lambda>b.
      seq (upd (\<lambda>s. s\<lparr>
         hheap := (hheap s)(b \<mapsto> HostBlock\<lparr>hb_size := m, hb_ptr := a, hb_allocated := True\<rparr>),
         next_hbid := Suc b, host_blocks := b # host_blocks s,
         ptr_to_block := (if ptr_to_block s a = None then (ptr_to_block s)(a \<mapsto> b) else ptr_to_block s)\<rparr>))
        (ret (a, b)))) Q X (s\<lparr>hctx := c\<rparr>)"
proof -
  have H: "hinv live (host_events s) [] s" using I by (simp add: host_inv_def)
  let ?b = "next_hbid s"
  let ?x = "HostBlock\<lparr>hb_size := m, hb_ptr := a, hb_allocated := True\<rparr>"
  have new: "?b \<notin> set (host_blocks s)" using hinvD(3) [OF H, of ?b] by auto
  have ptr: "hb_ptr x \<noteq> a" if "b \<in> set (host_blocks s)" "hheap s b = Some x" for b x
    using hinv_block(1) [OF H that] c(2) by blast
  then have none: "ptr_to_block s a = None" using hinvD(5) [OF H, of a] by (cases "ptr_to_block s a") auto
  let ?s = "s\<lparr>hctx := c, hheap := (hheap s)(?b \<mapsto> ?x), next_hbid := Suc ?b,
    host_blocks := ?b # host_blocks s, ptr_to_block := (ptr_to_block s)(a \<mapsto> ?b)\<rparr>"
  have key: "hkey_of ?s b = hkey_of s b" if "b \<in> set (free_list s)" for b
    using that hinvD(6) [OF H] new by (auto simp: hkey_of_def)
  have pend: "pend (host_events s) ?b = 0" using hinvD(8) [OF H] new by (auto simp: pend_def filter_empty_conv)
  have old: "\<exists>x. hheap s b = Some x \<and> hb_ptr x \<in> live (drv c) \<and> hblock_ok (host_events s) ?s b x"
    if b: "b \<in> set (host_blocks s)" for b
  proof -
    obtain x where x: "hheap s b = Some x" using hinvD(4) [OF H b] by blast
    note B = hinv_block [OF H b x]
    show ?thesis using x B ptr [OF b x] c(3) by (simp add: hblock_ok_def)
  qed
  have "hinv live (host_events s) [] ?s"
    unfolding hinv_def
  proof (intro conjI ballI allI impI)
    fix b assume "b \<in> set (host_blocks ?s)"
    then consider "b = ?b" | "b \<noteq> ?b" "b \<in> set (host_blocks s)" by auto
    then show "\<exists>x. hheap ?s b = Some x \<and> hb_ptr x \<in> live (drv (hctx ?s)) \<and> hblock_ok (host_events s) ?s b x"
      "0 < b" "b < next_hbid ?s"
      using old [of b] hinvD(2) [OF H] hinvD(3) [OF H, of b] hinvD(6) [OF H] new pend c(3)
      by (cases; auto simp: hblock_ok_def HostBlock_def)+
  next
    fix p b assume "ptr_to_block ?s p = Some b"
    then show "b \<in> set (host_blocks ?s)" "\<exists>x. hheap ?s b = Some x \<and> hb_ptr x = p"
      using hinvD(5) [OF H, of p b] new by (auto split: if_splits)
  next
    show "sorted_wrt BlockComparator (map (hkey_of ?s) (free_list ?s))"
      using hinvD(7) [OF H] key by (simp cong: map_cong)
  qed (use hinvD [OF H] new in \<open>auto simp: hevents_ok_def owned_def\<close>)
  then have inv: "host_inv live ?s" by (simp add: host_inv_def)
  have use: "in_use ?s = insert (?b, a, m) (in_use s)" using new by (auto simp: in_use_def)
  have "?b \<notin> fst ` in_use s" "a \<notin> (fst \<circ> snd) ` in_use s" using new ptr unfolding in_use_def by force+
  then have "allocated_ok s n ?b a ?s" unfolding allocated_ok_def use using size hinvD(2) [OF H] c(1) by auto
  then have "Q (a, ?b) ?s" by (rule Q [OF inv])
  then show ?thesis using none by (simp add: wp_simps)
qed

lemma wp_host_allocate:
  fixes H :: "'d host_env"
  assumes H: "host_runtime H live" and M: "llvm_spec (h_llvm H)" and I: "host_inv live s"
    and n: "n \<noteq> 0" "unat n \<le> 2 ^ 63"
    and Q: "\<And>a b s'. host_inv live s' \<Longrightarrow> allocated_ok s n b a s' \<Longrightarrow> Q (a, b) s'"
    and X: "\<And>e s'. host_inv live s' \<Longrightarrow> in_use s' = in_use s \<Longrightarrow> X e s'"
  shows "wp (host_allocate H n) Q X s"
proof -
  have T: "quiet_runtime (h_runtime H) live" using H by (simp add: host_runtime_def)
  have nz: "p \<noteq> 0" if "p \<in> live d" for p d using H that unfolding host_runtime_def by metis
  have trans: "allocated_ok s n b a s'" if "in_use t = in_use s" "allocated_ok t n b a s'" for t b a s'
    using that by (simp add: allocated_ok_def)
  let ?m = "PowerOf2Ceil (h_llvm H) n"
  let ?new = "\<lambda>a. bnd (gets next_hbid) (\<lambda>b.
      seq (upd (\<lambda>s. s\<lparr>
         hheap := (hheap s)(b \<mapsto> HostBlock\<lparr>hb_size := ?m, hb_ptr := a, hb_allocated := True\<rparr>),
         next_hbid := Suc b, host_blocks := b # host_blocks s,
         ptr_to_block := (if ptr_to_block s a = None then (ptr_to_block s)(a \<mapsto> b) else ptr_to_block s)\<rparr>))
        (ret (a, b)))"
  have fresh: "wp (bnd (in_hctx (host_malloc H ?m)) ?new) Q X t"
    if t: "host_inv live t" "in_use t = in_use s" for t
    unfolding wp_bnd [of _ ?new] wp_in_hctx_wp
  proof (rule wp_host_malloc [OF H])
    fix a and c :: "'d ctx" assume "a \<noteq> 0" "a \<notin> live (drv (hctx t))" "live (drv c) = insert a (live (drv (hctx t)))"
    then show "wp (?new a) Q X (t\<lparr>hctx := c\<rparr>)"
      by (intro wp_fresh [OF t(1) _ _ _ PowerOf2Ceil_ge [OF M n]] Q) (auto intro: trans [OF t(2)])
  next
    fix e and c :: "'d ctx" assume "live (drv (hctx t)) \<subseteq> live (drv c)"
    then have "hinv live (host_events t) [] (t\<lparr>hctx := c\<rparr>)"
      using t(1) unfolding host_inv_def by (intro hinv_grow)
    then show "X e (t\<lparr>hctx := c\<rparr>)" using t(2) by (intro X) (simp_all add: host_inv_def)
  qed
  have "wp (host_process_events H) (\<lambda>_. wp (seq check_free_list
        (bnd (gets (\<lambda>s. lower_bound BlockComparator (hkey_of s) (n, 0) (free_list s))) (\<lambda>it.
         case it of
           b # _ \<Rightarrow>
             seq (hmodify b (\<lambda>x. x\<lparr>hb_allocated := True\<rparr>))
             (seq (upd (\<lambda>s. s\<lparr>free_list := remove1 b (free_list s)\<rparr>))
              (bnd (hderef b) (\<lambda>x. ret (hb_ptr x, b))))
         | [] \<Rightarrow> bnd (in_hctx (host_malloc H ?m)) ?new))) Q X) X s"
  proof (rule wp_host_process [OF T I])
    fix t assume t: "host_inv live t" "in_use t = in_use s"
    have chk: "list_all (\<lambda>b. hheap t b \<noteq> None) (free_list t)"
      using t(1) unfolding host_inv_def by (rule check_free_list_ok)
    let ?it = "lower_bound BlockComparator (hkey_of t) (n, 0) (free_list t)"
    have "wp (case ?it of
           b # _ \<Rightarrow>
             seq (hmodify b (\<lambda>x. x\<lparr>hb_allocated := True\<rparr>))
             (seq (upd (\<lambda>s. s\<lparr>free_list := remove1 b (free_list s)\<rparr>))
              (bnd (hderef b) (\<lambda>x. ret (hb_ptr x, b))))
         | [] \<Rightarrow> bnd (in_hctx (host_malloc H ?m)) ?new) Q X t"
    proof (cases ?it)
      case Nil
      with fresh [OF t] show ?thesis by simp
    next
      case (Cons b bs)
      have "wp (seq (hmodify b (\<lambda>x. x\<lparr>hb_allocated := True\<rparr>))
             (seq (upd (\<lambda>s. s\<lparr>free_list := remove1 b (free_list s)\<rparr>))
              (bnd (hderef b) (\<lambda>x. ret (hb_ptr x, b))))) Q X t"
        by (rule wp_reuse [OF t(1) Cons nz]) (auto intro: Q trans [OF t(2)])
      with Cons show ?thesis by simp
    qed
    then show "wp (seq check_free_list
        (bnd (gets (\<lambda>s. lower_bound BlockComparator (hkey_of s) (n, 0) (free_list s))) (\<lambda>it.
         case it of
           b # _ \<Rightarrow>
             seq (hmodify b (\<lambda>x. x\<lparr>hb_allocated := True\<rparr>))
             (seq (upd (\<lambda>s. s\<lparr>free_list := remove1 b (free_list s)\<rparr>))
              (bnd (hderef b) (\<lambda>x. ret (hb_ptr x, b))))
         | [] \<Rightarrow> bnd (in_hctx (host_malloc H ?m)) ?new))) Q X t"
      using chk by (simp add: check_free_list_def wp_seq wp_bnd [of check_free_list] wp_bnd [of "gets _"] wp_gets wp_require)
  qed (use X in blast)
  then show ?thesis using n(1) by (simp add: host_allocate_def wp_seq)
qed

section \<open>Giving blocks back\<close>

definition without :: "'d host \<Rightarrow> hbid \<Rightarrow> (hbid \<times> addr \<times> 64 word) set" where
  "without s b = {p \<in> in_use s. fst p \<noteq> b}"

text \<open>Queueing the events of a block, one after the other at the front.\<close>

lemma wp_queue_events:
  "wp (for_each (\<lambda>e. upd (\<lambda>s. s\<lparr>host_events := (e, b) # host_events s\<rparr>)) es) Q X s =
    Q () (s\<lparr>host_events := map (\<lambda>e. (e, b)) (rev es) @ host_events s\<rparr>)"
  by (induction es arbitrary: s) (simp_all add: wp_simps)

lemma pend_append: "pend (q @ r) b = pend q b + pend r b"
  by (simp add: pend_def)

lemma pend_events: "pend (map (\<lambda>e. (e, b)) es) a = (if a = b then length es else 0)"
  by (induction es) (simp_all add: pend_def)

lemma owned_queue: "owned (map (\<lambda>e. (e, b)) (rev es) @ q) [] s = owned q es s"
  by (simp add: owned_def comp_def rev_map [symmetric] ac_simps)

lemma wp_host_free:
  fixes live :: "'d \<Rightarrow> addr set"
  assumes T: "quiet_runtime (h_runtime H) live" and I: "host_inv live s"
    and b: "b \<in> fst ` in_use s" and len: "length (hb_streams (the (hheap s b))) < 2 ^ 64"
    and Q: "\<And>s'. host_inv live s' \<Longrightarrow> in_use s' = without s b \<Longrightarrow> due b s' \<Longrightarrow> Q () s'"
    and X: "\<And>e s'. host_inv live s' \<Longrightarrow> in_use s' = without s b \<Longrightarrow> X e s'"
  shows "wp (host_free H b) Q X s"
proof -
  let ?q = "host_events s"
  have H: "hinv live ?q [] s" using I by (simp add: host_inv_def)
  obtain x where bb: "b \<in> set (host_blocks s)" and x: "hheap s b = Some x" and a: "hb_allocated x"
    using b by (auto simp: in_use_def)
  note B = hinv_block [OF H bb x]
  have cnt: "hb_event_count x = 0" "pend ?q b = 0" using B(3,4) a by (cases "hb_event_count x"; simp)+
  have nfree: "b \<notin> set (free_list s)" using B(5) a by auto
  have b0: "b \<noteq> 0" using hinvD(3) [OF H bb] by simp
  let ?x = "x\<lparr>hb_allocated := False\<rparr>"
  let ?s = "s\<lparr>hheap := (hheap s)(b \<mapsto> ?x)\<rparr>"
  have H1: "hinv live ?q [] ?s"
    by (rule hinv_modify [OF H bb x]) (use B cnt nfree hinvD(8,9) [OF H] in \<open>simp_all add: hblock_ok_def\<close>)
  have use: "in_use ?s = without s b" using in_use_modify [OF x bb, of ?x] by (simp add: without_def)
  have X': "X e t" if "hinv live ?q [] t" "ev_frame live ?s t" for e t
    using that use by (intro X) (simp_all add: host_inv_def ev_frame_def in_use_def)
  show ?thesis
  proof (cases "hb_streams x = []")
    case True
    have "wp (free_list_insert b) Q X ?s"
    proof (rule wp_free_list_insert [OF H1, where x = ?x])
      fix fl assume "set fl = insert b (set (free_list ?s))" "hinv live ?q [] (?s\<lparr>free_list := fl\<rparr>)"
      then show "Q () (?s\<lparr>free_list := fl\<rparr>)"
        using use cnt by (intro Q) (simp_all add: host_inv_def due_def)
    qed (use bb cnt True in simp_all)
    then show ?thesis
      using b0 x True cnt by (simp add: host_free_def wp_simps wp_hmodify wp_hderef)
  next
    case False
    have "wp (record_events H (hb_streams x) []) (\<lambda>es. wp (seq (hmodify b (\<lambda>x. x\<lparr>hb_event_count :=
          (hb_event_count x + length es) mod 2 ^ 64, hb_streams := []\<rparr>))
        (for_each (\<lambda>e. upd (\<lambda>s. s\<lparr>host_events := (e, b) # host_events s\<rparr>)) es)) Q X) X ?s"
    proof (rule wp_record_events [OF T H1])
      fix es t assume t: "hinv live ?q es t" "ev_frame live ?s t" "length es = length [] + length (hb_streams x)"
      let ?y = "x\<lparr>hb_allocated := False, hb_event_count := length es, hb_streams := []\<rparr>"
      let ?q2 = "map (\<lambda>e. (e, b)) (rev es) @ ?q"
      let ?t = "t\<lparr>hheap := (hheap t)(b \<mapsto> ?y)\<rparr>"
      have tx: "hheap t b = Some ?x" and tb: "b \<in> set (host_blocks t)" and te: "host_events t = ?q"
        and tf: "free_list t = free_list s" "ptr_to_block t = ptr_to_block s" and th: "hheap t = (hheap s)(b \<mapsto> ?x)"
        and ths: "host_blocks t = host_blocks s"
        using t(2) bb by (simp_all add: ev_frame_def)
      have "hinv live ?q2 [] ?t"
      proof (rule hinv_modify [OF t(1) tb tx])
        show "hblock_ok ?q2 t b ?y"
          using B(2) cnt nfree False t(3) tf
          by (simp add: hblock_ok_def pend_append pend_events)
        show "hevents_ok ?q2 [] t"
          using hinvD(9) [OF t(1)] unfolding hevents_ok_def owned_queue by auto
        show "snd ` set ?q2 \<subseteq> set (host_blocks t)" using hinvD(8) [OF t(1)] tb by auto
      qed (simp_all add: pend_append pend_events)
      then have inv: "host_inv live (?t\<lparr>host_events := ?q2\<rparr>)" by (simp add: host_inv_def)
      have "in_use ?t = without s b"
        using in_use_modify [OF tx tb, of ?y] use t(2)
        by (auto simp: without_def in_use_def ev_frame_def)
      moreover have "due b (?t\<lparr>host_events := ?q2\<rparr>)"
        using cnt False t(3) by (simp add: due_def pend_append pend_events)
      ultimately have "Q () (?t\<lparr>host_events := ?q2\<rparr>)" using inv by (intro Q) simp_all
      moreover have "(hb_event_count ?x + length es) mod 2 ^ 64 = length es"
        using cnt t(3) len x by simp
      ultimately show "wp (seq (hmodify b (\<lambda>x. x\<lparr>hb_event_count :=
          (hb_event_count x + length es) mod 2 ^ 64, hb_streams := []\<rparr>))
        (for_each (\<lambda>e. upd (\<lambda>s. s\<lparr>host_events := (e, b) # host_events s\<rparr>)) es)) Q X t"
        using tx te by (simp add: wp_seq wp_hmodify wp_queue_events)
    qed (rule X')
    then show ?thesis
      using b0 x False by (simp add: host_free_def wp_simps wp_hmodify wp_hderef)
  qed
qed

text \<open>Recording a use of a block that is handed out.\<close>

lemma wp_use_block:
  assumes I: "host_inv live s" and bb: "b \<in> set (host_blocks s)"
    and Q: "\<And>s'. host_inv live s' \<Longrightarrow> in_use s' = in_use s \<Longrightarrow> Q True s'"
    and X: "X InternalAssert s"
  shows "wp (use_block b g) Q X s"
proof -
  let ?q = "host_events s"
  have H: "hinv live ?q [] s" using I by (simp add: host_inv_def)
  obtain x where x: "hheap s b = Some x" using hinvD(4) [OF H bb] by blast
  note B = hinv_block [OF H bb x]
  let ?x = "x\<lparr>hb_streams := List.insert g (hb_streams x)\<rparr>"
  let ?s = "s\<lparr>hheap := (hheap s)(b \<mapsto> ?x)\<rparr>"
  show ?thesis
  proof (cases "hb_allocated x")
    case True
    have "hinv live ?q [] ?s"
      by (rule hinv_modify [OF H bb x]) (use B True hinvD(8,9) [OF H] in \<open>auto simp: hblock_ok_def\<close>)
    then have "host_inv live ?s" by (simp add: host_inv_def)
    moreover have "in_use ?s = in_use s"
      using in_use_modify [OF x bb, of ?x] True x bb by (auto simp: in_use_def)
    ultimately have "Q True ?s" by (rule Q)
    then show ?thesis using x True by (simp add: use_block_def wp_simps wp_hmodify wp_hderef)
  next
    case False
    then show ?thesis using x X by (simp add: use_block_def wp_simps wp_hderef)
  qed
qed

lemma wp_record_event:
  assumes I: "host_inv live s"
    and Q: "\<And>r s'. host_inv live s' \<Longrightarrow> in_use s' = in_use s \<Longrightarrow> Q r s'"
    and X: "X InternalAssert s"
  shows "wp (record_event p c g) Q X s"
proof -
  have H: "hinv live (host_events s) [] s" using I by (simp add: host_inv_def)
  have use: "wp (use_block b g) Q X s" if "b \<in> set (host_blocks s)" for b
    by (rule wp_use_block [OF I that]) (use Q X in simp_all)
  then show ?thesis
    using hinvD(5) [OF H, of p] Q [OF I]
    by (auto simp: record_event_def wp_simps split: option.splits)
qed

section \<open>Emptying the cache\<close>

definition terminate_or :: "('d host \<Rightarrow> bool) \<Rightarrow> exc \<Rightarrow> 'd host \<Rightarrow> bool" where
  "terminate_or P e s \<longleftrightarrow> e = Terminate \<or> P s"

lemma owned_update:
  assumes "i < length P"
  shows "owned q hand (s\<lparr>event_pool := P[i := ys]\<rparr>) + mset (P ! i) = owned q hand (s\<lparr>event_pool := P\<rparr>) + mset ys"
  using mset_concat_update [OF assms, of ys] by (simp add: owned_def)

lemma owned_cons:
  assumes "i < length P"
  shows "owned q hand (s\<lparr>event_pool := P[i := e # es]\<rparr>) = add_mset e (owned q hand (s\<lparr>event_pool := P[i := es]\<rparr>))"
proof -
  have "owned q hand (s\<lparr>event_pool := P[i := e # es]\<rparr>) + mset (P ! i) =
      add_mset e (owned q hand (s\<lparr>event_pool := P[i := es]\<rparr>)) + mset (P ! i)"
    by (simp add: owned_update [OF assms])
  then show ?thesis by (simp only: add_right_cancel)
qed

lemma owned_perm:
  assumes "i < length P" "mset ys = mset zs"
  shows "owned q hand (s\<lparr>event_pool := P[i := ys]\<rparr>) = owned q hand (s\<lparr>event_pool := P[i := zs]\<rparr>)"
proof -
  have "owned q hand (s\<lparr>event_pool := P[i := ys]\<rparr>) + mset (P ! i) =
      owned q hand (s\<lparr>event_pool := P[i := zs]\<rparr>) + mset (P ! i)"
    by (simp add: owned_update [OF assms(1)] assms(2))
  then show ?thesis by (simp only: add_right_cancel)
qed

text \<open>Destroying the events of one stack; \<open>P\<close> is the pool as it is stored meanwhile.\<close>

lemma wp_destroy_event:
  fixes H :: "'d host_env"
  assumes T: "quiet_runtime (h_runtime H) live" and i: "i < length P" and P: "event_pool s = P"
    and I: "hinv live q [] (s\<lparr>event_pool := P[i := e # es]\<rparr>)"
    and Q: "\<And>s'. hinv live q [] (s'\<lparr>event_pool := P[i := es]\<rparr>) \<Longrightarrow> event_pool s' = P \<Longrightarrow> ev_frame live s s' \<Longrightarrow> Q () s'"
  shows "wp (destroy_event H e) Q (terminate_or R) s"
proof -
  let ?s = "s\<lparr>event_pool := P[i := e # es]\<rparr>"
  note ev = hinvD(9) [OF I]
  have o: "owned q [] ?s = add_mset e (owned q [] (s\<lparr>event_pool := P[i := es]\<rparr>))"
    by (rule owned_cons [OF i])
  have own: "e \<in># owned q [] ?s" unfolding o by simp
  obtain x where x: "eheap s e = Some x" using hevents_okD(3) [OF ev own] by auto
  have once: "count (owned q [] ?s) e \<le> 1" using hevents_okD(1) [OF ev] .
  then have once: "e \<notin># owned q [] (s\<lparr>event_pool := P[i := es]\<rparr>)"
    unfolding o by (simp add: not_in_iff)
  have next_s: "Q () (s\<lparr>hctx := c, eheap := (eheap s)(e := None)\<rparr>)" if c: "live (drv c) = live (drv (hctx s))" for c
  proof (rule Q)
    let ?t = "s\<lparr>hctx := c, eheap := (eheap s)(e := None)\<rparr>"
    show "event_pool ?t = P" using P by simp
    show "ev_frame live s ?t" using c by (simp add: ev_frame_def)
    have f: "ev_frame live ?s (?t\<lparr>event_pool := P[i := es]\<rparr>)" using c by (simp add: ev_frame_def)
    have ot: "owned q [] (?t\<lparr>event_pool := P[i := es]\<rparr>) = owned q [] (s\<lparr>event_pool := P[i := es]\<rparr>)"
      by (simp add: owned_def)
    have sub: "e' \<in># owned q [] ?s" if "e' \<in># owned q [] (s\<lparr>event_pool := P[i := es]\<rparr>)" for e'
      using that unfolding o by simp
    have "hevents_ok q [] (?t\<lparr>event_pool := P[i := es]\<rparr>)"
      unfolding hevents_ok_def ot
    proof (intro conjI allI ballI)
      fix e'
      show "count (owned q [] (s\<lparr>event_pool := P[i := es]\<rparr>)) e' \<le> 1"
        using hevents_okD(1) [OF ev, of e'] unfolding o by (simp split: if_splits)
    next
      fix e' assume e': "e' \<in># owned q [] (s\<lparr>event_pool := P[i := es]\<rparr>)"
      have "e' \<noteq> e" using e' once by blast
      then show "eheap (?t\<lparr>event_pool := P[i := es]\<rparr>) e' \<noteq> None" "e' < next_event (?t\<lparr>event_pool := P[i := es]\<rparr>)"
        using hevents_okD(2,3) [OF ev sub [OF e']] by simp_all
    next
      fix p assume "p \<in> fst ` set q \<union> set []"
      then show "0 \<le> fst p" "nat (fst p) < length (event_pool (?t\<lparr>event_pool := P[i := es]\<rparr>))"
        using hevents_okD(4) [OF ev, of p] by simp_all
    qed
    then show "hinv live q [] (?t\<lparr>event_pool := P[i := es]\<rparr>)" by (rule hinv_frame [OF I f]) simp_all
  qed
  have "wp (destroy_GCUEvent (h_runtime H) x) (\<lambda>_ c. Q () (s\<lparr>hctx := c, eheap := (eheap s)(e := None)\<rparr>))
      (\<lambda>e c. terminate_or R e (s\<lparr>hctx := c\<rparr>)) (hctx s)"
    unfolding destroy_GCUEvent_def wp_try_catch
  proof (rule wp_keeps [where live = live])
    have q: "quiet_others (h_runtime H) live" using T by (simp add: quiet_runtime_def)
    show "keeps_pred (\<lambda>c. K (live (drv c)))
      (whenM (is_created x) (with_guard (h_runtime H) (ev_device x)
        (bnd (call (topsEventDestroy (h_runtime H) (ev_handle x))) gcu_check)))" for K
      by (intro keeps_intros device_keeps T keeps_call [OF quiet_othersD(14) [OF q]])
  qed (use next_s in \<open>auto simp: wp_simps terminate_or_def\<close>)
  then show ?thesis using x by (simp add: destroy_event_def wp_simps wp_ederef wp_in_hctx_wp)
qed

lemma wp_destroy_stack:
  fixes H :: "'d host_env"
  assumes T: "quiet_runtime (h_runtime H) live" and i: "i < length P" and P: "event_pool s = P"
    and I: "hinv live q [] (s\<lparr>event_pool := P[i := rev es]\<rparr>)"
    and Q: "\<And>s'. hinv live q [] (s'\<lparr>event_pool := P[i := []]\<rparr>) \<Longrightarrow> event_pool s' = P \<Longrightarrow> ev_frame live s s' \<Longrightarrow> Q () s'"
  shows "wp (for_each (destroy_event H) es) Q (terminate_or R) s"
  using P I Q
proof (induction es arbitrary: s)
  case (Cons e es)
  have o: "owned q [] (s\<lparr>event_pool := P[i := e # rev es]\<rparr>) = owned q [] (s\<lparr>event_pool := P[i := rev (e # es)]\<rparr>)"
    by (rule owned_perm [OF i]) simp
  have I': "hinv live q [] (s\<lparr>event_pool := P[i := e # rev es]\<rparr>)"
    by (rule hinv_frame [OF Cons.prems(2)])
      (use hinvD(9) [OF Cons.prems(2)] in \<open>simp_all add: ev_frame_def hevents_ok_def o\<close>)
  have "wp (destroy_event H e) (\<lambda>_. wp (for_each (destroy_event H) es) Q (terminate_or R)) (terminate_or R) s"
  proof (rule wp_destroy_event [OF T i Cons.prems(1) I'])
    fix t assume t: "hinv live q [] (t\<lparr>event_pool := P[i := rev es]\<rparr>)" "event_pool t = P" "ev_frame live s t"
    then show "wp (for_each (destroy_event H) es) Q (terminate_or R) t"
      using Cons.prems(3) by (intro Cons.IH) (blast intro: ev_frame_trans)+
  qed
  then show ?case by (simp add: wp_simps)
qed (simp add: wp_simps)

lemma wp_pool_empty_cache:
  fixes H :: "'d host_env"
  assumes T: "quiet_runtime (h_runtime H) live" and I: "hinv live q [] s"
    and Q: "\<And>s'. hinv live q [] s' \<Longrightarrow> ev_frame live s s' \<Longrightarrow> Q () s'"
  shows "wp (pool_empty_cache H) Q (terminate_or R) s"
proof -
  let ?f = "\<lambda>i. bnd (gets (\<lambda>s. event_pool s ! i)) (\<lambda>es.
         seq (for_each (destroy_event H) (rev es)) (upd (\<lambda>s. s\<lparr>event_pool := (event_pool s)[i := []]\<rparr>)))"
  have "wp (for_each ?f [0..<length (event_pool s)])
      (\<lambda>_ t. (\<forall>i\<in>set []. i < length (event_pool s)) \<and> hinv live q [] t \<and> ev_frame live s t) (terminate_or R) s"
  proof (rule wp_for_each [where I = "\<lambda>is t. (\<forall>i\<in>set is. i < length (event_pool s)) \<and> hinv live q [] t \<and> ev_frame live s t"])
    fix i "is" t assume "(\<forall>i\<in>set (i # is). i < length (event_pool s)) \<and> hinv live q [] t \<and> ev_frame live s t"
    then have t: "\<forall>i\<in>set is. i < length (event_pool s)" "i < length (event_pool t)" "hinv live q [] t" "ev_frame live s t"
      by (auto simp: ev_frame_def)
    let ?P = "event_pool t"
    have "t\<lparr>event_pool := ?P[i := rev (rev (?P ! i))]\<rparr> = t" by simp
    then have I': "hinv live q [] (t\<lparr>event_pool := ?P[i := rev (rev (?P ! i))]\<rparr>)" using t(3) by metis
    have "wp (for_each (destroy_event H) (rev (?P ! i)))
        (\<lambda>_ u. hinv live q [] (u\<lparr>event_pool := (event_pool u)[i := []]\<rparr>) \<and> ev_frame live s u) (terminate_or R) t"
      by (rule wp_destroy_stack [OF T t(2) refl I']) (use ev_frame_trans [OF t(4)] in simp)
    then show "wp (?f i) (\<lambda>_ t. (\<forall>i\<in>set is. i < length (event_pool s)) \<and> hinv live q [] t \<and> ev_frame live s t)
        (terminate_or R) t"
      unfolding wp_bnd wp_gets wp_seq wp_upd
      by (rule wp_mono) (use t(1) in \<open>auto simp: ev_frame_def\<close>)
  qed (use I in simp)
  then show ?thesis
    unfolding pool_empty_cache_def wp_bnd wp_gets by (rule wp_mono) (use Q in auto)
qed

text \<open>
  Releasing the free blocks. The blocks still to come, \<open>bs\<close>, are idle and no longer in the free
  list.
\<close>

definition idle_block :: "'d host \<Rightarrow> hbid \<Rightarrow> bool" where
  "idle_block s b \<longleftrightarrow> b \<in> set (host_blocks s) \<and>
     (\<exists>x. hheap s b = Some x \<and> \<not> hb_allocated x \<and> hb_event_count x = 0)"

definition releasing :: "('d \<Rightarrow> addr set) \<Rightarrow> (hbid \<times> addr \<times> 64 word) set \<Rightarrow> hbid list \<Rightarrow> 'd host \<Rightarrow> bool" where
  "releasing live U bs s \<longleftrightarrow> host_inv live s \<and> in_use s = U \<and> free_list s = [] \<and> distinct bs \<and> (\<forall>b\<in>set bs. idle_block s b)"

lemma hinv_drop_block:
  assumes H: "hinv live q [] s" and fl: "free_list s = []" and bb: "b \<in> set (host_blocks s)"
    and x: "hheap s b = Some x" and p: "pend q b = 0"
    and c: "live (drv (hctx s)) - {hb_ptr x} \<subseteq> live (drv c)"
    and h: "\<And>a. a \<noteq> b \<Longrightarrow> h a = hheap s a"
  shows "hinv live q [] (s\<lparr>host_blocks := removeAll b (host_blocks s),
    ptr_to_block := (ptr_to_block s)(hb_ptr x := None), hctx := c, hheap := h\<rparr>)"
proof -
  let ?s = "s\<lparr>host_blocks := removeAll b (host_blocks s),
    ptr_to_block := (ptr_to_block s)(hb_ptr x := None), hctx := c, hheap := h\<rparr>"
  have other: "hb_ptr y \<noteq> hb_ptr x" if "a \<in> set (host_blocks s)" "hheap s a = Some y" "a \<noteq> b" for a y
    using hinv_block(2) [OF H that(1,2)] hinv_block(2) [OF H bb x] that(3) by auto
  have notin: "b \<notin> snd ` set q" using p by (auto simp: pend_def filter_empty_conv)
  show ?thesis
    unfolding hinv_def
  proof (intro conjI ballI allI impI)
    fix a assume "a \<in> set (host_blocks ?s)"
    then have a: "a \<in> set (host_blocks s)" "a \<noteq> b" by auto
    obtain y where y: "hheap s a = Some y" using hinvD(4) [OF H a(1)] by blast
    note B = hinv_block [OF H a(1) y]
    have "hb_ptr y \<in> live (drv c)" using B(1) other [OF a(1) y a(2)] c by auto
    then show "\<exists>x. hheap ?s a = Some x \<and> hb_ptr x \<in> live (drv (hctx ?s)) \<and> hblock_ok q ?s a x"
      using y h [OF a(2)] B other [OF a(1) y a(2)] fl by (simp add: hblock_ok_def)
    show "0 < a" "a < next_hbid ?s" using hinvD(3) [OF H a(1)] by simp_all
  next
    fix p' a assume "ptr_to_block ?s p' = Some a"
    then have "ptr_to_block s p' = Some a" "p' \<noteq> hb_ptr x" by (auto split: if_splits)
    then show "a \<in> set (host_blocks ?s)" "\<exists>x. hheap ?s a = Some x \<and> hb_ptr x = p'"
      using hinvD(5) [OF H] x h by (auto split: if_splits) (metis option.inject)+
  qed (use hinvD [OF H] fl notin in \<open>auto simp: hevents_ok_def owned_def distinct_removeAll\<close>)
qed

lemma wp_release_free:
  fixes H :: "'d host_env"
  assumes R: "host_runtime H live" and s: "releasing live U bs s"
  shows "wp (for_each (\<lambda>b.
           bnd (hderef b) (\<lambda>x.
           seq (upd (\<lambda>s. s\<lparr>host_blocks := removeAll b (host_blocks s),
                          ptr_to_block := (ptr_to_block s)(hb_ptr x := None)\<rparr>))
           (seq (in_hctx (bnd (call (topsHostFree (h_api H) (hb_ptr x))) gcu_check))
             (upd (\<lambda>s. s\<lparr>hheap := (hheap s)(b := None)\<rparr>))))) bs)
     (\<lambda>_. releasing live U []) (\<lambda>e. releasing live U []) s"
proof (rule wp_for_each [where I = "releasing live U", OF s])
  fix b bs and s :: "'d host" assume s: "releasing live U (b # bs) s"
  then have H: "hinv live (host_events s) [] s" and fl: "free_list s = []" and bb: "b \<in> set (host_blocks s)"
    by (simp_all add: releasing_def host_inv_def idle_block_def)
  obtain x where x: "hheap s b = Some x" "\<not> hb_allocated x" "hb_event_count x = 0"
    using s by (auto simp: releasing_def idle_block_def)
  have p: "pend (host_events s) b = 0" using hinv_block(3) [OF H bb x(1)] x(3) by simp
  obtain err d where r: "topsHostFree (h_api H) (hb_ptr x) (drv (hctx s)) = (err, d)" by fastforce
  have d: "live (drv (hctx s)) - {hb_ptr x} \<subseteq> live d"
    using R r unfolding host_runtime_def by (metis (mono_tags, lifting) Diff_subset case_prod_conv order_refl)
  let ?u = "\<lambda>h. s\<lparr>host_blocks := removeAll b (host_blocks s),
    ptr_to_block := (ptr_to_block s)(hb_ptr x := None), hctx := (hctx s)\<lparr>drv := d\<rparr>, hheap := h\<rparr>"
  have J: "releasing live U bs (?u h)" if h: "\<And>a. a \<noteq> b \<Longrightarrow> h a = hheap s a" for h
  proof -
    have "hinv live (host_events s) [] (?u h)" by (rule hinv_drop_block [OF H fl bb x(1) p]) (use d h in simp_all)
    moreover have "in_use (?u h) = in_use s" using h x by (auto simp: in_use_def) (metis option.inject)+
    moreover have "idle_block (?u h) a" if "a \<in> set bs" for a
    proof -
      have "a \<noteq> b" "idle_block s a" using s that by (auto simp: releasing_def)
      then show ?thesis using h [of a] by (simp add: idle_block_def)
    qed
    ultimately show ?thesis using s by (auto simp: releasing_def host_inv_def)
  qed
  have e: "releasing live U [] t" if "releasing live U bs t" for t
    using that by (simp add: releasing_def)
  have eq: "?u (hheap s) = s\<lparr>host_blocks := removeAll b (host_blocks s),
    ptr_to_block := (ptr_to_block s)(hb_ptr x := None), hctx := (hctx s)\<lparr>drv := d\<rparr>\<rparr>" by simp
  show "wp (bnd (hderef b) (\<lambda>x.
           seq (upd (\<lambda>s. s\<lparr>host_blocks := removeAll b (host_blocks s),
                          ptr_to_block := (ptr_to_block s)(hb_ptr x := None)\<rparr>))
           (seq (in_hctx (bnd (call (topsHostFree (h_api H) (hb_ptr x))) gcu_check))
             (upd (\<lambda>s. s\<lparr>hheap := (hheap s)(b := None)\<rparr>))))) (\<lambda>_. releasing live U bs) (\<lambda>e. releasing live U []) s"
    using x(1) r J [of "(hheap s)(b := None)"] e [OF J [of "hheap s"]] eq
    by (simp add: wp_simps wp_hderef wp_in_hctx_wp wp_call)
qed

lemma hinv_no_free:
  assumes "hinv live q hand s" shows "hinv live q hand (s\<lparr>free_list := []\<rparr>)"
  unfolding hinv_def
proof (intro conjI ballI allI impI)
  fix b assume "b \<in> set (host_blocks (s\<lparr>free_list := []\<rparr>))"
  then have b: "b \<in> set (host_blocks s)" by simp
  then show "0 < b" "b < next_hbid (s\<lparr>free_list := []\<rparr>)" using hinvD(3) [OF assms] by simp_all
  show "\<exists>x. hheap (s\<lparr>free_list := []\<rparr>) b = Some x \<and> hb_ptr x \<in> live (drv (hctx (s\<lparr>free_list := []\<rparr>))) \<and>
      hblock_ok q (s\<lparr>free_list := []\<rparr>) b x"
    using hinvD(4) [OF assms b] by (auto simp: hblock_ok_def)
qed (use hinvD [OF assms] in \<open>auto simp: hevents_ok_def owned_def\<close>)

lemma wp_host_empty_cache:
  fixes H :: "'d host_env"
  assumes R: "host_runtime H live" and I: "host_inv live s"
    and Q: "\<And>s'. host_inv live s' \<Longrightarrow> in_use s' = in_use s \<Longrightarrow> free_list s' = [] \<Longrightarrow> Q () s'"
    and X: "\<And>e s'. e = Terminate \<or> host_inv live s' \<and> in_use s' = in_use s \<Longrightarrow> X e s'"
  shows "wp (host_empty_cache H) Q X s"
proof -
  have T: "quiet_runtime (h_runtime H) live" using R by (simp add: host_runtime_def)
  let ?R = "\<lambda>t. host_inv live t \<and> in_use t = in_use s"
  let ?loop = "for_each (\<lambda>b.
           bnd (hderef b) (\<lambda>x.
           seq (upd (\<lambda>s. s\<lparr>host_blocks := removeAll b (host_blocks s),
                          ptr_to_block := (ptr_to_block s)(hb_ptr x := None)\<rparr>))
           (seq (in_hctx (bnd (call (topsHostFree (h_api H) (hb_ptr x))) gcu_check))
             (upd (\<lambda>s. s\<lparr>hheap := (hheap s)(b := None)\<rparr>)))))"
  have loop: "wp (?loop (free_list t)) (\<lambda>_. releasing live (in_use s) []) (\<lambda>e. releasing live (in_use s) [])
      (t\<lparr>free_list := []\<rparr>)" if t: "hinv live (host_events t) [] t" "in_use t = in_use s" for t :: "'d host"
  proof (rule wp_release_free [OF R])
    have "hinv live (host_events t) [] (t\<lparr>free_list := []\<rparr>)"
      by (rule hinv_no_free [OF t(1)])
    moreover have "idle_block (t\<lparr>free_list := []\<rparr>) b" if b: "b \<in> set (free_list t)" for b
    proof -
      have bb: "b \<in> set (host_blocks t)" using b hinvD(6) [OF t(1)] by auto
      obtain x where x: "hheap t b = Some x" using hinvD(4) [OF t(1) bb] by blast
      show ?thesis using hinv_block(5) [OF t(1) bb x b] bb x by (simp add: idle_block_def)
    qed
    ultimately show "releasing live (in_use s) (free_list t) (t\<lparr>free_list := []\<rparr>)"
      using t(2) free_list_distinct [OF t(1)] by (simp add: releasing_def host_inv_def)
  qed
  have "wp (pool_empty_cache H)
      (\<lambda>_. wp (bnd (gets free_list) (\<lambda>bs. seq (upd (\<lambda>s. s\<lparr>free_list := []\<rparr>)) (?loop bs))) Q X) X t"
    if t: "host_inv live t" "in_use t = in_use s" for t
  proof (rule wp_mono)
    show "wp (pool_empty_cache H) (\<lambda>_ u. hinv live (host_events t) [] u \<and> ev_frame live t u) (terminate_or ?R) t"
      by (rule wp_pool_empty_cache [OF T]) (use t in \<open>simp_all add: host_inv_def\<close>)
  next
    fix e u assume "terminate_or ?R e u"
    then show "X e u" by (intro X) (simp add: terminate_or_def)
  next
    fix r u assume u: "hinv live (host_events t) [] u \<and> ev_frame live t u"
    then have "hinv live (host_events u) [] u" "in_use u = in_use s"
      using t(2) u ev_frame_in_use [of live t u] by (simp_all add: ev_frame_def)
    from loop [OF this]
    have "wp (?loop (free_list u)) Q X (u\<lparr>free_list := []\<rparr>)"
      by (rule wp_mono) (auto simp: releasing_def intro!: Q X)
    then show "wp (bnd (gets free_list) (\<lambda>bs. seq (upd (\<lambda>s. s\<lparr>free_list := []\<rparr>)) (?loop bs))) Q X u"
      by (simp only: wp_bnd wp_gets wp_seq wp_upd)
  qed
  then show ?thesis
    unfolding host_empty_cache_def wp_seq [of "host_process_events H"] wp_seq [of "pool_empty_cache H"]
    by (intro wp_host_process [OF T I]) (auto intro!: X)
qed

end
