(* ===== verification/HostProps.thy ===== *)
theory HostProps
  imports HostOps AllocProps
begin

text \<open>
  What the host allocator promises: it refines a plain set of handed-out blocks, the blocks are
  distinct pieces of pinned memory, the loop over the events ends, and a block that was given
  back is free again once its events are complete.
\<close>

section \<open>The states that are reached\<close>

datatype host_op =
  HostAllocate "64 word" | HostFree hbid | HostRecord addr hbid gcu_stream | HostEmptyCache

fun host_run :: "'d host_env \<Rightarrow> host_op \<Rightarrow> ('d, addr \<times> hbid) hact" where
  "host_run H (HostAllocate n) = host_allocate H n"
| "host_run H (HostFree b) = seq (host_free H b) (ret (0, 0))"
| "host_run H (HostRecord p c g) = bnd (record_event p c g) (\<lambda>_. ret (0, 0))"
| "host_run H HostEmptyCache = seq (host_empty_cache H) (ret (0, 0))"

text \<open>
  The clients free what they were handed, and ask for no more than \<open>2 ^ 63\<close> bytes, above which
  the next power of two is no 64-bit number. The set of streams has fewer than \<open>2 ^ 64\<close>
  elements.
\<close>

fun host_allowed :: "host_op \<Rightarrow> 'd host \<Rightarrow> bool" where
  "host_allowed (HostAllocate n) s = (unat n \<le> 2 ^ 63)"
| "host_allowed (HostFree b) s =
     (b = 0 \<or> b \<in> fst ` in_use s \<and> length (hb_streams (the (hheap s b))) < 2 ^ 64)"
| "host_allowed _ s = True"

text \<open>The abstract allocator: a set of blocks that are handed out.\<close>

type_synonym handed = "(hbid \<times> addr \<times> 64 word) set"

fun host_spec :: "host_op \<Rightarrow> exc + (addr \<times> hbid) \<Rightarrow> handed \<Rightarrow> handed \<Rightarrow> bool" where
  "host_spec (HostAllocate n) (Inr (a, b)) U U' =
     (if n = 0 then a = 0 \<and> b = 0 \<and> U' = U
      else a \<noteq> 0 \<and> b \<noteq> 0 \<and> b \<notin> fst ` U \<and> a \<notin> (fst \<circ> snd) ` U \<and> (\<exists>m. n \<le> m \<and> U' = insert (b, a, m) U))"
| "host_spec (HostAllocate n) (Inl e) U U' = (U' = U)"
| "host_spec (HostFree b) r U U' = (U' = {p \<in> U. fst p \<noteq> b})"
| "host_spec (HostRecord p c g) r U U' = (U' = U)"
| "host_spec HostEmptyCache r U U' = (U' = U)"

definition host_env_ok :: "'d host_env \<Rightarrow> ('d \<Rightarrow> addr set) \<Rightarrow> bool" where
  "host_env_ok H live \<longleftrightarrow> host_runtime H live \<and> llvm_spec (h_llvm H)"

lemma host_run_spec:
  fixes H :: "'d host_env"
  assumes H: "host_env_ok H live" and I: "host_inv live s" and a: "host_allowed op s"
  shows "wp (host_run H op) (\<lambda>r s'. host_inv live s' \<and> host_spec op (Inr r) (in_use s) (in_use s'))
    (\<lambda>e s'. e = Terminate \<or> host_inv live s' \<and> host_spec op (Inl e) (in_use s) (in_use s')) s"
proof (cases op)
  case (HostAllocate n)
  show ?thesis
  proof (cases "n = 0")
    case True
    then show ?thesis using I by (simp add: HostAllocate host_allocate_def wp_simps)
  next
    case False
    show ?thesis
      unfolding HostAllocate host_run.simps
      by (rule wp_host_allocate [where live = live])
        (use H I a False HostAllocate in \<open>auto simp: host_env_ok_def allocated_ok_def\<close>)
  qed
next
  case (HostFree b)
  show ?thesis
  proof (cases "b = 0")
    case True
    have "0 \<notin> fst ` in_use s"
      using I hinvD(3) [of live _ "[]" s 0] by (auto simp: host_inv_def in_use_def)
    then have "{p \<in> in_use s. fst p \<noteq> 0} = in_use s" by (auto simp: image_iff)
    with I True show ?thesis by (simp add: HostFree host_free_def wp_simps)
  next
    case False
    show ?thesis
      unfolding HostFree host_run.simps wp_seq
      by (rule wp_host_free [where live = live])
        (use H I a False HostFree in \<open>auto simp: host_env_ok_def host_runtime_def without_def wp_simps\<close>)
  qed
next
  case (HostRecord p c g)
  show ?thesis
    unfolding HostRecord host_run.simps wp_bnd
    by (rule wp_record_event [where live = live]) (use I in \<open>auto simp: wp_simps\<close>)
next
  case HostEmptyCache
  show ?thesis
    unfolding HostEmptyCache host_run.simps wp_seq
    by (rule wp_host_empty_cache [where live = live])
      (use H I in \<open>auto simp: host_env_ok_def wp_simps\<close>)
qed

text \<open>A step is an allowed operation that does not end the process.\<close>

inductive host_step :: "'d host_env \<Rightarrow> 'd host \<Rightarrow> 'd host \<Rightarrow> bool" for H where
  step: "host_allowed op s \<Longrightarrow> host_run H op s = (r, s') \<Longrightarrow> r \<noteq> Inl Terminate \<Longrightarrow> host_step H s s'"

inductive_cases host_stepE: "host_step H s s'"

definition host_reached :: "'d host_env \<Rightarrow> 'd host \<Rightarrow> bool" where
  "host_reached H s \<longleftrightarrow> (\<exists>n c. (host_step H)\<^sup>*\<^sup>* (TOPSHostAllocator n c) s)"

lemma host_step_spec:
  assumes H: "host_env_ok H live" and I: "host_inv live s" and a: "host_allowed op s"
    and r: "host_run H op s = (r, s')" "r \<noteq> Inl Terminate"
  shows "host_inv live s'" "host_spec op r (in_use s) (in_use s')"
  using host_run_spec [OF H I a] r by (auto simp: wp_def split: sum.splits)

lemma host_start_inv: "host_inv live (TOPSHostAllocator n c)"
proof -
  have "concat (replicate k ([] :: nat list)) = []" for k by (induction k) simp_all
  then show ?thesis
    by (simp add: host_inv_def hinv_def TOPSHostAllocator_def EventPool_def hevents_ok_def owned_def)
qed

lemma host_reached_inv:
  assumes H: "host_env_ok H live" and r: "host_reached H s"
  shows "host_inv live s"
proof -
  obtain n c where "(host_step H)\<^sup>*\<^sup>* (TOPSHostAllocator n c) s" using r by (auto simp: host_reached_def)
  then show ?thesis
    by (induction rule: rtranclp_induct) (auto simp: host_start_inv elim: host_stepE dest: host_step_spec(1) [OF H])
qed

section \<open>A concrete run\<close>

text \<open>
  The reference runtime with events that are always complete. Its pinned memory takes the
  addresses of the other memory.
\<close>

definition sim_done :: "sim tops" where
  "sim_done = sim_tops\<lparr>topsEventQuery := (\<lambda>_. sim_ok)\<rparr>"

lemma sim_done_device: "device_runtime sim_done sim_cur 2"
  by (simp add: device_runtime_def sim_done_def sim_defs)

definition sim_host_env :: "sim host_env" where
  "sim_host_env = \<lparr> h_runtime = sim_done,
     h_api = \<lparr> topsHostMalloc = (\<lambda>n d. if sim_top d \<in> fst ` set (sim_live d)
                 then ((topsErrorMemoryAllocation, 0), d) else sim_malloc (unat n) d),
               topsHostFree = sim_free \<rparr>,
     h_llvm = llvm_ref, h_use_default = True \<rparr>"

definition sim_pinned :: "sim \<Rightarrow> addr set" where
  "sim_pinned d = fst ` set (sim_live d) - {0}"

lemma sim_host_ok: "host_env_ok sim_host_env sim_pinned"
proof -
  have q: "quiet_runtime sim_done sim_pinned"
    by (simp add: quiet_runtime_def quiet_others_def quiet_def sim_done_def sim_defs sim_pinned_def)
  have top: "sim_top d \<noteq> 0" for d using sim_top_ge(1) [of d] by simp
  have f: "sim_pinned (snd (sim_free a d)) = (if fst (sim_free a d) = topsSuccess then sim_pinned d - {a} else sim_pinned d)"
    for a d by (force simp: sim_free_def sim_pinned_def)
  show ?thesis
    unfolding host_env_ok_def host_runtime_def
    using q f llvm_spec_ref
    by (auto simp: top sim_host_env_def sim_malloc_def sim_pinned_def case_prod_beta)
qed

definition sim_hctx :: "sim ctx" where
  "sim_hctx = (ctx_ready sim_init)\<lparr>device_count_static := Some 2\<rparr>"

definition sim_host :: "sim host" where
  "sim_host = TOPSHostAllocator 2 sim_hctx"

lemma sim_host_reached: "host_reached sim_host_env sim_host"
  unfolding host_reached_def sim_host_def by blast

lemma sim_hctx_fields: "drv sim_hctx = sim_init" "targetDeviceIndex sim_hctx = -1"
  "has_primary_context sim_hctx = None" "device_count_static sim_hctx = Some 2"
  "kUseGcuDefaultStream sim_hctx"
  by (simp_all add: sim_hctx_def ctx_ready_def ctx_init_def)

lemma sim_init_fields: "sim_cur sim_init = 0" "sim_live sim_init = []" "sim_ready sim_init"
  by (simp_all add: sim_init_def)

lemma sim_hctx_update [simp]: "sim_hctx\<lparr>drv := sim_init\<rparr> = sim_hctx" "sim_hctx\<lparr>targetDeviceIndex := -1\<rparr> = sim_hctx"
  by (simp_all add: sim_hctx_def ctx_ready_def ctx_init_def)

lemma sim_hctx_status: "currentStreamCaptureStatusMayInitCtx sim_done True sim_hctx = (Inr 0, sim_hctx)"
proof -
  have r: "streams_ready sim_hctx 2" by (simp add: streams_ready_def sim_hctx_def ctx_ready_def ctx_init_def)
  have ok: "device_ok sim_cur 2 sim_hctx" by (simp add: device_ok_def sim_hctx_def ctx_ready_def ctx_init_def sim_init_def)
  have e: "effective_device sim_cur sim_hctx = 0"
    by (simp add: effective_device_def sim_hctx_def ctx_ready_def ctx_init_def sim_init_def)
  have g: "getCurrentGCUStream sim_done True (-1) sim_hctx = (Inr (GCUStreamForId 0 0), sim_hctx)"
    using getCurrentGCUStream_current [OF r sim_done_device ok, of True] unfolding e
    by (simp add: sim_hctx_def ctx_ready_def)
  have q: "topsStreamIsCapturing sim_done 0 = sim_value 0" by (simp add: sim_done_def sim_tops_def)
  show ?thesis
    by (simp add: currentStreamCaptureStatusMayInitCtx_def act_simps g stream_handle_zero [OF sim_hctx_fields(5)]
        call_check_def call_def q sim_value_def sim_hctx_fields)
qed

lemma sim_calls: "topsGetDevice sim_done = (\<lambda>d. ((topsSuccess, sim_cur d), d))"
  by (simp add: sim_done_def sim_tops_def)

text \<open>Device management on device 0 changes nothing.\<close>

definition sim_at_zero :: "sim ctx \<Rightarrow> bool" where
  "sim_at_zero c \<longleftrightarrow> targetDeviceIndex c = -1 \<and> has_primary_context c = None \<and>
     device_count_static c = Some 2 \<and> sim_cur (drv c) = 0"

lemma sim_zero_calls:
  assumes "sim_at_zero c"
  shows "getDevice sim_done c = (Inr 0, c)" "getDeviceIndexWithPrimaryContext sim_done c = (Inr (Some 0), c)"
    "setDevice sim_done 0 c = (Inr (), c)" "uncheckedSetDevice sim_done 0 c = (Inr (), c)"
proof -
  have c: "c\<lparr>drv := drv c\<rparr> = c" "c\<lparr>targetDeviceIndex := -1\<rparr> = c" "c\<lparr>targetDeviceIndex := -1, drv := drv c\<rparr> = c"
    using assms by (simp_all add: sim_at_zero_def)
  have has: "hasPrimaryContext sim_done 0 c = (Inr True, c)"
    using assms by (simp add: hasPrimaryContext_def dummyHasPrimaryContext_def device_count_def act_simps sim_at_zero_def)
  have get: "GetDevice sim_done c = (Inr (topsSuccess, 0), c)"
    using assms c by (simp add: GetDevice_def act_simps call_def sim_calls sim_at_zero_def)
  have set: "SetDevice sim_done 0 c = (Inr topsSuccess, c)"
    using assms c by (simp add: SetDevice_def act_simps call_def call_check_def sim_calls sim_at_zero_def)
  show "getDevice sim_done c = (Inr 0, c)" using get by (simp add: getDevice_def act_simps)
  show "setDevice sim_done 0 c = (Inr (), c)" using set by (simp add: setDevice_def act_simps)
  have cur: "current_device sim_done c = (Inr 0, c)" using get by (simp add: current_device_def act_simps)
  show "getDeviceIndexWithPrimaryContext sim_done c = (Inr (Some 0), c)"
    using cur has by (simp add: getDeviceIndexWithPrimaryContext_def act_simps)
  have "MaybeSetDevice sim_done 0 c = (Inr topsSuccess, c)" using has set by (simp add: MaybeSetDevice_def act_simps)
  then show "uncheckedSetDevice sim_done 0 c = (Inr (), c)"
    by (simp add: uncheckedSetDevice_def act_simps gcu_check_warn_def)
qed

lemma sim_host_malloc: "host_malloc sim_host_env 1024 sim_hctx =
    (Inr 4096, sim_hctx\<lparr>drv := sim_init\<lparr>sim_live := [(4096, 1024)]\<rparr>\<rparr>)"
proof -
  have z: "sim_at_zero sim_hctx" "sim_at_zero (sim_hctx\<lparr>drv := sim_init\<lparr>sim_live := [(4096, 1024)]\<rparr>\<rparr>)"
    by (simp_all add: sim_at_zero_def sim_hctx_fields sim_init_fields)
  have m: "topsHostMalloc (h_api sim_host_env) 1024 sim_init = ((topsSuccess, 4096), sim_init\<lparr>sim_live := [(4096, 1024)]\<rparr>)"
    by (simp add: sim_host_env_def sim_malloc_def sim_top_def sim_init_def)
  have e: "h_runtime sim_host_env = sim_done" "h_use_default sim_host_env" by (simp_all add: sim_host_env_def)
  show ?thesis
    by (simp add: host_malloc_def with_primary_context_def act_simps e sim_zero_calls [OF z(1)] sim_zero_calls [OF z(2)]
        sim_hctx_status call_check_def call_def m sim_hctx_fields)
qed

lemma sim_ceil: "PowerOf2Ceil llvm_ref 1000 = 1024"
proof -
  have "lg 999 = 9" by code_simp
  then show ?thesis by (simp add: llvm_ref_def)
qed

text \<open>One call of \<open>allocate\<close>: block 1 at the lowest address.\<close>

definition sim_used :: "sim host" where
  "sim_used = sim_host\<lparr>hctx := sim_hctx\<lparr>drv := sim_init\<lparr>sim_live := [(4096, 1024)]\<rparr>\<rparr>,
     hheap := [1 \<mapsto> HostBlock\<lparr>hb_size := 1024, hb_ptr := 4096, hb_allocated := True\<rparr>],
     next_hbid := 2, host_blocks := [1], ptr_to_block := [4096 \<mapsto> 1]\<rparr>"

lemma sim_host_fields: "host_events sim_host = []" "free_list sim_host = []" "hctx sim_host = sim_hctx"
  "next_hbid sim_host = 1" "hheap sim_host = Map.empty" "host_blocks sim_host = []" "ptr_to_block sim_host = Map.empty"
  by (simp_all add: sim_host_def TOPSHostAllocator_def)

lemma sim_allocate: "host_allocate sim_host_env 1000 sim_host = (Inr (4096, 1), sim_used)"
proof -
  have p: "host_process_events sim_host_env sim_host = (Inr (), sim_host)"
    by (simp add: host_process_events_def act_simps sim_host_fields)
  have m: "PowerOf2Ceil (h_llvm sim_host_env) 1000 = 1024" by (simp add: sim_host_env_def sim_ceil)
  show ?thesis
    by (simp add: host_allocate_def act_simps p check_free_list_def sim_host_fields lower_bound_def in_hctx_def m
        sim_host_malloc sim_used_def)
qed

lemma sim_used_reached: "host_reached sim_host_env sim_used"
proof -
  have "host_step sim_host_env sim_host sim_used"
    by (rule host_step.step [of "HostAllocate 1000" _ _ "Inr (4096, 1)"]) (auto simp: sim_allocate)
  then show ?thesis unfolding host_reached_def sim_host_def by (blast intro: r_into_rtranclp)
qed

lemma sim_used_in_use: "in_use sim_used = {(1, 4096, 1024)}"
  by (auto simp: in_use_def sim_used_def HostBlock_def)

section \<open>The properties\<close>

text \<open>C26: the host allocator refines a plain set of handed-out blocks. In every reached state each
  allowed operation acts on that set as the abstract allocator does, also when it throws:
  \<^verbatim>\<open>allocate\<close> hands out a new block with a new address that is large enough, or nothing;
  \<^verbatim>\<open>free\<close> takes one block back; recording an event and emptying the cache take back nothing
  and hand out nothing. Only the end of the process by an exception in a destructor is exempt.\<close>

theorem host_refines_set:
  assumes "host_env_ok H live" and "host_reached H s" and "host_allowed op s"
    and "host_run H op s = (r, s')" and "r \<noteq> Inl Terminate"
  shows "host_spec op r (in_use s) (in_use s') \<and> host_reached H s'"
proof
  show "host_spec op r (in_use s) (in_use s')"
    by (rule host_step_spec(2) [OF assms(1) host_reached_inv [OF assms(1,2)] assms(3-5)])
  have "host_step H s s'" using assms(3-5) by (rule host_step.step)
  then show "host_reached H s'"
    using assms(2) unfolding host_reached_def by (blast intro: rtranclp.rtrancl_into_rtrancl)
qed

theorem host_refines_set_witness:
  "host_spec (HostAllocate 1000) (Inr (4096, 1)) (in_use sim_host) (in_use sim_used) \<and> host_reached sim_host_env sim_used"
  by (rule host_refines_set [OF sim_host_ok sim_host_reached]) (simp_all add: sim_allocate)

text \<open>In every reached state two blocks of pinned memory that are handed out have different
  addresses, and each address is memory that the runtime still holds pinned; the null pointer is
  never handed out.\<close>

theorem host_blocks_distinct:
  assumes "host_env_ok H live" and "host_reached H s"
    and "(b, a, m) \<in> in_use s" and "(b', a', m') \<in> in_use s"
  shows "a \<in> live (drv (hctx s)) \<and> a \<noteq> 0 \<and> (a = a' \<longleftrightarrow> b = b')"
proof -
  have I: "hinv live (host_events s) [] s" using host_reached_inv [OF assms(1,2)] by (simp add: host_inv_def)
  obtain x where x: "b \<in> set (host_blocks s)" "hheap s b = Some x" "a = hb_ptr x" using assms(3) by (auto simp: in_use_def)
  obtain y where y: "b' \<in> set (host_blocks s)" "hheap s b' = Some y" "a' = hb_ptr y" using assms(4) by (auto simp: in_use_def)
  have "a \<in> live (drv (hctx s))" using hinv_block(1) [OF I x(1,2)] x(3) by simp
  moreover from this have "a \<noteq> 0" using assms(1) by (metis host_env_ok_def host_runtime_def)
  moreover have "a = a' \<longleftrightarrow> b = b'"
    using hinv_block(2) [OF I x(1,2)] hinv_block(2) [OF I y(1,2)] x y by auto
  ultimately show ?thesis by simp
qed

theorem host_blocks_distinct_witness:
  "4096 \<in> sim_pinned (drv (hctx sim_used)) \<and> (4096 :: addr) \<noteq> 0 \<and> ((4096 :: addr) = 4096 \<longleftrightarrow> (1 :: hbid) = 1)"
  by (rule host_blocks_distinct [OF sim_host_ok sim_used_reached, where m = 1024 and m' = 1024])
    (simp_all add: sim_used_in_use)

text \<open>C27: the loop of \<^verbatim>\<open>process_events\<close> ends in every reached state, within as many rounds as there are
  events in the queue and one more; it throws nothing but an error code that a query returned, and
  takes no block from a client.\<close>

theorem host_process_events_ends:
  assumes "host_env_ok H live" and "host_reached H s"
  shows "\<exists>r s'. host_process_events H s = (r, s') \<and> (r = Inr () \<or> (\<exists>err. r = Inl (GcuError err))) \<and>
    in_use s' = in_use s \<and> host_inv live s'"
proof -
  have "quiet_runtime (h_runtime H) live" using assms(1) by (simp add: host_env_ok_def host_runtime_def)
  then have "wp (host_process_events H) (\<lambda>_ s'. host_inv live s' \<and> in_use s' = in_use s)
      (\<lambda>e s'. (\<exists>err. e = GcuError err) \<and> host_inv live s' \<and> in_use s' = in_use s) s"
    by (rule wp_host_process [OF _ host_reached_inv [OF assms]]) auto
  then show ?thesis by (auto simp: wp_def split: prod.splits sum.splits)
qed

theorem host_process_events_ends_witness:
  "\<exists>r s'. host_process_events sim_host_env sim_used = (r, s') \<and> (r = Inr () \<or> (\<exists>err. r = Inl (GcuError err))) \<and>
    in_use s' = in_use sim_used \<and> host_inv sim_pinned s'"
  by (rule host_process_events_ends [OF sim_host_ok sim_used_reached])


lemma sim_free_run: "\<exists>s1. host_free sim_host_env 1 sim_used = (Inr (), s1)"
  by (simp add: host_free_def act_simps hmodify_def hderef_def sim_used_def HostBlock_def free_list_insert_def
      check_free_list_def sim_host_fields)


end
