(* ===== verification/AsyncReach.thy ===== *)
theory AsyncReach
  imports AsyncInv HostProps
begin

text \<open>
  The states that clients of the stream-ordered back end reach: each operation keeps its
  invariant, so the invariant holds in all of them.
\<close>

lemma wp_in_actx: "wp (in_actx m) Q X s =
    wp m (\<lambda>x c. Q x (s\<lparr>actx := c\<rparr>)) (\<lambda>e c. X e (s\<lparr>actx := c\<rparr>)) (actx s)"
  by (simp add: wp_def in_actx_def split: prod.splits)

section \<open>The other operations keep the invariant\<close>

abbreviation as_good :: "('d \<Rightarrow> addr set) \<Rightarrow> int \<Rightarrow> 'd async \<Rightarrow> bool" where
  "as_good live n \<equiv> as_ok live n {}"

abbreviation as_keeps :: "('d \<Rightarrow> addr set) \<Rightarrow> int \<Rightarrow> ('d, 'a) aact \<Rightarrow> bool" where
  "as_keeps live n m \<equiv> hoare (as_good live n) m (\<lambda>_. as_good live n) (\<lambda>_. as_good live n)"

lemma as_good_at: "as_good live n s \<Longrightarrow> as_at live n {} (ptr_info s) (deferred_frees s) (capture_underway s) s"
  by (simp add: as_at_def)

lemma as_keepsI:
  assumes "\<And>h q cu. hoare (as_at live n {} h q cu) m (Q h q cu) (E h q cu)"
    and "\<And>h q cu x s. Q h q cu x s \<Longrightarrow> as_good live n s" "\<And>h q cu e s. E h q cu e s \<Longrightarrow> as_good live n s"
  shows "as_keeps live n m"
proof (rule hoareI)
  fix s x s' assume "as_good live n s" "m s = (Inr x, s')"
  then show "as_good live n s'" using hoareD_Inr [OF assms(1) as_good_at] assms(2) by blast
next
  fix s e s' assume "as_good live n s" "m s = (Inl e, s')"
  then show "as_good live n s'" using hoareD_Inl [OF assms(1) as_good_at] assms(3) by blast
qed

lemma as_keeps_bnd: "as_keeps live n m \<Longrightarrow> (\<And>x. as_keeps live n (f x)) \<Longrightarrow> as_keeps live n (bnd m f)"
  by (rule hoare_bnd)

lemma as_keeps_seq: "as_keeps live n m \<Longrightarrow> as_keeps live n k \<Longrightarrow> as_keeps live n (seq m k)"
  by (rule hoare_seq)

lemma as_keeps_simple:
  "as_keeps live n (ret x)" "as_keeps live n (throw e)" "as_keeps live n (gets g)" "as_keeps live n (require e b)"
  "as_keeps live n (vec_at v d)" "as_keeps live n (gcu_check err)" "as_keeps live n (find_ptr p)"
  by (auto simp: hoare_wp wp_simps wp_vec_at find_ptr_def split: option.splits)

lemma as_keeps_when: "as_keeps live n m \<Longrightarrow> as_keeps live n (whenM b m)"
  by (simp add: hoare_wp wp_simps)

lemma as_keeps_if: "as_keeps live n m \<Longrightarrow> as_keeps live n k \<Longrightarrow> as_keeps live n (if b then m else k)"
  by simp

lemma as_keeps_guard:
  assumes "async_runtime A live" "as_keeps live n m" shows "as_keeps live n (as_guard A d m)"
  by (rule hoare_as_guard [OF assms as_closed(1) as_closed(1) as_closed(1)])

lemma as_keeps_check: "quiet live f \<Longrightarrow> as_keeps live n (as_check f)"
  by (rule hoare_as_check [OF _ as_closed(1)])

lemma as_keeps_call: "quiet live f \<Longrightarrow> as_keeps live n (in_actx (call_check f))"
  by (rule hoare_actx_call [OF _ as_closed(1)])

lemma as_keeps_actx: "(\<And>P. keeps_pred (\<lambda>c. P (live (drv c))) m) \<Longrightarrow> as_keeps live n (in_actx m)"
  by (rule hoare_in_actx [OF _ as_closed(1)])

lemma as_keeps_upd: "(\<And>s. as_good live n s \<Longrightarrow> as_good live n (f s)) \<Longrightarrow> as_keeps live n (upd f)"
  by (rule hoare_upd_inv)

lemma as_keeps_prod: "(\<And>a b. as_keeps live n (f a b)) \<Longrightarrow> as_keeps live n (case x of (a, b) \<Rightarrow> f a b)"
  by (cases x) simp

lemmas as_keeps_intros = as_keeps_bnd as_keeps_seq as_keeps_simple as_keeps_when as_keeps_if as_keeps_prod hoare_for_each

lemma keeps_mallocAsync: "async_runtime A live \<Longrightarrow> k \<noteq> 0 \<Longrightarrow> as_keeps live n (mallocAsync A d k st)"
  by (rule as_keepsI [OF hoare_mallocAsync]) (auto simp: as_kept_def malloc_done_def as_at_def)

lemma keeps_freeAsync: "async_runtime A live \<Longrightarrow> as_keeps live n (freeAsync A p)"
  by (rule as_keepsI [OF hoare_freeAsync [OF _ subset_UNIV]]) (auto simp: as_kept_def as_at_def split: if_splits)

lemma keeps_lazy_init:
  assumes A: "async_runtime A live" shows "as_keeps live n (lazy_init_device A d)"
proof (cases "0 \<le> d \<and> d < n")
  case True
  then show ?thesis
    by (intro as_keepsI [OF hoare_lazy_init [OF A]]) (auto simp: as_at_def)
next
  case False
  then show ?thesis
    by (auto simp: hoare_wp lazy_init_device_def wp_simps wp_vec_at as_ok_def nat_less_iff)
qed

lemma keeps_current_device:
  assumes A: "async_runtime A live" shows "as_keeps live n (async_current_device A)"
  unfolding async_current_device_def
  by (intro as_keeps_actx keeps_bnd keeps_case_prod keeps_seq keeps_gcu_check keeps_ret
      GetDevice_keeps [OF async_runtimeD(1) [OF A]])

lemma keeps_current_stream:
  assumes A: "async_runtime A live" shows "as_keeps live n (async_current_stream A d)"
  unfolding async_current_stream_def
  by (intro as_keeps_actx keeps_bnd getCurrentGCUStream_keeps [OF async_runtimeD(1) [OF A]] stream_handle_keeps)

lemma keeps_allocate:
  assumes A: "async_runtime A live"
  shows "as_keeps live n (async_allocate A k)" "as_keeps live n (async_raw_alloc A k)"
    "as_keeps live n (async_raw_alloc_with_stream A k st)"
  unfolding async_allocate_def async_raw_alloc_def async_raw_alloc_with_stream_def
  by (cases "k = 0"; simp; intro as_keeps_intros keeps_current_device [OF A] keeps_current_stream [OF A] keeps_mallocAsync [OF A]; simp)+

lemma keeps_record:
  "as_keeps live n (async_recordStream p g)"
proof -
  have upd: "as_good live n (s\<lparr>ptr_info := (ptr_info s)(a \<mapsto> u')\<rparr>)"
    if s: "as_good live n s" "ptr_info s a = Some u" and u': "on_dev u' = on_dev u" "pu_size u' = pu_size u" for s a u u'
    using s u' bytes_on_same [where h = "ptr_info s", OF s(2) u'] unfolding as_ok_def by auto
  have same: "ptr_info (s\<lparr>actx := c\<rparr>) = ptr_info s" for s :: "'a async" and c by simp
  show ?thesis
    unfolding hoare_wp
  proof (intro allI impI)
    fix s :: "'a async" assume s: "as_good live n s"
    show "wp (async_recordStream p g) (\<lambda>_. as_good live n) (\<lambda>_. as_good live n) s"
    proof (cases "dp_data p = 0 \<or> ptr_info s (dp_data p) = None")
      case True
      then show ?thesis using s by (auto simp: async_recordStream_def find_ptr_def wp_simps)
    next
      case False
      then obtain u where u: "ptr_info s (dp_data p) = Some u" by auto
      obtain r c where h: "stream_handle g (actx s) = (r, c)" by fastforce
      have l: "live (drv c) = live (drv (actx s))"
        using keeps_predD [OF stream_handle_keeps [where P = "\<lambda>c. live (drv c) = live (drv (actx s))"] _ h] by simp
      note good = as_ok_ctx [OF s l]
      show ?thesis
        using False u h good upd [OF good, of "dp_data p" u]
        by (auto simp: async_recordStream_def find_ptr_def wp_simps Let_def wp_in_actx wp_def [of "stream_handle g"] on_dev_def
            split: sum.splits)
    qed
  qed
qed

lemma keeps_set_fraction:
  assumes A: "async_runtime A live" shows "as_keeps live n (async_setMemoryFraction A r d)"
proof -
  have lim: "as_good live n (s\<lparr>pytorch_memory_limits := (pytorch_memory_limits s)[i := x]\<rparr>)" if "as_good live n s" for s i x
    using that by (simp add: as_ok_def)
  show ?thesis
    unfolding async_setMemoryFraction_def async_assertValidDevice_def
    by (intro as_keeps_intros as_keeps_guard [OF A] keeps_lazy_init [OF A] as_keeps_upd lim
        as_keeps_call quiet_othersD(6) [OF async_runtimeD(2) [OF A]])
qed

lemma keeps_empty_cache:
  assumes A: "async_runtime A live" shows "as_keeps live n (async_emptyCache A)"
  unfolding async_emptyCache_def
  by (intro as_keeps_intros as_keeps_guard [OF A] as_keeps_call as_keeps_check async_runtimeD [OF A]
      quiet_othersD(5) [OF async_runtimeD(2) [OF A]])

lemma keeps_statistics:
  assumes A: "async_runtime A live"
  shows "as_keeps live n (async_getDeviceStats A d)" "as_keeps live n (async_resetPeakStats A d)"
    "as_keeps live n (async_resetAccumulatedStats d)" "as_keeps live n (async_enablePeerAccess A d e)"
  unfolding async_getDeviceStats_def async_resetPeakStats_def async_resetAccumulatedStats_def async_enablePeerAccess_def
    async_assertValidDevice_def Let_def
  by (intro as_keeps_intros as_keeps_guard [OF A] as_keeps_call as_keeps_check async_runtimeD [OF A])+

lemma keeps_captures:
  assumes A: "async_runtime A live"
  shows "as_keeps live n async_beginAllocateToPool" "as_keeps live n (async_endAllocateToPool A d)"
proof -
  have u: "as_good live n (s\<lparr>capture_underway := b\<rparr>)" "as_good live n (s\<lparr>capture_free_streams := f\<rparr>)"
    if "as_good live n s" for s b f using that by (simp_all add: as_ok_def)
  note q = quiet_othersD [OF async_runtimeD(2) [OF A]]
  show "as_keeps live n async_beginAllocateToPool"
    unfolding async_beginAllocateToPool_def by (intro as_keeps_intros as_keeps_upd u)
  show "as_keeps live n (async_endAllocateToPool A d)"
    unfolding async_endAllocateToPool_def async_assertValidDevice_def
    by (intro as_keeps_intros as_keeps_guard [OF A] as_keeps_call as_keeps_check as_keeps_upd u q
        as_keeps_actx getCurrentGCUStream_keeps [OF async_runtimeD(1) [OF A]] stream_handle_keeps)
qed

text \<open>
  The search for a workspace: the runtime's answer is freed again at once, so the pointers that
  the allocator knows stay allocated.
\<close>

lemma keeps_guess_loop:
  assumes A: "async_runtime A live" shows "as_keeps live n (guess_loop fuel A d st g)"
proof (induction fuel arbitrary: g)
  case 0
  show ?case by (simp add: as_keeps_simple)
next
  case (Suc fuel)
  note q = quiet_othersD [OF async_runtimeD(2) [OF A]]
  let ?K = "\<lambda>r s. (fst r = topsSuccess \<longrightarrow> ptr_info s (snd r) = None) \<and> as_good live n s"
  have limit: "hoare (as_good live n) (malloc_within_limit A d g st) ?K (\<lambda>_. as_good live n)"
    unfolding hoare_wp
  proof (intro allI impI)
    fix s assume s: "as_good live n s"
    obtain err a d' where r: "topsMallocAsync (as_api A) g st (drv (actx s)) = ((err, a), d')" by (metis prod.exhaust)
    have sub: "live (drv (actx s)) \<subseteq> live d'"
      using async_malloc_law(2) [OF A, of g st "drv (actx s)" a d'] async_malloc_fails [OF A r] r
      by (cases "err = topsSuccess") auto
    have "ptr_info s a = None" if "err = topsSuccess"
      using async_malloc_law(1) [OF A, of g st "drv (actx s)" a d'] r that s
      by (cases "ptr_info s a") (auto simp: as_ok_def)
    then show "wp (malloc_within_limit A d g st) ?K (\<lambda>_. as_good live n) s"
      using s sub r by (auto simp: malloc_within_limit_def wp_simps wp_vec_at wp_in_actx wp_call as_ok_def)
  qed
  have free: "hoare (\<lambda>s. ptr_info s a = None \<and> as_good live n s)
      (in_actx (bnd (call (topsFreeAsync (as_api A) a st)) (\<lambda>_. ret ()))) (\<lambda>_. as_good live n) (\<lambda>_. as_good live n)" for a
    unfolding hoare_wp
  proof (intro allI impI)
    fix s assume s: "ptr_info s a = None \<and> as_good live n s"
    obtain err d' where r: "topsFreeAsync (as_api A) a st (drv (actx s)) = (err, d')" by fastforce
    have "as_good live n (s\<lparr>actx := (actx s)\<lparr>drv := d'\<rparr>\<rparr>)"
      using s async_free_law(1) [OF A r] unfolding as_ok_def by auto
    then show "wp (in_actx (bnd (call (topsFreeAsync (as_api A) a st)) (\<lambda>_. ret ()))) (\<lambda>_. as_good live n) (\<lambda>_. as_good live n) s"
      using r by (simp add: wp_simps wp_in_actx wp_call)
  qed
  have clear: "as_keeps live n (in_actx (bnd (call (topsGetLastError (art A))) (\<lambda>_. ret ())))"
    by (intro as_keeps_actx keeps_bnd keeps_call q keeps_ret)
  show ?case
    unfolding guess_loop.simps
  proof (rule hoare_bnd [OF limit])
    fix r :: "tops_error \<times> addr"
    obtain err a where r: "r = (err, a)" by fastforce
    have "hoare (?K (err, a)) (if err = topsSuccess then
         seq (in_actx (bnd (call (topsFreeAsync (as_api A) a st)) (\<lambda>_. ret ()))) (ret g)
       else if err = topsErrorMemoryAllocation then
         seq (in_actx (bnd (call (topsGetLastError (art A))) (\<lambda>_. ret ()))) (guess_loop fuel A d st (drop_bit 1 g))
       else seq (gcu_check err) (guess_loop fuel A d st g)) (\<lambda>_. as_good live n) (\<lambda>_. as_good live n)"
    proof (cases "err = topsSuccess")
      case True
      show ?thesis
        using hoare_pre [OF hoare_seq [OF free [of a] as_keeps_simple(1)], of "?K (err, a)"] True by simp
    next
      case False
      have "as_keeps live n (if err = topsErrorMemoryAllocation then
         seq (in_actx (bnd (call (topsGetLastError (art A))) (\<lambda>_. ret ()))) (guess_loop fuel A d st (drop_bit 1 g))
       else seq (gcu_check err) (guess_loop fuel A d st g))"
        by (intro as_keeps_if as_keeps_seq clear Suc.IH as_keeps_simple)
      then show ?thesis using False by (auto intro: hoare_pre)
    qed
    then show "hoare (?K r) (case r of (err, dummy) \<Rightarrow>
       if err = topsSuccess then
         seq (in_actx (bnd (call (topsFreeAsync (as_api A) dummy st)) (\<lambda>_. ret ()))) (ret g)
       else if err = topsErrorMemoryAllocation then
         seq (in_actx (bnd (call (topsGetLastError (art A))) (\<lambda>_. ret ()))) (guess_loop fuel A d st (drop_bit 1 g))
       else seq (gcu_check err) (guess_loop fuel A d st g)) (\<lambda>_. as_good live n) (\<lambda>_. as_good live n)"
      by (simp add: r)
  qed
qed

lemma keeps_cache_info:
  assumes A: "async_runtime A live" shows "as_keeps live n (async_cacheInfo fuel A d)"
  unfolding async_cacheInfo_def async_assertValidDevice_def
  by (intro as_keeps_intros as_keeps_guard [OF A] as_keeps_call as_keeps_check keeps_lazy_init [OF A]
      keeps_current_stream [OF A] keeps_guess_loop [OF A] quiet_othersD [OF async_runtimeD(2) [OF A]])

section \<open>The states that are reached\<close>

datatype async_op =
  AsAllocate "64 word" | AsRawAlloc "64 word" | AsRawAllocOn "64 word" stream_t | AsFree addr
  | AsRecord data_ptr gcu_stream | AsSetFraction rat int | AsEmptyCache | AsCacheInfo nat int
  | AsStats int | AsResetPeak int | AsBegin | AsEnd int | AsPeer int int

fun async_run :: "'d async_env \<Rightarrow> async_op \<Rightarrow> ('d, unit) aact" where
  "async_run A (AsAllocate k) = bnd (async_allocate A k) (\<lambda>_. ret ())"
| "async_run A (AsRawAlloc k) = bnd (async_raw_alloc A k) (\<lambda>_. ret ())"
| "async_run A (AsRawAllocOn k st) = bnd (async_raw_alloc_with_stream A k st) (\<lambda>_. ret ())"
| "async_run A (AsFree p) = async_raw_delete A p"
| "async_run A (AsRecord p g) = async_recordStream p g"
| "async_run A (AsSetFraction r d) = async_setMemoryFraction A r d"
| "async_run A AsEmptyCache = async_emptyCache A"
| "async_run A (AsCacheInfo fuel d) = bnd (async_cacheInfo fuel A d) (\<lambda>_. ret ())"
| "async_run A (AsStats d) = bnd (async_getDeviceStats A d) (\<lambda>_. ret ())"
| "async_run A (AsResetPeak d) = async_resetPeakStats A d"
| "async_run A AsBegin = async_beginAllocateToPool"
| "async_run A (AsEnd d) = async_endAllocateToPool A d"
| "async_run A (AsPeer d e) = async_enablePeerAccess A d e"

lemma keeps_async_run:
  assumes A: "async_runtime A live" shows "as_keeps live n (async_run A op)"
  by (cases op; simp add: async_raw_delete_def;
      intro as_keeps_bnd as_keeps_simple keeps_allocate [OF A] keeps_freeAsync [OF A] keeps_record keeps_set_fraction [OF A]
        keeps_empty_cache [OF A] keeps_cache_info [OF A] keeps_statistics [OF A] keeps_captures [OF A])

text \<open>A step is any operation with any outcome; the clients start after \<open>init\<close>.\<close>

inductive async_step :: "'d async_env \<Rightarrow> 'd async \<Rightarrow> 'd async \<Rightarrow> bool" for A where
  step: "async_run A op s = (r, s') \<Longrightarrow> async_step A s s'"

definition async_reached :: "'d async_env \<Rightarrow> int \<Rightarrow> 'd async \<Rightarrow> bool" where
  "async_reached A n s \<longleftrightarrow> (\<exists>c. (async_step A)\<^sup>*\<^sup>* (snd (async_init n (AsyncAllocator c))) s)"

lemma async_start_good: "as_good live n (snd (async_init n (AsyncAllocator c)))"
  by (simp add: async_init_def AsyncAllocator_def act_simps as_ok_def)

lemma async_step_good:
  assumes A: "async_runtime A live" and s: "as_good live n s" and st: "async_step A s s'"
  shows "as_good live n s'"
  using st
proof (cases rule: async_step.cases)
  case (step op r)
  then show ?thesis
    using hoareD_Inr [OF keeps_async_run [OF A, of n op] s] hoareD_Inl [OF keeps_async_run [OF A, of n op] s]
    by (cases r) auto
qed

lemma async_reached_good:
  assumes A: "async_runtime A live" and r: "async_reached A n s"
  shows "as_good live n s"
proof -
  obtain c where "(async_step A)\<^sup>*\<^sup>* (snd (async_init n (AsyncAllocator c))) s" using r by (auto simp: async_reached_def)
  then show ?thesis by (induction rule: rtranclp_induct) (auto intro: async_start_good async_step_good [OF A])
qed

end
