(* ===== verification/AsyncRun.thy ===== *)
theory AsyncRun
  imports AsyncReach
begin

text \<open>
  The stream-ordered back end over the reference runtime, and one run of it evaluated: an
  allocation, a capture in which the pointer is freed, and the allocation after it.
\<close>

section \<open>The first allocation\<close>

definition sim_async_env :: "sim async_env" where
  "sim_async_env = \<lparr> as_native = sim_native_env\<lparr>alloc_env := sim_env\<lparr>runtime := sim_done\<rparr>\<rparr>,
     as_api = \<lparr> topsDeviceGetMemPool = (\<lambda>_. sim_value 1), topsMemPoolSetAttribute = (\<lambda>_ _ _. sim_ok),
       topsMemPoolGetAttribute = (\<lambda>_ _. sim_value 0), topsMemPoolTrimTo = (\<lambda>_ _. sim_ok),
       topsMemPoolSetAccess = (\<lambda>_ _. sim_ok),
       topsMallocAsync = (\<lambda>n _ d. if n = 0 then ((topsSuccess, 0), d)
         else if sim_top d \<in> fst ` set (sim_live d) then ((topsErrorMemoryAllocation, 0), d) else sim_malloc (unat n) d),
       topsFreeAsync = (\<lambda>a _. sim_free a), topsMemcpyDtoD = (\<lambda>_ _ _. sim_ok) \<rparr>,
     as_env_stream_num = 32 \<rparr>"

lemma sim_async_runtime: "art sim_async_env = sim_done" "as_use_default sim_async_env"
  "as_env_stream_num sim_async_env = 32"
  by (simp_all add: sim_async_env_def sim_native_env_def sim_env_def)

lemma sim_async_ok: "async_runtime sim_async_env sim_pinned"
proof -
  have q: "quiet_runtime sim_done sim_pinned"
    by (simp add: quiet_runtime_def quiet_others_def quiet_def sim_done_def sim_defs sim_pinned_def)
  have top: "sim_top d \<noteq> 0" for d using sim_top_ge(1) [of d] by simp
  have f: "sim_pinned (snd (sim_free a d)) = (if fst (sim_free a d) = topsSuccess then sim_pinned d - {a} else sim_pinned d)"
    for a d by (force simp: sim_free_def sim_pinned_def)
  show ?thesis
    unfolding async_runtime_def sim_async_runtime
    using q f by (auto simp: top sim_async_env_def sim_malloc_def sim_pinned_def case_prod_beta quiet_def sim_ok_def sim_value_def)
qed

lemma sim_guard:
  assumes "sim_at_zero (actx s)" "m s = (r, s')" "sim_at_zero (actx s')"
  shows "as_guard sim_async_env 0 m s = (r, s')"
proof -
  have c: "c\<lparr>drv := drv c\<rparr> = c" "c\<lparr>targetDeviceIndex := -1\<rparr> = c" "c\<lparr>targetDeviceIndex := -1, drv := drv c\<rparr> = c"
    if "sim_at_zero c" for c using that by (simp_all add: sim_at_zero_def)
  have ex: "ExchangeDevice sim_done 0 (actx s) = (Inr 0, actx s)"
    using assms(1) c [OF assms(1)] by (simp add: ExchangeDevice_def act_simps call_check_def call_def sim_calls sim_at_zero_def)
  show ?thesis
    using assms(2) sim_zero_calls(4) [OF assms(3)] ex
    by (simp add: as_guard_def act_simps in_actx_def sim_async_runtime)
qed

definition sim_async :: "sim async" where
  "sim_async = snd (async_init 2 (AsyncAllocator sim_hctx))"

lemma sim_async_fields: "as_device_count sim_async = 2" "devs_initialized_flags sim_async = [False, False]"
  "dummy_unifying_free_streams sim_async = [\<lparr> us_stream = 0, us_device = 0 \<rparr>, \<lparr> us_stream = 0, us_device = 0 \<rparr>]"
  "ptr_info sim_async = Map.empty" "deferred_frees sim_async = []" "pytorch_used_bytes sim_async = [0, 0]"
  "pytorch_memory_limits sim_async = [0, 0]" "capture_free_streams sim_async = []" "\<not> capture_underway sim_async"
  "actx sim_async = sim_hctx"
  by (simp_all add: sim_async_def async_init_def AsyncAllocator_def act_simps numeral_2_eq_2)

lemma sim_hctx_ready: "streams_ready sim_hctx 2"
  by (simp add: streams_ready_def sim_hctx_def ctx_ready_def ctx_init_def)

text \<open>The context after one stream of the pool was handed out.\<close>

definition sim_actx :: "sim ctx" where
  "sim_actx = sim_hctx\<lparr>priority_counters := (priority_counters sim_hctx)(0 := (priority_counters sim_hctx 0)(0 := priority_counters sim_hctx 0 0 + 1))\<rparr>"

lemma sim_actx: "sim_at_zero sim_hctx" "sim_at_zero sim_actx"  "drv sim_actx = sim_init" "streams_ready sim_actx 2"
  by (simp_all add: sim_at_zero_def sim_actx_def sim_hctx_fields sim_init_fields sim_hctx_ready streams_ready_def)
   (use sim_hctx_ready in \<open>simp_all add: streams_ready_def\<close>)

definition sim_async_ready :: "sim async" where
  "sim_async_ready = sim_async\<lparr>
     dummy_unifying_free_streams := [\<lparr> us_stream = streams sim_hctx 0 0 0, us_device = 0 \<rparr>, \<lparr> us_stream = 0, us_device = 0 \<rparr>],
     pytorch_memory_limits := [- 1, 0], devs_initialized_flags := [True, False], actx := sim_actx\<rparr>"

lemma sim_fold: "sim_hctx\<lparr>drv := sim_init\<rparr> = sim_hctx" "sim_actx\<lparr>drv := sim_init\<rparr> = sim_actx"
  using sim_actx(3) by (simp_all add: sim_actx_def sim_hctx_fields)

lemma sim_init_pool: "init_device_pool sim_async_env 0 sim_async = (Inr (), sim_async)"
proof -
  have "sim_async\<lparr>actx := sim_hctx\<rparr> = sim_async" by (simp add: sim_async_fields(10) [symmetric])
  then show ?thesis
    by (simp add: init_device_pool_def act_simps as_check_def in_actx_def call_check_def call_def sim_async_env_def
        sim_value_def sim_ok_def sim_async_fields sim_hctx_fields)
qed

lemma sim_pool_stream: "getStreamFromPool_high sim_done True 32 False (-1) sim_hctx =
    (Inr (GCUStreamForId 0 (makeStreamId 1 0)), sim_actx)"
proof -
  have init: "initGCUStreamsOnce sim_done True sim_hctx = (Inr (), sim_hctx)"
    by (simp add: initGCUStreamsOnce_def act_simps sim_hctx_def ctx_ready_def ctx_init_def)
  have cur: "current_device sim_done sim_hctx = (Inr 0, sim_hctx)"
    using sim_zero_calls(1) [OF sim_actx(1)] sim_actx(1)
    by (simp add: current_device_def act_simps GetDevice_def call_def sim_calls sim_at_zero_def)
  have "getStreamFromPool sim_done True 32 prio (-1) sim_hctx = getStreamFromPool sim_done True 32 prio 0 sim_hctx" for prio
    by (simp add: getStreamFromPool_def act_simps init or_current_device_def cur)
  moreover have "priority_counters sim_hctx 0 0 = 0" "0 \<in> set (device_flags sim_hctx)"
    by (simp_all add: sim_hctx_def ctx_ready_def ctx_init_def)
  ultimately show ?thesis
    using getStreamFromPool_ready [OF sim_hctx_ready, of 0 sim_done True 32 0]
    by (simp add: getStreamFromPool_high_def act_simps init sim_actx_def)
qed

lemma sim_lazy: "lazy_init_device sim_async_env 0 sim_async = (Inr (), sim_async_ready)"
proof -
  let ?m = "seq (init_device_pool sim_async_env 0)
         (bnd (in_actx (getStreamFromPool_high (art sim_async_env) (as_use_default sim_async_env) (as_env_stream_num sim_async_env) False (-1))) (\<lambda>dufs.
          bnd (in_actx (stream_handle dufs)) (\<lambda>h.
          upd (\<lambda>s. s\<lparr>
            dummy_unifying_free_streams := (dummy_unifying_free_streams s)[nat 0 :=
              \<lparr> us_stream = h, us_device = gs_device dufs \<rparr>],
            pytorch_used_bytes := (pytorch_used_bytes s)[nat 0 := 0],
            pytorch_memory_limits := (pytorch_memory_limits s)[nat 0 := - 1],
            devs_initialized_flags := (devs_initialized_flags s)[nat 0 := True]\<rparr>))))"
  have h: "stream_handle \<lparr>gs_device = 0, gs_id = makeStreamId (Suc 0) 0\<rparr> sim_actx = (Inr (streams sim_hctx 0 0 0), sim_actx)"
    using stream_handle_pool [OF sim_actx(4), of 0 0] by (simp add: GCUStreamForId_def) (simp add: sim_actx_def)
  have "?m sim_async = (Inr (), sim_async_ready)"
    by (simp add: act_simps sim_init_pool sim_async_runtime in_actx_def sim_async_fields sim_pool_stream
        h sim_async_ready_def GCUStreamForId_def)
  then have "as_guard sim_async_env 0 ?m sim_async = (Inr (), sim_async_ready)"
    by (rule sim_guard [rotated]) (simp_all add: sim_async_fields sim_actx sim_async_ready_def)
  then show ?thesis
    unfolding lazy_init_device_def by (simp add: bnd_apply vec_at_def sim_async_fields whenM_apply)
qed

text \<open>One allocation of 1024 bytes on the default stream of device 0.\<close>

definition sim_usage :: ptr_usage where
  "sim_usage = \<lparr> recorded_streams = [], creation_stream = \<lparr> us_stream = 0, us_device = 0 \<rparr>, pu_size = 1024, pu_captured = False \<rparr>"

definition sim_live_ctx :: "sim ctx" where
  "sim_live_ctx = sim_actx\<lparr>drv := sim_init\<lparr>sim_live := [(4096, 1024)]\<rparr>\<rparr>"

definition sim_async_used :: "sim async" where
  "sim_async_used = sim_async_ready\<lparr>actx := sim_live_ctx, ptr_info := [4096 \<mapsto> sim_usage], pytorch_used_bytes := [1024, 0]\<rparr>"

lemma sim_ready_fields: "as_device_count sim_async_ready = 2" "devs_initialized_flags sim_async_ready = [True, False]"
  "ptr_info sim_async_ready = Map.empty" "deferred_frees sim_async_ready = []" "pytorch_used_bytes sim_async_ready = [0, 0]"
  "pytorch_memory_limits sim_async_ready = [- 1, 0]" "capture_free_streams sim_async_ready = []" "\<not> capture_underway sim_async_ready"
  "actx sim_async_ready = sim_actx" "us_device (dummy_unifying_free_streams sim_async_ready ! 0) = 0"
  by (simp_all add: sim_async_ready_def sim_async_fields)

lemma sim_async_malloc: "mallocAsync sim_async_env 0 1024 0 sim_async = (Inr 4096, sim_async_used)"
proof -
  have m: "sim_malloc 1024 sim_init = ((topsSuccess, 4096), sim_init\<lparr>sim_live := [(4096, 1024)]\<rparr>)"
    by (simp add: sim_malloc_def sim_top_def sim_init_def)
  have d: "free_deferred sim_async_env sim_async = (Inr (), sim_async)"
    by (simp add: free_deferred_def act_simps sim_async_fields)
  have e: "as_check (topsGetLastError sim_done) sim_async_ready = (Inr (), sim_async_ready)"
    by (simp add: as_check_def in_actx_def act_simps call_def sim_done_def sim_tops_def sim_ok_def sim_ready_fields sim_actx sim_fold)
  have l: "malloc_within_limit sim_async_env 0 1024 0 sim_async_ready =
      (Inr (topsSuccess, 4096), sim_async_ready\<lparr>actx := sim_live_ctx\<rparr>)"
    by (simp add: malloc_within_limit_def act_simps vec_at_def sim_ready_fields in_actx_def call_def
        sim_async_env_def sim_actx m sim_live_ctx_def sim_init_fields)
  have z: "sim_at_zero sim_live_ctx" using sim_actx(2) by (simp add: sim_at_zero_def sim_live_ctx_def sim_init_fields)
  show ?thesis
    unfolding mallocAsync_def
    by (simp add: act_simps sim_async_fields, rule sim_guard)
      (simp_all add: act_simps d sim_lazy sim_async_runtime e l sim_ready_fields vec_at_def sim_async_used_def
        PtrUsage_def sim_usage_def z sim_async_fields sim_actx)
qed

lemma sim_async_used_reached: "async_reached sim_async_env 2 sim_async_used"
proof -
  have g: "async_current_device sim_async_env sim_async = (Inr 0, sim_async)"
    using sim_actx(1) by (simp add: async_current_device_def in_actx_def act_simps GetDevice_def call_def
      sim_async_runtime sim_calls sim_async_fields sim_at_zero_def)
  have "async_step sim_async_env sim_async sim_async_used"
    by (rule async_step.step [of _ "AsRawAllocOn 1024 0" _ "Inr ()"])
      (simp add: async_raw_alloc_with_stream_def act_simps g sim_async_malloc)
  then show ?thesis unfolding async_reached_def sim_async_def by (blast intro: r_into_rtranclp)
qed

section \<open>A free in a capture\<close>

definition sim_capture :: "addr list \<Rightarrow> sim async" where
  "sim_capture q = sim_async_used\<lparr>capture_underway := True, deferred_frees := q\<rparr>"

definition sim_due :: "addr list \<Rightarrow> sim async" where
  "sim_due q = sim_async_used\<lparr>deferred_frees := q\<rparr>"

lemma sim_used_fields: "as_device_count sim_async_used = 2" "devs_initialized_flags sim_async_used = [True, False]"
  "ptr_info sim_async_used = [4096 \<mapsto> sim_usage]" "deferred_frees sim_async_used = []" "pytorch_used_bytes sim_async_used = [1024, 0]"
  "pytorch_memory_limits sim_async_used = [- 1, 0]" "capture_free_streams sim_async_used = []" "\<not> capture_underway sim_async_used"
  "actx sim_async_used = sim_live_ctx"
  by (simp_all add: sim_async_used_def sim_ready_fields)

lemma sim_live_at: "sim_at_zero sim_live_ctx" "streams_ready sim_live_ctx 2"
  "drv sim_live_ctx = sim_init\<lparr>sim_live := [(4096, 1024)]\<rparr>"
  using sim_actx(2,4) by (simp_all add: sim_at_zero_def sim_live_ctx_def sim_init_fields streams_ready_def)

lemma sim_checks: "as_check (topsGetLastError sim_done) s = (Inr (), s)"
  by (simp add: as_check_def in_actx_def act_simps call_def sim_done_def sim_tops_def sim_ok_def)

lemma sim_begin: "async_beginAllocateToPool (sim_due []) = (Inr (), sim_capture [])"
  by (simp add: async_beginAllocateToPool_def act_simps sim_due_def sim_capture_def sim_used_fields)

lemma sim_defer: "freeAsync sim_async_env 4096 (sim_capture q) = (Inr (), sim_capture (q @ [4096]))"
  by (simp add: freeAsync_def act_simps sim_async_runtime sim_checks find_ptr_def)
    (simp add: sim_capture_def sim_used_fields act_simps sim_usage_def)

lemma sim_end: "async_endAllocateToPool sim_async_env 0 (sim_capture q) = (Inr (), sim_due q)"
  by (simp add: async_endAllocateToPool_def async_assertValidDevice_def act_simps sim_capture_def sim_used_fields
      in_actx_def sim_async_runtime getCurrentGCUStream_ready [OF sim_live_at(2)] sim_due_def)

text \<open>Freeing the pointer, and the next allocation.\<close>

definition sim_freed :: "addr list \<Rightarrow> sim async" where
  "sim_freed q = sim_async_ready\<lparr>deferred_frees := q\<rparr>"

lemma sim_free_impl: "free_impl sim_async_env 4096 sim_usage (sim_due q) = (Inr (), sim_freed q)"
proof -
  have f: "sim_free 4096 (sim_init\<lparr>sim_live := [(4096, 1024)]\<rparr>) = (topsSuccess, sim_init)"
    by (simp add: sim_free_def sim_init_def)
  have c: "sim_live_ctx\<lparr>drv := sim_init\<rparr> = sim_actx" by (simp add: sim_live_ctx_def sim_fold)
  show ?thesis
    unfolding free_impl_def Let_def
    by (simp add: sim_usage_def, rule sim_guard)
      (simp_all add: act_simps as_check_def in_actx_def call_def sim_async_env_def sim_due_def sim_used_fields sim_live_at f c
        remember_free_stream_def vec_at_def sim_freed_def sim_async_used_def sim_ready_fields sim_actx)
qed

lemma sim_malloc_due: "\<exists>q s3. mallocAsync sim_async_env 0 512 0 (sim_due [4096]) = (Inr q, s3)"
proof -
  have m: "sim_malloc 512 sim_init = ((topsSuccess, 4096), sim_init\<lparr>sim_live := [(4096, 512)]\<rparr>)"
    by (simp add: sim_malloc_def sim_top_def sim_init_def)
  let ?c = "sim_actx\<lparr>drv := sim_init\<lparr>sim_live := [(4096, 512)]\<rparr>\<rparr>"
  have z: "sim_at_zero ?c" using sim_actx(2) by (simp add: sim_at_zero_def sim_init_fields)
  have d: "free_deferred sim_async_env (sim_due [4096]) = (Inr (), sim_async_ready)"
    using sim_free_impl [of "[4096]"]
    by (simp add: free_deferred_def act_simps find_ptr_def) (simp add: sim_due_def sim_used_fields act_simps sim_freed_def sim_async_ready_def sim_async_fields)
  have l: "malloc_within_limit sim_async_env 0 512 0 sim_async_ready = (Inr (topsSuccess, 4096), sim_async_ready\<lparr>actx := ?c\<rparr>)"
    by (simp add: malloc_within_limit_def act_simps vec_at_def sim_ready_fields in_actx_def call_def
        sim_async_env_def sim_actx m sim_init_fields)
  have z0: "lazy_init_device sim_async_env 0 sim_async_ready = (Inr (), sim_async_ready)"
    by (simp add: lazy_init_device_def act_simps vec_at_def sim_ready_fields)
  let ?s = "sim_async_ready\<lparr>actx := ?c, ptr_info := [4096 \<mapsto> sim_usage\<lparr>pu_size := 512\<rparr>], pytorch_used_bytes := [512, 0]\<rparr>"
  have "mallocAsync sim_async_env 0 512 0 (sim_due [4096]) = (Inr 4096, ?s)"
    unfolding mallocAsync_def
    by (simp add: act_simps sim_due_def sim_used_fields, rule sim_guard)
      (simp_all add: act_simps d [unfolded sim_due_def] z0 sim_async_runtime sim_checks l sim_ready_fields vec_at_def
        PtrUsage_def sim_usage_def z sim_used_fields sim_live_at)
  then show ?thesis by blast
qed

lemma sim_capture_steps:
  "(async_step sim_async_env)\<^sup>*\<^sup>* sim_async_used (sim_capture [])"
  "(async_step sim_async_env)\<^sup>*\<^sup>* (sim_capture []) (sim_due [4096, 4096])"
proof -
  have st: "async_run sim_async_env AsBegin (sim_due []) = (Inr (), sim_capture [])"
    "async_run sim_async_env (AsFree 4096) (sim_capture []) = (Inr (), sim_capture [4096])"
    "async_run sim_async_env (AsFree 4096) (sim_capture [4096]) = (Inr (), sim_capture [4096, 4096])"
    "async_run sim_async_env (AsEnd 0) (sim_capture [4096, 4096]) = (Inr (), sim_due [4096, 4096])"
    by (simp_all add: sim_begin sim_defer sim_end async_raw_delete_def)
  have u: "sim_due [] = sim_async_used" by (simp add: sim_due_def sim_async_used_def sim_ready_fields)
  show "(async_step sim_async_env)\<^sup>*\<^sup>* sim_async_used (sim_capture [])"
    using st(1) [THEN async_step.step] unfolding u by (rule r_into_rtranclp)
  show "(async_step sim_async_env)\<^sup>*\<^sup>* (sim_capture []) (sim_due [4096, 4096])"
    using st(2-4) [THEN async_step.step] by (meson converse_rtranclp_into_rtranclp rtranclp.rtrancl_refl)
qed

end
