(* ===== verification/AsyncProps.thy ===== *)
theory AsyncProps
  imports AsyncRun
begin

text \<open>
  What the stream-ordered back end promises: its counts are exact, what it knows is allocated,
  the frees that a capture put off happen, the search for a workspace ends; and the cases in
  which it gets stuck.
\<close>

section \<open>The deferred frees\<close>

text \<open>A list of deferred frees with a pointer that is not known, or twice, is never worked off.\<close>

lemma hoare_malloc_stuck:
  assumes A: "async_runtime A live" and stuck: "\<not> (set q \<subseteq> dom h \<and> distinct q)"
  shows "hoare (as_at live n {} h q False) (mallocAsync A d k st) (\<lambda>_ _. False) (\<lambda>_. as_kept live n (dom h) q False)"
proof -
  let ?P = "as_at live n {} h q False" and ?K = "as_kept live n (dom h) q False"
  have PK: "?P s \<Longrightarrow> ?K s" for s by (erule as_at_kept) simp
  have q: "q \<noteq> []" using stuck by auto
  have all: "hoare ?P (free_deferred A) (\<lambda>_ _. False) (\<lambda>_. ?K)"
    unfolding hoare_wp
  proof (intro allI impI)
    fix s assume s: "?P s"
    have "wp (for_each (\<lambda>p. bnd (find_ptr p) (free_impl A p)) q) (\<lambda>_ _. False) (\<lambda>_. ?K) s"
      using hoare_conseq [OF hoare_free_all [where ps = q, OF A subset_refl], of ?P n h q False "\<lambda>_ _. False"] s stuck
      by (auto simp: hoare_wp)
    then show "wp (free_deferred A) (\<lambda>_ _. False) (\<lambda>_. ?K) s"
      using s q by (simp add: free_deferred_def wp_simps as_at_def wp_def split: prod.splits sum.splits)
  qed
  have g: "hoare ?P (as_guard A d (seq (free_deferred A) m)) (\<lambda>_ _. False) (\<lambda>_. ?K)" for m :: "('a async, addr) act"
    by (rule hoare_as_guard [OF A hoare_seq [OF all] as_closed(2) _ as_closed(3) PK])
      (auto simp: hoare_wp ctx_closed_def)
  show ?thesis
    unfolding mallocAsync_def hoare_wp
  proof (intro allI impI)
    fix s assume s: "?P s"
    show "wp (seq (bnd (gets (\<lambda>s. 0 \<le> d \<and> d < as_device_count s)) (require InternalAssert)) (as_guard A d
       (seq (free_deferred A) m))) (\<lambda>_ _. False) (\<lambda>_. ?K) s" for m :: "('a async, addr) act"
      using g [of m, unfolded hoare_wp] s PK [OF s] by (simp add: wp_simps)
  qed
qed


section \<open>The search for a workspace\<close>

lemma wp_malloc_within:
  "wp (malloc_within_limit A d g st) Q X s =
    (if 0 \<le> d \<and> nat d < length (pytorch_used_bytes s) \<and> nat d < length (pytorch_memory_limits s)
     then if pytorch_memory_limits s ! nat d < pytorch_used_bytes s ! nat d + g then Q (topsErrorMemoryAllocation, 0) s
          else wp (call (topsMallocAsync (as_api A) g st)) (\<lambda>r c. Q r (s\<lparr>actx := c\<rparr>)) (\<lambda>e c. X e (s\<lparr>actx := c\<rparr>)) (actx s)
     else X UndefinedBehaviour s)"
  by (auto simp: malloc_within_limit_def wp_simps wp_vec_at wp_in_actx)

text \<open>What no call of the runtime changes.\<close>

definition counts_are :: "int \<Rightarrow> 64 word \<Rightarrow> 64 word \<Rightarrow> 'd async \<Rightarrow> bool" where
  "counts_are d used limit s \<longleftrightarrow> 0 \<le> d \<and> nat d < length (pytorch_used_bytes s) \<and> nat d < length (pytorch_memory_limits s) \<and>
     nat d < length (devs_initialized_flags s) \<and> devs_initialized_flags s ! nat d \<and>
     pytorch_used_bytes s ! nat d = used \<and> pytorch_memory_limits s ! nat d = limit"

lemma counts_ctx [simp]: "counts_are d u l (s\<lparr>actx := c\<rparr>) = counts_are d u l s"
  by (simp add: counts_are_def)

lemma counts_in_actx: "hoare (counts_are d u l) (in_actx m) (\<lambda>_. counts_are d u l) (\<lambda>_. counts_are d u l)"
  by (auto simp: hoare_def in_actx_def split: prod.splits sum.splits)

lemma unat_half: "unat (drop_bit 1 g) = unat g div 2" for g :: "64 word"
  by (simp only: unat_drop_bit_eq) (simp add: drop_bit_Suc)

lemma guess_loop_ends:
  assumes "u \<le> l" and zero: "\<And>x. fst (fst (topsMallocAsync (as_api A) 0 st x)) \<noteq> topsErrorMemoryAllocation"
  shows "unat g < 2 ^ k \<Longrightarrow> k < fuel \<Longrightarrow> counts_are d u l s \<Longrightarrow>
    wp (guess_loop fuel A d st g) (\<lambda>g' s'. g' \<le> g \<and> u + g' \<le> l \<and> counts_are d u l s')
      (\<lambda>e s'. (\<exists>err. e = GcuError err) \<and> counts_are d u l s') s"
proof (induction fuel arbitrary: g k s)
  case 0
  then show ?case by simp
next
  case (Suc fuel)
  have half: "wp (guess_loop fuel A d st (drop_bit 1 g)) (\<lambda>g' s'. g' \<le> g \<and> u + g' \<le> l \<and> counts_are d u l s')
      (\<lambda>e s'. (\<exists>err. e = GcuError err) \<and> counts_are d u l s') s'"
    if "g \<noteq> 0" "counts_are d u l s'" for s'
  proof (cases k)
    case 0
    with Suc.prems(1) that(1) show ?thesis by (simp add: unat_eq_zero)
  next
    case (Suc k')
    have "unat g div 2 < 2 ^ k'" using Suc.prems(1) Suc by simp
    then have le: "unat (drop_bit 1 g) < 2 ^ k'" "drop_bit 1 g \<le> g"
      by (simp_all only: word_le_nat_alt unat_half div_le_dividend)
    show ?thesis
      by (rule wp_mono [OF Suc.IH [OF le(1) _ that(2)]]) (use Suc.prems(2) Suc le(2) in auto)
  qed
  have c: "0 \<le> d" "nat d < length (pytorch_used_bytes s)" "nat d < length (pytorch_memory_limits s)"
    "pytorch_used_bytes s ! nat d = u" "pytorch_memory_limits s ! nat d = l"
    using Suc.prems(3) by (simp_all add: counts_are_def)
  show ?case
  proof (cases "l < u + g")
    case True
    then have "g \<noteq> 0" using assms(1) by auto
    then show ?thesis
      using True c half Suc.prems(3)
      by (simp add: wp_simps wp_malloc_within wp_in_actx wp_call case_prod_beta)
  next
    case False
    obtain err a x' where r: "topsMallocAsync (as_api A) g st (drv (actx s)) = ((err, a), x')" by (metis prod.exhaust)
    have "err = topsErrorMemoryAllocation \<Longrightarrow> g \<noteq> 0" using zero [of "drv (actx s)"] r by auto
    moreover have "u + g \<le> l" using False by (rule leI)
    ultimately show ?thesis
      using False c half Suc.prems(3) r
      by (simp add: wp_simps wp_malloc_within wp_in_actx wp_call case_prod_beta)
  qed
qed

lemma guess_loop_stuck:
  assumes "l < u"
  shows "unat g + unat u < 2 ^ 64 \<Longrightarrow> counts_are d u l s \<Longrightarrow>
    wp (guess_loop fuel A d st g) (\<lambda>_ _. False) (\<lambda>e _. e = OutOfFuel) s"
proof (induction fuel arbitrary: g s)
  case 0
  then show ?case by (simp add: wp_simps)
next
  case (Suc fuel)
  have c: "0 \<le> d" "nat d < length (pytorch_used_bytes s)" "nat d < length (pytorch_memory_limits s)"
    "pytorch_used_bytes s ! nat d = u" "pytorch_memory_limits s ! nat d = l"
    using Suc.prems(2) by (simp_all add: counts_are_def)
  have "unat (u + g) = unat u + unat g" using Suc.prems(1) by (simp add: unat_word_ariths(1))
  then have over: "l < u + g" using assms by (simp add: word_less_nat_alt)
  have "unat (drop_bit 1 g) + unat u < 2 ^ 64"
    using Suc.prems(1) unfolding unat_half by linarith
  from Suc.IH [OF this] show ?case
    using over c Suc.prems(2)
    by (simp add: wp_simps wp_malloc_within wp_in_actx wp_call case_prod_beta)
qed


text \<open>C33: the search of \<^verbatim>\<open>cacheInfo\<close> for a workspace size ends while the bytes in use are within the
  limit, on a runtime that does not report a request for no bytes as out of memory: with one
  round more than the first guess has bits it has returned, or thrown an error of the runtime.
  What it returns is no more than the first guess and fits under the limit.\<close>

theorem async_guess_ends:
  assumes "counts_are d used limit s" and "used \<le> limit"
    and "\<And>x. fst (fst (topsMallocAsync (as_api A) 0 st x)) \<noteq> topsErrorMemoryAllocation"
    and "unat guess < 2 ^ k" and "k < fuel"
  shows "\<exists>r s'. guess_loop fuel A d st guess s = (r, s') \<and>
    ((\<exists>g. r = Inr g \<and> g \<le> guess \<and> used + g \<le> limit) \<or> (\<exists>err. r = Inl (GcuError err)))"
  using guess_loop_ends [OF assms(2,3,4,5,1)] by (auto simp: wp_def split: prod.splits sum.splits)

theorem async_guess_ends_witness:
  "\<exists>r s'. guess_loop 13 sim_async_env 0 0 2048 sim_async_used = (r, s') \<and>
    ((\<exists>g. r = Inr g \<and> g \<le> 2048 \<and> 1024 + g \<le> (- 1 :: 64 word)) \<or> (\<exists>err. r = Inl (GcuError err)))"
  by (rule async_guess_ends [where k = 12 and limit = "- 1"])
    (simp_all add: counts_are_def sim_async_used_def sim_ready_fields sim_async_env_def)

text \<open>C34: \<^verbatim>\<open>cacheInfo\<close> never returns on a device whose bytes in use exceed its limit, as after
  \<^verbatim>\<open>setMemoryFraction\<close> with less than is in use: every guess down to no bytes at all is over the
  limit, halving it changes nothing any more, and the loop has no other way out. With any number
  of rounds the model runs out of them, or an earlier step throws.\<close>

theorem async_cacheInfo_never_returns:
  assumes "counts_are d used limit s" and "limit < used"
    and "\<And>x free total x'. topsMemGetInfo (art A) x = ((topsSuccess, free, total), x') \<Longrightarrow> free + unat used < 2 ^ 64"
  shows "(\<exists>e s'. async_cacheInfo fuel A d s = (Inl e, s')) \<and>
    (\<forall>st g. unat g + unat used < 2 ^ 64 \<longrightarrow> fst (guess_loop fuel A d st g s) = Inl OutOfFuel)"
proof -
  let ?C = "counts_are d used limit :: 'a async \<Rightarrow> bool"
  have loop: "hoare ?C (guess_loop fuel A d st g) (\<lambda>_ _. False) (\<lambda>_ _. True)" if "unat g + unat used < 2 ^ 64" for st g
    unfolding hoare_wp
  proof (intro allI impI)
    fix s assume c: "?C s"
    show "wp (guess_loop fuel A d st g) (\<lambda>_ _. False) (\<lambda>_ _. True) s"
      by (rule wp_mono [OF guess_loop_stuck [OF assms(2) that c]]) auto
  qed
  have step: "hoare ?C (in_actx m) (\<lambda>_. ?C) (\<lambda>_ _. True)" for m :: "('a, 'b) cact"
    by (rule hoare_conseq [OF counts_in_actx]) auto
  have info: "hoare ?C (in_actx (call_check (topsMemGetInfo (art A)))) (\<lambda>r s. fst r + unat used < 2 ^ 64 \<and> ?C s) (\<lambda>_ _. True)"
    using assms(3) by (auto simp: hoare_def in_actx_def call_check_def act_simps call_def split: prod.splits sum.splits if_splits)
  have small: "unat (min (word_of_nat m) w) + unat used < 2 ^ 64" if "m + unat used < 2 ^ 64" for m and w :: "64 word"
    using that by (simp add: min_def word_le_nat_alt unat_of_nat)
  have body: "hoare ?C (seq (lazy_init_device A d) (bnd (in_actx (call_check (topsMemGetInfo (art A)))) (\<lambda>(free_upper_bound, device_total).
         bnd (vec_at pytorch_used_bytes d) (\<lambda>used.
         bnd (vec_at pytorch_memory_limits d) (\<lambda>limit.
         seq (require InternalAssert ((free_upper_bound + unat used) mod 2 ^ 64 \<le> device_total))
         (bnd (async_current_stream A (-1)) (\<lambda>stream.
          seq (as_check (topsGetLastError (art A)))
            (guess_loop fuel A d stream (min (word_of_nat free_upper_bound) (limit - used)))))))))) (\<lambda>_ _. False) (\<lambda>_ _. True)"
  proof (rule hoare_seq)
    show "hoare ?C (lazy_init_device A d) (\<lambda>_. ?C) (\<lambda>_ _. True)"
      by (auto simp: hoare_wp lazy_init_device_def wp_simps wp_vec_at counts_are_def)
    show "hoare ?C (bnd (in_actx (call_check (topsMemGetInfo (art A)))) (\<lambda>(free_upper_bound, device_total).
         bnd (vec_at pytorch_used_bytes d) (\<lambda>used.
         bnd (vec_at pytorch_memory_limits d) (\<lambda>limit.
         seq (require InternalAssert ((free_upper_bound + unat used) mod 2 ^ 64 \<le> device_total))
         (bnd (async_current_stream A (-1)) (\<lambda>stream.
          seq (as_check (topsGetLastError (art A)))
            (guess_loop fuel A d stream (min (word_of_nat free_upper_bound) (limit - used))))))))) (\<lambda>_ _. False) (\<lambda>_ _. True)"
    proof (rule hoare_bnd [OF info], clarify, rule hoare_pure_pre)
      fix free total :: nat assume free: "fst (free, total) + unat used < 2 ^ 64"
      have "hoare ?C (seq (require InternalAssert b) (bnd (async_current_stream A (-1)) (\<lambda>stream.
          seq (as_check (topsGetLastError (art A)))
            (guess_loop fuel A d stream (min (word_of_nat free) (l - u)))))) (\<lambda>_ _. False) (\<lambda>_ _. True)" for b l u
        unfolding async_current_stream_def as_check_def
        by (rule hoare_seq [where R = ?C], simp add: hoare_wp wp_simps)
          (rule hoare_bnd [OF step], rule hoare_seq [OF step], rule loop, rule small, use free in simp)
      then show "hoare ?C (bnd (vec_at pytorch_used_bytes d) (\<lambda>used.
         bnd (vec_at pytorch_memory_limits d) (\<lambda>limit.
         seq (require InternalAssert ((free + unat used) mod 2 ^ 64 \<le> total))
         (bnd (async_current_stream A (-1)) (\<lambda>stream.
          seq (as_check (topsGetLastError (art A)))
            (guess_loop fuel A d stream (min (word_of_nat free) (limit - used)))))))) (\<lambda>_ _. False) (\<lambda>_ _. True)"
        by (simp add: hoare_wp wp_bnd wp_vec_at)
    qed
  qed
  have "hoare ?C (async_cacheInfo fuel A d) (\<lambda>_ _. False) (\<lambda>_ _. True)"
    unfolding async_cacheInfo_def async_assertValidDevice_def as_guard_def
  proof (rule hoare_seq [where R = ?C])
    show "hoare ?C (bnd (gets (\<lambda>s. 0 \<le> d \<and> d < as_device_count s)) (require (TorchCheck ''Invalid device argument.''))) (\<lambda>_. ?C) (\<lambda>_ _. True)"
      by (simp add: hoare_wp wp_simps)
  qed (rule hoare_bnd [OF step], rule hoare_finally [OF body], auto simp: hoare_wp wp_def split: prod.splits sum.splits)
  then have "wp (async_cacheInfo fuel A d) (\<lambda>_ _. False) (\<lambda>_ _. True) s"
    using assms(1) by (simp add: hoare_wp)
  moreover have "fst (guess_loop fuel A d st g s) = Inl OutOfFuel" if "unat g + unat used < 2 ^ 64" for st g
    using guess_loop_stuck [OF assms(2) that assms(1), of fuel A st] by (auto simp: wp_def split: prod.splits sum.splits)
  ultimately show ?thesis by (auto simp: wp_def split: prod.splits sum.splits)
qed

definition sim_small_env :: "sim async_env" where
  "sim_small_env = sim_async_env\<lparr>as_native := sim_native_env\<lparr>alloc_env := sim_env\<lparr>runtime :=
     sim_done\<lparr>topsMemGetInfo := sim_value (65536, 131072)\<rparr>\<rparr>\<rparr>\<rparr>"

theorem async_cacheInfo_never_returns_witness:
  "(\<exists>e s'. async_cacheInfo 1000 sim_small_env 0 (sim_async_used\<lparr>pytorch_memory_limits := [512, 0]\<rparr>) = (Inl e, s')) \<and>
    fst (guess_loop 1000 sim_small_env 0 0 64 (sim_async_used\<lparr>pytorch_memory_limits := [512, 0]\<rparr>)) = Inl OutOfFuel"
proof -
  have c: "counts_are 0 1024 512 (sim_async_used\<lparr>pytorch_memory_limits := [512, 0]\<rparr>)"
    by (simp add: counts_are_def sim_async_used_def sim_ready_fields)
  have "free + unat (1024 :: 64 word) < 2 ^ 64"
    if "topsMemGetInfo (art sim_small_env) x = ((topsSuccess, free, total), x')" for x free total x'
    using that by (simp add: sim_small_env_def sim_value_def)
  from async_cacheInfo_never_returns [where fuel = 1000, OF c _ this] show ?thesis by simp
qed



text \<open>C29: the counts of the stream-ordered back end are exact. In every reached state the bytes in use of
  a device that is initialised are the sizes of the known pointers created on it, modulo
  \<open>2 ^ 64\<close>, and every known pointer is memory that the runtime still holds, whatever operations
  threw on the way.\<close>

theorem async_counts_exact:
  assumes "async_runtime A live" and "async_reached A n s"
  shows "(\<forall>d. 0 \<le> d \<longrightarrow> d < n \<longrightarrow> devs_initialized_flags s ! nat d \<longrightarrow>
      pytorch_used_bytes s ! nat d = bytes_on (ptr_info s) d) \<and> dom (ptr_info s) \<subseteq> live (drv (actx s))"
  using async_reached_good [OF assms] by (auto simp: as_ok_def)

theorem async_counts_exact_witness:
  "pytorch_used_bytes sim_async_used ! 0 = bytes_on (ptr_info sim_async_used) 0 \<and>
    dom (ptr_info sim_async_used) \<subseteq> sim_pinned (drv (actx sim_async_used))"
proof -
  note a = async_counts_exact [OF sim_async_ok sim_async_used_reached]
  from conjunct1 [OF a, rule_format, of 0] conjunct2 [OF a] show ?thesis
    by (simp add: sim_async_used_def sim_ready_fields)
qed

text \<open>C30: what a successful \<^verbatim>\<open>mallocAsync\<close> does in a reached state: the pointer was not known, is held by
  the runtime, and is entered with its size, stream and device and with the flag of the capture;
  the frees that a capture put off are carried out unless a capture is underway; nothing else
  changes in the map, and the bytes in use stay within the limit.\<close>

theorem async_malloc_result:
  assumes "async_runtime A live" and "async_reached A n s" and "k \<noteq> 0"
    and "mallocAsync A d k st s = (Inr p, s')"
  shows "(let h = (if capture_underway s then ptr_info s else (\<lambda>a. if a \<in> set (deferred_frees s) then None else ptr_info s a))
     in h p = None \<and> p \<in> live (drv (actx s')) \<and>
        ptr_info s' = h(p \<mapsto> \<lparr> recorded_streams = [], creation_stream = \<lparr> us_stream = st, us_device = d \<rparr>,
          pu_size = k, pu_captured = capture_underway s \<rparr>)) \<and>
     deferred_frees s' = (if capture_underway s then deferred_frees s else []) \<and>
     capture_underway s' = capture_underway s \<and> pytorch_used_bytes s' ! nat d \<le> pytorch_memory_limits s' ! nat d"
  using hoareD_Inr [OF hoare_mallocAsync [OF assms(1,3)] as_good_at [OF async_reached_good [OF assms(1,2)]] assms(4)]
  by (auto simp: malloc_done_def after_deferred_def without_ptrs_def as_at_def Let_def)

theorem async_malloc_result_witness:
  "mallocAsync sim_async_env 0 1024 0 sim_async = (Inr 4096, sim_async_used) \<and>
   ptr_info sim_async_used = [4096 \<mapsto> \<lparr> recorded_streams = [], creation_stream = \<lparr> us_stream = 0, us_device = 0 \<rparr>,
     pu_size = 1024, pu_captured = False \<rparr>] \<and> deferred_frees sim_async_used = []"
proof -
  have r: "async_reached sim_async_env 2 sim_async" unfolding async_reached_def sim_async_def by blast
  show ?thesis
    using async_malloc_result [OF sim_async_ok r _ sim_async_malloc] by (auto simp: sim_async_fields Let_def sim_async_malloc)
qed

lemma hoare_end_capture:
  assumes A: "async_runtime A live"
  shows "hoare (as_at live n {} h q cu) (async_endAllocateToPool A d) (\<lambda>_. as_at live n {} h q False) (\<lambda>_ _. True)"
proof -
  let ?P = "as_at live n {} h q cu"
  note q = quiet_othersD [OF async_runtimeD(2) [OF A]]
  have call: "hoare ?P (in_actx m) (\<lambda>_. ?P) (\<lambda>_ _. True)" if "\<And>P. keeps_pred (\<lambda>c. P (live (drv c))) m"
    for m :: "('a, 'b) cact"
    by (rule hoare_conseq [OF hoare_in_actx [OF that as_closed(2)]]) auto
  have check: "hoare ?P (as_check f) (\<lambda>_. ?P) (\<lambda>_. ?P)" if "quiet live f" for f
    by (rule hoare_as_check [OF that as_closed(2)])
  have each: "hoare ?P (as_guard A (us_device f)
              (bnd (in_actx (call_check (topsEventCreateWithFlags (art A) topsEventDisableTiming))) (\<lambda>event.
               seq (as_check (topsEventRecord (art A) event (us_stream f)))
               (bnd (in_actx (stream_handle g)) (\<lambda>h.
                seq (as_check (topsStreamWaitEvent (art A) h event))
                  (as_check (topsEventDestroy (art A) event))))))) (\<lambda>_. ?P) (\<lambda>_. ?P)" for f :: usage_stream and g
    by (rule hoare_as_guard [OF A _ as_closed(2) as_closed(2) as_closed(2)])
      (rule hoare_bnd [OF hoare_actx_call [OF q(13) as_closed(2)]], rule hoare_seq [OF check [OF q(15)]],
       rule hoare_bnd [OF hoare_in_actx [OF stream_handle_keeps as_closed(2)]],
       rule hoare_seq [OF check [OF q(11)] check [OF q(14)]], assumption+)
  have test: "hoare ?P (bnd (gets f) (require e)) (\<lambda>_. ?P) (\<lambda>_ _. True)" for f e
    by (simp add: hoare_wp wp_simps)
  have stream: "hoare ?P (in_actx (getCurrentGCUStream (art A) (as_use_default A) d)) (\<lambda>_. ?P) (\<lambda>_ _. True)"
    by (rule call) (rule getCurrentGCUStream_keeps [OF async_runtimeD(1) [OF A]])
  have fs: "hoare ?P (gets capture_free_streams) (\<lambda>_. ?P) (\<lambda>_ _. True)" by (simp add: hoare_wp wp_simps)
  have up: "hoare ?P (upd (\<lambda>s. s\<lparr>capture_free_streams := []\<rparr>)) (\<lambda>_. ?P) (\<lambda>_ _. True)"
    "hoare ?P (upd (\<lambda>s. s\<lparr>capture_underway := False\<rparr>)) (\<lambda>_. as_at live n {} h q False) (\<lambda>_ _. True)"
    by (auto simp: hoare_wp wp_simps as_at_def as_ok_def)
  have loop: "hoare ?P (for_each m xs) (\<lambda>_. ?P) (\<lambda>_ _. True)" if "\<And>f. hoare ?P (m f) (\<lambda>_. ?P) (\<lambda>_. ?P)"
    for m and xs :: "usage_stream list"
    by (rule hoare_conseq [OF hoare_for_each]) (rule that, auto)
  show ?thesis
    unfolding async_endAllocateToPool_def async_assertValidDevice_def
    by (rule hoare_seq [OF test], rule hoare_seq [OF test], rule hoare_bnd [OF stream], rule hoare_bnd [OF fs],
        rule hoare_seq [OF loop [OF each]], rule hoare_seq [OF up(1)], rule hoare_seq [OF test up(2)])
qed





end
