(* ===== verification/GraphProps.thy ===== *)
theory GraphProps
  imports GcuGraph AsyncProps
begin

text \<open>
  What a captured graph promises: each replay takes fresh random numbers, the end of a capture
  leaves an executable graph and a generator that expects no capture, and a reset is final.
\<close>

section \<open>What a replay does to the generators\<close>

text \<open>Each entry moves the offset of its generator by the increment, rounded up to a multiple of 4.\<close>

definition advance :: "(gen_id \<times> 64 word) list \<Rightarrow> (gen_id \<Rightarrow> generator option) \<Rightarrow> gen_id \<Rightarrow> generator option" where
  "advance steps h = fold (\<lambda>(g, n) h. h(g := map_option (\<lambda>x. x\<lparr>philox_offset := philox_offset x + round4 n\<rparr>) (h g))) steps h"

lemma advance_simps [simp]: "advance [] h = h"
  "advance ((g, n) # steps) h = advance steps (h(g := map_option (\<lambda>x. x\<lparr>philox_offset := philox_offset x + round4 n\<rparr>) (h g)))"
  by (simp_all add: advance_def)

lemma advance_append: "advance (xs @ ys) h = advance ys (advance xs h)"
  by (simp add: advance_def)

definition never_capturing :: "'d gen_env \<Rightarrow> bool" where
  "never_capturing G \<longleftrightarrow> (\<forall>c st c'. currentStreamCaptureStatus G c = (Inr st, c') \<longrightarrow> st = 0)"

text \<open>The graph, the default generators and the heap of the generators.\<close>

definition rng_at :: "gcu_graph \<Rightarrow> gen_id option list \<Rightarrow> (gen_id \<Rightarrow> generator option) \<Rightarrow> 'd graph_state \<Rightarrow> bool" where
  "rng_at g v h s \<longleftrightarrow> this s = g \<and> default_gens (gr_gens s) = Some v \<and> gheap (gr_gens s) = h"

abbreviation rng_keeps :: "gcu_graph \<Rightarrow> gen_id option list \<Rightarrow> (gen_id \<Rightarrow> generator option) \<Rightarrow> ('d, 'a) gract \<Rightarrow> bool" where
  "rng_keeps g v h m \<equiv> hoare (rng_at g v h) m (\<lambda>_. rng_at g v h) (\<lambda>_ _. True)"

lemma rng_grctx: "rng_keeps g v h (in_grctx m)"
  by (auto simp: hoare_def in_grctx_def rng_at_def split: prod.splits sum.splits)

lemma rng_gcheck: "rng_keeps g v h (gcheck f)" "rng_keeps g v h (gwarn R f)"
  unfolding gcheck_def gwarn_def by (rule rng_grctx)+

lemma rng_gets: "rng_keeps g v h (gets f)"
  by (simp add: hoare_wp wp_simps)

lemma rng_default:
  assumes "None \<notin> set v"
  shows "hoare (rng_at g v h) (default_generator R) (\<lambda>x s. Some x \<in> set v \<and> rng_at g v h s) (\<lambda>_ _. True)"
  unfolding hoare_def
proof (intro allI impI)
  fix s assume s: "rng_at g v h (s :: 'a graph_state)"
  obtain r c where cur: "current_device (g_runtime (gr_gen R)) (gr_ctx s) = (r, c)" by fastforce
  have found: "v ! i \<noteq> None" "v ! i \<in> set v" if "i < length v" for i
    using that assms nth_mem [OF that] by metis+
  show "case default_generator R s of (Inr x, s') \<Rightarrow> Some x \<in> set v \<and> rng_at g v h s' | (Inl e, s') \<Rightarrow> True"
    using s cur found
    by (auto simp: default_generator_def in_gens_def getDefaultGCUGenerator_def initGCUGenVector_def act_simps in_gctx_def rng_at_def
        split: sum.splits option.splits) (metis nth_mem option.distinct(1))+
qed

lemma rng_philox:
  assumes "never_capturing (gr_gen R)"
  shows "hoare (rng_at g v h) (in_gens (philox_gcu_state (gr_gen R) x n)) (\<lambda>_. rng_at g v (advance [(x, n)] h)) (\<lambda>_ _. True)"
  unfolding hoare_def
proof (intro allI impI)
  fix s assume s: "rng_at g v h (s :: 'a graph_state)"
  obtain r c where st: "currentStreamCaptureStatus (gr_gen R) (gr_ctx s) = (r, c)" by fastforce
  have z: "r = Inr k \<Longrightarrow> k = 0" for k using assms st by (auto simp: never_capturing_def)
  show "case in_gens (philox_gcu_state (gr_gen R) x n) s of (Inr _, s') \<Rightarrow> rng_at g v (advance [(x, n)] h) s' | (Inl e, s') \<Rightarrow> True"
    using s st z
    by (auto simp: in_gens_def philox_gcu_state_def Let_def act_simps in_gctx_def gderef_def gmodify_def rng_at_def fun_eq_iff
        split: sum.splits option.splits if_splits)
qed

lemma rng_seed: "rng_keeps g v h (in_gens (current_seed (gr_gen R) x))"
  by (auto simp: hoare_def in_gens_def current_seed_def assertNotCapturing_def act_simps in_gctx_def gderef_def rng_at_def
      split: sum.splits option.splits prod.splits if_splits)

lemma rng_replay_generator:
  assumes "never_capturing (gr_gen R)"
  shows "hoare (rng_at g v h) (replay_generator R x n st a b) (\<lambda>_. rng_at g v (advance [(x, n)] h)) (\<lambda>_ _. True)"
  unfolding replay_generator_def
  by (rule hoare_bnd [OF rng_philox [OF assms]], rule hoare_bnd [OF rng_seed], rule hoare_seq [OF rng_gcheck(1)], rule rng_gcheck(1))

lemma rng_replay_all:
  assumes "never_capturing (gr_gen R)"
  shows "hoare (rng_at g v h) (for_each (\<lambda>(x, d). replay_generator R x (x_increment d) st (x_seed_tensor d) (x_offset_tensor d)) xs)
    (\<lambda>_. rng_at g v (advance (map (\<lambda>(x, d). (x, x_increment d)) xs) h)) (\<lambda>_ _. True)"
proof (induction xs arbitrary: h)
  case Nil
  show ?case by (simp add: hoare_wp wp_simps)
next
  case (Cons p xs)
  obtain x d where p: "p = (x, d)" by fastforce
  show ?case
    unfolding for_each.simps p
    using hoare_seq [OF rng_replay_generator [OF assms, of g v h x "x_increment d" st "x_seed_tensor d" "x_offset_tensor d"] Cons.IH]
    by (simp only: list.map prod.case advance_simps)
qed

lemma rng_this: "hoare (rng_at g v h) (gets this) (\<lambda>g' s. g' = g \<and> rng_at g v h s) (\<lambda>_ _. True)"
  by (simp add: hoare_wp wp_simps rng_at_def)

definition replayed :: "gcu_graph \<Rightarrow> gen_id option list \<Rightarrow> (gen_id \<Rightarrow> generator option) \<Rightarrow> 'd graph_state \<Rightarrow> bool" where
  "replayed g v h s \<longleftrightarrow> (\<exists>x. Some x \<in> set v \<and> rng_at g v
     (advance ((x, wholegraph_increment g) # map (\<lambda>(x, d). (x, x_increment d)) (extra_generators g)) h) s)"

lemma replayed_grctx: "hoare (replayed g v h) (in_grctx m) (\<lambda>_. replayed g v h) (\<lambda>_ _. True)"
  by (auto simp: hoare_def in_grctx_def replayed_def rng_at_def split: prod.splits sum.splits)

lemma rng_when: "rng_keeps g v h (whenM b (gcheck f))"
  using rng_gcheck(1) [of g v h f] by (simp add: hoare_wp wp_simps)

lemma rng_replay_body:
  assumes "never_capturing (gr_gen R)" and "None \<notin> set v"
  shows "hoare (rng_at g v h) (replay_body R) (\<lambda>_. replayed g v h) (\<lambda>_ _. True)"
  unfolding replay_body_def
  apply (rule hoare_bnd [OF rng_default [OF assms(2)]], rule hoare_pure_pre)
  apply (rule hoare_bnd [OF rng_this], rule hoare_pure_pre, hypsubst)
  apply (rule hoare_bnd [OF rng_philox [OF assms(1)]], rule hoare_bnd [OF rng_grctx])
  apply (rule hoare_bnd [OF rng_seed], rule hoare_bnd [OF rng_grctx])
  apply (rule hoare_seq [OF rng_gcheck(1)], rule hoare_seq [OF rng_gcheck(1)])
  apply (rule hoare_seq [OF rng_replay_all [OF assms(1)]], rule hoare_seq [OF rng_gcheck(1)])
  apply (rule hoare_seq [where R = "replayed g v h"])
   apply (rule hoare_conseq [OF rng_when])
     apply (auto simp: replayed_def advance_append [symmetric])[3]
  apply (rule hoare_conseq [OF replayed_grctx])
    apply auto
  done



section \<open>A concrete graph\<close>

definition sim_graph_env :: "sim graph_env" where
  "sim_graph_env = \<lparr> gr_native = as_native sim_async_env, gr_gen = sim_gen_env\<lparr>g_runtime := sim_done\<rparr>,
     gr_host = h_api sim_host_env,
     gr_api = \<lparr> topsMemcpyToDevice = (\<lambda>_ _. sim_ok), topsMemcpyToDeviceAsync = (\<lambda>_ _ _. sim_ok),
       topsStreamBeginCapture = (\<lambda>_ _. sim_ok), topsStreamGetCaptureInfo = (\<lambda>_. sim_value (1, 1)),
       topsStreamEndCapture = (\<lambda>_. sim_value 7), topsGraphInstantiate = (\<lambda>_. sim_value 8),
       topsGraphGetNodes = (\<lambda>_. sim_value 1), topsGraphDestroy = (\<lambda>_. sim_ok),
       topsGraphExecDestroy = (\<lambda>_. sim_ok), topsGraphLaunch = (\<lambda>_ _. sim_ok),
       topsGraphDebugDotPrint = (\<lambda>_ _. sim_ok) \<rparr>,
     gr_random = 0 \<rparr>"

definition sim_graph :: gcu_graph where
  "sim_graph = (blank_graph (GCUStreamForId 0 0))\<lparr>has_graph_exec := True, wholegraph_increment := 6,
     extra_generators := [(2, \<lparr> x_seed_tensor = None, x_offset_tensor = None, x_increment = 4, x_host_seed = 0, x_host_offset = 0 \<rparr>)]\<rparr>"

text \<open>An allocator whose device 0 allocates to a pool.\<close>

definition sim_recording :: "sim native" where
  "sim_recording = sim_native\<lparr>device_allocator := (device_allocator sim_native)[0 :=
     (DeviceCachingAllocator GCUAllocatorConfig (ctx_ready sim_init))\<lparr>captures_underway := [((1, 0), \<lambda>_. True)]\<rparr>]\<rparr>"

definition sim_graph_state :: "gcu_graph \<Rightarrow> sim graph_state" where
  "sim_graph_state g = \<lparr> this = g, this_id = 1,
     gr_gens = \<lparr> gheap = [1 \<mapsto> sim_generator, 2 \<mapsto> sim_generator], next_gen = 3,
       default_gens = Some [Some 1, Some 1], gctx = sim_hctx \<rparr>,
     gr_alloc = sim_recording, gr_ctx = sim_hctx, uid = 1, uuid = 1, pending_event_queries = 0,
     current_gcu_graph = None, graphs_debug = False \<rparr>"

lemma sim_graph_runtime: "grt sim_graph_env = sim_done" "gr_use_default sim_graph_env"
  "g_runtime (gr_gen sim_graph_env) = sim_done" "g_use_default (gr_gen sim_graph_env)"
  by (simp_all add: sim_graph_env_def sim_async_runtime sim_gen_env_def)

lemma sim_never_capturing: "never_capturing (gr_gen sim_graph_env)"
  by (auto simp: never_capturing_def currentStreamCaptureStatus_def currentStreamCaptureStatusMayInitCtx_def act_simps
      call_check_def call_def sim_graph_runtime sim_done_def sim_tops_def sim_value_def split: prod.splits sum.splits if_splits)

lemma sim_hctx_calls:
  "current_device sim_done sim_hctx = (Inr 0, sim_hctx)" "hasPrimaryContext sim_done 0 sim_hctx = (Inr True, sim_hctx)"
  "ExchangeDevice sim_done 0 sim_hctx = (Inr 0, sim_hctx)" "uncheckedSetDevice sim_done 0 sim_hctx = (Inr (), sim_hctx)"
  "getCurrentGCUStream sim_done True (-1) sim_hctx = (Inr (GCUStreamForId 0 0), sim_hctx)"
  "stream_handle (GCUStreamForId 0 0) sim_hctx = (Inr 0, sim_hctx)"
  "call_check (topsDriverGetVersion sim_done) sim_hctx = (Inr 1, sim_hctx)"
proof -
  show cur: "current_device sim_done sim_hctx = (Inr 0, sim_hctx)"
    by (simp add: current_device_def act_simps GetDevice_def call_def sim_calls sim_hctx_fields sim_init_fields)
  show "hasPrimaryContext sim_done 0 sim_hctx = (Inr True, sim_hctx)"
    by (simp add: hasPrimaryContext_def dummyHasPrimaryContext_def device_count_def act_simps sim_hctx_fields)
  show "ExchangeDevice sim_done 0 sim_hctx = (Inr 0, sim_hctx)"
    by (simp add: ExchangeDevice_def act_simps call_check_def call_def sim_calls sim_hctx_fields sim_init_fields)
  show "uncheckedSetDevice sim_done 0 sim_hctx = (Inr (), sim_hctx)" by (rule sim_zero_calls(4) [OF sim_actx(1)])
  have "current_streams sim_hctx = Some [0, 0]" by (simp add: sim_hctx_def ctx_ready_def)
  moreover have "initGCUStreamsOnce sim_done True sim_hctx = (Inr (), sim_hctx)"
    by (simp add: initGCUStreamsOnce_def act_simps sim_hctx_def ctx_ready_def ctx_init_def)
  ultimately show "getCurrentGCUStream sim_done True (-1) sim_hctx = (Inr (GCUStreamForId 0 0), sim_hctx)"
    using getCurrentGCUStream_ready [OF sim_hctx_ready, of 0 sim_done True]
    by (simp add: getCurrentGCUStream_def or_current_device_def act_simps cur)
  show "stream_handle (GCUStreamForId 0 0) sim_hctx = (Inr 0, sim_hctx)"
    by (rule stream_handle_zero [OF sim_hctx_fields(5)])
  show "call_check (topsDriverGetVersion sim_done) sim_hctx = (Inr 1, sim_hctx)"
    by (simp add: call_check_def call_def act_simps sim_done_def sim_tops_def sim_value_def sim_hctx_fields)
qed

lemma sim_hctx_capture: "currentStreamCaptureStatus (gr_gen sim_graph_env) sim_hctx = (Inr 0, sim_hctx)"
  by (simp add: currentStreamCaptureStatus_def act_simps sim_graph_runtime sim_hctx_calls sim_hctx_status)

lemma sim_replay: "\<exists>s'. replay sim_graph_env (sim_graph_state sim_graph) = (Inr (), s')"
proof -
  have ok: "topsMemcpyToDeviceAsync (gr_api sim_graph_env) = (\<lambda>_ _ _. sim_ok)" "topsGraphLaunch (gr_api sim_graph_env) = (\<lambda>_ _. sim_ok)"
    by (simp_all add: sim_graph_env_def)
  have g: "\<not> graph_expects_this_gen sim_generator" "philox_offset sim_generator = 0"
    by (simp_all add: sim_generator_def new_generator_def)
  have s: "gs_device (GCUStreamForId 0 0) = 0" by (simp add: GCUStreamForId_def)
  show ?thesis
    by (simp add: replay_def replay_body_def act_simps sim_graph_state_def sim_graph_def blank_graph_def in_grctx_def in_gens_def
        exchangeDevice_def sim_graph_runtime sim_hctx_calls default_generator_def getDefaultGCUGenerator_def initGCUGenVector_def
        in_gctx_def philox_gcu_state_def Let_def sim_hctx_capture gderef_def gmodify_def current_seed_def assertNotCapturing_def
        gcheck_def call_def ok sim_ok_def replay_generator_def g s sim_hctx_fields)
qed




section \<open>The end of a capture\<close>

text \<open>What \<open>capture_end\<close> has done so far: the generator is \<open>cg\<close>, and it has left its capture.\<close>

definition ending :: "gen_id \<Rightarrow> bool \<Rightarrow> 'd graph_state \<Rightarrow> bool" where
  "ending cg ex s \<longleftrightarrow> capture_gen (this s) = cg \<and> \<not> graphs_debug s \<and> (ex \<longrightarrow> has_graph_exec (this s))"

definition left_capture :: "gen_id \<Rightarrow> 'd graph_state \<Rightarrow> bool" where
  "left_capture cg s \<longleftrightarrow> ending cg True s \<and> (\<exists>x. gheap (gr_gens s) cg = Some x \<and> \<not> graph_expects_this_gen x \<and>
     wholegraph_increment (this s) = ucast (offset_intragraph x))"

lemma ending_grctx: "hoare (ending cg ex) (in_grctx m) (\<lambda>_. ending cg ex) (\<lambda>_ _. True)"
  "hoare (left_capture cg) (in_grctx m) (\<lambda>_. left_capture cg) (\<lambda>_ _. True)"
  by (auto simp: hoare_def in_grctx_def ending_def left_capture_def split: prod.splits sum.splits)

lemma ending_alloc: "hoare (ending cg ex) (in_alloc m) (\<lambda>_. ending cg ex) (\<lambda>_ _. True)"
  by (auto simp: hoare_def in_alloc_def ending_def split: prod.splits sum.splits)

lemma ending_gens: "hoare (ending cg ex) (in_gens m) (\<lambda>_. ending cg ex) (\<lambda>_ _. True)"
  by (auto simp: hoare_def in_gens_def ending_def split: prod.splits sum.splits)

lemma ending_pure: "hoare (ending cg ex) (gets f) (\<lambda>_. ending cg ex) (\<lambda>_ _. True)"
  "hoare (ending cg ex) (require e b) (\<lambda>_. ending cg ex) (\<lambda>_ _. True)"
  "hoare (ending cg ex) (set_this (\<lambda>g. g\<lparr>graph_handle := h\<rparr>)) (\<lambda>_. ending cg ex) (\<lambda>_ _. True)"
  "hoare (ending cg ex) (set_this (\<lambda>g. g\<lparr>has_graph := True\<rparr>)) (\<lambda>_. ending cg ex) (\<lambda>_ _. True)"
  "hoare (ending cg ex) (set_this (\<lambda>g. g\<lparr>graph_exec := e', has_graph_exec := True\<rparr>)) (\<lambda>_. ending cg True) (\<lambda>_ _. True)"
  by (auto simp: hoare_wp wp_simps ending_def set_this_def)

text \<open>\<open>n\<close> is what \<open>capture_epilogue\<close> returned for the generator.\<close>

definition epilogue_done :: "gen_id \<Rightarrow> 64 word \<Rightarrow> 'd graph_state \<Rightarrow> bool" where
  "epilogue_done cg n s \<longleftrightarrow> ending cg True s \<and> (\<exists>x. gheap (gr_gens s) cg = Some x \<and> \<not> graph_expects_this_gen x \<and>
     n = ucast (offset_intragraph x))"

lemma ending_epilogue:
  "hoare (ending cg True) (in_gens (capture_epilogue cg)) (epilogue_done cg) (\<lambda>_ _. True)"
  "hoare (left_capture cg) (in_gens (capture_epilogue x)) (\<lambda>_. left_capture cg) (\<lambda>_ _. True)"
  by (auto simp: hoare_def in_gens_def capture_epilogue_def act_simps gmodify_def gderef_def ending_def left_capture_def epilogue_done_def
      split: option.splits)

lemma left_capture_this:
  "hoare (epilogue_done cg n) (set_this (\<lambda>g. g\<lparr>wholegraph_increment := n\<rparr>)) (\<lambda>_. left_capture cg) (\<lambda>_ _. True)"
  "hoare (left_capture cg) (set_this (\<lambda>g. g\<lparr>extra_generators := map f (extra_generators g)\<rparr>)) (\<lambda>_. left_capture cg) (\<lambda>_ _. True)"
  by (auto simp: hoare_wp wp_simps set_this_def left_capture_def epilogue_done_def ending_def)

lemma left_capture_extras: "hoare (left_capture cg) epilogue_extras (\<lambda>_. left_capture cg) (\<lambda>_ _. True)"
proof -
  have g: "hoare (left_capture cg) (gets f) (\<lambda>_. left_capture cg) (\<lambda>_ _. True)" for f :: "'a graph_state \<Rightarrow> 'b"
    by (simp add: hoare_wp wp_simps)
  show ?thesis
    unfolding epilogue_extras_def
  proof (rule hoare_bnd [OF g], rule hoare_for_each)
    fix p :: "gen_id \<times> extra_gen_data"
    obtain h d where p: "p = (h, d)" by fastforce
    show "hoare (left_capture cg) (case p of (h, d) \<Rightarrow> bnd (in_gens (capture_epilogue h)) (\<lambda>n.
           set_this (\<lambda>g. g\<lparr>extra_generators := map (\<lambda>(h', d').
             (h', if h' = h then d'\<lparr>x_increment := n\<rparr> else d')) (extra_generators g)\<rparr>))) (\<lambda>_. left_capture cg) (\<lambda>_ _. True)"
      unfolding p prod.case by (rule hoare_bnd [OF ending_epilogue(2) left_capture_this(2)])
  qed
qed

lemma same_generator:
  "hoare (ending cg ex) (bnd (gets (\<lambda>s. capture_gen (this s))) (\<lambda>c. require e (g = c))) (\<lambda>_ s. g = cg \<and> ending cg ex s) (\<lambda>_ _. True)"
  by (auto simp: hoare_wp wp_simps ending_def)

lemma drop_graph: "hoare (left_capture cg)
    (bnd (gets graphs_debug) (\<lambda>debug. whenM (\<not> debug) (seq (in_grctx m) (set_this (\<lambda>g. g\<lparr>has_graph := False\<rparr>)))))
    (\<lambda>_ s. left_capture cg s \<and> \<not> has_graph (this s)) (\<lambda>_ _. True)"
proof (rule hoare_bnd [where R = "\<lambda>debug s. \<not> debug \<and> left_capture cg s"])
  show "hoare (left_capture cg) (gets graphs_debug) (\<lambda>debug s. \<not> debug \<and> left_capture cg s) (\<lambda>_ _. True)"
    by (simp add: hoare_wp wp_simps left_capture_def ending_def)
  have "hoare (left_capture cg) (seq (in_grctx m) (set_this (\<lambda>g. g\<lparr>has_graph := False\<rparr>)))
      (\<lambda>_ s. left_capture cg s \<and> \<not> has_graph (this s)) (\<lambda>_ _. True)"
    by (rule hoare_seq [OF ending_grctx(2)]) (auto simp: hoare_wp wp_simps set_this_def left_capture_def ending_def)
  then show "hoare (\<lambda>s. \<not> debug \<and> left_capture cg s)
      (whenM (\<not> debug) (seq (in_grctx m) (set_this (\<lambda>g. g\<lparr>has_graph := False\<rparr>))))
      (\<lambda>_ s. left_capture cg s \<and> \<not> has_graph (this s)) (\<lambda>_ _. True)" for debug
    by (intro hoare_pure_pre) (simp add: whenM_def)
qed

lemma capture_end_left:
  "hoare (ending cg False) (capture_end R) (\<lambda>_ s. left_capture cg s \<and> \<not> has_graph (this s) \<and> current_gcu_graph s = None) (\<lambda>_ _. True)"
  unfolding capture_end_def gcheck_def
  apply (rule hoare_bnd [OF ending_grctx(1)], rule hoare_bnd [OF ending_pure(1)], rule hoare_seq [OF ending_pure(2)])
  apply (rule hoare_bnd [OF ending_grctx(1)], rule hoare_bnd [OF ending_grctx(1)], rule hoare_seq [OF ending_pure(3)])
  apply (rule hoare_seq [where R = "ending cg False"])
   apply (rule hoare_bnd [OF ending_pure(1)], simp add: case_prod_beta ending_alloc)
  apply (rule hoare_seq [OF ending_pure(2)], rule hoare_seq [OF ending_pure(4)])
  apply (rule hoare_bnd [OF ending_grctx(1)], rule hoare_seq [OF ending_pure(5)])
  apply (rule hoare_bnd [OF ending_gens [where m = "getDefaultGCUGenerator (gr_gen R) (-1) (gr_random R)"], folded default_generator_def])
  apply (rule hoare_seq [OF same_generator], rule hoare_pure_pre, hypsubst)
  apply (rule hoare_bnd [OF ending_epilogue(1)], rule hoare_seq [OF left_capture_this(1)])
  apply (rule hoare_seq [OF left_capture_extras], rule hoare_bnd [OF ending_grctx(2)])
  apply (rule hoare_seq [OF drop_graph])
  apply (auto simp: hoare_wp wp_simps left_capture_def ending_def)
  done

text \<open>C36: what a successful \<^verbatim>\<open>capture_end\<close> leaves, outside of debug mode: the graph itself is destroyed
  and the executable graph kept, no capture is current, and the generator that began the capture
  no longer expects one; its increment is the offset that it had reached in the capture.\<close>

theorem graph_capture_end_result:
  assumes "capture_end R s = (Inr (), s')" and "\<not> graphs_debug s"
  shows "has_graph_exec (this s') \<and> \<not> has_graph (this s') \<and> current_gcu_graph s' = None \<and>
    (\<exists>x. gheap (gr_gens s') (capture_gen (this s)) = Some x \<and> \<not> graph_expects_this_gen x \<and>
       wholegraph_increment (this s') = ucast (offset_intragraph x))"
proof -
  have "ending (capture_gen (this s)) False s" using assms(2) by (simp add: ending_def)
  from hoareD_Inr [OF capture_end_left this assms(1)] show ?thesis by (auto simp: left_capture_def ending_def)
qed


definition sim_ending :: gcu_graph where
  "sim_ending = (blank_graph (GCUStreamForId 0 0))\<lparr>capture_gen := 1, mempool_id := (1, 0)\<rparr>"

lemma sim_capture_end: "\<exists>s'. capture_end sim_graph_env (sim_graph_state sim_ending) = (Inr (), s')"
proof -
  have ok: "topsStreamEndCapture (gr_api sim_graph_env) = (\<lambda>_. sim_value 7)" "topsGraphInstantiate (gr_api sim_graph_env) = (\<lambda>_. sim_value 8)"
    "topsGraphGetNodes (gr_api sim_graph_env) = (\<lambda>_. sim_value 1)" "topsGraphDestroy (gr_api sim_graph_env) = (\<lambda>_. sim_ok)"
    by (simp_all add: sim_graph_env_def)
  have c: "sim_hctx\<lparr>drv := drv sim_hctx\<rparr> = sim_hctx" by simp
  have a: "fst (native_endAllocateToPool 0 (1, 0) (sim_recording\<lparr>nctx := sim_hctx\<rparr>)) = Inr ()"
    "nctx (snd (native_endAllocateToPool 0 (1, 0) (sim_recording\<lparr>nctx := sim_hctx\<rparr>))) = sim_hctx"
    by (simp_all add: native_endAllocateToPool_def assertValidDevice_def device_in_range_def act_simps sim_native_def on_device_def
        endAllocateToPool_def DeviceCachingAllocator_def numeral_2_eq_2 sim_recording_def)
  obtain A where a: "native_endAllocateToPool 0 (1, 0) (sim_recording\<lparr>nctx := sim_hctx\<rparr>) = (Inr (), A)" "nctx A = sim_hctx"
    using a by (metis prod.collapse)
  show ?thesis
    by (simp add: capture_end_def act_simps sim_graph_state_def sim_ending_def blank_graph_def in_grctx_def in_gens_def
        sim_graph_runtime sim_hctx_calls default_generator_def getDefaultGCUGenerator_def initGCUGenVector_def a [simplified] in_alloc_def set_this_def
        in_gctx_def gderef_def gmodify_def capture_epilogue_def epilogue_extras_def
        gcheck_def call_check_def call_def ok sim_ok_def sim_value_def sim_hctx_fields)
qed

theorem graph_capture_end_result_witness:
  "\<exists>s' x. capture_end sim_graph_env (sim_graph_state sim_ending) = (Inr (), s') \<and> has_graph_exec (this s') \<and>
    gheap (gr_gens s') 1 = Some x \<and> \<not> graph_expects_this_gen x"
proof -
  obtain s' where r: "capture_end sim_graph_env (sim_graph_state sim_ending) = (Inr (), s')" using sim_capture_end by blast
  have g: "capture_gen (this (sim_graph_state sim_ending)) = 1" "\<not> graphs_debug (sim_graph_state sim_ending)"
    by (simp_all add: sim_graph_state_def sim_ending_def)
  from graph_capture_end_result [OF r g(2)] r show ?thesis unfolding g by blast
qed

end
