(* ===== verification/Spec2Isabelle.thy ===== *)
theory Spec2Isabelle
  imports SnapshotProps GraphProps
begin

text \<open>
  A verification library for the runtime core of torch-gcu, the PyTorch back end for GCU devices:
  the code under \<^verbatim>\<open>src/torch_gcu/csrc/gcu/\<close>. It models the management of devices, streams and events,
  the three memory allocators (caching, pinned host, stream-ordered), the random generator and the
  captured graphs, with the theorems that make them correct. File names below are relative to that
  directory.

  \<^bold>\<open>The program and its model.\<close> Everything the code keeps in globals, thread locals and objects is a
  field of an explicit state; every method is a function on that state which returns a result or an
  exception and the state it leaves, also when it throws (\<open>('s, 'a) act\<close> of \<open>GcuPrelude\<close>, with \<open>bnd\<close>,
  \<open>seq\<close>, \<open>throw\<close>, \<open>require\<close>, \<open>finallyM\<close>). The exceptions are the values of \<open>exc\<close>: error codes of the
  runtime, \<^verbatim>\<open>TORCH_CHECK\<close>, internal assertions, exceptions of the standard library, out of memory, and
  two values that no code throws: \<open>UndefinedBehaviour\<close> (a freed or null object is touched, an index is
  out of range) and \<open>OutOfFuel\<close> (a loop has not ended). That an operation throws neither is part of
  what is proved. The TOPS runtime is not in the repository: the record \<open>tops\<close> has one function per
  call on an abstract driver state, and what the proofs need of it is stated as named predicates.

  The parts, each with the theories that hold it:

  \<^item> Prelude (\<open>GcuPrelude\<close>): exceptions and actions with two calculi (\<open>hoare\<close> triples and \<open>wp\<close>
    equations used by the simplifier), the ordered \<^verbatim>\<open>std::set\<close> with a comparator as the locale
    \<open>comparator\<close> (\<open>lower_bound\<close>, insertion, what is least), 64-bit arithmetic on numbers, and the bit
    helpers of LLVM as a record with the law \<open>llvm_spec\<close>.
  \<^item> Configuration (\<open>AllocConfig\<close>): \<^verbatim>\<open>gcu_allocator_config.{h,cpp}\<close>, lexer and parser of
    \<^verbatim>\<open>PYTORCH_GCU_ALLOC_CONF\<close>. \<open>parseArgs\<close> ends and leaves a valid configuration on every string.
  \<^item> Sizes and statistics (\<open>AllocSizes\<close>, \<open>AllocStats\<close>): \<open>round_size\<close>, \<open>get_allocation_size\<close> on \<open>64 word\<close>
    against their specifications; \<^verbatim>\<open>Stat\<close>, \<^verbatim>\<open>DeviceStats\<close> and the ring buffer of the trace.
  \<^item> Runtime and devices (\<open>GcuRuntime\<close>, \<open>GcuDevice\<close>): the calls, the context that all parts share
    (\<open>ctx\<close>: driver, device count, thread locals), \<^verbatim>\<open>gcu_functions.cpp\<close>, \<^verbatim>\<open>gcu_guard_impl.cpp\<close>, \<open>with_guard\<close>.
  \<^item> Streams (\<open>GcuStream\<close>): \<^verbatim>\<open>gcu_stream.{h,cpp}\<close>, ids, the round-robin pools, current streams, the
    capture status.
  \<^item> Events (\<open>GcuEvent\<close>): \<^verbatim>\<open>gcu_event.{h,cpp}\<close>, a permanent binding of event and device as an invariant of
    a step relation.
  \<^item> Caching allocator of a device (\<open>DeviceAlloc\<close>, \<open>DeviceOps\<close>): \<^verbatim>\<open>DeviceCachingAllocator\<close> of
    \<^verbatim>\<open>gcu_caching_allocator.cpp\<close>, one definition per method. A \<^verbatim>\<open>Block*\<close> is a \<open>bid\<close>, \<open>heap\<close> maps it to the
    record \<open>block\<close>, the sets of the pools are sorted lists, the links are \<open>prv\<close> and \<open>nxt\<close>.
    Its invariant is built up in \<open>RuntimeLaws\<close> (what the runtime promises), \<open>AllocHeap\<close> (linked
    segments), \<open>AllocInv\<close> (pools and active blocks), \<open>AllocMerge\<close>, \<open>AllocState\<close> (accounts, the
    invariant as a whole), \<open>AllocFree\<close>, \<open>AllocEvents\<close>, \<open>AllocSync\<close>, \<open>AllocRelease\<close>, \<open>AllocCache\<close>,
    \<open>AllocSegment\<close>, \<open>AllocObtain\<close>, \<open>AllocMalloc\<close> (one group of operations each) and \<open>AllocClient\<close> (every
    operation that clients call). \<open>AllocProps\<close> closes over all sequences of operations: blocks never
    overlap, the pools and the statistics are exact, \<open>malloc\<close> and \<open>free\<close> end in a fit block or a
    documented error.
  \<^item> Snapshots and checkpoints (\<open>AllocSnapshot\<close>, \<open>SnapshotProps\<close>): what the allocator reports of its
    memory, and saving and restoring a private pool.
  \<^item> Front end (\<open>NativeAlloc\<close>, \<open>NativeProps\<close>): \<^verbatim>\<open>NativeCachingAllocator\<close>, the sharded map of pointers as a
    refinement of one map, handles for other processes, peer access, the choice of the back end.
  \<^item> Pinned memory (\<open>HostAlloc\<close>, \<open>HostInv\<close>, \<open>HostOps\<close>, \<open>HostProps\<close>): \<^verbatim>\<open>gcu_caching_host_allocator.cpp\<close>, a
    refinement of the set of blocks that are handed out, with the liveness of freed blocks.
  \<^item> Stream-ordered allocator (\<open>AsyncAlloc\<close>, \<open>AsyncInv\<close>, \<open>AsyncReach\<close>, \<open>AsyncRun\<close>, \<open>AsyncProps\<close>):
    \<^verbatim>\<open>gcu_malloc_async_allocator.cpp\<close>, exact counts, frees that a capture puts off, the search for a
    workspace and the cases in which the code gets stuck.
  \<^item> Generator (\<open>GcuGenerator\<close>, \<open>GenProps\<close>): \<^verbatim>\<open>gcu_generator_impl.{h,cpp}\<close>, aligned offsets, disjoint ranges
    of random numbers, saving and restoring.
  \<^item> Graphs (\<open>GcuGraph\<close>, \<open>GraphProps\<close>): \<^verbatim>\<open>gcu_graph.{h,cpp}\<close>, capture, replay and reset, on top of the
    generator and of either back end.

  The components interact through the shared context: an allocator runs stream and event operations
  on it (\<open>in_ctx\<close>), the front end runs the allocator of one device (\<open>on_device\<close>), a graph runs the
  allocator and the generators. The layers above see a part of the state and leave the rest alone.
\<close>

text \<open>
  \<^bold>\<open>Hypotheses.\<close> \<open>good_runtime\<close> states the documented behaviour of the runtime: \<^verbatim>\<open>topsMalloc\<close> returns
  fresh memory that overlaps nothing live, \<^verbatim>\<open>topsFree\<close> ends one allocation, setting a device sets it,
  other calls do neither. \<open>good_env\<close> adds the laws of the bit helpers, a valid configuration, and that
  callbacks and other threads, which run while the lock of the allocator is released, keep the
  invariant (\<open>rely\<close>). \<open>dca_allowed\<close> and its counterparts say what a client may call: \<open>free\<close> of a
  block that is handed out, requests below 1 EiB (the bound that \<open>allocate\<close> checks). \<open>sim_tops\<close> is a
  runtime that satisfies all of them, and the witnesses run the code on it. A run-time error code can
  leave an operation half done; the invariants are about steps that return or throw anything else,
  except for the host and the stream-ordered allocator, which keep theirs in every case.

  \<^bold>\<open>Loops and fuel.\<close> Walks along the links of a segment have the number of blocks ever created plus two
  as fuel; since addresses grow along \<open>nxt\<close> and ids are not reused it never runs out in a reached
  state. The loops over events shrink their queues, garbage collection shrinks its pool, the lexer and
  the parser consume their input. The search for a workspace halves a \<open>64 word\<close>, so the number of its
  bits plus one suffices while the bytes in use are within the limit; otherwise the code does not end
  and neither does the model, for any fuel.

  \<^bold>\<open>Integers.\<close> Sizes that can wrap around are \<open>64 word\<close>, or numbers with \<open>add64\<close> where blocks are
  concerned; offsets of the generator and counters of the pools are kept at their width.

  \<^bold>\<open>Not modelled.\<close> Expandable segments: the platform has no virtual memory calls and the code cannot
  be reached. Mutexes: methods run one at a time; where the code releases a lock, other threads are a
  parameter. Stack contexts of allocations and log lines, which no result depends on. The glue
  between PyTorch and these parts (\<^verbatim>\<open>gcu_context.cpp\<close>, \<^verbatim>\<open>gcu_hooks.cpp\<close>, \<^verbatim>\<open>gcu_utils.cpp\<close>): it only forwards.
  Outside this directory: operator bindings and shape inference, which call a library of kernels that
  is not in the repository; the distributed back end, a wrapper around a communication library; the
  profiler and the Python bindings.
\<close>

end
